(* ===== verification/Prelude.thy ===== *)
theory Prelude
  imports Main "HOL-Library.Word"
begin

text \<open>
  The shared base of the development: the types of C objects the components
  use, the way C strings are represented, the theorem collections of the
  library and the generic lemmas on lists, options and words that the component
  theories share.

  \<^item> A \<open>char\<close> or \<open>uint8_t\<close> is a \<^typ>\<open>8 word\<close>, \<open>uint32_t\<close> and
    \<open>time4_t\<close> are a \<^typ>\<open>32 word\<close>, \<open>uint64_t\<close> is a \<^typ>\<open>64 word\<close>.
  \<^item> A C string is the list of its bytes before the terminating NUL, and a
    pointer into it is the list of the bytes that remain; \<open>*p\<close> is \<open>hd0\<close>,
    which reads the NUL at the end of the list.
  \<^item> An \<open>assert\<close> that fails, and an access outside an object, is \<^const>\<open>None\<close>.
\<close>

unbundle bit_operations_syntax

type_synonym byte = "8 word"
type_synonym u16 = "16 word"
type_synonym u32 = "32 word"
type_synonym u64 = "64 word"
type_synonym cstr = "byte list"

text \<open>
  Collections: \<open>unfold\<close> holds the definitions a component's proofs open,
  \<open>inv_pres\<close> the facts that an operation keeps its component's invariant.
\<close>

named_theorems telnet_unfold

section \<open>Reading a C string\<close>

definition hd0 :: "cstr \<Rightarrow> byte" where
  "hd0 s = (case s of [] \<Rightarrow> 0 | c # _ \<Rightarrow> c)"

lemma hd0_simps [simp]: "hd0 [] = 0" "hd0 (c # s) = c"
  by (simp_all add: hd0_def)

text \<open>\<open>s[i]\<close> for an index up to the NUL.\<close>

definition nth0 :: "cstr \<Rightarrow> nat \<Rightarrow> byte" where
  "nth0 s i = (if i < length s then s ! i else 0)"

lemma nth0_simps [simp]:
  "nth0 [] i = 0" "nth0 (c # s) 0 = c" "nth0 (c # s) (Suc i) = nth0 s i"
  by (simp_all add: nth0_def)

lemma nth0_hd0: "nth0 s 0 = hd0 s"
  by (cases s) simp_all

section \<open>Lists\<close>

lemma take_drop_append_drop:
  "h \<le> t \<Longrightarrow> take (t - h) (drop h xs) @ drop t xs = drop h xs"
  by (metis add_diff_cancel_left' append_take_drop_id drop_drop le_add_diff_inverse2)

lemma take_Suc_drop: "n < length xs \<Longrightarrow> take (Suc n) xs = take n xs @ [xs ! n]"
  by (rule take_Suc_conv_app_nth)

lemma length_dropWhile_less_eq [simp]: "length (dropWhile P xs) \<le> length xs"
  by (induction xs) auto

lemma map_option_eq_Some_iff [simp]:
  "map_option f x = Some y \<longleftrightarrow> (\<exists>z. x = Some z \<and> y = f z)"
  by (cases x) auto

text \<open>
  \<open>memcpy(buf + i, xs, |xs|)\<close>: the bytes of the object \<open>buf\<close> from index \<open>i\<close>
  on are replaced by \<open>xs\<close>.
\<close>

definition write_at :: "'a list \<Rightarrow> nat \<Rightarrow> 'a list \<Rightarrow> 'a list" where
  "write_at xs i ys = take i xs @ ys @ drop (i + length ys) xs"

lemma length_write_at [simp]:
  "i + length ys \<le> length xs \<Longrightarrow> length (write_at xs i ys) = length xs"
  by (simp add: write_at_def)

lemma write_at_Nil [simp]: "i \<le> length xs \<Longrightarrow> write_at xs i [] = xs"
  by (simp add: write_at_def)

lemma take_write_at [simp]:
  "n \<le> i \<Longrightarrow> i \<le> length xs \<Longrightarrow> take n (write_at xs i ys) = take n xs"
  by (simp add: write_at_def)

lemma drop_write_at [simp]:
  "i + length ys \<le> n \<Longrightarrow> n \<le> length xs \<Longrightarrow> drop n (write_at xs i ys) = drop n xs"
  by (simp add: write_at_def)

lemma write_at_single: "i < length xs \<Longrightarrow> write_at xs i [y] = xs[i := y]"
  by (simp add: write_at_def upd_conv_take_nth_drop)

text \<open>\<open>memchr\<close>: the index of the first byte equal to \<open>c\<close>.\<close>

fun memchr :: "'a \<Rightarrow> 'a list \<Rightarrow> nat option" where
  "memchr c [] = None"
| "memchr c (x # xs) = (if x = c then Some 0 else map_option Suc (memchr c xs))"

lemma memchr_None_iff [simp]: "memchr c xs = None \<longleftrightarrow> c \<notin> set xs"
  by (induction xs) auto

lemma memchr_append:
  "memchr c (xs @ ys) =
     (if c \<in> set xs then memchr c xs else map_option (\<lambda>i. length xs + i) (memchr c ys))"
proof (induction xs)
  case Nil
  show ?case by (simp add: map_option_case split: option.split)
next
  case (Cons x xs)
  then show ?case by (auto simp: option.map_comp comp_def)
qed

lemma memchr_Some_in [dest]: "memchr c xs = Some i \<Longrightarrow> c \<in> set xs"
  by (metis memchr_None_iff option.distinct(1))

lemma memchr_SomeD:
  "memchr c xs = Some i \<Longrightarrow> i < length xs \<and> xs ! i = c \<and> c \<notin> set (take i xs)"
  by (induction xs arbitrary: i) (auto split: if_splits)

section \<open>Words\<close>

lemma uint_byte_bounds: "0 \<le> uint (b :: byte)" "uint (b :: byte) < 256"
  using uint_lt2p [of b] by simp_all

lemma unat_byte_less: "unat (b :: byte) < 256"
  using unsigned_less [of b, where ?'a = nat] by simp

text \<open>Splitting a byte into its high and low bits, and joining them again.\<close>

lemma less_8_cases:
  "n < 8 \<Longrightarrow> n = 0 \<or> n = 1 \<or> n = 2 \<or> n = 3 \<or> n = 4 \<or> n = 5 \<or> n = 6 \<or> n = (7 :: nat)"
  by auto

lemma byte_and_high:
  "(b :: byte) AND 0xC0 = push_bit 6 (drop_bit 6 b)"
  "(b :: byte) AND 0xE0 = push_bit 5 (drop_bit 5 b)"
  "(b :: byte) AND 0xF0 = push_bit 4 (drop_bit 4 b)"
  "(b :: byte) AND 0x80 = push_bit 7 (drop_bit 7 b)"
  by (rule bit_word_eqI, auto simp: bit_simps dest!: less_8_cases)+

lemma int_and_mask:
  fixes x :: int
  shows "x AND 0xFF = x mod 256" "x AND 0x3F = x mod 64" "x AND 0x1F = x mod 32"
    "x AND 0x0F = x mod 16" "x AND 0x07 = x mod 8"
proof -
  have m: "x AND (2 ^ n - 1) = x mod 2 ^ n" for n
    by (simp flip: take_bit_eq_mask mask_eq_exp_minus_1 take_bit_eq_mod)
  show "x AND 0xFF = x mod 256" "x AND 0x3F = x mod 64" "x AND 0x1F = x mod 32"
    "x AND 0x0F = x mod 16" "x AND 0x07 = x mod 8"
    using m [of 8] m [of 6] m [of 5] m [of 4] m [of 3] by simp_all
qed

lemma byte_and_mask:
  fixes b :: byte
  shows "uint (b AND 0x3F) = uint b mod 64" "uint (b AND 0x1F) = uint b mod 32"
    "uint (b AND 0x0F) = uint b mod 16" "uint (b AND 0x07) = uint b mod 8"
  by (simp_all add: uint_and int_and_mask)

lemma push_bit_or_int:
  fixes a x :: int
  assumes "0 \<le> x" "x < 2 ^ n"
  shows "push_bit n a OR x = a * 2 ^ n + x"
proof -
  have "concat_bit n x a = push_bit n a OR x"
    using assms by (simp add: concat_bit_def take_bit_int_eq_self or.commute)
  moreover have "concat_bit n x a = a * 2 ^ n + x"
    using assms by (simp add: concat_bit_eq take_bit_int_eq_self push_bit_eq_mult)
  ultimately show ?thesis by simp
qed

lemma uint_push_drop:
  fixes b :: byte
  assumes "n \<le> 8"
  shows "uint (push_bit n (drop_bit n b)) = uint b div 2 ^ n * 2 ^ n"
proof -
  have "uint b div 2 ^ n * 2 ^ n \<le> uint b"
    by (simp flip: minus_mod_eq_div_mult)
  then have "uint b div 2 ^ n * 2 ^ n < 256" using uint_byte_bounds(2) [of b] by linarith
  moreover have "0 \<le> uint b div 2 ^ n * 2 ^ n" by (simp add: pos_imp_zdiv_nonneg_iff)
  ultimately have "uint b div 2 ^ n * 2 ^ n mod 256 = uint b div 2 ^ n * 2 ^ n"
    by (intro mod_pos_pos_trivial)
  moreover have "uint b mod 256 = uint b"
    using uint_byte_bounds [of b] by (intro mod_pos_pos_trivial)
  ultimately show ?thesis
    unfolding unsigned_push_bit_eq unsigned_drop_bit_eq
    by (simp add: take_bit_eq_mod push_bit_eq_mult drop_bit_eq_div)
qed

lemma byte_and_high_iff:
  fixes b :: byte
  shows "b AND 0xC0 = 0x80 \<longleftrightarrow> uint b div 64 = 2"
    "b AND 0xE0 = 0xC0 \<longleftrightarrow> uint b div 32 = 6"
    "b AND 0xF0 = 0xE0 \<longleftrightarrow> uint b div 16 = 14"
    "b AND 0x80 = 0 \<longleftrightarrow> uint b < 128"
proof -
  have p: "uint (push_bit 6 (drop_bit 6 b)) = uint b div 64 * 64"
    "uint (push_bit 5 (drop_bit 5 b)) = uint b div 32 * 32"
    "uint (push_bit 4 (drop_bit 4 b)) = uint b div 16 * 16"
    "uint (push_bit 7 (drop_bit 7 b)) = uint b div 128 * 128"
    using uint_push_drop [of 6 b] uint_push_drop [of 5 b] uint_push_drop [of 4 b]
      uint_push_drop [of 7 b] by simp_all
  show "b AND 0xC0 = 0x80 \<longleftrightarrow> uint b div 64 = 2"
    "b AND 0xE0 = 0xC0 \<longleftrightarrow> uint b div 32 = 6"
    "b AND 0xF0 = 0xE0 \<longleftrightarrow> uint b div 16 = 14"
    "b AND 0x80 = 0 \<longleftrightarrow> uint b < 128"
    unfolding word_uint_eq_iff byte_and_high p
    using uint_byte_bounds [of b] by auto
qed

lemma uint_word_of_int_byte: "0 \<le> x \<Longrightarrow> x < 256 \<Longrightarrow> uint (word_of_int x :: byte) = x"
  by (simp add: unsigned_of_int take_bit_int_eq_self)

end
