(* ===== verification/Vbuf.thy ===== *)
theory Vbuf
  imports Prelude
begin

text \<open>
  The ring buffer of \<open>common/sys/vbuf.c\<close> with the inline accessors of
  \<open>include/cmsys.h\<close>. The four pointers of \<open>VBUF\<close> are offsets from \<open>v->buf\<close>:
  \<open>buf_end\<close> is the length of \<open>vb_buf\<close>. An operation that can trip an
  \<open>assert\<close> returns an option, \<^const>\<open>None\<close> being the abort; that it never does
  under the invariant is part of what is proved. The queue a buffer holds is
  \<open>vbuf_list\<close>, and the operations are shown to be those of a bounded FIFO queue
  (the locale \<open>byte_fifo\<close>, interpreted on this model at the end).
\<close>

section \<open>The state and its accessors\<close>

record vbuf =
  vb_buf :: "byte list"
  vb_head :: nat
  vb_tail :: nat
  vb_capacity :: nat

abbreviation vb_end :: "vbuf \<Rightarrow> nat" where
  "vb_end v \<equiv> length (vb_buf v)"

definition vbuf_size :: "vbuf \<Rightarrow> nat" where
  "vbuf_size v = (if vb_head v \<le> vb_tail v then vb_tail v - vb_head v
                  else vb_end v - vb_head v + vb_tail v)"

definition vbuf_space :: "vbuf \<Rightarrow> nat" where
  "vbuf_space v = vb_capacity v - vbuf_size v"

definition vbuf_is_full :: "vbuf \<Rightarrow> bool" where
  "vbuf_is_full v \<longleftrightarrow> vbuf_space v = 0"

definition vbuf_is_empty :: "vbuf \<Rightarrow> bool" where
  "vbuf_is_empty v \<longleftrightarrow> vb_head v = vb_tail v"

text \<open>The value \<open>EOF\<close> of \<open>stdio.h\<close>.\<close>

definition EOF :: int where "EOF = -1"

section \<open>Creation and single bytes\<close>

text \<open>
  \<open>vbuf_new\<close> takes its memory from \<open>malloc\<close>: \<open>mem\<close> is that block with whatever
  it holds. \<open>vbuf_attach\<close> is given the block by its caller.
\<close>

definition vbuf_attach :: "byte list \<Rightarrow> vbuf option" where
  "vbuf_attach mem =
     (if 1 < length mem
      then Some \<lparr>vb_buf = mem, vb_head = 0, vb_tail = 0, vb_capacity = length mem - 1\<rparr>
      else None)"

definition vbuf_new :: "byte list \<Rightarrow> vbuf option" where
  "vbuf_new mem =
     (if 1 < length mem
      then Some \<lparr>vb_buf = mem, vb_head = 0, vb_tail = 0, vb_capacity = length mem - 1\<rparr>
      else None)"

definition vbuf_delete :: "vbuf \<Rightarrow> vbuf" where
  "vbuf_delete v = \<lparr>vb_buf = [], vb_head = 0, vb_tail = 0, vb_capacity = 0\<rparr>"

definition vbuf_detach :: "vbuf \<Rightarrow> vbuf" where
  "vbuf_detach v = \<lparr>vb_buf = [], vb_head = 0, vb_tail = 0, vb_capacity = 0\<rparr>"

definition vbuf_clear :: "vbuf \<Rightarrow> vbuf" where
  "vbuf_clear v = v\<lparr>vb_head := 0, vb_tail := 0\<rparr>"

definition vbuf_peek :: "vbuf \<Rightarrow> int" where
  "vbuf_peek v = (if vbuf_is_empty v then EOF else uint (vb_buf v ! vb_head v))"

text \<open>\<open>vbuf_peekat\<close> for a non-negative index.\<close>

definition vbuf_peekat :: "vbuf \<Rightarrow> nat \<Rightarrow> int" where
  "vbuf_peekat v i =
     (let s = vb_head v + i in
      if vbuf_is_empty v \<or> vb_capacity v \<le> i then EOF
      else if s < vb_tail v then uint (vb_buf v ! s)
      else let s = (if vb_end v \<le> s then s - vb_end v else s) in
        if s < vb_tail v then uint (vb_buf v ! s) else EOF)"

definition vbuf_normalize :: "vbuf \<Rightarrow> vbuf" where
  "vbuf_normalize v = (if vb_head v = vb_tail v then v\<lparr>vb_head := 0, vb_tail := 0\<rparr> else v)"

definition vbuf_pop :: "vbuf \<Rightarrow> int \<times> vbuf" where
  "vbuf_pop v =
     (let c = vbuf_peek v;
          v = (if 0 \<le> c
               then v\<lparr>vb_head := (if Suc (vb_head v) = vb_end v then 0 else Suc (vb_head v))\<rparr>
               else v)
      in (c, vbuf_normalize v))"

definition vbuf_popn :: "vbuf \<Rightarrow> nat \<Rightarrow> vbuf" where
  "vbuf_popn v n =
     (let h = vb_head v + n in
      if h < vb_end v then v\<lparr>vb_head := h\<rparr>
      else let h = h - vb_end v;
               h = (if vb_tail v < h then vb_tail v else h)
           in vbuf_normalize (v\<lparr>vb_head := h\<rparr>))"

definition vbuf_add :: "vbuf \<Rightarrow> byte \<Rightarrow> bool \<times> vbuf" where
  "vbuf_add v c =
     (if vbuf_is_full v then (False, v)
      else (True, v\<lparr>vb_buf := (vb_buf v)[vb_tail v := c],
                    vb_tail := (if Suc (vb_tail v) = vb_end v then 0 else Suc (vb_tail v))\<rparr>))"

definition vbuf_strchr :: "vbuf \<Rightarrow> byte \<Rightarrow> int" where
  "vbuf_strchr v ch =
     (let s = vb_head v;
          d = (if vb_tail v < s then vb_end v else vb_tail v)
      in if vbuf_is_empty v then EOF
         else case memchr ch (take (d - s) (drop s (vb_buf v))) of
           Some p \<Rightarrow> int p
         | None \<Rightarrow>
             if vb_head v < vb_tail v then EOF
             else (case memchr ch (take (vb_tail v) (vb_buf v)) of
                     Some p \<Rightarrow> int (vb_end v - vb_head v + p)
                   | None \<Rightarrow> EOF))"

section \<open>Blocks and strings\<close>

definition vb_tail_sz :: "vbuf \<Rightarrow> nat" where
  "vb_tail_sz v = (if vb_head v \<le> vb_tail v then vb_tail v - vb_head v else vb_end v - vb_head v)"

definition vb_head_sz :: "vbuf \<Rightarrow> nat" where
  "vb_head_sz v = (if vb_tail v < vb_head v then vb_head v - vb_tail v else vb_end v - vb_tail v)"

text \<open>
  The two-phase loops \<open>for (i = 0; sz && i < 2; i++)\<close>: the first argument is
  the number of rounds left. The result is the buffer, the remaining size and
  the bytes copied out (or still to be copied in).
\<close>

primrec getblk_loop :: "nat \<Rightarrow> vbuf \<Rightarrow> nat \<Rightarrow> byte list \<Rightarrow> (vbuf \<times> nat \<times> byte list) option" where
  "getblk_loop 0 v sz s = Some (v, sz, s)"
| "getblk_loop (Suc n) v sz s =
     (if sz = 0 then Some (v, sz, s)
      else let rw = vb_tail_sz v in
        if \<not> rw \<le> vb_capacity v + 1 then None
        else let rw = (if sz < rw then sz else rw);
                 h = vb_head v + rw
             in getblk_loop n (v\<lparr>vb_head := (if h = vb_end v then 0 else h)\<rparr>) (sz - rw)
                  (s @ take rw (drop (vb_head v) (vb_buf v))))"

definition vbuf_getblk :: "vbuf \<Rightarrow> nat \<Rightarrow> (vbuf \<times> byte list option) option" where
  "vbuf_getblk v sz =
     (if sz = 0 \<or> vbuf_size v < sz then Some (v, None)
      else case getblk_loop 2 v sz [] of
        None \<Rightarrow> None
      | Some (v', sz', s) \<Rightarrow> if sz' = 0 then Some (vbuf_normalize v', Some s) else None)"

primrec putblk_loop :: "nat \<Rightarrow> vbuf \<Rightarrow> byte list \<Rightarrow> (vbuf \<times> byte list) option" where
  "putblk_loop 0 v s = Some (v, s)"
| "putblk_loop (Suc n) v s =
     (if s = [] then Some (v, s)
      else let rw = vb_head_sz v in
        if \<not> rw \<le> vb_capacity v + 1 then None
        else let rw = (if length s < rw then length s else rw);
                 t = vb_tail v + rw
             in putblk_loop n (v\<lparr>vb_buf := write_at (vb_buf v) (vb_tail v) (take rw s),
                                 vb_tail := (if t = vb_end v then 0 else t)\<rparr>) (drop rw s))"

definition vbuf_putblk :: "vbuf \<Rightarrow> byte list \<Rightarrow> (vbuf \<times> bool) option" where
  "vbuf_putblk v s =
     (if s = [] \<or> vbuf_space v < length s then Some (v, False)
      else case putblk_loop 2 v s of
        None \<Rightarrow> None
      | Some (v', s') \<Rightarrow> if s' = [] then Some (v', True) else None)"

definition vbuf_putstr :: "vbuf \<Rightarrow> cstr \<Rightarrow> (vbuf \<times> bool) option" where
  "vbuf_putstr v s =
     (if vbuf_space v < length s then Some (v, False)
      else map_option (\<lambda>(v', _). (v', True)) (vbuf_putblk v s))"

text \<open>
  \<open>vbuf_getstr\<close>: the loop ends at a NUL, because the destination is used up
  (\<open>sz-- > 0\<close> is false, and the \<open>size_t\<close> wraps to a non-zero value), or because
  the buffer ran empty; \<open>w\<close> is what was written to \<open>s\<close> so far. The value is the
  buffer left and the bytes of the destination that were written, the final NUL
  included.
\<close>

primrec getstr_loop :: "nat \<Rightarrow> vbuf \<Rightarrow> byte list \<Rightarrow> vbuf \<times> byte list" where
  "getstr_loop 0 v w = (v, butlast w @ [0])"
| "getstr_loop (Suc sz) v w =
     (if vbuf_is_empty v then (v, if sz = 0 then w @ [0] else butlast w @ [0])
      else let (c, v') = vbuf_pop v; b = word_of_int c in
        if b = 0 then (v', w @ [b]) else getstr_loop sz v' (w @ [b]))"

definition vbuf_getstr :: "vbuf \<Rightarrow> nat \<Rightarrow> (vbuf \<times> byte list option) option" where
  "vbuf_getstr v sz =
     (if sz = 0 then None
      else if vbuf_is_empty v then Some (v, None)
      else let (v', w) = getstr_loop sz v [] in Some (v', Some w))"

section \<open>Flattening\<close>

text \<open>
  \<open>vbuf_reverse(begin, end)\<close> on the bytes of the object between two offsets:
  swap the outermost pair, then move both ends inward.
\<close>

function vbuf_reverse :: "byte list \<Rightarrow> nat \<Rightarrow> nat \<Rightarrow> byte list" where
  "vbuf_reverse m b e =
     (if b < e then vbuf_reverse (m[e - 1 := m ! b, b := m ! (e - 1)]) (b + 1) (e - 1) else m)"
  by pat_completeness auto
termination
  by (relation "measure (\<lambda>(m, b, e). e - b)") auto

definition vbuf_flat_inplace :: "vbuf \<Rightarrow> vbuf" where
  "vbuf_flat_inplace v =
     (if vb_head v \<le> vb_tail v then v
      else let sz = vbuf_size v;
               m = vbuf_reverse (vb_buf v) 0 (vb_tail v);
               m = vbuf_reverse m (vb_head v) (vb_end v);
               m = write_at m (vb_tail v) (drop (vb_head v) m);
               m = vbuf_reverse m 0 sz
           in v\<lparr>vb_buf := m, vb_head := 0, vb_tail := sz\<rparr>)"

function flat_rotate :: "nat \<Rightarrow> nat \<Rightarrow> nat \<Rightarrow> byte list \<Rightarrow> byte list" where
  "flat_rotate len_a len_b processed m =
     (if processed < len_b then
        let chunk = min 128 (len_b - processed);
            tmp = take chunk (drop processed m);
            m = write_at m processed (take len_a (drop (processed + chunk) m));
            m = write_at m (processed + len_a) tmp
        in flat_rotate len_a len_b (processed + chunk) m
      else m)"
  by pat_completeness auto
termination
  by (relation "measure (\<lambda>(a, b, p, m). b - p)") auto

definition vbuf_flat :: "vbuf \<Rightarrow> vbuf" where
  "vbuf_flat v =
     (if vb_head v \<le> vb_tail v then v
      else let len_b = vb_tail v;
               len_a = vb_end v - vb_head v;
               m = write_at (vb_buf v) len_b (take len_a (drop (vb_head v) (vb_buf v)));
               m = flat_rotate len_a len_b 0 m
           in v\<lparr>vb_buf := m, vb_head := 0, vb_tail := len_a + len_b\<rparr>)"

text \<open>
  \<open>vbuf_cstr\<close>: the buffer after the call and the string at \<open>v->head\<close>, that is
  the bytes from \<open>head\<close> up to the NUL stored at \<open>tail\<close>. \<open>VBUF_FLAT_INPLACE\<close> is 0.
\<close>

definition vbuf_cstr :: "vbuf \<Rightarrow> vbuf \<times> byte list option" where
  "vbuf_cstr v =
     (if vbuf_is_empty v then (v, None)
      else let v = vbuf_flat v;
               v = v\<lparr>vb_buf := (vb_buf v)[vb_tail v := 0]\<rparr>
           in (v, Some (drop (vb_head v) (vb_buf v))))"

section \<open>Transfers through a callback\<close>

text \<open>
  \<open>vbuf_general_write\<close> hands the callback two byte runs and is told how many bytes
  it took; \<open>vbuf_general_read\<close> hands it the two free runs (their lengths) and is told
  how many bytes it stored there. The callback is a parameter with its own state
  \<open>'e\<close> (in the program: \<open>writev\<close>, \<open>readv\<close>, \<open>send\<close> and \<open>recv\<close> behind
  \<open>vbuf_rw_write\<close> and its siblings), returning \<open>-1\<close> for an error and 0 for
  \<open>EAGAIN\<close>. The loops need not end when the callback keeps returning 0, so they
  take fuel: \<^const>\<open>None\<close> is a failed \<open>assert\<close> or fuel that ran out. The C
  variable \<open>copied\<close> is never changed, so the value is 0 or \<open>-1\<close>.
\<close>

type_synonym 'e vbuf_writer = "'e \<Rightarrow> byte list \<Rightarrow> byte list \<Rightarrow> int \<times> 'e"
type_synonym 'e vbuf_reader = "'e \<Rightarrow> nat \<Rightarrow> nat \<Rightarrow> int \<times> byte list \<times> 'e"

primrec gwrite_loop :: "nat \<Rightarrow> 'e vbuf_writer \<Rightarrow> bool \<Rightarrow> vbuf \<Rightarrow> nat \<Rightarrow> 'e \<Rightarrow> (int \<times> vbuf \<times> 'e) option" where
  "gwrite_loop 0 writer is_min v sz e = None"
| "gwrite_loop (Suc fuel) writer is_min v sz e =
     (let rw = (if sz < vb_tail_sz v then sz else vb_tail_sz v);
          iov0 = take rw (drop (vb_head v) (vb_buf v));
          iov1 = take (sz - rw) (vb_buf v);
          (r, e') = writer e iov0 iov1
      in if r < 0 then Some (-1, v, e')
         else if int sz < r then None
         else let h = vb_head v + nat r;
                  v' = v\<lparr>vb_head := (if vb_end v \<le> h then h - vb_end v else h)\<rparr>;
                  sz' = sz - nat r
              in if 0 < sz' \<and> \<not> is_min then gwrite_loop fuel writer is_min v' sz' e'
                 else Some (0, v', e'))"

text \<open>\<open>VBUF_RWSZ_ALL\<close> is 0 and \<open>VBUF_RWSZ_MIN\<close> is \<open>-1\<close>.\<close>

definition vbuf_general_write ::
    "nat \<Rightarrow> 'e vbuf_writer \<Rightarrow> vbuf \<Rightarrow> int \<Rightarrow> 'e \<Rightarrow> (int \<times> vbuf \<times> 'e) option" where
  "vbuf_general_write fuel writer v sz e =
     (let (n, is_min) = (if sz = 0 then (int (vbuf_size v), False)
                         else if sz = -1 then (int (vbuf_size v), True) else (sz, False))
      in if n < 1 \<or> int (vbuf_size v) < n then Some (0, v, e)
         else gwrite_loop fuel writer is_min v (nat n) e)"

primrec gread_loop :: "nat \<Rightarrow> 'e vbuf_reader \<Rightarrow> bool \<Rightarrow> vbuf \<Rightarrow> nat \<Rightarrow> 'e \<Rightarrow> (int \<times> vbuf \<times> 'e) option" where
  "gread_loop 0 reader is_min v sz e = None"
| "gread_loop (Suc fuel) reader is_min v sz e =
     (let rw = (if sz < vb_head_sz v then sz else vb_head_sz v);
          (r, bs, e') = reader e rw (sz - rw);
          m = write_at (vb_buf v) (vb_tail v) (take rw bs);
          m = write_at m 0 (drop rw bs)
      in if r < 0 then Some (-1, v, e')
         else if int sz < r then None
         else let t = vb_tail v + nat r;
                  v' = v\<lparr>vb_buf := m, vb_tail := (if vb_end v \<le> t then t - vb_end v else t)\<rparr>;
                  sz' = sz - nat r
              in if 0 < sz' \<and> \<not> is_min then gread_loop fuel reader is_min v' sz' e'
                 else Some (0, v', e'))"

definition vbuf_general_read ::
    "nat \<Rightarrow> 'e vbuf_reader \<Rightarrow> vbuf \<Rightarrow> int \<Rightarrow> 'e \<Rightarrow> (int \<times> vbuf \<times> 'e) option" where
  "vbuf_general_read fuel reader v sz e =
     (let (n, is_min) = (if sz = 0 then (int (vbuf_space v), False)
                         else if sz = -1 then (int (vbuf_space v), True) else (sz, False))
      in if n < 1 \<or> int (vbuf_space v) < n then Some (0, v, e)
         else gread_loop fuel reader is_min v (nat n) e)"

text \<open>
  \<open>vbuf_pipeline\<close>: the filters rewrite the block in place and return its new length
  (a length of 0 or less stops the pipeline); \<^const>\<open>None\<close> for the sink is \<open>vbuf_putblk\<close>.
  A filter is a function from the block and the state the filters keep to the length it returns, the block it
  leaves and the new state; \<^const>\<open>None\<close> is a filter that does not return.
\<close>

type_synonym 's vbuf_filter = "byte list \<Rightarrow> 's \<Rightarrow> (int \<times> byte list \<times> 's) option"

type_synonym 's vbuf_sink = "vbuf \<Rightarrow> byte list \<Rightarrow> 's \<Rightarrow> (int \<times> vbuf \<times> 's) option"

primrec pipeline_filters :: "'s vbuf_filter list \<Rightarrow> int \<Rightarrow> byte list \<Rightarrow> 's \<Rightarrow> (int \<times> byte list \<times> 's) option" where
  "pipeline_filters [] len b s = Some (len, b, s)"
| "pipeline_filters (f # fs) len b s =
     (if 0 < len then
        case f (take (nat len) b) s of None \<Rightarrow> None | Some (len', b', s') \<Rightarrow> pipeline_filters fs len' b' s'
      else Some (len, b, s))"

definition vbuf_putblk_sink :: "'s vbuf_sink" where
  "vbuf_putblk_sink v b s = map_option (\<lambda>(v', ok). (if ok then 1 else 0, v', s)) (vbuf_putblk v b)"

definition vbuf_pipeline :: "vbuf \<Rightarrow> byte list \<Rightarrow> 's vbuf_filter list \<Rightarrow> 's vbuf_sink option \<Rightarrow> 's \<Rightarrow> (int \<times> vbuf \<times> 's) option" where
  "vbuf_pipeline v b filters sink s =
     (case pipeline_filters filters (int (length b)) b s of
        None \<Rightarrow> None
      | Some (len, b', s') \<Rightarrow>
          if len \<le> 0 then Some (len, v, s')
          else (case sink of None \<Rightarrow> vbuf_putblk_sink | Some f \<Rightarrow> f) v (take (nat len) b') s')"

declare flat_rotate.simps [simp del] vbuf_reverse.simps [simp del]

section \<open>The invariant and the queue a buffer holds\<close>

definition vbuf_inv :: "vbuf \<Rightarrow> bool" where
  "vbuf_inv v \<longleftrightarrow> 0 < vb_capacity v \<and> vb_end v = Suc (vb_capacity v) \<and>
     vb_head v < vb_end v \<and> vb_tail v < vb_end v"

definition vbuf_list :: "vbuf \<Rightarrow> byte list" where
  "vbuf_list v = (if vb_head v \<le> vb_tail v
                  then take (vb_tail v - vb_head v) (drop (vb_head v) (vb_buf v))
                  else drop (vb_head v) (vb_buf v) @ take (vb_tail v) (vb_buf v))"

lemma length_vbuf_list: "vbuf_inv v \<Longrightarrow> length (vbuf_list v) = vbuf_size v"
  by (auto simp: vbuf_inv_def vbuf_list_def vbuf_size_def)

lemma vbuf_size_le: "vbuf_inv v \<Longrightarrow> vbuf_size v \<le> vb_capacity v"
  by (auto simp: vbuf_inv_def vbuf_size_def)

lemma vbuf_is_empty_iff: "vbuf_inv v \<Longrightarrow> vbuf_is_empty v \<longleftrightarrow> vbuf_list v = []"
  by (auto simp: vbuf_inv_def vbuf_list_def vbuf_is_empty_def)

lemma vbuf_is_full_iff: "vbuf_inv v \<Longrightarrow> vbuf_is_full v \<longleftrightarrow> length (vbuf_list v) = vb_capacity v"
  using vbuf_size_le [of v] by (auto simp: vbuf_is_full_def vbuf_space_def length_vbuf_list)

lemma vbuf_space_eq: "vbuf_inv v \<Longrightarrow> vbuf_space v = vb_capacity v - length (vbuf_list v)"
  by (simp add: vbuf_space_def length_vbuf_list)

lemma vbuf_normalize_list [simp]: "vbuf_list (vbuf_normalize v) = vbuf_list v"
  by (simp add: vbuf_normalize_def vbuf_list_def)

lemma vbuf_normalize_inv: "vbuf_inv v \<Longrightarrow> vbuf_inv (vbuf_normalize v)"
  by (simp add: vbuf_normalize_def vbuf_inv_def)

lemma vb_capacity_normalize [simp]: "vb_capacity (vbuf_normalize v) = vb_capacity v"
  by (simp add: vbuf_normalize_def)

lemma vbuf_list_hd: "vbuf_inv v \<Longrightarrow> vbuf_list v \<noteq> [] \<Longrightarrow> hd (vbuf_list v) = vb_buf v ! vb_head v"
  by (auto simp: vbuf_inv_def vbuf_list_def hd_drop_conv_nth hd_append split: if_splits)

lemma vbuf_advance:
  assumes "vbuf_inv v" "n \<le> length (vbuf_list v)" "n \<le> vb_end v - vb_head v"
  defines "h \<equiv> vb_head v + n"
  defines "v' \<equiv> v\<lparr>vb_head := (if h = vb_end v then 0 else h)\<rparr>"
  shows "vbuf_inv v'" "vbuf_list v' = drop n (vbuf_list v)"
proof -
  show "vbuf_inv v'"
    using assms by (auto simp: vbuf_inv_def)
  show "vbuf_list v' = drop n (vbuf_list v)"
    using assms by (auto simp: vbuf_inv_def vbuf_list_def add.commute drop_take)
qed

lemma vbuf_append:
  assumes "vbuf_inv v" "length s \<le> vb_capacity v - length (vbuf_list v)" "length s \<le> vb_end v - vb_tail v"
  defines "t \<equiv> vb_tail v + length s"
  defines "v' \<equiv> v\<lparr>vb_buf := write_at (vb_buf v) (vb_tail v) s, vb_tail := (if t = vb_end v then 0 else t)\<rparr>"
  shows "vbuf_inv v'" "vbuf_list v' = vbuf_list v @ s"
proof -
  show "vbuf_inv v'"
    using assms by (auto simp: vbuf_inv_def)
  have inv: "vb_end v = Suc (vb_capacity v)" "vb_head v < vb_end v" "vb_tail v < vb_end v"
    using assms(1) by (auto simp: vbuf_inv_def)
  have sz: "length s \<le> vb_capacity v - vbuf_size v" using assms(1,2) by (simp add: length_vbuf_list)
  have buf: "vb_buf v' = take (vb_tail v) (vb_buf v) @ s @ drop t (vb_buf v)" "vb_head v' = vb_head v"
    by (simp_all add: v'_def t_def write_at_def)
  show "vbuf_list v' = vbuf_list v @ s"
  proof (cases "vb_head v \<le> vb_tail v")
    case True
    then show ?thesis using buf inv sz
      by (auto simp: vbuf_list_def v'_def t_def vbuf_size_def drop_take)
  next
    case False
    then have "t < vb_head v" using sz inv by (auto simp: t_def vbuf_size_def)
    then have "vb_tail v' = t" using inv by (simp add: v'_def)
    then show ?thesis using False buf inv \<open>t < vb_head v\<close>
      by (auto simp: vbuf_list_def t_def)
  qed
qed

lemma vbuf_pop_Cons:
  assumes "vbuf_inv v" "vbuf_list v = b # q"
  shows "\<exists>v'. vbuf_pop v = (uint b, v') \<and> vbuf_inv v' \<and> vbuf_list v' = q \<and>
    vb_capacity v' = vb_capacity v"
proof -
  have "\<not> vbuf_is_empty v" using assms vbuf_is_empty_iff by simp
  moreover have "vb_buf v ! vb_head v = b" using vbuf_list_hd [of v] assms by simp
  ultimately have p: "vbuf_peek v = uint b" by (simp add: vbuf_peek_def)
  have "1 \<le> vb_end v - vb_head v" using assms(1) by (auto simp: vbuf_inv_def)
  from vbuf_advance [OF assms(1) _ this] assms(2)
  show ?thesis by (auto simp: vbuf_pop_def p vbuf_normalize_inv Let_def)
qed

lemma vbuf_pop_Nil:
  assumes "vbuf_inv v" "vbuf_list v = []"
  shows "vbuf_pop v = (EOF, vbuf_normalize v)"
  using assms by (simp add: vbuf_pop_def vbuf_peek_def vbuf_is_empty_iff EOF_def)

lemma vbuf_add_ok:
  assumes "vbuf_inv v" "length (vbuf_list v) < vb_capacity v"
  shows "\<exists>v'. vbuf_add v c = (True, v') \<and> vbuf_inv v' \<and> vbuf_list v' = vbuf_list v @ [c] \<and>
    vb_capacity v' = vb_capacity v"
proof -
  have "length [c] \<le> vb_capacity v - length (vbuf_list v)" "length [c] \<le> vb_end v - vb_tail v"
    using assms by (auto simp: vbuf_inv_def)
  from vbuf_append [OF assms(1) this]
  show ?thesis using assms
    by (auto simp: vbuf_add_def vbuf_is_full_iff vbuf_inv_def write_at_single split: if_splits)
qed

lemma vbuf_add_full:
  "vbuf_inv v \<Longrightarrow> length (vbuf_list v) = vb_capacity v \<Longrightarrow> vbuf_add v c = (False, v)"
  by (simp add: vbuf_add_def vbuf_is_full_iff)

lemma vb_tail_sz_bounds:
  assumes "vbuf_inv v"
  shows "vb_tail_sz v \<le> vbuf_size v" "vb_tail_sz v \<le> vb_end v - vb_head v"
    "vb_tail_sz v \<le> vb_capacity v + 1"
    "take (min n (vb_tail_sz v)) (drop (vb_head v) (vb_buf v)) = take (min n (vb_tail_sz v)) (vbuf_list v)"
    "vb_head v < vb_tail v \<Longrightarrow> vb_tail_sz v = vbuf_size v"
    "vb_tail v < vb_head v \<Longrightarrow> vbuf_size v - vb_tail_sz v = vb_tail v"
  using assms by (auto simp: vbuf_inv_def vb_tail_sz_def vbuf_size_def vbuf_list_def min_def)

lemma getblk_round:
  assumes "vbuf_inv v" "sz \<le> length (vbuf_list v)" "0 < sz"
  defines "rw \<equiv> min sz (vb_tail_sz v)"
  shows "\<exists>v'. getblk_loop (Suc n) v sz s = getblk_loop n v' (sz - rw) (s @ take rw (vbuf_list v)) \<and>
    vbuf_inv v' \<and> vbuf_list v' = drop rw (vbuf_list v) \<and> vb_capacity v' = vb_capacity v \<and>
    (rw < sz \<longrightarrow> vb_head v' \<le> vb_tail v')"
proof -
  let ?h = "vb_head v + rw"
  let ?v = "v\<lparr>vb_head := (if ?h = vb_end v then 0 else ?h)\<rparr>"
  have rw: "(if sz < vb_tail_sz v then sz else vb_tail_sz v) = rw" by (auto simp: rw_def)
  have le: "rw \<le> length (vbuf_list v)" "rw \<le> vb_end v - vb_head v"
    using assms vb_tail_sz_bounds(1,2) [OF assms(1)] by (auto simp: rw_def length_vbuf_list)
  have "getblk_loop (Suc n) v sz s = getblk_loop n ?v (sz - rw) (s @ take rw (vbuf_list v))"
    using assms(1,3) vb_tail_sz_bounds(3) [OF assms(1)] vb_tail_sz_bounds(4) [OF assms(1), of sz]
    by (simp add: rw Let_def flip: rw_def)
  moreover have "rw < sz \<longrightarrow> vb_head ?v \<le> vb_tail ?v"
    using assms by (auto simp: rw_def vb_tail_sz_def vbuf_inv_def length_vbuf_list vbuf_size_def
        split: if_splits)
  ultimately show ?thesis using vbuf_advance [OF assms(1) le] by auto
qed

lemma getblk_loop_spec:
  assumes "vbuf_inv v" "sz \<le> length (vbuf_list v)" "0 < sz"
  shows "\<exists>v'. getblk_loop 2 v sz [] = Some (v', 0, take sz (vbuf_list v)) \<and> vbuf_inv v' \<and>
    vbuf_list v' = drop sz (vbuf_list v) \<and> vb_capacity v' = vb_capacity v"
proof -
  let ?rw = "min sz (vb_tail_sz v)"
  from getblk_round [OF assms, of 1 "[]"] obtain v1 where
    v1: "getblk_loop 2 v sz [] = getblk_loop 1 v1 (sz - ?rw) (take ?rw (vbuf_list v))"
      "vbuf_inv v1" "vbuf_list v1 = drop ?rw (vbuf_list v)" "vb_capacity v1 = vb_capacity v"
      "?rw < sz \<longrightarrow> vb_head v1 \<le> vb_tail v1"
    by (auto simp: numeral_2_eq_2)
  show ?thesis
  proof (cases "?rw < sz")
    case False
    then have "?rw = sz" by simp
    with v1 show ?thesis by simp
  next
    case True
    have sz1: "sz - ?rw \<le> length (vbuf_list v1)" "0 < sz - ?rw"
      using True v1(3) assms(2) by auto
    have ts: "vb_tail_sz v1 = length (vbuf_list v1)"
      using v1(2,5) True by (simp add: vb_tail_sz_def length_vbuf_list vbuf_size_def)
    then have m: "min (sz - ?rw) (vb_tail_sz v1) = sz - ?rw" using sz1 by simp
    from getblk_round [OF v1(2) sz1, of 0 "take ?rw (vbuf_list v)", unfolded m]
    obtain v2 where "getblk_loop 1 v1 (sz - ?rw) (take ?rw (vbuf_list v)) =
        Some (v2, 0, take ?rw (vbuf_list v) @ take (sz - ?rw) (vbuf_list v1))"
      "vbuf_inv v2" "vbuf_list v2 = drop (sz - ?rw) (vbuf_list v1)" "vb_capacity v2 = vb_capacity v1"
      by auto
    moreover have "take ?rw (vbuf_list v) @ take (sz - ?rw) (vbuf_list v1) = take sz (vbuf_list v)"
      using v1(3) True by (metis le_add_diff_inverse less_imp_le take_add)
    ultimately show ?thesis using v1 True by (auto simp: min_def split: if_splits)
  qed
qed

lemma vbuf_getblk_ok:
  assumes "vbuf_inv v" "0 < sz" "sz \<le> length (vbuf_list v)"
  shows "\<exists>v'. vbuf_getblk v sz = Some (v', Some (take sz (vbuf_list v))) \<and> vbuf_inv v' \<and>
    vbuf_list v' = drop sz (vbuf_list v) \<and> vb_capacity v' = vb_capacity v"
  using getblk_loop_spec [OF assms(1,3,2)] assms
  by (auto simp: vbuf_getblk_def length_vbuf_list vbuf_normalize_inv)

lemma vbuf_getblk_fail:
  "vbuf_inv v \<Longrightarrow> sz = 0 \<or> length (vbuf_list v) < sz \<Longrightarrow> vbuf_getblk v sz = Some (v, None)"
  by (auto simp: vbuf_getblk_def length_vbuf_list)

lemma putblk_round:
  assumes "vbuf_inv v" "length s \<le> vb_capacity v - length (vbuf_list v)" "s \<noteq> []"
  defines "rw \<equiv> min (length s) (vb_head_sz v)"
  shows "\<exists>v'. putblk_loop (Suc n) v s = putblk_loop n v' (drop rw s) \<and>
    vbuf_inv v' \<and> vbuf_list v' = vbuf_list v @ take rw s \<and> vb_capacity v' = vb_capacity v \<and>
    (rw < length s \<longrightarrow> vb_tail v' = 0 \<and> vb_head v' = vb_head v)"
proof -
  let ?t = "vb_tail v + rw"
  let ?v = "v\<lparr>vb_buf := write_at (vb_buf v) (vb_tail v) (take rw s),
              vb_tail := (if ?t = vb_end v then 0 else ?t)\<rparr>"
  have rw: "(if length s < vb_head_sz v then length s else vb_head_sz v) = rw" by (auto simp: rw_def)
  have len: "length (take rw s) = rw" by (simp add: rw_def)
  have le: "length (take rw s) \<le> vb_capacity v - length (vbuf_list v)"
    "length (take rw s) \<le> vb_end v - vb_tail v"
    using assms by (auto simp: rw_def vb_head_sz_def vbuf_inv_def)
  have "vb_head_sz v \<le> vb_capacity v + 1"
    using assms(1) by (auto simp: vb_head_sz_def vbuf_inv_def)
  then have "putblk_loop (Suc n) v s = putblk_loop n ?v (drop rw s)"
    using assms(3) by (simp add: rw Let_def flip: rw_def)
  moreover have "rw < length s \<longrightarrow> vb_tail ?v = 0 \<and> vb_head ?v = vb_head v"
    using assms(1,2) by (auto simp: rw_def vb_head_sz_def vbuf_inv_def length_vbuf_list vbuf_size_def
        split: if_splits)
  ultimately show ?thesis using vbuf_append [OF assms(1) le, unfolded len]
    by (intro exI [of _ ?v]) (simp del: putblk_loop.simps)
qed

lemma space_le_head_sz:
  "vbuf_inv v \<Longrightarrow> vb_tail v = 0 \<Longrightarrow> vb_capacity v - length (vbuf_list v) \<le> vb_head_sz v"
  by (auto simp: vb_head_sz_def vbuf_inv_def length_vbuf_list vbuf_size_def)

lemma vbuf_putblk_ok:
  assumes "vbuf_inv v" "s \<noteq> []" "length s \<le> vb_capacity v - length (vbuf_list v)"
  shows "\<exists>v'. vbuf_putblk v s = Some (v', True) \<and> vbuf_inv v' \<and>
    vbuf_list v' = vbuf_list v @ s \<and> vb_capacity v' = vb_capacity v"
proof -
  let ?rw = "min (length s) (vb_head_sz v)"
  from putblk_round [OF assms(1,3,2), of 1] obtain v1 where
    v1: "putblk_loop 2 v s = putblk_loop 1 v1 (drop ?rw s)" "vbuf_inv v1"
      "vbuf_list v1 = vbuf_list v @ take ?rw s" "vb_capacity v1 = vb_capacity v"
      "?rw < length s \<longrightarrow> vb_tail v1 = 0 \<and> vb_head v1 = vb_head v"
    by (auto simp: numeral_2_eq_2)
  have "\<exists>v'. putblk_loop 2 v s = Some (v', []) \<and> vbuf_inv v' \<and>
    vbuf_list v' = vbuf_list v @ s \<and> vb_capacity v' = vb_capacity v"
  proof (cases "?rw < length s")
    case False
    then have "?rw = length s" by simp
    with v1 show ?thesis by simp
  next
    case True
    let ?s = "drop ?rw s"
    have s1: "length ?s \<le> vb_capacity v1 - length (vbuf_list v1)" "?s \<noteq> []"
      using True v1(3,4) assms(3) by auto
    have "vb_tail v1 = 0" "vbuf_inv v1" using v1 True by auto
    then have "length ?s \<le> vb_head_sz v1"
      using s1(1) space_le_head_sz [of v1] by linarith
    then have m: "min (length ?s) (vb_head_sz v1) = length ?s" by simp
    from putblk_round [OF v1(2) s1, of 0, unfolded m] v1 show ?thesis
      by (auto simp del: putblk_loop.simps(2))
  qed
  then show ?thesis using assms by (auto simp: vbuf_putblk_def vbuf_space_eq)
qed

lemma vbuf_putblk_fail:
  "vbuf_inv v \<Longrightarrow> s = [] \<or> vb_capacity v - length (vbuf_list v) < length s \<Longrightarrow>
    vbuf_putblk v s = Some (v, False)"
  by (auto simp: vbuf_putblk_def vbuf_space_eq)

lemma vbuf_peekat_unwrapped:
  assumes "vbuf_inv v" "vb_head v \<le> vb_tail v" "i < length (vbuf_list v)"
  shows "vbuf_peekat v i = uint (vbuf_list v ! i)"
  using assms by (auto simp: vbuf_peekat_def vbuf_list_def vbuf_is_empty_def vbuf_inv_def Let_def)

lemma vbuf_peekat_wrapped_tail:
  assumes "vbuf_inv v" "vb_tail v < vb_head v" "vb_end v - vb_head v \<le> i" "i < length (vbuf_list v)"
  shows "vbuf_peekat v i = uint (vbuf_list v ! i)"
  using assms
  by (auto simp: vbuf_peekat_def vbuf_list_def vbuf_is_empty_def vbuf_inv_def Let_def nth_append
      add.commute)

lemma getstr_loop_nul:
  assumes "vbuf_inv v" "memchr 0 (vbuf_list v) = Some k" "k < sz"
  shows "\<exists>v'. getstr_loop sz v w = (v', w @ take (Suc k) (vbuf_list v)) \<and> vbuf_inv v' \<and>
    vbuf_list v' = drop (Suc k) (vbuf_list v)"
  using assms
proof (induction sz arbitrary: v w k)
  case 0
  then show ?case by simp
next
  case (Suc sz)
  then obtain b q where q: "vbuf_list v = b # q" by (cases "vbuf_list v") auto
  from vbuf_pop_Cons [OF Suc.prems(1) q] obtain v' where
    v': "vbuf_pop v = (uint b, v')" "vbuf_inv v'" "vbuf_list v' = q" by auto
  have ne: "\<not> vbuf_is_empty v" using Suc.prems(1) q by (simp add: vbuf_is_empty_iff)
  show ?case
  proof (cases "b = 0")
    case True
    with Suc.prems q v' ne show ?thesis by auto
  next
    case False
    with Suc.prems q obtain k' where k': "memchr 0 q = Some k'" "k = Suc k'" by auto
    with Suc.IH [OF v'(2), of k' "w @ [b]"] v' Suc.prems(3) ne q False show ?thesis by auto
  qed
qed

lemma getstr_loop_drained:
  assumes "vbuf_inv v" "0 \<notin> set (vbuf_list v)" "length (vbuf_list v) + 1 < sz" "w @ vbuf_list v \<noteq> []"
  shows "\<exists>v'. getstr_loop sz v w = (v', butlast (w @ vbuf_list v) @ [0]) \<and> vbuf_inv v' \<and> vbuf_list v' = []"
  using assms
proof (induction sz arbitrary: v w)
  case 0
  then show ?case by simp
next
  case (Suc sz)
  show ?case
  proof (cases "vbuf_list v")
    case Nil
    with Suc.prems show ?thesis by (auto simp: vbuf_is_empty_iff)
  next
    case (Cons b q)
    from vbuf_pop_Cons [OF Suc.prems(1) Cons] obtain v' where
      v': "vbuf_pop v = (uint b, v')" "vbuf_inv v'" "vbuf_list v' = q" by auto
    have ne: "\<not> vbuf_is_empty v" "b \<noteq> 0" using Suc.prems Cons by (auto simp: vbuf_is_empty_iff)
    with Suc.IH [OF v'(2), of "w @ [b]"] v' Suc.prems Cons show ?thesis by auto
  qed
qed

lemma vbuf_reverse_append:
  "vbuf_reverse (xs @ ys @ zs) (length xs) (length xs + length ys) = xs @ rev ys @ zs"
proof (induction ys arbitrary: xs zs rule: length_induct)
  case (1 ys)
  show ?case
  proof (cases ys)
    case Nil
    then show ?thesis by (simp add: vbuf_reverse.simps)
  next
    case y: (Cons y ys1)
    show ?thesis
    proof (cases ys1 rule: rev_cases)
      case Nil
      then show ?thesis using y
        by (simp add: vbuf_reverse.simps [of _ "length xs"] vbuf_reverse.simps [of _ "Suc (length xs)"])
    next
      case (snoc ys2 z)
      let ?m = "xs @ ys @ zs" and ?b = "length xs" and ?e = "length xs + length ys"
      have "?m[?e - 1 := ?m ! ?b, ?b := ?m ! (?e - 1)] = (xs @ [z]) @ ys2 @ (y # zs)"
        using y snoc by (simp add: list_update_append nth_append)
      then have "vbuf_reverse ?m ?b ?e =
          vbuf_reverse ((xs @ [z]) @ ys2 @ (y # zs)) (length (xs @ [z])) (length (xs @ [z]) + length ys2)"
        using y snoc by (subst vbuf_reverse.simps) simp
      also have "\<dots> = (xs @ [z]) @ rev ys2 @ y # zs"
        using y snoc by (intro "1.IH" [rule_format]) simp
      finally show ?thesis using y snoc by simp
    qed
  qed
qed

lemma vbuf_reverse_eq:
  "m = xs @ ys @ zs \<Longrightarrow> b = length xs \<Longrightarrow> e = length xs + length ys \<Longrightarrow>
    vbuf_reverse m b e = xs @ rev ys @ zs"
  using vbuf_reverse_append by simp

text \<open>A wrapped buffer is \<open>B @ G @ A\<close>: the second part of the queue, the gap, the first part.\<close>

lemma vbuf_wrappedE:
  assumes "vbuf_inv v" "vb_tail v < vb_head v"
  obtains A B G where "vb_buf v = B @ G @ A" "vb_tail v = length B" "vb_head v = length B + length G"
    "A \<noteq> []" "G \<noteq> []" "vbuf_list v = A @ B" "vbuf_size v = length A + length B"
proof -
  let ?t = "vb_tail v" and ?h = "vb_head v" and ?m = "vb_buf v"
  have lt: "?t < ?h" "?h < length ?m" using assms by (auto simp: vbuf_inv_def)
  show ?thesis
  proof (rule that [of "take ?t ?m" "take (?h - ?t) (drop ?t ?m)" "drop ?h ?m"])
    show "?m = take ?t ?m @ take (?h - ?t) (drop ?t ?m) @ drop ?h ?m"
      using lt by (simp add: take_drop_append_drop)
  qed (use lt in \<open>auto simp: vbuf_list_def vbuf_size_def\<close>)
qed

lemma vbuf_flat_inplace_ok:
  assumes "vbuf_inv v"
  shows "vbuf_inv (vbuf_flat_inplace v) \<and> vbuf_list (vbuf_flat_inplace v) = vbuf_list v \<and>
    vb_head (vbuf_flat_inplace v) \<le> vb_tail (vbuf_flat_inplace v)"
proof (cases "vb_head v \<le> vb_tail v")
  case True
  then show ?thesis using assms by (simp add: vbuf_flat_inplace_def)
next
  case False
  then obtain A B G where v: "vb_buf v = B @ G @ A" "vb_tail v = length B"
      "vb_head v = length B + length G" "A \<noteq> []" "G \<noteq> []" "vbuf_list v = A @ B"
      "vbuf_size v = length A + length B"
    by (meson vbuf_wrappedE assms not_le)
  let ?R = "drop (length A) (G @ rev A)"
  have 1: "vbuf_reverse (B @ G @ A) 0 (length B) = rev B @ G @ A"
    by (rule vbuf_reverse_eq [of _ "[]", simplified]) simp_all
  have 2: "vbuf_reverse (rev B @ G @ A) (length B + length G) (length (B @ G @ A)) = rev B @ G @ rev A"
    by (rule vbuf_reverse_eq [where xs = "rev B @ G" and zs = "[]", simplified]) simp_all
  have 3: "write_at (rev B @ G @ rev A) (length B) (rev A) = rev B @ rev A @ ?R"
    by (simp add: write_at_def)
  have 4: "vbuf_reverse (rev B @ rev A @ ?R) 0 (length A + length B) = A @ B @ ?R"
    using vbuf_reverse_eq [of "rev B @ rev A @ ?R" "[]" "rev B @ rev A" ?R 0 "length A + length B"] by simp
  have "vbuf_flat_inplace v = v\<lparr>vb_buf := A @ B @ ?R, vb_head := 0, vb_tail := length A + length B\<rparr>"
    using False 1 2 3 4 v by (simp add: vbuf_flat_inplace_def Let_def)
  then obtain R where "vbuf_flat_inplace v =
      v\<lparr>vb_buf := A @ B @ R, vb_head := 0, vb_tail := length A + length B\<rparr>" "length R = length G"
    by (metis add_diff_cancel_right' length_append length_drop length_rev)
  then show ?thesis using assms v by (auto simp: vbuf_inv_def vbuf_list_def)
qed

lemma flat_rotate_small:
  assumes "len_b \<le> 128" "len_a + len_b \<le> length m"
  shows "take (len_a + len_b) (flat_rotate len_a len_b 0 m) = take len_a (drop len_b m) @ take len_b m \<and>
    length (flat_rotate len_a len_b 0 m) = length m"
  using assms
  by (auto simp: flat_rotate.simps [of len_a len_b 0] flat_rotate.simps [of len_a len_b len_b] Let_def write_at_def)

lemma vbuf_flat_small:
  assumes "vbuf_inv v" "vb_tail v \<le> 128"
  shows "vbuf_inv (vbuf_flat v) \<and> vbuf_list (vbuf_flat v) = vbuf_list v \<and>
    vb_head (vbuf_flat v) \<le> vb_tail (vbuf_flat v)"
proof (cases "vb_head v \<le> vb_tail v")
  case True
  then show ?thesis using assms by (simp add: vbuf_flat_def)
next
  case False
  show ?thesis using False assms flat_rotate_small[OF assms(2), of "vb_end v - vb_head v" "write_at (vb_buf v) (vb_tail v) (take (vb_end v - vb_head v) (drop (vb_head v) (vb_buf v)))"]
    apply (simp add: vbuf_flat_def Let_def vbuf_inv_def vbuf_size_def vbuf_list_def )
    apply (auto simp: write_at_def)
    done
qed

lemma vbuf_cstr_ok:
  assumes "vbuf_inv v" "vbuf_list v \<noteq> []" "vb_head v \<le> vb_tail v \<or> vb_tail v \<le> 128"
  shows "\<exists>v' rest. vbuf_cstr v = (v', Some (vbuf_list v @ 0 # rest)) \<and> vbuf_inv v' \<and> vbuf_list v' = vbuf_list v"
proof -
  let ?u = "vbuf_flat v"
  have u: "vbuf_inv ?u" "vbuf_list ?u = vbuf_list v" "vb_head ?u \<le> vb_tail ?u"
    using assms vbuf_flat_small [OF assms(1)] by (auto simp: vbuf_flat_def)
  let ?m = "(vb_buf ?u)[vb_tail ?u := 0]"
  have t: "vb_tail ?u < vb_end ?u" using u by (simp add: vbuf_inv_def)
  have "drop (vb_head ?u) ?m = vbuf_list v @ 0 # drop (Suc (vb_tail ?u)) (vb_buf ?u)"
    using u t by (simp add: drop_update_swap  vbuf_list_def upd_conv_take_nth_drop drop_take)
  moreover have "vbuf_list (?u\<lparr>vb_buf := ?m\<rparr>) = vbuf_list v"
    using u by (simp add: vbuf_list_def drop_update_swap)
  moreover have "vbuf_inv (?u\<lparr>vb_buf := ?m\<rparr>)" using u by (simp add: vbuf_inv_def)
  ultimately show ?thesis using assms by (auto simp: vbuf_cstr_def vbuf_is_empty_iff Let_def)
qed


lemma vbuf_iov_list:
  assumes "vbuf_inv v" "sz \<le> vbuf_size v"
  defines "rw \<equiv> (if sz < vb_tail_sz v then sz else vb_tail_sz v)"
  shows "take rw (drop (vb_head v) (vb_buf v)) @ take (sz - rw) (vb_buf v) = take sz (vbuf_list v)"
  using assms by (auto simp: vbuf_inv_def rw_def vb_tail_sz_def vbuf_size_def vbuf_list_def)

lemma vbuf_drop_list:
  assumes "vbuf_inv v" "n \<le> length (vbuf_list v)"
  defines "h \<equiv> vb_head v + n"
  defines "v' \<equiv> v\<lparr>vb_head := (if vb_end v \<le> h then h - vb_end v else h)\<rparr>"
  shows "vbuf_inv v'" "vbuf_list v' = drop n (vbuf_list v)" "vb_capacity v' = vb_capacity v"
  using assms by (auto simp: vbuf_inv_def vbuf_list_def drop_take add.commute split: if_splits)

lemma gwrite_loop_conserves:
  assumes "\<And>e a b r e'. writer e a b = (r, e') \<Longrightarrow>
      r \<le> int (length (a @ b)) \<and> sent e' = sent e @ take (nat r) (a @ b)"
    and "vbuf_inv v" "sz \<le> vbuf_size v"
    and "gwrite_loop fuel writer is_min v sz e = Some (r, v', e')"
  shows "vbuf_inv v' \<and> sent e' @ vbuf_list v' = sent e @ vbuf_list v"
  using assms(2-)
proof (induction fuel arbitrary: v sz e)
  case 0
  then show ?case by simp
next
  case (Suc fuel)
  define rw where "rw = (if sz < vb_tail_sz v then sz else vb_tail_sz v)"
  define a b where "a = take rw (drop (vb_head v) (vb_buf v))" and "b = take (sz - rw) (vb_buf v)"
  obtain k e1 where k: "writer e a b = (k, e1)" by fastforce
  have ab: "a @ b = take sz (vbuf_list v)"
    using vbuf_iov_list [OF Suc.prems(1,2)] by (simp add: a_def b_def rw_def)
  have snt: "sent e1 = sent e @ take (nat k) (vbuf_list v)" "k \<le> int sz"
    using assms(1) [OF k] ab Suc.prems by (auto simp: length_vbuf_list)
  define v1 where "v1 = v\<lparr>vb_head := (if vb_end v \<le> vb_head v + nat k then vb_head v + nat k - vb_end v else vb_head v + nat k)\<rparr>"
  have kle: "nat k \<le> length (vbuf_list v)" using snt Suc.prems by (simp add: length_vbuf_list)
  note v1 = vbuf_drop_list [OF Suc.prems(1) kle, folded v1_def]
  have loop: "gwrite_loop (Suc fuel) writer is_min v sz e =
     (if k < 0 then Some (-1, v, e1)
      else if 0 < sz - nat k \<and> \<not> is_min then gwrite_loop fuel writer is_min v1 (sz - nat k) e1
      else Some (0, v1, e1))"
    using k snt(2) by (simp add: Let_def v1_def flip: rw_def a_def b_def)
  show ?case
  proof (cases "k < 0")
    case True
    with loop Suc.prems snt show ?thesis by simp
  next
    case False
    have "vbuf_inv v' \<and> sent e' @ vbuf_list v' = sent e1 @ vbuf_list v1"
      using Suc.prems loop False Suc.IH [of v1 "sz - nat k" e1] v1
      by (auto simp: length_vbuf_list [symmetric] split: if_splits)
    then show ?thesis using snt v1 by simp
  qed
qed

lemma gwrite_loop_ret:
  "gwrite_loop fuel writer m v n e = Some (r, v', e') \<Longrightarrow> r \<in> {-1, 0}"
  by (induction fuel arbitrary: v n e) (auto simp: Let_def split: if_splits prod.splits)

lemma gwrite_loop_total:
  assumes "\<And>e a b r e'. writer e a b = (r, e') \<Longrightarrow> r \<noteq> 0 \<and> r \<le> int (length (a @ b))"
    and "vbuf_inv v" "sz \<le> vbuf_size v" "sz < fuel"
  shows "\<exists>r v' e'. gwrite_loop fuel writer is_min v sz e = Some (r, v', e')"
  using assms(2-)
proof (induction fuel arbitrary: v sz e)
  case 0
  then show ?case by simp
next
  case (Suc fuel)
  define rw where "rw = (if sz < vb_tail_sz v then sz else vb_tail_sz v)"
  define a b where "a = take rw (drop (vb_head v) (vb_buf v))" and "b = take (sz - rw) (vb_buf v)"
  obtain k e1 where k: "writer e a b = (k, e1)" by fastforce
  have ab: "a @ b = take sz (vbuf_list v)"
    using vbuf_iov_list [OF Suc.prems(1,2)] by (simp add: a_def b_def rw_def)
  have snt: "k \<noteq> 0" "k \<le> int sz"
    using assms(1) [OF k] ab Suc.prems by (auto simp: length_vbuf_list)
  define v1 where "v1 = v\<lparr>vb_head := (if vb_end v \<le> vb_head v + nat k then vb_head v + nat k - vb_end v else vb_head v + nat k)\<rparr>"
  have kle: "nat k \<le> length (vbuf_list v)" using snt Suc.prems by (simp add: length_vbuf_list)
  note v1 = vbuf_drop_list [OF Suc.prems(1) kle, folded v1_def]
  show ?case
    using k snt(2) Suc.IH [of v1 "sz - nat k" e1] v1 snt Suc.prems
    by (auto simp: Let_def length_vbuf_list [symmetric] simp flip: rw_def a_def b_def v1_def)
qed


lemma vbuf_store_list:
  assumes "vbuf_inv v" "sz \<le> vb_capacity v - length (vbuf_list v)" "length bs \<le> sz"
  defines "rw \<equiv> (if sz < vb_head_sz v then sz else vb_head_sz v)"
  defines "t \<equiv> vb_tail v + length bs"
  defines "v' \<equiv> v\<lparr>vb_buf := write_at (write_at (vb_buf v) (vb_tail v) (take rw bs)) 0 (drop rw bs),
                  vb_tail := (if vb_end v \<le> t then t - vb_end v else t)\<rparr>"
  shows "vbuf_inv v'" "vbuf_list v' = vbuf_list v @ bs" "vb_capacity v' = vb_capacity v"
proof -
  have sz: "sz \<le> vb_capacity v - vbuf_size v" using assms by (simp add: length_vbuf_list)
  have inv: "vb_end v = Suc (vb_capacity v)" "vb_head v < vb_end v" "vb_tail v < vb_end v"
    using assms(1) by (auto simp: vbuf_inv_def)
  have len: "length (vb_buf v') = vb_end v"
  proof -
    have "rw \<le> vb_end v - vb_tail v" using inv by (auto simp: rw_def vb_head_sz_def)
    then have "vb_tail v + length (take rw bs) \<le> vb_end v" using inv by auto
    moreover have "length (drop rw bs) \<le> vb_end v" using sz assms(3) inv by simp
    ultimately show ?thesis by (simp add: v'_def)
  qed
  show "vbuf_inv v'"
    using sz assms(3) inv assms(1) len
    by (auto simp: vbuf_inv_def v'_def t_def vbuf_size_def split: if_splits)
  show "vb_capacity v' = vb_capacity v" by (simp add: v'_def)
  show "vbuf_list v' = vbuf_list v @ bs"
  proof (cases "length bs \<le> rw")
    case True
    have le: "length bs \<le> vb_end v - vb_tail v"
      using True inv by (auto simp: rw_def vb_head_sz_def split: if_splits)
    from vbuf_append(2) [OF assms(1) _ le] le True assms(2,3) inv len show ?thesis
      by (auto simp: v'_def t_def split: if_splits)
  next
    case False
    have ht: "vb_head v \<le> vb_tail v" and rw: "rw = vb_end v - vb_tail v"
      using False sz assms(3) inv by (auto simp: rw_def vb_head_sz_def vbuf_size_def split: if_splits)
    let ?d = "drop rw bs"
    have d: "length ?d < vb_head v"
      using False sz assms(3) inv ht rw by (auto simp: vbuf_size_def)
    have "write_at (vb_buf v) (vb_tail v) (take rw bs) = take (vb_tail v) (vb_buf v) @ take rw bs"
      using False inv rw by (simp add: write_at_def)
    then have buf: "vb_buf v' = ?d @ drop (length ?d) (take (vb_tail v) (vb_buf v) @ take rw bs)"
      by (simp add: v'_def write_at_def)
    have tl: "vb_tail v' = length ?d" "vb_head v' = vb_head v"
      using False inv rw by (auto simp: v'_def t_def)
    have "drop (vb_head v) (vb_buf v') = drop (vb_head v) (take (vb_tail v) (vb_buf v)) @ take rw bs"
      using buf d ht inv by (simp add: min_def)
    then have "vbuf_list v' = drop (vb_head v) (take (vb_tail v) (vb_buf v)) @ take rw bs @ ?d"
      using tl d buf by (simp add: vbuf_list_def)
    then show ?thesis using ht by (simp add: vbuf_list_def drop_take)
  qed
qed

lemma gread_loop_conserves:
  assumes "\<And>e m n r bs e'. reader e m n = (r, bs, e') \<Longrightarrow>
      length bs = nat r \<and> r \<le> int (m + n) \<and> recvd e' = recvd e @ bs"
    and "vbuf_inv v" "sz \<le> vbuf_space v"
    and "gread_loop fuel reader is_min v sz e = Some (r, v', e')"
  shows "vbuf_inv v' \<and> (\<exists>d. recvd e' = recvd e @ d \<and> vbuf_list v' = vbuf_list v @ d)"
  using assms(2-)
proof (induction fuel arbitrary: v sz e)
  case 0
  then show ?case by simp
next
  case (Suc fuel)
  define rw where "rw = (if sz < vb_head_sz v then sz else vb_head_sz v)"
  obtain k bs e1 where k: "reader e rw (sz - rw) = (k, bs, e1)" by (metis prod_cases3)
  have bs: "length bs = nat k" "k \<le> int sz" "recvd e1 = recvd e @ bs"
    using assms(1) [OF k] by (auto simp: rw_def split: if_splits)
  have le: "sz \<le> vb_capacity v - length (vbuf_list v)" "length bs \<le> sz"
    using Suc.prems bs by (auto simp: vbuf_space_eq)
  define v1 where "v1 = v\<lparr>vb_buf := write_at (write_at (vb_buf v) (vb_tail v) (take rw bs)) 0 (drop rw bs),
      vb_tail := (if vb_end v \<le> vb_tail v + nat k then vb_tail v + nat k - vb_end v else vb_tail v + nat k)\<rparr>"
  note v1 = vbuf_store_list [OF Suc.prems(1) le, folded rw_def, unfolded bs(1), folded v1_def]
  have loop: "gread_loop (Suc fuel) reader is_min v sz e =
     (if k < 0 then Some (-1, v, e1)
      else if 0 < sz - nat k \<and> \<not> is_min then gread_loop fuel reader is_min v1 (sz - nat k) e1
      else Some (0, v1, e1))"
    using k bs(2) by (simp add: Let_def v1_def flip: rw_def)
  show ?case
  proof (cases "k < 0")
    case True
    with loop Suc.prems bs show ?thesis by auto
  next
    case False
    have "vbuf_inv v' \<and> (\<exists>d. recvd e' = recvd e1 @ d \<and> vbuf_list v' = vbuf_list v1 @ d)"
      using Suc.prems loop False Suc.IH [of v1 "sz - nat k" e1] v1 le bs
      by (auto simp: vbuf_space_eq split: if_splits)
    then show ?thesis using bs v1 by auto
  qed
qed

section \<open>The interface: a bounded FIFO queue of bytes\<close>

text \<open>
  A client drives a queue by the four operations below and sees their results. \<open>fifo_run\<close> gives
  the results and the queue at the end; \<^const>\<open>None\<close> would be a failed \<open>assert\<close>.
\<close>

datatype fifo_op = Fadd byte | Fpop | Fput "byte list" | Fget nat

datatype fifo_res = Rbool bool | Rint int | Rblk "byte list option"

definition fifo_step ::
    "('q \<Rightarrow> byte \<Rightarrow> bool \<times> 'q) \<Rightarrow> ('q \<Rightarrow> int \<times> 'q) \<Rightarrow> ('q \<Rightarrow> byte list \<Rightarrow> ('q \<times> bool) option) \<Rightarrow>
     ('q \<Rightarrow> nat \<Rightarrow> ('q \<times> byte list option) option) \<Rightarrow> 'q \<Rightarrow> fifo_op \<Rightarrow> (fifo_res \<times> 'q) option" where
  "fifo_step add pop put get q op =
     (case op of
        Fadd c \<Rightarrow> (case add q c of (ok, q') \<Rightarrow> Some (Rbool ok, q'))
      | Fpop \<Rightarrow> (case pop q of (c, q') \<Rightarrow> Some (Rint c, q'))
      | Fput s \<Rightarrow> map_option (\<lambda>(q', ok). (Rbool ok, q')) (put q s)
      | Fget n \<Rightarrow> map_option (\<lambda>(q', r). (Rblk r, q')) (get q n))"

primrec fifo_run ::
    "('q \<Rightarrow> fifo_op \<Rightarrow> (fifo_res \<times> 'q) option) \<Rightarrow> fifo_op list \<Rightarrow> 'q \<Rightarrow> (fifo_res list \<times> 'q) option" where
  "fifo_run step [] q = Some ([], q)"
| "fifo_run step (op # ops) q =
     Option.bind (step q op) (\<lambda>(r, q1). map_option (\<lambda>(rs, q'). (r # rs, q')) (fifo_run step ops q1))"

text \<open>
  The reference: a list of at most \<open>n\<close> bytes.  A byte is refused exactly when the list is full and a block when it is
  empty or does not fit; a block is delivered when it is there in full, a byte when there is one.
\<close>

definition queue_step :: "nat \<Rightarrow> byte list \<Rightarrow> fifo_op \<Rightarrow> fifo_res \<times> byte list" where
  "queue_step n q op =
     (case op of
        Fadd c \<Rightarrow> if length q < n then (Rbool True, q @ [c]) else (Rbool False, q)
      | Fpop \<Rightarrow> (case q of [] \<Rightarrow> (Rint (-1), []) | b # bs \<Rightarrow> (Rint (uint b), bs))
      | Fput s \<Rightarrow> if s \<noteq> [] \<and> length q + length s \<le> n then (Rbool True, q @ s) else (Rbool False, q)
      | Fget k \<Rightarrow> if 0 < k \<and> k \<le> length q then (Rblk (Some (take k q)), drop k q) else (Rblk None, q))"

primrec queue_run :: "nat \<Rightarrow> fifo_op list \<Rightarrow> byte list \<Rightarrow> fifo_res list \<times> byte list" where
  "queue_run n [] q = ([], q)"
| "queue_run n (op # ops) q =
     (case queue_step n q op of (r, q1) \<Rightarrow> case queue_run n ops q1 of (rs, q') \<Rightarrow> (r # rs, q'))"

locale byte_fifo =
  fixes inv :: "'q \<Rightarrow> bool"
    and content :: "'q \<Rightarrow> byte list"
    and cap :: "'q \<Rightarrow> nat"
    and add :: "'q \<Rightarrow> byte \<Rightarrow> bool \<times> 'q"
    and pop :: "'q \<Rightarrow> int \<times> 'q"
    and put :: "'q \<Rightarrow> byte list \<Rightarrow> ('q \<times> bool) option"
    and get :: "'q \<Rightarrow> nat \<Rightarrow> ('q \<times> byte list option) option"
  assumes content_le: "inv q \<Longrightarrow> length (content q) \<le> cap q"
    and add_ok: "inv q \<Longrightarrow> length (content q) < cap q \<Longrightarrow>
      \<exists>q'. add q c = (True, q') \<and> inv q' \<and> content q' = content q @ [c] \<and> cap q' = cap q"
    and add_full: "inv q \<Longrightarrow> length (content q) = cap q \<Longrightarrow> add q c = (False, q)"
    and pop_Cons: "inv q \<Longrightarrow> content q = b # bs \<Longrightarrow>
      \<exists>q'. pop q = (uint b, q') \<and> inv q' \<and> content q' = bs \<and> cap q' = cap q"
    and pop_Nil: "inv q \<Longrightarrow> content q = [] \<Longrightarrow>
      \<exists>q'. pop q = (-1, q') \<and> inv q' \<and> content q' = [] \<and> cap q' = cap q"
    and put_ok: "inv q \<Longrightarrow> s \<noteq> [] \<Longrightarrow> length s \<le> cap q - length (content q) \<Longrightarrow>
      \<exists>q'. put q s = Some (q', True) \<and> inv q' \<and> content q' = content q @ s \<and> cap q' = cap q"
    and put_fail: "inv q \<Longrightarrow> s = [] \<or> cap q - length (content q) < length s \<Longrightarrow> put q s = Some (q, False)"
    and get_ok: "inv q \<Longrightarrow> 0 < n \<Longrightarrow> n \<le> length (content q) \<Longrightarrow>
      \<exists>q'. get q n = Some (q', Some (take n (content q))) \<and> inv q' \<and> content q' = drop n (content q) \<and>
        cap q' = cap q"
    and get_fail: "inv q \<Longrightarrow> n = 0 \<or> length (content q) < n \<Longrightarrow> get q n = Some (q, None)"
begin

lemma step_refines:
  assumes "inv q"
  shows "\<exists>r q'. fifo_step add pop put get q op = Some (r, q') \<and> inv q' \<and> cap q' = cap q \<and>
    queue_step (cap q) (content q) op = (r, content q')"
proof (cases op)
  case (Fadd c)
  show ?thesis
  proof (cases "length (content q) < cap q")
    case True
    then show ?thesis using add_ok [OF assms True, of c] by (auto simp: fifo_step_def queue_step_def Fadd)
  next
    case False
    then have "add q c = (False, q)" using add_full [OF assms] content_le [OF assms] by simp
    then show ?thesis using assms False by (simp add: fifo_step_def queue_step_def Fadd)
  qed
next
  case Fpop
  then show ?thesis using pop_Nil [OF assms] pop_Cons [OF assms]
    by (cases "content q") (auto simp: fifo_step_def queue_step_def)
next
  case (Fput s)
  show ?thesis
  proof (cases "s \<noteq> [] \<and> length s \<le> cap q - length (content q)")
    case True
    then show ?thesis using put_ok [OF assms, of s] content_le [OF assms]
      by (auto simp: fifo_step_def queue_step_def Fput)
  next
    case False
    then have "put q s = Some (q, False)" using put_fail [OF assms, of s] by auto
    then show ?thesis using assms False by (auto simp: fifo_step_def queue_step_def Fput)
  qed
next
  case (Fget k)
  show ?thesis
  proof (cases "0 < k \<and> k \<le> length (content q)")
    case True
    then show ?thesis using get_ok [OF assms, of k] by (auto simp: fifo_step_def queue_step_def Fget)
  next
    case False
    then have "get q k = Some (q, None)" using get_fail [OF assms, of k] by auto
    then show ?thesis using assms False by (auto simp: fifo_step_def queue_step_def Fget)
  qed
qed

lemma run_refines:
  "inv q \<Longrightarrow> \<exists>rs q'. fifo_run (fifo_step add pop put get) ops q = Some (rs, q') \<and> inv q' \<and> cap q' = cap q \<and>
    queue_run (cap q) ops (content q) = (rs, content q')"
proof (induction ops arbitrary: q)
  case (Cons op ops)
  from step_refines [OF Cons.prems, of op] obtain r q1 where s: "fifo_step add pop put get q op = Some (r, q1)" "inv q1"
    "cap q1 = cap q" "queue_step (cap q) (content q) op = (r, content q1)" by blast
  from Cons.IH [OF s(2)] s show ?case by fastforce
qed simp

end

interpretation vb: byte_fifo vbuf_inv vbuf_list vb_capacity vbuf_add vbuf_pop vbuf_putblk vbuf_getblk
proof unfold_locales
  fix q :: vbuf assume "vbuf_inv q" "vbuf_list q = []"
  then show "\<exists>q'. vbuf_pop q = (-1, q') \<and> vbuf_inv q' \<and> vbuf_list q' = [] \<and> vb_capacity q' = vb_capacity q"
    by (simp add: vbuf_pop_Nil EOF_def vbuf_normalize_inv)
qed (use vbuf_size_le in \<open>auto simp: length_vbuf_list [symmetric] vbuf_add_ok vbuf_add_full vbuf_pop_Cons
      vbuf_putblk_ok vbuf_putblk_fail vbuf_getblk_ok vbuf_getblk_fail\<close>)

section \<open>Properties\<close>

text \<open>Two small buffers the witnesses use: one wrapped, one not.\<close>

definition ring3 :: vbuf where
  "ring3 = \<lparr>vb_buf = [5, 6, 7], vb_head = 2, vb_tail = 1, vb_capacity = 2\<rparr>"

definition flat4 :: vbuf where
  "flat4 = \<lparr>vb_buf = [97, 0, 99, 0], vb_head = 0, vb_tail = 3, vb_capacity = 3\<rparr>"

lemma ring3 [simp]:
  "vbuf_inv ring3" "vbuf_list ring3 = [7, 5]" "vb_head ring3 = 2" "vb_tail ring3 = 1"
  "vb_capacity ring3 = 2" "vb_end ring3 = 3"
  by (simp_all add: ring3_def vbuf_inv_def vbuf_list_def)

lemma flat4 [simp]: "vbuf_inv flat4" "vbuf_list flat4 = [97, 0, 99]"
  by (simp_all add: flat4_def vbuf_inv_def vbuf_list_def numeral_3_eq_3)

lemma vbuf_attach_queue:
  "vbuf_attach mem = Some v \<Longrightarrow> vbuf_inv v \<and> vbuf_list v = [] \<and> vb_capacity v = length mem - 1"
  by (auto simp: vbuf_attach_def vbuf_inv_def vbuf_list_def split: if_splits)

text \<open>
  C2. A well-formed buffer is a bounded FIFO queue of bytes: every sequence of \<open>vbuf_add\<close>, \<open>vbuf_pop\<close>, \<open>vbuf_putblk\<close> and \<open>vbuf_getblk\<close>
  runs without a failed \<open>assert\<close>, returns the results that a list bounded by the capacity returns, refusals and empty reads included, and
  leaves a well-formed buffer that holds the list.  A freshly attached buffer of \<open>n + 1\<close> bytes is well-formed, empty and of capacity \<open>n\<close>.
\<close>

theorem vbuf_fifo:
  assumes "vbuf_inv v"
  shows "(\<exists>rs v'. fifo_run (fifo_step vbuf_add vbuf_pop vbuf_putblk vbuf_getblk) ops v = Some (rs, v') \<and>
      queue_run (vb_capacity v) ops (vbuf_list v) = (rs, vbuf_list v') \<and> vbuf_inv v' \<and> vb_capacity v' = vb_capacity v) \<and>
    (vbuf_attach mem = Some v0 \<longrightarrow> vbuf_inv v0 \<and> vbuf_list v0 = [] \<and> vb_capacity v0 = length mem - 1)"
proof (intro conjI impI)
  show "\<exists>rs v'. fifo_run (fifo_step vbuf_add vbuf_pop vbuf_putblk vbuf_getblk) ops v = Some (rs, v') \<and>
      queue_run (vb_capacity v) ops (vbuf_list v) = (rs, vbuf_list v') \<and> vbuf_inv v' \<and> vb_capacity v' = vb_capacity v"
    using vb.run_refines [OF assms, of ops] by metis
qed (use vbuf_attach_queue in auto)

theorem vbuf_fifo_witness:
  "\<exists>rs v'. fifo_run (fifo_step vbuf_add vbuf_pop vbuf_putblk vbuf_getblk) [Fpop, Fput [8, 9], Fadd 9, Fadd 10, Fget 2, Fpop] ring3 = Some (rs, v') \<and>
    rs = [Rint 7, Rbool False, Rbool True, Rbool False, Rblk (Some [5, 9]), Rint (-1)] \<and> vbuf_list v' = [] \<and> vbuf_inv v'"
proof -
  let ?ops = "[Fpop, Fput [8, 9], Fadd 9, Fadd 10, Fget 2, Fpop]"
  obtain rs v' where r: "fifo_run (fifo_step vbuf_add vbuf_pop vbuf_putblk vbuf_getblk) ?ops ring3 = Some (rs, v')"
    "queue_run (vb_capacity ring3) ?ops (vbuf_list ring3) = (rs, vbuf_list v')" "vbuf_inv v'"
    using vbuf_fifo [OF ring3(1), of ?ops] by metis
  have "rs = [Rint 7, Rbool False, Rbool True, Rbool False, Rblk (Some [5, 9]), Rint (-1)] \<and> vbuf_list v' = []"
    using r(2) by (simp add: queue_step_def)
  then show ?thesis using r(1,3) by metis
qed

text \<open>
  \<open>vbuf_strchr\<close> is \<open>memchr\<close> on the queue, wrapped or not: the distance from the
  read end to the first occurrence of the byte, \<open>EOF\<close> when there is none.
\<close>

lemma vbuf_strchr_spec:
  assumes "vbuf_inv v"
  shows "vbuf_strchr v c = (case memchr c (vbuf_list v) of None \<Rightarrow> EOF | Some i \<Rightarrow> int i)"
  using assms
  by (auto simp: vbuf_strchr_def vbuf_list_def vbuf_is_empty_def memchr_append vbuf_inv_def Let_def
      split: option.splits)


text \<open>
  \<open>vbuf_popn\<close> removes the first \<open>n\<close> bytes when the buffer holds that many.
\<close>

lemma vbuf_popn_ok:
  assumes "vbuf_inv v" "n \<le> length (vbuf_list v)"
  shows "vbuf_inv (vbuf_popn v n) \<and> vbuf_list (vbuf_popn v n) = drop n (vbuf_list v)"
  using assms
  by (auto simp: vbuf_popn_def Let_def vbuf_inv_def vbuf_normalize_def)
    (auto simp: vbuf_list_def drop_take add.commute)



text \<open>
  \<open>vbuf_cstr\<close> returns the stored bytes as one NUL-terminated string and leaves the
  queue as it was, for a buffer that is not wrapped or whose wrapped part is at most
  128 bytes.
\<close>

lemma vbuf_cstr_flat:
  assumes "vbuf_inv v" "vbuf_list v \<noteq> []" "vb_head v \<le> vb_tail v \<or> vb_tail v \<le> 128"
  shows "\<exists>v' rest. vbuf_cstr v = (v', Some (vbuf_list v @ 0 # rest)) \<and> vbuf_inv v' \<and>
    vbuf_list v' = vbuf_list v"
  using assms by (rule vbuf_cstr_ok)

text \<open>
  With a longer wrapped part the rotation of \<open>vbuf_flat\<close> is wrong: there is a well
  formed buffer whose contents it permutes.
\<close>

lemma vbuf_flat_corrupts:
  "\<exists>v. vbuf_inv v \<and> vbuf_list (vbuf_flat v) \<noteq> vbuf_list v"
proof -
  let ?v = "\<lparr>vb_buf = replicate 128 0 @ [1, 2, 3], vb_head = 130, vb_tail = 129, vb_capacity = 130\<rparr>"
  have "vbuf_inv ?v" by (simp add: vbuf_inv_def)
  moreover have "vbuf_list (vbuf_flat ?v) \<noteq> vbuf_list ?v" by code_simp
  ultimately show ?thesis by blast
qed



text \<open>
  The in-place variant \<open>vbuf_flat_inplace\<close> keeps the queue of every well-formed
  buffer and leaves it unwrapped.
\<close>

lemma vbuf_flat_inplace_correct:
  assumes "vbuf_inv v"
  shows "vbuf_inv (vbuf_flat_inplace v) \<and> vbuf_list (vbuf_flat_inplace v) = vbuf_list v \<and>
    vb_head (vbuf_flat_inplace v) \<le> vb_tail (vbuf_flat_inplace v)"
  using assms by (rule vbuf_flat_inplace_ok)

text \<open>
  \<open>vbuf_general_write\<close> neither loses, repeats nor reorders bytes: when the callback
  takes a prefix of what it is handed, what it has taken followed by what is left in
  the buffer is what was there before, whether the call ends normally, by an error or
  by \<open>EAGAIN\<close>; and with a callback that never returns 0 the call does end, without
  a failing \<open>assert\<close>.
\<close>

lemma vbuf_general_write_conserves:
  assumes writer: "\<And>e a b r e'. writer e a b = (r, e') \<Longrightarrow>
      r \<noteq> 0 \<and> r \<le> int (length (a @ b)) \<and> sent e' = sent e @ take (nat r) (a @ b)"
    and v: "vbuf_inv v" and fuel: "vb_capacity v < fuel"
  shows "\<exists>r v' e'. vbuf_general_write fuel writer v sz e = Some (r, v', e') \<and> r \<in> {-1, 0} \<and>
    vbuf_inv v' \<and> sent e' @ vbuf_list v' = sent e @ vbuf_list v"
proof -
  have tot: "\<exists>r v' e'. gwrite_loop fuel writer m v n e = Some (r, v', e') \<and> r \<in> {-1, 0} \<and>
      vbuf_inv v' \<and> sent e' @ vbuf_list v' = sent e @ vbuf_list v" if n: "n \<le> vbuf_size v" for m n
  proof -
    have "n < fuel" using n fuel vbuf_size_le [OF v] by simp
    with gwrite_loop_total [of writer v n fuel m e] writer v n
    obtain r v' e' where g: "gwrite_loop fuel writer m v n e = Some (r, v', e')" by blast
    moreover have "r \<in> {-1, 0}" using gwrite_loop_ret [OF g] .
    ultimately show ?thesis
      using gwrite_loop_conserves [of writer sent v n fuel m e r v' e'] writer v n by blast
  qed
  show ?thesis
    using tot [of "nat (int (vbuf_size v))" False] tot [of "nat (int (vbuf_size v))" True]
      tot [of "nat sz" False] v
    by (auto simp: vbuf_general_write_def nat_le_iff)
qed

text \<open>
  \<open>vbuf_general_read\<close> appends exactly what the callback stored, wherever the free
  space wraps.
\<close>

lemma vbuf_general_read_conserves:
  assumes reader: "\<And>e m n r bs e'. reader e m n = (r, bs, e') \<Longrightarrow>
      length bs = nat r \<and> r \<le> int (m + n) \<and> recvd e' = recvd e @ bs"
    and v: "vbuf_inv v" and ret: "vbuf_general_read fuel reader v sz e = Some (r, v', e')"
  shows "vbuf_inv v' \<and> (\<exists>d. recvd e' = recvd e @ d \<and> vbuf_list v' = vbuf_list v @ d)"
  using gread_loop_conserves [of reader recvd v "nat (int (vbuf_space v))" fuel _ e r v' e']
    gread_loop_conserves [of reader recvd v "nat sz" fuel _ e r v' e'] reader v ret
  by (auto simp: vbuf_general_read_def nat_le_iff Let_def split: if_splits)

text \<open>
  \<open>vbuf_getstr\<close> with a NUL among the first \<open>sz\<close> stored bytes: the destination gets
  the bytes up to and including the NUL, and exactly those leave the buffer.
\<close>

lemma vbuf_getstr_nul:
  assumes "vbuf_inv v" "memchr 0 (vbuf_list v) = Some k" "k < sz"
  shows "\<exists>v'. vbuf_getstr v sz = Some (v', Some (take (Suc k) (vbuf_list v))) \<and> vbuf_inv v' \<and>
    vbuf_list v' = drop (Suc k) (vbuf_list v)"
proof -
  have "vbuf_list v \<noteq> []" using assms(2) by auto
  with getstr_loop_nul [OF assms, of "[]"] assms show ?thesis
    by (auto simp: vbuf_getstr_def vbuf_is_empty_iff)
qed

text \<open>
  When the stored bytes hold no NUL and the destination has room to spare,
  \<open>vbuf_getstr\<close> drains the buffer but overwrites the last byte it copied with the NUL,
  so that byte is lost.
\<close>

lemma vbuf_getstr_drops_last:
  assumes "vbuf_inv v" "vbuf_list v \<noteq> []" "0 \<notin> set (vbuf_list v)" "length (vbuf_list v) + 1 < sz"
  shows "\<exists>v'. vbuf_getstr v sz = Some (v', Some (butlast (vbuf_list v) @ [0])) \<and> vbuf_list v' = []"
  using getstr_loop_drained [of v sz "[]"] assms by (auto simp: vbuf_getstr_def vbuf_is_empty_iff)

text \<open>
  In a wrapped buffer \<open>vbuf_peekat\<close> answers \<open>EOF\<close> for every index of the first part,
  index 0 included, although these bytes are stored and \<open>vbuf_peek\<close> returns them.
\<close>

lemma vbuf_peekat_wrapped_EOF:
  assumes "vbuf_inv v" "vb_tail v < vb_head v" "i < vb_end v - vb_head v"
  shows "vbuf_peekat v i = EOF \<and> vbuf_peek v = uint (hd (vbuf_list v)) \<and> i < length (vbuf_list v)"
proof -
  have "vbuf_list v \<noteq> []" "vb_head v \<noteq> vb_tail v" using assms by (auto simp: vbuf_list_def vbuf_inv_def)
  with assms vbuf_list_hd [of v] show ?thesis
    by (auto simp: vbuf_peekat_def vbuf_peek_def vbuf_is_empty_def vbuf_inv_def Let_def vbuf_list_def)
qed

end
