(* ===== verification/Machine.thy ===== *)
theory Machine
  imports Prelude
begin

text \<open>
  Byte-driven automata.  The input filter, the keyboard parser and the
  multibyte decoders of the program all consume one unit at a time and keep
  their state in a context; \<open>run_machine\<close> feeds a list of units to such a step
  function.  The interface the clients rely on is the locale \<open>machine\<close>: the
  step is defined and keeps the invariant on every well-formed context.  From it
  follow that a run never gets stuck, keeps the invariant and can be cut
  anywhere.
\<close>

primrec run_machine ::
  "('s \<Rightarrow> 'a \<Rightarrow> ('s \<times> 'o list) option) \<Rightarrow> 's \<Rightarrow> 'a list \<Rightarrow> ('s \<times> 'o list) option" where
  "run_machine step s [] = Some (s, [])"
| "run_machine step s (x # xs) =
     (case step s x of
        None \<Rightarrow> None
      | Some (s', os) \<Rightarrow> map_option (\<lambda>(s'', os'). (s'', os @ os')) (run_machine step s' xs))"

text \<open>The contexts a step function can reach.\<close>

inductive reach :: "('s \<Rightarrow> 'a \<Rightarrow> ('s \<times> 'o list) option) \<Rightarrow> 's \<Rightarrow> 's \<Rightarrow> bool"
  for step and s0 where
  reach_init: "reach step s0 s0"
| reach_step: "reach step s0 s \<Longrightarrow> step s x = Some (s', os) \<Longrightarrow> reach step s0 s'"

lemma run_machine_append:
  "run_machine step s (xs @ ys) =
     (case run_machine step s xs of
        None \<Rightarrow> None
      | Some (s', os) \<Rightarrow> map_option (\<lambda>(s'', os'). (s'', os @ os')) (run_machine step s' ys))"
proof (induction xs arbitrary: s)
  case Nil
  show ?case by (cases "run_machine step s ys") auto
next
  case (Cons x xs)
  show ?case
  proof (cases "step s x")
    case (Some p)
    obtain s1 os1 where p: "p = (s1, os1)" by (cases p)
    show ?thesis
      by (cases "run_machine step s1 xs")
        (auto simp: Cons.IH Some p option.map_comp comp_def split_def)
  qed simp
qed

lemma run_machine_seq:
  "run_machine step s xs = Some (s1, os1) \<Longrightarrow> run_machine step s1 ys = Some (s2, os2) \<Longrightarrow>
     run_machine step s (xs @ ys) = Some (s2, os1 @ os2)"
  by (simp add: run_machine_append)

lemma run_machine_reach:
  "reach step s0 s \<Longrightarrow> run_machine step s xs = Some (s', os) \<Longrightarrow> reach step s0 s'"
proof (induction xs arbitrary: s s' os)
  case (Cons x xs)
  then show ?case
    by (auto split: option.splits) (metis reach_step)
qed simp

locale machine =
  fixes step :: "'s \<Rightarrow> 'a \<Rightarrow> ('s \<times> 'o list) option"
    and inv :: "'s \<Rightarrow> bool"
  assumes step_total: "inv s \<Longrightarrow> \<exists>s' os. step s x = Some (s', os) \<and> inv s'"
begin

lemma run_total: "inv s \<Longrightarrow> \<exists>s' os. run_machine step s xs = Some (s', os) \<and> inv s'"
proof (induction xs arbitrary: s)
  case Nil
  then show ?case by simp
next
  case (Cons x xs)
  obtain s1 os1 where 1: "step s x = Some (s1, os1)" "inv s1"
    using step_total Cons.prems by blast
  obtain s2 os2 where "run_machine step s1 xs = Some (s2, os2)" "inv s2"
    using Cons.IH 1(2) by blast
  with 1 show ?case by simp
qed

lemma run_inv: "inv s \<Longrightarrow> run_machine step s xs = Some (s', os) \<Longrightarrow> inv s'"
  using run_total [of s xs] by auto

lemma reach_inv: "reach step s0 s \<Longrightarrow> inv s0 \<Longrightarrow> inv s"
proof (induction rule: reach.induct)
  case (reach_step s x s' os)
  then show ?case using step_total [of s x] by auto
qed

text \<open>A reachable context accepts every unit and stays well-formed.\<close>

lemma reach_safe:
  "reach step s0 s \<Longrightarrow> inv s0 \<Longrightarrow> inv s \<and> (\<exists>s' os. step s x = Some (s', os))"
  using reach_inv step_total by blast

end

text \<open>
  An automaton whose output is paid for by its input: every unit read adds \<open>rate\<close> to what
  may be written, and \<open>held\<close> is what the context still owes.
\<close>

locale bounded_machine = machine step inv
  for step :: "'s \<Rightarrow> 'a \<Rightarrow> ('s \<times> 'o list) option" and inv :: "'s \<Rightarrow> bool" +
  fixes held :: "'s \<Rightarrow> nat" and rate :: nat
  assumes step_held: "inv s \<Longrightarrow> step s x = Some (s', os) \<Longrightarrow> length os + held s' \<le> rate + held s"
begin

lemma run_held:
  "inv s \<Longrightarrow> run_machine step s xs = Some (s', os) \<Longrightarrow> length os + held s' \<le> rate * length xs + held s"
proof (induction xs arbitrary: s os)
  case (Cons x xs)
  obtain s1 os1 where 1: "step s x = Some (s1, os1)" "inv s1" using step_total Cons.prems(1) by blast
  with Cons.prems(2) obtain os2 where 2: "run_machine step s1 xs = Some (s', os2)" "os = os1 @ os2"
    by (auto split: option.splits)
  from Cons.IH [OF 1(2) 2(1)] step_held [OF Cons.prems(1) 1(1)] 2(2) show ?case by simp
qed simp

end

end
