(* ===== verification/Telnet.thy ===== *)
theory Telnet
  imports Machine
begin

text \<open>
  The TELNET input filter of \<open>src/common/sys/telnet.c\<close>.  A context holds the
  state of the IAC automaton and the suboption buffer; \<open>telnet_handler\<close>
  consumes one byte and either keeps it as user input (return value 0) or
  swallows it, and \<open>telnet_process\<close> compacts a received buffer in place.  What
  the code does to the outside (callbacks and writes to the descriptor) is the
  list of events each operation returns.  The theory shows that filtering a
  stream does not depend on how it is cut into buffers, that the suboption
  buffer is never overrun, that the replies can never start a negotiation loop,
  and what the automaton does with window sizes and oversized suboptions.
\<close>

section \<open>Constants of the protocol\<close>

abbreviation IAC :: byte where "IAC \<equiv> 255"
abbreviation DONT :: byte where "DONT \<equiv> 254"
abbreviation DO :: byte where "DO \<equiv> 253"
abbreviation WONT :: byte where "WONT \<equiv> 252"
abbreviation WILL :: byte where "WILL \<equiv> 251"
abbreviation SB :: byte where "SB \<equiv> 250"
abbreviation AYT :: byte where "AYT \<equiv> 246"
abbreviation SE :: byte where "SE \<equiv> 240"
abbreviation NOP :: nat where "NOP \<equiv> 241"

abbreviation TELOPT_BINARY :: byte where "TELOPT_BINARY \<equiv> 0"
abbreviation TELOPT_ECHO :: byte where "TELOPT_ECHO \<equiv> 1"
abbreviation TELOPT_SGA :: byte where "TELOPT_SGA \<equiv> 3"
abbreviation TELOPT_TTYPE :: byte where "TELOPT_TTYPE \<equiv> 24"
abbreviation TELOPT_NAWS :: byte where "TELOPT_NAWS \<equiv> 31"
abbreviation TELQUAL_SEND :: byte where "TELQUAL_SEND \<equiv> 1"
abbreviation TELNET_IAC_MAXLEN :: nat where "TELNET_IAC_MAXLEN \<equiv> 32"

section \<open>State\<close>

datatype iac_states = IAC_NONE | IAC_COMMAND | IAC_WAIT_OPT | IAC_WAIT_SE | IAC_PROCESS_OPT | IAC_ERROR

text \<open>Which entries of the callback structure are not \<open>NULL\<close>.\<close>

record telnet_callback =
  write_data :: bool
  term_resize :: bool
  update_client_code :: bool
  send_ayt :: bool
  ttype :: bool

record telnet_ctx =
  iac_state :: iac_states
  iac_quote :: bool
  iac_opt_req :: byte
  iac_buf :: "byte list"
  iac_buflen :: nat
  callback :: telnet_callback
  cc_arg :: bool
  write_arg :: nat
  resize_arg :: nat
  ayt_arg :: nat
  ttype_arg :: nat

text \<open>
  Calls that leave the module: the client-code hash, the write callback, a
  plain \<open>write\<close> on the descriptor, the resize, are-you-there and terminal-type
  callbacks.
\<close>

datatype telnet_event =
    EvCC byte
  | EvWriteData "byte list"
  | EvFdWrite "byte list"
  | EvResize int int
  | EvAyt
  | EvTtype "byte list"

definition telnet_ctx_init :: "telnet_callback \<Rightarrow> telnet_ctx" where
  "telnet_ctx_init cb = \<lparr> iac_state = IAC_NONE, iac_quote = False, iac_opt_req = 0,
     iac_buf = replicate TELNET_IAC_MAXLEN 0, iac_buflen = 0, callback = cb, cc_arg = False,
     write_arg = 0, resize_arg = 0, ayt_arg = 0, ttype_arg = 0 \<rparr>"

definition telnet_ctx_set_cc_arg :: "telnet_ctx \<Rightarrow> bool \<Rightarrow> telnet_ctx" where
  "telnet_ctx_set_cc_arg ctx arg = ctx\<lparr>cc_arg := arg\<rparr>"

definition telnet_ctx_set_write_arg :: "telnet_ctx \<Rightarrow> nat \<Rightarrow> telnet_ctx" where
  "telnet_ctx_set_write_arg ctx arg = ctx\<lparr>write_arg := arg\<rparr>"

definition telnet_ctx_set_resize_arg :: "telnet_ctx \<Rightarrow> nat \<Rightarrow> telnet_ctx" where
  "telnet_ctx_set_resize_arg ctx arg = ctx\<lparr>resize_arg := arg\<rparr>"

definition telnet_ctx_set_ayt_arg :: "telnet_ctx \<Rightarrow> nat \<Rightarrow> telnet_ctx" where
  "telnet_ctx_set_ayt_arg ctx arg = ctx\<lparr>ayt_arg := arg\<rparr>"

definition telnet_ctx_set_ttype_arg :: "telnet_ctx \<Rightarrow> nat \<Rightarrow> telnet_ctx" where
  "telnet_ctx_set_ttype_arg ctx arg = ctx\<lparr>ttype_arg := arg\<rparr>"

section \<open>Operations\<close>

definition telnet_init_cmds :: "byte list" where
  "telnet_init_cmds =
     [IAC, DO, TELOPT_TTYPE, IAC, SB, TELOPT_TTYPE, TELQUAL_SEND, IAC, SE,
      IAC, DO, TELOPT_NAWS, IAC, WILL, TELOPT_ECHO, IAC, WILL, TELOPT_SGA,
      IAC, WILL, TELOPT_BINARY, IAC, DO, TELOPT_BINARY]"

definition telnet_write :: "telnet_ctx \<Rightarrow> byte list \<Rightarrow> telnet_event list" where
  "telnet_write ctx xs = [if write_data (callback ctx) then EvWriteData xs else EvFdWrite xs]"

definition telnet_ctx_send_init_cmds :: "telnet_ctx \<Rightarrow> telnet_event list" where
  "telnet_ctx_send_init_cmds ctx = telnet_write ctx telnet_init_cmds"

text \<open>The default answer, \<open>"I'm still alive.\r\n"\<close>.\<close>

definition telnet_default_ayt :: "byte list" where
  "telnet_default_ayt =
     [73, 39, 109, 32, 115, 116, 105, 108, 108, 32, 97, 108, 105, 118, 101, 46, 13, 10]"

definition telnet_send_ayt :: "telnet_ctx \<Rightarrow> telnet_event list" where
  "telnet_send_ayt ctx =
     (if send_ayt (callback ctx) then [EvAyt] else telnet_write ctx telnet_default_ayt)"

text \<open>The client-code callback runs when both its argument and the entry are set.\<close>

definition update_cc :: "telnet_ctx \<Rightarrow> byte list \<Rightarrow> telnet_event list" where
  "update_cc ctx xs = (if cc_arg ctx \<and> update_client_code (callback ctx) then map EvCC xs else [])"

text \<open>\<open>case IAC_COMMAND\<close>\<close>

definition telnet_command :: "telnet_ctx \<Rightarrow> byte \<Rightarrow> nat \<times> telnet_ctx \<times> telnet_event list" where
  "telnet_command ctx0 c =
     (let ctx = ctx0\<lparr>iac_state := IAC_NONE\<rparr> in
      if c = IAC then (1, ctx, [])
      else if c = AYT then (NOP, ctx, telnet_send_ayt ctx)
      else if c \<in> {DONT, DO, WONT, WILL} then
        (NOP, ctx\<lparr>iac_opt_req := c, iac_state := IAC_WAIT_OPT\<rparr>, [])
      else if c = SB then (NOP, ctx\<lparr>iac_state := IAC_WAIT_SE, iac_buflen := 0\<rparr>, [])
      else (NOP, ctx, []))"

text \<open>\<open>case IAC_WAIT_OPT\<close>\<close>

definition telnet_wait_opt :: "telnet_ctx \<Rightarrow> byte \<Rightarrow> nat \<times> telnet_ctx \<times> telnet_event list" where
  "telnet_wait_opt ctx0 c =
     (let ctx = ctx0\<lparr>iac_state := IAC_NONE\<rparr> in
      (1, ctx,
       if c \<in> {TELOPT_TTYPE, TELOPT_NAWS, TELOPT_SGA, TELOPT_ECHO, TELOPT_BINARY} then []
       else if iac_opt_req ctx = WILL \<or> iac_opt_req ctx = DO then
         telnet_write ctx [IAC, if iac_opt_req ctx = DO then WONT else DONT, c]
       else []))"

text \<open>\<open>case IAC_WAIT_SE\<close>; storing outside \<open>iac_buf\<close> is \<^const>\<open>None\<close>.\<close>

definition telnet_wait_se ::
  "telnet_ctx \<Rightarrow> byte \<Rightarrow> (nat \<times> telnet_ctx \<times> telnet_event list) option" where
  "telnet_wait_se ctx0 c =
     (if iac_buflen ctx0 \<ge> length (iac_buf ctx0) then None
      else let ctx = ctx0\<lparr>iac_buf := (iac_buf ctx0)[iac_buflen ctx0 := c],
                          iac_buflen := iac_buflen ctx0 + 1\<rparr> in
        if iac_buflen ctx = TELNET_IAC_MAXLEN then Some (0, ctx\<lparr>iac_state := IAC_NONE\<rparr>, [])
        else Some (1, ctx, []))"

text \<open>\<open>case IAC_PROCESS_OPT\<close>\<close>

definition telnet_process_opt :: "telnet_ctx \<Rightarrow> nat \<times> telnet_ctx \<times> telnet_event list" where
  "telnet_process_opt ctx0 =
     (let ctx = ctx0\<lparr>iac_state := IAC_NONE\<rparr>;
          at = (\<lambda>i. uint (iac_buf ctx ! i));
          upd_all = update_cc ctx (take (iac_buflen ctx) (iac_buf ctx) @ [IAC, SE]) in
      if iac_buf ctx ! 0 = TELOPT_NAWS then
        let w = at 1 * 256 + at 2; h = at 3 * 256 + at 4 in
        (1, ctx,
         (if term_resize (callback ctx) then [EvResize w h] else []) @
         update_cc ctx
           [iac_buf ctx ! 0,
            if w = 80 \<and> h = 24 then 1 else if w = 80 then 2 else if h = 24 then 3 else 4,
            IAC, SE])
      else if iac_buf ctx ! 0 = TELOPT_TTYPE then
        (1, ctx,
         (if ttype (callback ctx) \<and> iac_buflen ctx > 2
          then [EvTtype (take (iac_buflen ctx - 2) (drop 2 (iac_buf ctx)))] else []) @ upd_all)
      else (1, ctx, upd_all))"

text \<open>The hash of the client's sequences, which skips suboptions.\<close>

definition telnet_hash :: "telnet_ctx \<Rightarrow> byte \<Rightarrow> telnet_event list" where
  "telnet_hash ctx c =
     (if iac_state ctx = IAC_WAIT_SE then []
      else update_cc ctx (if iac_quote ctx then [IAC, c] else [c]))"

text \<open>A pending IAC opens a command at the top level and ends a suboption before SE.\<close>

definition telnet_unquote :: "telnet_ctx \<Rightarrow> byte \<Rightarrow> telnet_ctx" where
  "telnet_unquote ctx c =
     (if iac_quote ctx then
        let st = (if iac_state ctx = IAC_NONE then IAC_COMMAND else iac_state ctx);
            st' = (if st = IAC_WAIT_SE \<and> c = SE then IAC_PROCESS_OPT else st) in
        ctx\<lparr>iac_state := st', iac_quote := False\<rparr>
      else ctx)"

text \<open>The switch over the states.\<close>

definition telnet_dispatch ::
  "telnet_ctx \<Rightarrow> byte \<Rightarrow> (nat \<times> telnet_ctx \<times> telnet_event list) option" where
  "telnet_dispatch ctx c =
     (case iac_state ctx of
        IAC_NONE \<Rightarrow> Some (0, ctx, [])
      | IAC_COMMAND \<Rightarrow> Some (telnet_command ctx c)
      | IAC_WAIT_OPT \<Rightarrow> Some (telnet_wait_opt ctx c)
      | IAC_WAIT_SE \<Rightarrow> telnet_wait_se ctx c
      | IAC_PROCESS_OPT \<Rightarrow> Some (telnet_process_opt ctx)
      | IAC_ERROR \<Rightarrow> Some (1, ctx, []))"

definition telnet_handler ::
  "telnet_ctx \<Rightarrow> byte \<Rightarrow> (nat \<times> telnet_ctx \<times> telnet_event list) option" where
  "telnet_handler ctx c =
     (if c = IAC \<and> \<not> iac_quote ctx then Some (NOP, ctx\<lparr>iac_quote := True\<rparr>, [])
      else map_option (\<lambda>(r, ctx', ev). (r, ctx', telnet_hash ctx c @ ev))
             (telnet_dispatch (telnet_unquote ctx c) c))"

text \<open>
  The loop of \<open>telnet_process\<close>: \<open>i\<close> is the read index (\<open>buf\<close>), \<open>j\<close> the write
  index (\<open>buf2\<close>) and \<open>i2\<close> the number of swallowed bytes; reads and writes go to
  the same array.
\<close>

primrec telnet_loop ::
  "nat \<Rightarrow> telnet_ctx \<Rightarrow> byte list \<Rightarrow> nat \<Rightarrow> nat \<Rightarrow> nat \<Rightarrow> telnet_event list \<Rightarrow>
     (nat \<times> byte list \<times> telnet_ctx \<times> telnet_event list) option" where
  "telnet_loop 0 ctx arr i j i2 evs = Some (i2, arr, ctx, evs)"
| "telnet_loop (Suc n) ctx arr i j i2 evs =
     (case telnet_handler ctx (arr ! i) of
        None \<Rightarrow> None
      | Some (r, ctx', ev) \<Rightarrow>
          if r = 0 then telnet_loop n ctx' (arr[j := arr ! i]) (i + 1) (j + 1) i2 (evs @ ev)
          else telnet_loop n ctx' arr (i + 1) j (i2 + 1) (evs @ ev))"

text \<open>The return value, the buffer afterwards, the context and the events.\<close>

definition telnet_process ::
  "telnet_ctx \<Rightarrow> byte list \<Rightarrow> (int \<times> byte list \<times> telnet_ctx \<times> telnet_event list) option" where
  "telnet_process ctx buf =
     (if buf \<noteq> [] then
        if iac_state ctx = IAC_NONE \<and> \<not> iac_quote ctx \<and> memchr IAC buf = None
        then Some (int (length buf), buf, ctx, [])
        else case telnet_loop (length buf) ctx buf 0 0 0 [] of
          None \<Rightarrow> None
        | Some (i2, arr, ctx', evs) \<Rightarrow>
            Some (if i2 = length buf then -1 else int (length buf) - int i2, arr, ctx', evs)
      else Some (0, buf, ctx, []))"

section \<open>The automaton as a machine\<close>

text \<open>What one byte produces: calls to the outside, then possibly user input.\<close>

datatype telnet_out = Ev telnet_event | Input byte

definition telnet_step :: "telnet_ctx \<Rightarrow> byte \<Rightarrow> (telnet_ctx \<times> telnet_out list) option" where
  "telnet_step ctx c =
     map_option (\<lambda>(r, ctx', ev). (ctx', map Ev ev @ (if r = 0 then [Input c] else [])))
       (telnet_handler ctx c)"

fun inputs :: "telnet_out list \<Rightarrow> byte list" where
  "inputs [] = []"
| "inputs (Input c # os) = c # inputs os"
| "inputs (Ev e # os) = inputs os"

fun events :: "telnet_out list \<Rightarrow> telnet_event list" where
  "events [] = []"
| "events (Input c # os) = events os"
| "events (Ev e # os) = e # events os"

fun is_cc :: "telnet_event \<Rightarrow> bool" where
  "is_cc (EvCC _) = True"
| "is_cc _ = False"

text \<open>All calls but the updates of the client-code hash.\<close>

definition calls :: "telnet_event list \<Rightarrow> telnet_event list" where
  "calls = filter (\<lambda>e. \<not> is_cc e)"

lemma inputs_append [simp]: "inputs (xs @ ys) = inputs xs @ inputs ys"
  by (induction xs rule: inputs.induct) auto

lemma events_append [simp]: "events (xs @ ys) = events xs @ events ys"
  by (induction xs rule: events.induct) auto

lemma inputs_Ev [simp]: "inputs (map Ev es) = []"
  by (induction es) auto

lemma events_Ev [simp]: "events (map Ev es) = es"
  by (induction es) auto

lemma calls_append [simp]: "calls (xs @ ys) = calls xs @ calls ys"
  by (simp add: calls_def)

lemma calls_Nil [simp]: "calls [] = []"
  by (simp add: calls_def)

lemma calls_EvResize [simp]: "calls (EvResize w h # es) = EvResize w h # calls es"
  by (simp add: calls_def)

lemma calls_update_cc [simp]: "calls (update_cc ctx xs) = []"
  by (auto simp: calls_def update_cc_def)

definition telnet_inv :: "telnet_ctx \<Rightarrow> bool" where
  "telnet_inv ctx \<longleftrightarrow> length (iac_buf ctx) = TELNET_IAC_MAXLEN \<and>
     iac_buflen ctx \<le> TELNET_IAC_MAXLEN \<and>
     iac_state ctx \<in> {IAC_NONE, IAC_WAIT_OPT, IAC_WAIT_SE} \<and>
     (iac_state ctx = IAC_WAIT_SE \<longrightarrow> iac_buflen ctx < TELNET_IAC_MAXLEN)"

lemmas telnet_state_defs [telnet_unfold] =
  telnet_handler_def telnet_unquote_def telnet_dispatch_def telnet_hash_def
  telnet_command_def telnet_wait_opt_def telnet_wait_se_def
  telnet_process_opt_def Let_def

lemma telnet_inv_init [simp]: "telnet_inv (telnet_ctx_init cb)"
  by (simp add: telnet_inv_def telnet_ctx_init_def)

lemma telnet_inv_set_cc [simp]: "telnet_inv (telnet_ctx_set_cc_arg ctx a) = telnet_inv ctx"
  by (simp add: telnet_inv_def telnet_ctx_set_cc_arg_def)

lemma telnet_handler_total:
  assumes "telnet_inv ctx"
  shows "\<exists>r ctx' ev. telnet_handler ctx c = Some (r, ctx', ev) \<and> telnet_inv ctx'"
  using assms by (cases "iac_state ctx") (auto simp: telnet_inv_def telnet_unfold)

interpretation tn: machine telnet_step telnet_inv
proof
  fix ctx c assume "telnet_inv ctx"
  then obtain r ctx' ev where "telnet_handler ctx c = Some (r, ctx', ev)" "telnet_inv ctx'"
    using telnet_handler_total by blast
  then show "\<exists>s' os. telnet_step ctx c = Some (s', os) \<and> telnet_inv s'"
    by (simp add: telnet_step_def)
qed

lemma telnet_step_handler:
  "telnet_handler ctx c = Some (r, ctx', ev) \<Longrightarrow>
     telnet_step ctx c = Some (ctx', map Ev ev @ (if r = 0 then [Input c] else []))"
  "telnet_handler ctx c = None \<Longrightarrow> telnet_step ctx c = None"
  by (simp_all add: telnet_step_def)

text \<open>The in-place loop computes the run of the automaton.\<close>

lemma telnet_loop_run:
  assumes "j \<le> i" "i + n \<le> length arr"
  shows "telnet_loop n ctx arr i j i2 evs =
    map_option (\<lambda>(ctx', os). (i2 + (n - length (inputs os)), write_at arr j (inputs os), ctx', evs @ events os))
      (run_machine telnet_step ctx (take n (drop i arr)))
   \<and> (\<forall>ctx' os. run_machine telnet_step ctx (take n (drop i arr)) = Some (ctx', os) \<longrightarrow>
        length (inputs os) \<le> n)"
  using assms
proof (induction n arbitrary: ctx arr i j i2 evs)
  case 0
  then show ?case by simp
next
  case (Suc n)
  have d: "drop i arr = arr ! i # drop (Suc i) arr"
    using Suc.prems by (simp add: Cons_nth_drop_Suc)
  show ?case
  proof (cases "telnet_handler ctx (arr ! i)")
    case None
    then show ?thesis by (simp add: d telnet_step_handler)
  next
    case (Some t)
    obtain r ctx1 ev where t: "t = (r, ctx1, ev)" by (cases t)
    let ?arr = "if r = 0 then arr[j := arr ! i] else arr"
    let ?j = "if r = 0 then j + 1 else j"
    let ?i2 = "if r = 0 then i2 else i2 + 1"
    have tail: "drop (Suc i) ?arr = drop (Suc i) arr"
      using Suc.prems by simp
    have IH: "telnet_loop n ctx1 ?arr (i + 1) ?j ?i2 (evs @ ev) =
      map_option (\<lambda>(ctx', os). (?i2 + (n - length (inputs os)), write_at ?arr ?j (inputs os), ctx', (evs @ ev) @ events os))
        (run_machine telnet_step ctx1 (take n (drop (Suc i) arr)))"
     and len: "\<And>ctx' os. run_machine telnet_step ctx1 (take n (drop (Suc i) arr)) = Some (ctx', os) \<Longrightarrow>
        length (inputs os) \<le> n"
      using Suc.IH [of ?j "i + 1" ?arr ctx1 ?i2 "evs @ ev"] Suc.prems tail by auto
    have w: "write_at (arr[j := arr ! i]) (Suc j) ks = write_at arr j (arr ! i # ks)" for ks
      using Suc.prems
      by (simp add: write_at_def take_Suc_conv_app_nth)
    show ?thesis
    proof (cases "run_machine telnet_step ctx1 (take n (drop (Suc i) arr))")
      case None
      then show ?thesis using IH \<open>telnet_handler ctx (arr ! i) = Some t\<close> t
        by (auto simp: d telnet_step_handler)
    next
      case (Some u)
      obtain ctx2 os where u: "u = (ctx2, os)" by (cases u)
      have "length (inputs os) \<le> n" using len Some u by blast
      then show ?thesis
        using IH \<open>telnet_handler ctx (arr ! i) = Some t\<close> t Some u
        by (auto simp: d telnet_step_handler w Suc_diff_le)
    qed
  qed
qed


text \<open>Plain input with no IAC passes unchanged; only the hash sees it.\<close>

lemma telnet_prescan_run:
  assumes "iac_state ctx = IAC_NONE" "\<not> iac_quote ctx" "IAC \<notin> set xs"
  shows "\<exists>os. run_machine telnet_step ctx xs = Some (ctx, os) \<and> inputs os = xs \<and> calls (events os) = []"
  using assms(3)
proof (induction xs)
  case (Cons x xs)
  then obtain os where "run_machine telnet_step ctx xs = Some (ctx, os)" "inputs os = xs"
    "calls (events os) = []" by auto
  moreover have "telnet_handler ctx x = Some (0, ctx, update_cc ctx [x])"
    using assms(1,2) Cons.prems
    by (auto simp: telnet_handler_def telnet_unquote_def telnet_dispatch_def telnet_hash_def)
  ultimately show ?case by (simp add: telnet_step_handler)
qed simp

text \<open>What the prescan recognises: a buffer between commands that has no IAC.\<close>

definition text_only :: "telnet_ctx \<Rightarrow> byte list \<Rightarrow> bool" where
  "text_only ctx xs \<longleftrightarrow> iac_state ctx = IAC_NONE \<and> \<not> iac_quote ctx \<and> IAC \<notin> set xs"

lemma telnet_process_run:
  assumes "telnet_inv ctx" "run_machine telnet_step ctx xs = Some (ctx', os)"
  shows "\<exists>buf evs. telnet_process ctx xs =
           Some (if xs \<noteq> [] \<and> inputs os = [] then -1 else int (length (inputs os)), buf, ctx', evs) \<and>
         take (length (inputs os)) buf = inputs os \<and> length buf = length xs \<and>
         calls evs = calls (events os) \<and> evs = (if text_only ctx xs then [] else events os)"
proof (cases "xs = []")
  case True
  then show ?thesis using assms by (auto simp: telnet_process_def)
next
  case ne: False
  show ?thesis
  proof (cases "iac_state ctx = IAC_NONE \<and> \<not> iac_quote ctx \<and> memchr IAC xs = None")
    case True
    then obtain os' where "run_machine telnet_step ctx xs = Some (ctx, os')" "inputs os' = xs"
      "calls (events os') = []"
      using telnet_prescan_run [of ctx xs] by auto
    then show ?thesis using assms ne True by (auto simp: telnet_process_def text_only_def)
  next
    case False
    then have "\<not> text_only ctx xs" by (auto simp: text_only_def)
    have loop: "telnet_loop (length xs) ctx xs 0 0 0 [] =
        Some (length xs - length (inputs os), write_at xs 0 (inputs os), ctx', events os)"
      and len: "length (inputs os) \<le> length xs"
      using telnet_loop_run [of 0 0 "length xs" xs ctx 0 "[]"] assms(2) by auto
    have "length xs - length (inputs os) = length xs \<longleftrightarrow> inputs os = []"
      using len ne by (cases "inputs os"; cases xs) auto
    then show ?thesis
      using ne False loop len \<open>\<not> text_only ctx xs\<close> by (auto simp: telnet_process_def write_at_def)
  qed
qed

text \<open>
  A session: the buffers received one after the other; the caller takes as
  input the first bytes of each buffer, as many as \<open>telnet_process\<close> returned.
\<close>

primrec telnet_session ::
  "telnet_ctx \<Rightarrow> byte list list \<Rightarrow> (byte list \<times> telnet_ctx \<times> telnet_event list) option" where
  "telnet_session ctx [] = Some ([], ctx, [])"
| "telnet_session ctx (b # bs) =
     (case telnet_process ctx b of
        None \<Rightarrow> None
      | Some (r, buf, ctx', ev) \<Rightarrow>
          map_option (\<lambda>(inp, ctx'', ev'). (take (nat r) buf @ inp, ctx'', ev @ ev')) (telnet_session ctx' bs))"

text \<open>
  What the automaton puts out for the buffers, where a buffer that is only text is passed on without
  updates of the client-code hash.
\<close>

primrec cut_outputs :: "telnet_ctx \<Rightarrow> byte list list \<Rightarrow> telnet_out list option" where
  "cut_outputs ctx [] = Some []"
| "cut_outputs ctx (b # bs) =
     Option.bind (run_machine telnet_step ctx b) (\<lambda>(ctx', os).
       map_option (\<lambda>os'. (if text_only ctx b then map Input b else os) @ os') (cut_outputs ctx' bs))"

lemma events_Input [simp]: "events (map Input xs) = []"
  by (induction xs) auto

lemma telnet_session_run:
  assumes "telnet_inv ctx"
  shows "\<exists>ctx' os evs. run_machine telnet_step ctx (concat bs) = Some (ctx', os) \<and> telnet_inv ctx' \<and>
    telnet_session ctx bs = Some (inputs os, ctx', evs) \<and> calls evs = calls (events os) \<and>
    map_option events (cut_outputs ctx bs) = Some evs"
  using assms
proof (induction bs arbitrary: ctx)
  case (Cons b bs)
  obtain ctx1 os1 where r1: "run_machine telnet_step ctx b = Some (ctx1, os1)" "telnet_inv ctx1"
    using tn.run_total [OF Cons.prems] by blast
  obtain buf ev1 where p1: "telnet_process ctx b =
      Some (if b \<noteq> [] \<and> inputs os1 = [] then -1 else int (length (inputs os1)), buf, ctx1, ev1)"
    "take (length (inputs os1)) buf = inputs os1" "calls ev1 = calls (events os1)"
    "ev1 = (if text_only ctx b then [] else events os1)"
    using telnet_process_run [OF Cons.prems r1(1)] by blast
  obtain ctx2 os2 ev2 where r2: "run_machine telnet_step ctx1 (concat bs) = Some (ctx2, os2)"
    "telnet_inv ctx2" "telnet_session ctx1 bs = Some (inputs os2, ctx2, ev2)"
    "calls ev2 = calls (events os2)" "map_option events (cut_outputs ctx1 bs) = Some ev2"
    using Cons.IH [OF r1(2)] by blast
  show ?case using r1 p1 r2 by (auto simp: run_machine_append)
qed simp

lemma telnet_session_single:
  assumes "telnet_inv ctx" "run_machine telnet_step ctx xs = Some (ctx', os)"
  shows "\<exists>evs. telnet_session ctx [xs] = Some (inputs os, ctx', evs) \<and> calls evs = calls (events os)"
  using telnet_session_run [of ctx "[xs]"] assms by auto

section \<open>Replies\<close>

fun written :: "telnet_event list \<Rightarrow> byte list" where
  "written [] = []"
| "written (EvWriteData xs # es) = xs @ written es"
| "written (EvFdWrite xs # es) = xs @ written es"
| "written (_ # es) = written es"

lemma written_append [simp]: "written (xs @ ys) = written xs @ written ys"
  by (induction xs rule: written.induct) auto

lemma written_calls: "written (calls es) = written es"
  by (induction es rule: written.induct) (auto simp: calls_def)

lemma written_update_cc [simp]: "written (update_cc ctx xs) = []"
  by (metis calls_update_cc written.simps(1) written_calls)

lemma written_telnet_write [simp]: "written (telnet_write ctx xs) = xs"
  by (simp add: telnet_write_def)

text \<open>One byte makes the code write a refusal, the are-you-there answer or nothing.\<close>

definition telnet_reply :: "byte list \<Rightarrow> bool" where
  "telnet_reply xs \<longleftrightarrow> xs = [] \<or> xs = telnet_default_ayt \<or>
     (\<exists>n opt. n \<in> {DONT, WONT} \<and> xs = [IAC, n, opt])"

lemma telnet_reply_Nil [simp]: "telnet_reply []"
  by (simp add: telnet_reply_def)

lemma telnet_command_reply: "telnet_reply (written (snd (snd (telnet_command ctx c))))"
  by (simp add: telnet_command_def Let_def telnet_send_ayt_def telnet_reply_def)

lemma telnet_wait_opt_reply: "telnet_reply (written (snd (snd (telnet_wait_opt ctx c))))"
  by (simp add: telnet_wait_opt_def Let_def telnet_reply_def)

lemma telnet_wait_se_reply: "telnet_wait_se ctx c = Some (r, ctx', ev) \<Longrightarrow> ev = []"
  by (auto simp: telnet_wait_se_def Let_def split: if_splits)

lemma telnet_process_opt_reply: "written (snd (snd (telnet_process_opt ctx))) = []"
  by (simp add: telnet_process_opt_def Let_def)

lemma telnet_dispatch_reply:
  "telnet_dispatch ctx c = Some (r, ctx', ev) \<Longrightarrow> telnet_reply (written ev)"
  using telnet_command_reply [of ctx c] telnet_wait_opt_reply [of ctx c]
    telnet_wait_se_reply [of ctx c r ctx' ev] telnet_process_opt_reply [of ctx]
  by (cases "iac_state ctx") (auto simp: telnet_dispatch_def telnet_reply_def)

lemma written_telnet_hash [simp]: "written (telnet_hash ctx c) = []"
  by (simp add: telnet_hash_def)

lemma telnet_handler_reply:
  "telnet_handler ctx c = Some (r, ctx', ev) \<Longrightarrow> telnet_reply (written ev)"
  by (auto simp: telnet_handler_def split: if_splits dest: telnet_dispatch_reply)

lemma telnet_step_reply:
  "telnet_step ctx c = Some (ctx', os) \<Longrightarrow> telnet_reply (written (events os))"
  by (auto simp: telnet_step_def dest!: telnet_handler_reply)

text \<open>
  The states a peer running this code is in between replies: neutral, or, since
  an option byte 255 is not doubled, holding an unpaired IAC while no WILL or DO
  is pending.
\<close>

definition telnet_quiet :: "telnet_ctx \<Rightarrow> bool" where
  "telnet_quiet ctx \<longleftrightarrow> telnet_inv ctx \<and>
     (iac_state ctx = IAC_NONE \<or>
      iac_state ctx = IAC_WAIT_OPT \<and> iac_quote ctx \<and> iac_opt_req ctx \<in> {DONT, WONT})"

lemma telnet_quiet_ayt:
  assumes "telnet_quiet ctx"
  shows "\<exists>ctx' os. run_machine telnet_step ctx telnet_default_ayt = Some (ctx', os) \<and>
    telnet_quiet ctx' \<and> written (events os) = []"
proof -
  obtain ctx1 os1 where 1: "telnet_step ctx 73 = Some (ctx1, os1)" "written (events os1) = []"
    "iac_state ctx1 = IAC_NONE" "\<not> iac_quote ctx1" "telnet_inv ctx1"
    using assms
    by (cases "iac_state ctx"; cases "iac_quote ctx")
      (auto simp: telnet_quiet_def telnet_inv_def telnet_step_def telnet_unfold)
  obtain os2 where 2: "run_machine telnet_step ctx1 (tl telnet_default_ayt) = Some (ctx1, os2)"
    "calls (events os2) = []"
    using telnet_prescan_run [of ctx1 "tl telnet_default_ayt"] 1
    by (auto simp: telnet_default_ayt_def)
  have "written (events os2) = []"
    using 2(2) by (metis written.simps(1) written_calls)
  moreover have "telnet_default_ayt = 73 # tl telnet_default_ayt"
    by (simp add: telnet_default_ayt_def)
  then have "run_machine telnet_step ctx telnet_default_ayt = Some (ctx1, os1 @ os2)"
    using 1(1) 2(1) by (metis (no_types, lifting) case_prod_conv option.simps(5) option.simps(9) run_machine.simps(2))
  ultimately show ?thesis using 1 by (auto simp: telnet_quiet_def)
qed

lemma telnet_quiet_step_IAC:
  assumes "telnet_quiet ctx"
  shows "\<exists>ctx' os. telnet_step ctx IAC = Some (ctx', os) \<and> written (events os) = [] \<and>
    telnet_inv ctx' \<and> iac_state ctx' = IAC_NONE"
  using assms by (cases "iac_state ctx"; cases "iac_quote ctx")
    (auto simp: telnet_quiet_def telnet_inv_def telnet_step_def telnet_unfold)

lemma telnet_quiet_step_no:
  assumes "telnet_inv ctx" "iac_state ctx = IAC_NONE" "n \<in> {DONT, WONT}"
  shows "\<exists>ctx' os. telnet_step ctx n = Some (ctx', os) \<and> written (events os) = [] \<and> telnet_inv ctx' \<and>
    \<not> iac_quote ctx' \<and>
    (iac_state ctx' = IAC_NONE \<or> iac_state ctx' = IAC_WAIT_OPT \<and> iac_opt_req ctx' \<in> {DONT, WONT})"
  using assms by (cases "iac_quote ctx")
    (auto simp: telnet_inv_def telnet_step_def telnet_unfold)

lemma telnet_quiet_step_opt:
  assumes "telnet_inv ctx" "\<not> iac_quote ctx"
    "iac_state ctx = IAC_NONE \<or> iac_state ctx = IAC_WAIT_OPT \<and> iac_opt_req ctx \<in> {DONT, WONT}"
  shows "\<exists>ctx' os. telnet_step ctx c = Some (ctx', os) \<and> written (events os) = [] \<and> telnet_quiet ctx'"
proof -
  consider (iac) "c = IAC" | (none) "c \<noteq> IAC" "iac_state ctx = IAC_NONE"
    | (opt) "c \<noteq> IAC" "iac_state ctx = IAC_WAIT_OPT" "iac_opt_req ctx \<in> {DONT, WONT}"
    using assms(3) by blast
  then show ?thesis
  proof cases
    case iac
    then have "telnet_handler ctx c = Some (NOP, ctx\<lparr>iac_quote := True\<rparr>, [])"
      using assms(2) by (simp add: telnet_handler_def)
    then show ?thesis using assms by (auto simp: telnet_step_handler telnet_quiet_def telnet_inv_def)
  next
    case none
    then have "telnet_handler ctx c = Some (0, ctx, telnet_hash ctx c)"
      using assms(2) by (simp add: telnet_handler_def telnet_unquote_def telnet_dispatch_def)
    then show ?thesis using assms none by (simp add: telnet_step_handler telnet_quiet_def)
  next
    case opt
    then have "telnet_wait_opt ctx c = (1, ctx\<lparr>iac_state := IAC_NONE\<rparr>, [])"
      by (auto simp: telnet_wait_opt_def Let_def)
    then have "telnet_handler ctx c = Some (1, ctx\<lparr>iac_state := IAC_NONE\<rparr>, telnet_hash ctx c)"
      using assms(2) opt by (simp add: telnet_handler_def telnet_unquote_def telnet_dispatch_def)
    then show ?thesis using assms opt by (simp add: telnet_step_handler telnet_quiet_def telnet_inv_def)
  qed
qed

lemma telnet_quiet_reply:
  assumes "telnet_quiet ctx" "telnet_reply xs"
  shows "\<exists>ctx' os. run_machine telnet_step ctx xs = Some (ctx', os) \<and>
    telnet_quiet ctx' \<and> written (events os) = []"
proof -
  consider "xs = []" | "xs = telnet_default_ayt"
    | n opt where "n \<in> {DONT, WONT}" "xs = [IAC, n, opt]"
    using assms(2) by (auto simp: telnet_reply_def)
  then show ?thesis
  proof cases
    case 3
    obtain ctx1 os1 where 1: "telnet_step ctx IAC = Some (ctx1, os1)" "written (events os1) = []"
      "telnet_inv ctx1" "iac_state ctx1 = IAC_NONE"
      using telnet_quiet_step_IAC [OF assms(1)] by blast
    obtain ctx2 os2 where 2: "telnet_step ctx1 n = Some (ctx2, os2)" "written (events os2) = []"
      "telnet_inv ctx2" "\<not> iac_quote ctx2"
      "iac_state ctx2 = IAC_NONE \<or> iac_state ctx2 = IAC_WAIT_OPT \<and> iac_opt_req ctx2 \<in> {DONT, WONT}"
      using telnet_quiet_step_no [OF 1(3,4) 3(1)] by blast
    obtain ctx3 os3 where "telnet_step ctx2 opt = Some (ctx3, os3)" "written (events os3) = []"
      "telnet_quiet ctx3"
      using telnet_quiet_step_opt [OF 2(3,4,5)] by blast
    then show ?thesis using 1 2 3 by simp
  qed (use assms telnet_quiet_ayt in auto)
qed

lemma telnet_quiet_run:
  assumes "telnet_quiet peer" "run_machine telnet_step ctx xs = Some (ctx', os)"
  shows "\<exists>peer' os'. run_machine telnet_step peer (written (events os)) = Some (peer', os') \<and>
    telnet_quiet peer' \<and> written (events os') = []"
  using assms
proof (induction xs arbitrary: ctx os peer)
  case (Cons x xs)
  then obtain ctx1 os1 os2 where 1: "telnet_step ctx x = Some (ctx1, os1)"
    "run_machine telnet_step ctx1 xs = Some (ctx', os2)" "os = os1 @ os2"
    by (auto split: option.splits)
  obtain p1 t1 where p1: "run_machine telnet_step peer (written (events os1)) = Some (p1, t1)"
    "telnet_quiet p1" "written (events t1) = []"
    using telnet_quiet_reply [OF Cons.prems(1) telnet_step_reply [OF 1(1)]] by blast
  obtain p2 t2 where "run_machine telnet_step p1 (written (events os2)) = Some (p2, t2)"
    "telnet_quiet p2" "written (events t2) = []"
    using Cons.IH [OF p1(2) 1(2)] by blast
  then show ?case using p1 1 by (auto simp: run_machine_append)
qed simp

section \<open>Suboptions\<close>

text \<open>How a client sends the bytes of a suboption: each IAC is doubled.\<close>

definition iac_escape :: "byte list \<Rightarrow> byte list" where
  "iac_escape xs = concat (map (\<lambda>b. if b = IAC then [IAC, IAC] else [b]) xs)"

definition telnet_neutral :: "telnet_ctx \<Rightarrow> bool" where
  "telnet_neutral ctx \<longleftrightarrow> telnet_inv ctx \<and> iac_state ctx = IAC_NONE \<and> \<not> iac_quote ctx"

lemma telnet_neutral_init [simp]: "telnet_neutral (telnet_ctx_init cb)"
  by (simp add: telnet_neutral_def) (simp add: telnet_ctx_init_def)

lemma telnet_run_sb:
  assumes "telnet_neutral ctx"
  shows "run_machine telnet_step ctx [IAC, SB] =
    Some (ctx\<lparr>iac_state := IAC_WAIT_SE, iac_buflen := 0\<rparr>, map Ev (update_cc ctx [IAC, SB]))"
  using assms by (simp add: telnet_neutral_def telnet_step_def telnet_unfold update_cc_def)

lemma telnet_se_byte:
  assumes "iac_state ctx = IAC_WAIT_SE" "\<not> iac_quote ctx" "iac_buflen ctx < length (iac_buf ctx)"
    "iac_buflen ctx < 31"
  shows "run_machine telnet_step ctx (iac_escape [b]) =
    Some (ctx\<lparr>iac_buf := (iac_buf ctx)[iac_buflen ctx := b], iac_buflen := iac_buflen ctx + 1\<rparr>, [])"
  using assms by (simp add: iac_escape_def telnet_step_def telnet_unfold)

lemma iac_escape_Cons: "iac_escape (b # bs) = iac_escape [b] @ iac_escape bs"
  by (simp add: iac_escape_def)

lemma telnet_se_bytes:
  assumes "iac_state ctx = IAC_WAIT_SE" "\<not> iac_quote ctx" "length (iac_buf ctx) = 32"
    "iac_buflen ctx + length bs < 32"
  shows "run_machine telnet_step ctx (iac_escape bs) =
    Some (ctx\<lparr>iac_buf := write_at (iac_buf ctx) (iac_buflen ctx) bs, iac_buflen := iac_buflen ctx + length bs\<rparr>, [])"
  using assms
proof (induction bs arbitrary: ctx)
  case Nil
  then show ?case by (simp add: iac_escape_def)
next
  case (Cons b bs)
  let ?c = "ctx\<lparr>iac_buf := (iac_buf ctx)[iac_buflen ctx := b], iac_buflen := iac_buflen ctx + 1\<rparr>"
  have "run_machine telnet_step ?c (iac_escape bs) =
    Some (?c\<lparr>iac_buf := write_at (iac_buf ?c) (iac_buflen ?c) bs, iac_buflen := iac_buflen ?c + length bs\<rparr>, [])"
    using Cons.prems by (intro Cons.IH) simp_all
  moreover have "write_at ((iac_buf ctx)[iac_buflen ctx := b]) (Suc (iac_buflen ctx)) bs =
      write_at (iac_buf ctx) (iac_buflen ctx) (b # bs)"
    using Cons.prems by (simp add: write_at_def take_Suc_conv_app_nth)
  ultimately show ?case
    using Cons.prems telnet_se_byte [of ctx b]
    by (simp add: iac_escape_Cons [of b bs] run_machine_append)
qed

text \<open>A whole suboption stores its bytes and hands them to \<open>case IAC_PROCESS_OPT\<close>.\<close>

lemma telnet_run_suboption:
  assumes "telnet_neutral ctx" "length bs < 32"
  defines "ctx1 \<equiv> ctx\<lparr>iac_buf := write_at (iac_buf ctx) 0 bs, iac_buflen := length bs\<rparr>"
  shows "\<exists>os. run_machine telnet_step ctx ([IAC, SB] @ iac_escape bs @ [IAC, SE]) = Some (ctx1, os) \<and>
    inputs os = [] \<and> calls (events os) = calls (snd (snd (telnet_process_opt ctx1)))"
proof -
  let ?se = "ctx\<lparr>iac_state := IAC_WAIT_SE, iac_buflen := 0\<rparr>"
  let ?full = "?se\<lparr>iac_buf := write_at (iac_buf ctx) 0 bs, iac_buflen := length bs\<rparr>"
  have bytes: "run_machine telnet_step ?se (iac_escape bs) = Some (?full, [])"
    using assms(1,2) telnet_se_bytes [of ?se bs] by (simp add: telnet_neutral_def telnet_inv_def)
  have opt: "telnet_process_opt (?full\<lparr>iac_state := IAC_PROCESS_OPT, iac_quote := False\<rparr>) =
      telnet_process_opt ctx1"
    using assms(1) unfolding ctx1_def telnet_process_opt_def
    by (simp add: Let_def telnet_neutral_def update_cc_def)
  have ctx1: "fst (snd (telnet_process_opt ctx1)) = ctx1" "fst (telnet_process_opt ctx1) = 1"
    using assms(1) unfolding ctx1_def telnet_process_opt_def
    by (simp_all add: Let_def telnet_neutral_def)
  have "run_machine telnet_step ?full [IAC, SE] = Some (ctx1, map Ev (snd (snd (telnet_process_opt ctx1))))"
    using assms(1) opt ctx1
    by (cases "telnet_process_opt ctx1")
      (simp add: telnet_step_def telnet_handler_def telnet_unquote_def telnet_dispatch_def
        telnet_hash_def telnet_neutral_def)
  then show ?thesis
    using bytes telnet_run_sb [OF assms(1)]
    by (simp add: run_machine_append del: run_machine.simps(2) append_Cons)
qed

section \<open>Properties\<close>

text \<open>C6.
  The input filter does not depend on how the network cuts the stream, apart from one callback: for every well-formed context,
  processing the received buffers one by one, with the prescan and the compaction in place, yields the same user input, the same
  context and the same replies, resizes and terminal types as processing their concatenation at once, which are those
  of the automaton that takes the bytes one by one; and neither ever overruns the suboption buffer.  The callback that updates the
  client-code hash does depend on the cut, in this way only: the calls are those of the automaton for each buffer,
  except that a buffer which is only text makes none.
\<close>

theorem telnet_chunking:
  assumes "telnet_inv ctx"
  shows "\<exists>ctx' os ev1 ev2 os1 os2. run_machine telnet_step ctx (concat bufs) = Some (ctx', os) \<and> telnet_inv ctx' \<and>
    telnet_session ctx bufs = Some (inputs os, ctx', ev1) \<and> telnet_session ctx [concat bufs] = Some (inputs os, ctx', ev2) \<and>
    calls ev1 = calls (events os) \<and> calls ev2 = calls (events os) \<and>
    cut_outputs ctx bufs = Some os1 \<and> ev1 = events os1 \<and> cut_outputs ctx [concat bufs] = Some os2 \<and> ev2 = events os2"
proof -
  obtain ctx' os ev1 where 1: "run_machine telnet_step ctx (concat bufs) = Some (ctx', os)"
    "telnet_inv ctx'" "telnet_session ctx bufs = Some (inputs os, ctx', ev1)"
    "calls ev1 = calls (events os)" "map_option events (cut_outputs ctx bufs) = Some ev1"
    using telnet_session_run [OF assms] by blast
  obtain ev2 where 2: "telnet_session ctx [concat bufs] = Some (inputs os, ctx', ev2)" "calls ev2 = calls (events os)"
    "map_option events (cut_outputs ctx [concat bufs]) = Some ev2"
    using telnet_session_run [OF assms, of "[concat bufs]"] 1(1) by auto
  from 1(5) 2(3) obtain os1 os2 where "cut_outputs ctx bufs = Some os1" "ev1 = events os1"
    "cut_outputs ctx [concat bufs] = Some os2" "ev2 = events os2" unfolding map_option_eq_Some by blast
  with 1(1-4) 2(1,2) show ?thesis by blast
qed

definition telnet_cb_all :: telnet_callback where
  "telnet_cb_all = \<lparr> write_data = True, term_resize = True, update_client_code = True,
     send_ayt = False, ttype = True \<rparr>"

theorem telnet_chunking_witness:
  "\<exists>ctx' os ev1 ev2 os1 os2. run_machine telnet_step (telnet_ctx_init telnet_cb_all) (concat [[97, IAC], [DO, 39, 98]]) = Some (ctx', os) \<and>
    telnet_inv ctx' \<and>
    telnet_session (telnet_ctx_init telnet_cb_all) [[97, IAC], [DO, 39, 98]] = Some (inputs os, ctx', ev1) \<and>
    telnet_session (telnet_ctx_init telnet_cb_all) [concat [[97, IAC], [DO, 39, 98]]] = Some (inputs os, ctx', ev2) \<and>
    calls ev1 = calls (events os) \<and> calls ev2 = calls (events os) \<and>
    cut_outputs (telnet_ctx_init telnet_cb_all) [[97, IAC], [DO, 39, 98]] = Some os1 \<and> ev1 = events os1 \<and>
    cut_outputs (telnet_ctx_init telnet_cb_all) [concat [[97, IAC], [DO, 39, 98]]] = Some os2 \<and> ev2 = events os2"
  by (rule telnet_chunking) simp

text \<open>C21.
  The refusals cannot start a negotiation loop: whatever bytes a client sends in
  whatever buffers, a peer that runs the same code and receives our initial
  commands followed by everything we wrote in answer (refusals and
  are-you-there texts) writes nothing back.
\<close>

theorem telnet_no_negotiation_loop:
  assumes "telnet_inv ctx" "telnet_session ctx bufs = Some (inp, ctx', evs)"
  shows "\<exists>inp2 peer evs2.
    telnet_session (telnet_ctx_init cb) [telnet_init_cmds @ written evs] = Some (inp2, peer, evs2) \<and>
    written evs2 = []"
proof -
  obtain ctx'' os ev where run: "run_machine telnet_step ctx (concat bufs) = Some (ctx'', os)"
    "telnet_session ctx bufs = Some (inputs os, ctx'', ev)" "calls ev = calls (events os)"
    using telnet_session_run [OF assms(1)] by blast
  then have w: "written evs = written (events os)"
    using assms(2) by (metis Pair_inject option.inject written_calls)
  let ?p0 = "telnet_ctx_init cb"
  obtain p1 t1 where p1: "run_machine telnet_step ?p0 telnet_init_cmds = Some (p1, t1)"
    "telnet_quiet p1" "written (events t1) = []"
    by (simp add: telnet_init_cmds_def telnet_step_def telnet_unfold telnet_ctx_init_def
        telnet_quiet_def telnet_inv_def)
  obtain p2 t2 where p2: "run_machine telnet_step p1 (written (events os)) = Some (p2, t2)"
    "written (events t2) = []"
    using telnet_quiet_run [OF p1(2) run(1)] by blast
  have "run_machine telnet_step ?p0 (telnet_init_cmds @ written evs) = Some (p2, t1 @ t2)"
    using p1 p2 w by (simp add: run_machine_append)
  then obtain ev2 where "telnet_session ?p0 [telnet_init_cmds @ written evs] =
      Some (inputs (t1 @ t2), p2, ev2)" "calls ev2 = calls (events (t1 @ t2))"
    using telnet_session_single [OF telnet_inv_init] by blast
  moreover have "written (events (t1 @ t2)) = []" using p1 p2 by simp
  ultimately show ?thesis by (metis written_calls)
qed

theorem telnet_no_negotiation_loop_witness:
  "\<exists>inp2 peer evs2.
    telnet_session (telnet_ctx_init telnet_cb_all)
      [telnet_init_cmds @ written [EvWriteData [IAC, WONT, 39], EvWriteData telnet_default_ayt]] =
      Some (inp2, peer, evs2) \<and> written evs2 = []"
proof -
  have "telnet_session (telnet_ctx_init telnet_cb_all) [[IAC, DO, 39, IAC], [AYT]] =
    Some ([], (telnet_ctx_init telnet_cb_all)\<lparr>iac_opt_req := DO\<rparr>,
      [EvWriteData [IAC, WONT, 39], EvWriteData telnet_default_ayt])"
    by (simp add: telnet_process_def telnet_unfold telnet_ctx_init_def telnet_cb_all_def
      telnet_send_ayt_def telnet_write_def update_cc_def)
  then show ?thesis by (rule telnet_no_negotiation_loop [OF telnet_inv_init])
qed

text \<open>
  Window sizes arrive intact: for every 16-bit width and height, a NAWS
  suboption whose bytes are sent with IAC doubled reaches the resize callback
  with exactly that width and height, and leaves no user input.
\<close>

definition naws_bytes :: "u16 \<Rightarrow> u16 \<Rightarrow> byte list" where
  "naws_bytes w h = [TELOPT_NAWS, ucast (drop_bit 8 w), ucast w, ucast (drop_bit 8 h), ucast h]"

lemma u16_bytes: "uint (ucast (drop_bit 8 w) :: byte) * 256 + uint (ucast w :: byte) = uint (w :: u16)"
proof -
  have hi: "uint (ucast (drop_bit 8 w) :: byte) = uint w div 256"
  proof -
    have "uint w div 256 < 256"
      using uint_lt2p [of w] by (simp add: div_less_iff_less_mult)
    moreover have "0 \<le> uint w div 256" by (simp add: div_int_pos_iff)
    ultimately show ?thesis
      by (simp add: unsigned_ucast_eq drop_bit_eq_div take_bit_eq_mod uint_div mod_pos_pos_trivial)
  qed
  have lo: "uint (ucast w :: byte) = uint w mod 256"
    by (simp add: unsigned_ucast_eq take_bit_eq_mod)
  show ?thesis unfolding hi lo by simp
qed

lemma telnet_naws_roundtrip:
  assumes "telnet_neutral ctx" "term_resize (callback ctx)"
  shows "\<exists>ctx' evs.
    telnet_session ctx [[IAC, SB] @ iac_escape (naws_bytes w h) @ [IAC, SE]] = Some ([], ctx', evs) \<and>
    calls evs = [EvResize (uint w) (uint h)]"
proof -
  let ?c = "ctx\<lparr>iac_buf := write_at (iac_buf ctx) 0 (naws_bytes w h), iac_buflen := length (naws_bytes w h)\<rparr>"
  obtain os where os: "run_machine telnet_step ctx ([IAC, SB] @ iac_escape (naws_bytes w h) @ [IAC, SE]) =
      Some (?c, os)" "inputs os = []" "calls (events os) = calls (snd (snd (telnet_process_opt ?c)))"
    using telnet_run_suboption [of ctx "naws_bytes w h"] assms by (auto simp: naws_bytes_def)
  have "calls (snd (snd (telnet_process_opt ?c))) = [EvResize (uint w) (uint h)]"
    using assms(2)
    by (simp add: telnet_process_opt_def Let_def write_at_def naws_bytes_def u16_bytes)
  moreover have "telnet_inv ctx" using assms(1) by (simp add: telnet_neutral_def)
  ultimately show ?thesis using telnet_session_single [OF _ os(1)] os by metis
qed

text \<open>
  An oversized suboption leaks into the input: after 32 suboption bytes without
  IAC the automaton gives up, returns the 32nd byte to the application as if the
  user had typed it, and treats what follows as user input.
\<close>

lemma telnet_suboption_overflow:
  assumes "telnet_neutral ctx" "length bs = 31" "IAC \<notin> set (bs @ b # rest)"
  shows "\<exists>ctx' evs. telnet_session ctx [[IAC, SB] @ bs @ b # rest] = Some (b # rest, ctx', evs) \<and>
    telnet_neutral ctx' \<and> calls evs = []"
proof -
  let ?se = "ctx\<lparr>iac_state := IAC_WAIT_SE, iac_buflen := 0\<rparr>"
  let ?c = "?se\<lparr>iac_buf := write_at (iac_buf ctx) 0 bs, iac_buflen := 31\<rparr>"
  let ?n = "ctx\<lparr>iac_buf := (write_at (iac_buf ctx) 0 bs)[31 := b], iac_buflen := 32\<rparr>"
  have inv: "telnet_inv ctx" and len: "length (iac_buf ctx) = 32"
    using assms(1) by (auto simp: telnet_neutral_def telnet_inv_def)
  have esc: "iac_escape xs = xs" if "IAC \<notin> set xs" for xs
    using that by (induction xs) (auto simp: iac_escape_def)
  have bs: "run_machine telnet_step ?se bs = Some (?c, [])"
    using telnet_se_bytes [of ?se bs] assms esc [of bs] len by (simp add: telnet_neutral_def)
  have b: "run_machine telnet_step ?c [b] = Some (?n, [Input b])"
    using assms len by (auto simp: telnet_step_def telnet_unfold telnet_neutral_def)
  have n: "telnet_neutral ?n"
    using assms len by (auto simp: telnet_neutral_def telnet_inv_def)
  obtain os where os: "run_machine telnet_step ?n rest = Some (?n, os)" "inputs os = rest" "calls (events os) = []"
    using telnet_prescan_run [of ?n rest] assms n by (auto simp: telnet_neutral_def)
  have sb: "run_machine telnet_step ctx [IAC, SB] = Some (?se, map Ev (update_cc ctx [IAC, SB]))"
    by (rule telnet_run_sb [OF assms(1)])
  have "run_machine telnet_step ctx ([IAC, SB] @ bs @ [b] @ rest) =
      Some (?n, map Ev (update_cc ctx [IAC, SB]) @ [Input b] @ os)"
    using sb bs b os(1) by (simp add: run_machine_append del: run_machine.simps(2) append_Cons)
  then have "\<exists>evs. telnet_session ctx [[IAC, SB] @ bs @ [b] @ rest] =
      Some (inputs (map Ev (update_cc ctx [IAC, SB]) @ [Input b] @ os), ?n, evs) \<and>
      calls evs = calls (events (map Ev (update_cc ctx [IAC, SB]) @ [Input b] @ os))"
    by (rule telnet_session_single [OF inv])
  then show ?thesis using n os by auto
qed

text \<open>
  An empty suboption replays the previous one: the buffer is not cleared, so
  \<open>IAC SB IAC SE\<close> after a NAWS suboption of any size calls the resize callback
  again with that size.
\<close>

lemma telnet_empty_suboption_replays:
  assumes "telnet_neutral ctx" "term_resize (callback ctx)"
  shows "\<exists>ctx' evs.
    telnet_session ctx [[IAC, SB] @ iac_escape (naws_bytes w h) @ [IAC, SE], [IAC, SB, IAC, SE]] =
      Some ([], ctx', evs) \<and>
    calls evs = [EvResize (uint w) (uint h), EvResize (uint w) (uint h)]"
proof -
  let ?xs = "[IAC, SB] @ iac_escape (naws_bytes w h) @ [IAC, SE]"
  let ?c = "ctx\<lparr>iac_buf := write_at (iac_buf ctx) 0 (naws_bytes w h), iac_buflen := length (naws_bytes w h)\<rparr>"
  let ?d = "?c\<lparr>iac_buf := write_at (iac_buf ?c) 0 [], iac_buflen := 0\<rparr>"
  have len: "length (iac_buf ctx) = 32" and inv: "telnet_inv ctx"
    using assms(1) by (auto simp: telnet_neutral_def telnet_inv_def)
  obtain os where os: "run_machine telnet_step ctx ?xs = Some (?c, os)" "inputs os = []"
    "calls (events os) = calls (snd (snd (telnet_process_opt ?c)))"
    using telnet_run_suboption [of ctx "naws_bytes w h"] assms by (auto simp: naws_bytes_def)
  have "telnet_neutral ?c"
    using assms len by (auto simp: telnet_neutral_def telnet_inv_def naws_bytes_def)
  then obtain os2 where os2: "run_machine telnet_step ?c ([IAC, SB] @ iac_escape [] @ [IAC, SE]) = Some (?d, os2)"
    "inputs os2 = []" "calls (events os2) = calls (snd (snd (telnet_process_opt ?d)))"
    using telnet_run_suboption [of ?c "[]"] by auto
  have esc: "[IAC, SB] @ iac_escape [] @ [IAC, SE] = [IAC, SB, IAC, SE]"
    by (simp add: iac_escape_def)
  have rs: "calls (snd (snd (telnet_process_opt x))) = [EvResize (uint w) (uint h)]" if "x = ?c \<or> x = ?d" for x
    using that assms(2) len
    by (auto simp: telnet_process_opt_def Let_def write_at_def naws_bytes_def u16_bytes)
  have "run_machine telnet_step ctx (concat [?xs, [IAC, SB, IAC, SE]]) = Some (?d, os @ os2)"
    using os(1) os2(1) unfolding esc concat.simps append_Nil2 run_machine_append [of _ _ ?xs] by simp
  then show ?thesis
    using telnet_session_run [OF inv, of "[?xs, [IAC, SB, IAC, SE]]"] os os2 rs [of ?c] rs [of ?d]
    by (auto simp del: append_Cons telnet_session.simps)
qed

end
