(* ===== verification/Vtkbd.thy ===== *)
theory Vtkbd
  imports Machine
begin

text \<open>
  The virtual terminal keyboard of \<open>src/common/sys/vtkbd.c\<close>: a parser that turns
  the codes a terminal sends (plain codes, \<open>ESC O\<close> application keys and ECMA-48
  control sequences \<open>ESC [ ...\<close>) into key codes, and the filter for the doubled
  cursor keys that some clients send on double-byte characters.  The parameters
  of a control sequence are 32-bit machine integers, so that a number too large
  wraps; every other \<open>int\<close> of the context stays in a small range that
  the invariant states.
\<close>

section \<open>Key codes and state\<close>

abbreviation KEY_ESC :: int where "KEY_ESC \<equiv> 27"
abbreviation KEY_ENTER :: int where "KEY_ENTER \<equiv> 13"
abbreviation KEY_BS :: int where "KEY_BS \<equiv> 0x08"
abbreviation KEY_UP :: int where "KEY_UP \<equiv> 0xD901"
abbreviation KEY_STAB :: int where "KEY_STAB \<equiv> 0xD909"
abbreviation KEY_HOME :: int where "KEY_HOME \<equiv> 0xDA01"
abbreviation KEY_INS :: int where "KEY_INS \<equiv> 0xDA02"
abbreviation KEY_DEL :: int where "KEY_DEL \<equiv> 0xDA03"
abbreviation KEY_END :: int where "KEY_END \<equiv> 0xDA04"
abbreviation KEY_PGUP :: int where "KEY_PGUP \<equiv> 0xDA05"
abbreviation KEY_PGDN :: int where "KEY_PGDN \<equiv> 0xDA06"
abbreviation KEY_F1 :: int where "KEY_F1 \<equiv> 0xDB01"
abbreviation KEY_F6 :: int where "KEY_F6 \<equiv> 0xDB06"
abbreviation KEY_F9 :: int where "KEY_F9 \<equiv> 0xDB09"
abbreviation KEY_F11 :: int where "KEY_F11 \<equiv> 0xDB0B"
abbreviation KEY_INCOMPLETE :: int where "KEY_INCOMPLETE \<equiv> 0xDC20"
abbreviation KEY_UNKNOWN :: int where "KEY_UNKNOWN \<equiv> 0xDF20"
abbreviation KEY_MOUSE :: int where "KEY_MOUSE \<equiv> 0xDD01"
abbreviation KEY_MOUSE_RELEASE :: int where "KEY_MOUSE_RELEASE \<equiv> 0xDD02"
abbreviation VKRAW_BS :: int where "VKRAW_BS \<equiv> 0x08"
abbreviation VKRAW_ERASE :: int where "VKRAW_ERASE \<equiv> 0x7F"
abbreviation MOUSE_BTN_WHEEL_UP :: u32 where "MOUSE_BTN_WHEEL_UP \<equiv> 64"
abbreviation MOUSE_BTN_WHEEL_DOWN :: u32 where "MOUSE_BTN_WHEEL_DOWN \<equiv> 65"
abbreviation VTKBD_MAX_PARAMS :: nat where "VTKBD_MAX_PARAMS \<equiv> 8"
abbreviation VTKBD_MAX_INTERMEDIATE :: nat where "VTKBD_MAX_INTERMEDIATE \<equiv> 4"

definition IS_SPECIAL_KEY :: "int \<Rightarrow> bool" where
  "IS_SPECIAL_KEY c \<longleftrightarrow> c \<ge> 0xD800 \<and> c \<le> 0xDFFF \<and> c AND 0xFF < 0x40"

datatype vkstates = VKSTATE_NORMAL | VKSTATE_ESC | VKSTATE_ESC_APP | VKSTATE_CSI

record vtkbd_mouse =
  mouse_x :: int
  mouse_y :: int
  mouse_button :: u32
  mouse_is_release :: bool
  mouse_is_motion :: bool
  mouse_flags :: u32

record vtkbd_ctx =
  vk_state :: vkstates
  esc_arg :: int
  mouse :: vtkbd_mouse
  csi_prefix :: int
  csi_params :: "u32 list"
  csi_param_count :: nat
  csi_has_param :: bool
  csi_inter_count :: nat
  csi_intermediate :: "int list"
  csi_len :: nat

definition vtkbd_init :: vtkbd_ctx where
  "vtkbd_init = \<lparr> vk_state = VKSTATE_NORMAL, esc_arg = 0,
     mouse = \<lparr> mouse_x = 0, mouse_y = 0, mouse_button = 0, mouse_is_release = False,
               mouse_is_motion = False, mouse_flags = 0 \<rparr>,
     csi_prefix = 0, csi_params = replicate VTKBD_MAX_PARAMS 0, csi_param_count = 0,
     csi_has_param = False, csi_inter_count = 0,
     csi_intermediate = replicate VTKBD_MAX_INTERMEDIATE 0, csi_len = 0 \<rparr>"

section \<open>Operations\<close>

definition vtkbd_reset_csi :: "vtkbd_ctx \<Rightarrow> vtkbd_ctx" where
  "vtkbd_reset_csi ctx = ctx\<lparr> csi_prefix := 0, csi_param_count := 0, csi_has_param := False,
     csi_inter_count := 0, csi_len := 0,
     csi_params := replicate VTKBD_MAX_PARAMS 0,
     csi_intermediate := replicate VTKBD_MAX_INTERMEDIATE 0 \<rparr>"

text \<open>\<open>case VKSTATE_NORMAL\<close>\<close>

definition vtkbd_normal :: "int \<Rightarrow> vtkbd_ctx \<Rightarrow> int \<times> vtkbd_ctx" where
  "vtkbd_normal c ctx =
     (if c = KEY_ESC then (KEY_INCOMPLETE, ctx\<lparr>vk_state := VKSTATE_ESC\<rparr>)
      else if c = VKRAW_BS \<or> c = VKRAW_ERASE then (KEY_BS, ctx)
      else (c, ctx))"

text \<open>\<open>case VKSTATE_ESC\<close>: \<open>'['\<close> is 91, \<open>'O'\<close> is 79.\<close>

definition vtkbd_esc :: "int \<Rightarrow> vtkbd_ctx \<Rightarrow> int \<times> vtkbd_ctx" where
  "vtkbd_esc c ctx =
     (if c = 91 then (KEY_INCOMPLETE, (vtkbd_reset_csi ctx)\<lparr>vk_state := VKSTATE_CSI\<rparr>)
      else if c = 79 then (KEY_INCOMPLETE, ctx\<lparr>vk_state := VKSTATE_ESC_APP\<rparr>)
      else (KEY_ESC, ctx\<lparr>esc_arg := c, vk_state := VKSTATE_NORMAL\<rparr>))"

text \<open>
  The keys of \<open>case VKSTATE_ESC_APP\<close>, \<open>ESC O c\<close>: \<open>A\<close>-\<open>D\<close> (65), \<open>H\<close> (72), \<open>F\<close> (70),
  \<open>G\<close> (71), \<open>I\<close> (73), \<open>L\<close> (76), \<open>P\<close>-\<open>S\<close> (80), \<open>w\<close> (119), \<open>p\<close>-\<open>y\<close> (112) on the
  number pad, \<open>M\<close> (77), \<open>X\<close> (88) and \<open>j\<close>-\<open>o\<close> (106), which select a character of
  \<open>"*+,-./"\<close>.
\<close>

definition app_key :: "int \<Rightarrow> int" where
  "app_key c =
     (if 65 \<le> c \<and> c \<le> 68 then KEY_UP + (c - 65)
      else if c = 72 then KEY_HOME
      else if c = 70 then KEY_END
      else if c = 71 then KEY_PGDN
      else if c = 73 then KEY_PGUP
      else if c = 76 then KEY_INS
      else if 80 \<le> c \<and> c \<le> 83 then KEY_F1 + (c - 80)
      else if c = 119 then KEY_DEL
      else if 112 \<le> c \<and> c \<le> 121 then 48 + (c - 112)
      else if c = 77 then KEY_ENTER
      else if c = 88 then 61
      else if 106 \<le> c \<and> c \<le> 111 then [42, 43, 44, 45, 46, 47] ! nat (c - 106)
      else KEY_UNKNOWN)"

definition vtkbd_esc_app :: "int \<Rightarrow> vtkbd_ctx \<Rightarrow> int \<times> vtkbd_ctx" where
  "vtkbd_esc_app c ctx = (app_key c, ctx\<lparr>vk_state := VKSTATE_NORMAL\<rparr>)"

text \<open>The parameter bytes 0x30 to 0x3F of a control sequence.\<close>

definition vtkbd_csi_param :: "int \<Rightarrow> vtkbd_ctx \<Rightarrow> vtkbd_ctx" where
  "vtkbd_csi_param c ctx =
     (if csi_inter_count ctx > 0 then ctx
      else if csi_len ctx = 1 \<and> c \<in> {60, 63, 61, 62} then ctx\<lparr>csi_prefix := c\<rparr>
      else if c = 59 \<or> c = 58 then
        (if csi_param_count ctx < VTKBD_MAX_PARAMS
         then ctx\<lparr>csi_param_count := csi_param_count ctx + 1, csi_has_param := False\<rparr>
         else ctx\<lparr>csi_has_param := False\<rparr>)
      else if 48 \<le> c \<and> c \<le> 57 then
        let ctx1 = (if \<not> csi_has_param ctx
                    then ctx\<lparr>csi_has_param := True,
                             csi_param_count := (if csi_param_count ctx = 0 then 1 else csi_param_count ctx)\<rparr>
                    else ctx);
            idx = (if csi_param_count ctx1 > 0 then csi_param_count ctx1 - 1 else 0) in
        (if idx < VTKBD_MAX_PARAMS
         then ctx1\<lparr>csi_params := (csi_params ctx1)[idx := csi_params ctx1 ! idx * 10 + of_int (c - 48)]\<rparr>
         else ctx1)
      else ctx)"

text \<open>\<open>ESC [ < btn ; col ; row M\<close>, an SGR mouse report.\<close>

definition vtkbd_sgr_mouse :: "int \<Rightarrow> vtkbd_ctx \<Rightarrow> vtkbd_mouse" where
  "vtkbd_sgr_mouse c ctx =
     (let btn_raw = csi_params ctx ! 0;
          col = (if csi_param_count ctx > 1 then sint (csi_params ctx ! 1) else 0);
          row = (if csi_param_count ctx > 2 then sint (csi_params ctx ! 2) else 0) in
      \<lparr> mouse_x = (if col > 0 then col - 1 else 0),
        mouse_y = (if row > 0 then row - 1 else 0),
        mouse_button = (if btn_raw AND MOUSE_BTN_WHEEL_UP \<noteq> 0
                        then (if btn_raw AND 1 \<noteq> 0 then MOUSE_BTN_WHEEL_DOWN else MOUSE_BTN_WHEEL_UP)
                        else btn_raw AND 3),
        mouse_is_release = (c = 109),
        mouse_is_motion = (btn_raw AND 32 \<noteq> 0),
        mouse_flags = btn_raw AND (4 OR 8 OR 16) \<rparr>)"

text \<open>\<open>ESC [ p0 ~\<close>\<close>

definition tilde_key :: "int \<Rightarrow> int" where
  "tilde_key p0 =
     (if p0 = 1 then KEY_HOME else if p0 = 2 then KEY_INS else if p0 = 3 then KEY_DEL
      else if p0 = 4 then KEY_END else if p0 = 5 then KEY_PGUP else if p0 = 6 then KEY_PGDN
      else if p0 = 7 then KEY_HOME else if p0 = 8 then KEY_END
      else if 11 \<le> p0 \<and> p0 \<le> 15 then KEY_F1 + (p0 - 11)
      else if 17 \<le> p0 \<and> p0 \<le> 19 then KEY_F6 + (p0 - 17)
      else if p0 = 20 \<or> p0 = 21 then KEY_F9 + (p0 - 20)
      else if p0 = 23 \<or> p0 = 24 then KEY_F11 + (p0 - 23)
      else KEY_UNKNOWN)"

text \<open>The final byte 0x40 to 0x7E: \<open>M\<close> is 77, \<open>m\<close> 109, \<open>Z\<close> 90, \<open>~\<close> 126.\<close>

definition vtkbd_csi_final :: "int \<Rightarrow> vtkbd_ctx \<Rightarrow> int \<times> vtkbd_ctx" where
  "vtkbd_csi_final c ctx0 =
     (let ctx = ctx0\<lparr>vk_state := VKSTATE_NORMAL\<rparr> in
      if csi_prefix ctx = 60 \<and> (c = 77 \<or> c = 109) then
        (if c = 109 then KEY_MOUSE_RELEASE else KEY_MOUSE, ctx\<lparr>mouse := vtkbd_sgr_mouse c ctx\<rparr>)
      else if csi_prefix ctx \<noteq> 0 then (KEY_UNKNOWN, ctx)
      else if 65 \<le> c \<and> c \<le> 68 then (KEY_UP + (c - 65), ctx)
      else if c = 72 then (KEY_HOME, ctx)
      else if c = 70 then (KEY_END, ctx)
      else if c = 71 then (KEY_PGDN, ctx)
      else if c = 73 then (KEY_PGUP, ctx)
      else if c = 76 then (KEY_INS, ctx)
      else if c = 90 then (KEY_STAB, ctx)
      else if c = 126 then (tilde_key (sint (csi_params ctx ! 0)), ctx)
      else (KEY_UNKNOWN, ctx))"

text \<open>\<open>case VKSTATE_CSI\<close>\<close>

definition vtkbd_csi :: "int \<Rightarrow> vtkbd_ctx \<Rightarrow> int \<times> vtkbd_ctx" where
  "vtkbd_csi c ctx0 =
     (if c = KEY_ESC then (KEY_INCOMPLETE, ctx0\<lparr>vk_state := VKSTATE_ESC\<rparr>)
      else
        let ctx = ctx0\<lparr>csi_len := csi_len ctx0 + 1\<rparr>;
            abort = ctx\<lparr>vk_state := VKSTATE_NORMAL\<rparr> in
        if csi_len ctx > 64 then (KEY_UNKNOWN, abort)
        else if c < 0x20 \<or> c = 0x7F then
          (if c = VKRAW_BS \<or> c = VKRAW_ERASE then KEY_BS else c, abort)
        else if c > 0x7E then (KEY_UNKNOWN, abort)
        else if c \<ge> 0x30 \<and> c \<le> 0x3F then (KEY_INCOMPLETE, vtkbd_csi_param c ctx)
        else if c \<ge> 0x20 \<and> c \<le> 0x2F then
          (KEY_INCOMPLETE,
           if csi_inter_count ctx < VTKBD_MAX_INTERMEDIATE
           then ctx\<lparr>csi_intermediate := (csi_intermediate ctx)[csi_inter_count ctx := c],
                    csi_inter_count := csi_inter_count ctx + 1\<rparr>
           else ctx)
        else if c \<ge> 0x40 \<and> c \<le> 0x7E then vtkbd_csi_final c ctx
        else (KEY_UNKNOWN, abort))"

definition vtkbd_process :: "int \<Rightarrow> vtkbd_ctx \<Rightarrow> int \<times> vtkbd_ctx" where
  "vtkbd_process c ctx =
     (case vk_state ctx of
        VKSTATE_NORMAL \<Rightarrow> vtkbd_normal c ctx
      | VKSTATE_ESC \<Rightarrow> vtkbd_esc c ctx
      | VKSTATE_ESC_APP \<Rightarrow> vtkbd_esc_app c ctx
      | VKSTATE_CSI \<Rightarrow> vtkbd_csi c ctx)"

text \<open>\<open>Ctrl('D')\<close> is 4, \<open>'C'\<close> 67, \<open>'D'\<close> 68, \<open>'3'\<close> 51.\<close>

definition vtkbd_ignore_dbcs_evil_repeats :: "byte list \<Rightarrow> nat" where
  "vtkbd_ignore_dbcs_evil_repeats buf =
     (let len = length buf in
      if len = 2 then
        (if buf ! 0 \<noteq> buf ! 1 then len
         else if buf ! 0 = 0x08 \<or> buf ! 0 = 0x7F \<or> buf ! 0 = 68 AND 0x1F then len div 2
         else len)
      else if len = 6 then
        (if buf ! 2 \<noteq> 67 \<and> buf ! 2 \<noteq> 68 then len
         else if buf ! 0 = 27 \<and> (buf ! 1 = 91 \<or> buf ! 1 = 79) \<and>
                 buf ! 0 = buf ! 3 \<and> buf ! 1 = buf ! 4 \<and> buf ! 2 = buf ! 5 then len div 2
         else len)
      else if len = 8 then
        (if buf ! 0 \<noteq> 27 \<or> buf ! 2 \<noteq> 51 \<or> buf ! 1 \<noteq> 91 \<or> buf ! 3 \<noteq> 126 then len
         else if buf ! 4 = buf ! 0 \<and> buf ! 5 = buf ! 1 \<and> buf ! 6 = buf ! 2 \<and> buf ! 7 = buf ! 3
         then len div 2
         else len)
      else len)"

section \<open>The parser as a machine\<close>

definition vtkbd_step :: "vtkbd_ctx \<Rightarrow> int \<Rightarrow> (vtkbd_ctx \<times> int list) option" where
  "vtkbd_step ctx c = (case vtkbd_process c ctx of (k, ctx') \<Rightarrow> Some (ctx', [k]))"

lemma vtkbd_step_process: "vtkbd_process c ctx = (k, ctx') \<Longrightarrow> vtkbd_step ctx c = Some (ctx', [k])"
  by (simp add: vtkbd_step_def)

definition vtkbd_inv :: "vtkbd_ctx \<Rightarrow> bool" where
  "vtkbd_inv ctx \<longleftrightarrow>
     length (csi_params ctx) = VTKBD_MAX_PARAMS \<and> csi_param_count ctx \<le> VTKBD_MAX_PARAMS \<and>
     length (csi_intermediate ctx) = VTKBD_MAX_INTERMEDIATE \<and>
     csi_inter_count ctx \<le> VTKBD_MAX_INTERMEDIATE \<and>
     (csi_has_param ctx \<longrightarrow> csi_param_count ctx > 0) \<and>
     (vk_state ctx = VKSTATE_CSI \<longrightarrow> csi_len ctx \<le> 64)"

lemma vtkbd_inv_init [simp]: "vtkbd_inv vtkbd_init"
  by (simp add: vtkbd_inv_def vtkbd_init_def)

lemma vtkbd_csi_param_inv:
  assumes "vtkbd_inv ctx"
  shows "vtkbd_inv (vtkbd_csi_param c ctx)"
  using assms unfolding vtkbd_inv_def vtkbd_csi_param_def Let_def by simp

lemma vtkbd_csi_param_frame [simp]:
  "vk_state (vtkbd_csi_param c ctx) = vk_state ctx"
  "csi_len (vtkbd_csi_param c ctx) = csi_len ctx"
  unfolding vtkbd_csi_param_def Let_def by simp_all

lemma vtkbd_csi_final_frame [simp]:
  "vk_state (snd (vtkbd_csi_final c ctx)) = VKSTATE_NORMAL"
  unfolding vtkbd_csi_final_def Let_def by simp

lemma vtkbd_csi_final_inv:
  "vtkbd_inv ctx \<Longrightarrow> vtkbd_inv (snd (vtkbd_csi_final c ctx))"
  unfolding vtkbd_csi_final_def Let_def vtkbd_inv_def by simp

lemma vtkbd_csi_inv:
  assumes "vtkbd_inv ctx"
  shows "vtkbd_inv (snd (vtkbd_csi c ctx))"
proof (cases "csi_len ctx < 64")
  case True
  then have "vtkbd_inv (ctx\<lparr>csi_len := csi_len ctx + 1\<rparr>)"
    using assms by (simp add: vtkbd_inv_def)
  then show ?thesis
    using assms vtkbd_csi_param_inv vtkbd_csi_final_inv
    unfolding vtkbd_csi_def Let_def by (auto simp: vtkbd_inv_def)
next
  case False
  then show ?thesis using assms by (simp add: vtkbd_csi_def Let_def vtkbd_inv_def)
qed

lemma vtkbd_process_inv:
  assumes "vtkbd_inv ctx"
  shows "vtkbd_inv (snd (vtkbd_process c ctx))"
proof (cases "vk_state ctx")
  case VKSTATE_CSI
  then show ?thesis using vtkbd_csi_inv [OF assms] by (simp add: vtkbd_process_def)
qed (use assms in \<open>simp_all add: vtkbd_process_def vtkbd_normal_def vtkbd_esc_def vtkbd_esc_app_def
    vtkbd_reset_csi_def vtkbd_inv_def\<close>)

interpretation vk: machine vtkbd_step vtkbd_inv
proof
  fix ctx c assume "vtkbd_inv ctx"
  then show "\<exists>s' os. vtkbd_step ctx c = Some (s', os) \<and> vtkbd_inv s'"
    using vtkbd_process_inv [of ctx c] by (auto simp: vtkbd_step_def split: prod.split)
qed

text \<open>How far a sequence can still go before the parser gives up.\<close>

definition vtkbd_budget :: "vtkbd_ctx \<Rightarrow> nat" where
  "vtkbd_budget ctx =
     (case vk_state ctx of
        VKSTATE_NORMAL \<Rightarrow> 0
      | VKSTATE_ESC \<Rightarrow> 66
      | VKSTATE_ESC_APP \<Rightarrow> 1
      | VKSTATE_CSI \<Rightarrow> 65 - csi_len ctx)"

lemma app_key_complete: "app_key c \<noteq> KEY_INCOMPLETE"
proof -
  have "[42, 43, 44, 45, 46, 47 :: int] ! nat (c - 106) \<noteq> KEY_INCOMPLETE" if "106 \<le> c" "c \<le> 111"
  proof -
    have "c \<in> {106, 107, 108, 109, 110, 111}" using that by auto
    then show ?thesis by (elim insertE emptyE) simp_all
  qed
  then show ?thesis by (simp add: app_key_def)
qed

lemma vtkbd_csi_final_complete: "fst (vtkbd_csi_final c ctx) \<noteq> KEY_INCOMPLETE"
  unfolding vtkbd_csi_final_def tilde_key_def Let_def by simp

lemma vtkbd_step_budget:
  assumes "vtkbd_inv ctx" "vtkbd_process c ctx = (KEY_INCOMPLETE, ctx')" "c \<noteq> KEY_ESC" "c \<noteq> KEY_INCOMPLETE"
  shows "vtkbd_budget ctx' < vtkbd_budget ctx"
proof (cases "vk_state ctx")
  case VKSTATE_NORMAL
  then show ?thesis using assms by (auto simp: vtkbd_process_def vtkbd_normal_def split: if_splits)
next
  case VKSTATE_ESC
  then show ?thesis using assms
    by (auto simp: vtkbd_process_def vtkbd_esc_def vtkbd_reset_csi_def vtkbd_budget_def split: if_splits)
next
  case VKSTATE_ESC_APP
  then show ?thesis using assms app_key_complete [of c] by (auto simp: vtkbd_process_def vtkbd_esc_app_def)
next
  case VKSTATE_CSI
  let ?ctx = "ctx\<lparr>csi_len := csi_len ctx + 1\<rparr>"
  have "vk_state ctx' = VKSTATE_CSI \<and> csi_len ctx' = csi_len ctx + 1 \<and> csi_len ctx < 64"
    using assms VKSTATE_CSI vtkbd_csi_final_complete [of c ?ctx]
    unfolding vtkbd_process_def vtkbd_csi_def Let_def
    by (auto split: if_splits)
  then show ?thesis using VKSTATE_CSI by (auto simp: vtkbd_budget_def)
qed

lemma vtkbd_run_complete:
  assumes "vtkbd_inv ctx" "KEY_ESC \<notin> set cs" "KEY_INCOMPLETE \<notin> set cs" "vtkbd_budget ctx < length cs"
    "run_machine vtkbd_step ctx cs = Some (ctx', ks)"
  shows "\<exists>k\<in>set ks. k \<noteq> KEY_INCOMPLETE"
  using assms
proof (induction cs arbitrary: ctx ks)
  case (Cons c cs)
  obtain k ctx1 where p: "vtkbd_process c ctx = (k, ctx1)" by fastforce
  have inv: "vtkbd_inv ctx1" using vtkbd_process_inv [OF Cons.prems(1), of c] p by simp
  obtain ks1 where ks: "run_machine vtkbd_step ctx1 cs = Some (ctx', ks1)" "ks = k # ks1"
    using Cons.prems(5) p by (auto simp: vtkbd_step_process)
  show ?case
  proof (cases "k = KEY_INCOMPLETE")
    case True
    then have "vtkbd_budget ctx1 < vtkbd_budget ctx"
      using vtkbd_step_budget [OF Cons.prems(1)] p Cons.prems(2,3) by auto
    then show ?thesis using Cons.IH [OF inv _ _ _ ks(1)] Cons.prems ks by auto
  qed (use ks in simp)
qed simp

section \<open>Numeric parameters\<close>

text \<open>The decimal digits a terminal sends for a number, as \<open>printf("%d")\<close> writes them.\<close>

fun dec :: "nat \<Rightarrow> int list" where
  "dec n = (if n < 10 then [48 + int n] else dec (n div 10) @ [48 + int (n mod 10)])"

declare dec.simps [simp del]

definition csi_num :: "u32 \<Rightarrow> int list \<Rightarrow> u32" where
  "csi_num w ds = foldl (\<lambda>v d. v * 10 + of_int (d - 48)) w ds"

lemma csi_num_simps [simp]:
  "csi_num w [] = w" "csi_num w (d # ds) = csi_num (w * 10 + of_int (d - 48)) ds"
  "csi_num w (ds @ es) = csi_num (csi_num w ds) es"
  by (simp_all add: csi_num_def)

lemma csi_num_dec: "csi_num 0 (dec n) = of_nat n"
proof (induction n rule: dec.induct)
  case (1 n)
  show ?case
  proof (cases "n < 10")
    case True
    then show ?thesis by (simp add: dec.simps)
  next
    case False
    have "csi_num 0 (dec n) = of_nat (n div 10) * 10 + (of_nat (n mod 10) :: u32)"
      using False 1 by (simp add: dec.simps [of n])
    also have "\<dots> = of_nat (n div 10 * 10 + n mod 10)" by (simp only: of_nat_add of_nat_mult of_nat_numeral)
    finally show ?thesis by simp
  qed
qed

lemma dec_digits: "d \<in> set (dec n) \<Longrightarrow> 48 \<le> d \<and> d \<le> 57"
proof (induction n rule: dec.induct)
  case (1 n)
  have "n mod 10 < 10" by simp
  then show ?case using 1 by (cases "n < 10") (auto simp: dec.simps [of n])
qed

lemma dec_ne [simp]: "dec n \<noteq> []"
  by (simp add: dec.simps)

lemma length_dec: "n < 10 ^ k \<Longrightarrow> 0 < k \<Longrightarrow> length (dec n) \<le> k"
proof (induction n arbitrary: k rule: dec.induct)
  case (1 n)
  show ?case
  proof (cases "n < 10")
    case True
    then show ?thesis using 1 by (simp add: dec.simps)
  next
    case False
    obtain k' where k: "k = Suc k'" using 1(3) by (cases k) auto
    have "0 < k'" using 1(2) False k by (cases k') auto
    note k = k this
    then have "n div 10 < 10 ^ k'" using 1(2) by (simp add: less_mult_imp_div_less mult.commute)
    then show ?thesis using 1(1) False k by (auto simp: dec.simps [of n])
  qed
qed

text \<open>A parser in the parameter part of a sequence.\<close>

definition csi_open :: "vtkbd_ctx \<Rightarrow> bool" where
  "csi_open ctx \<longleftrightarrow> vtkbd_inv ctx \<and> vk_state ctx = VKSTATE_CSI \<and> csi_inter_count ctx = 0"

lemma vtkbd_digit:
  assumes "csi_open ctx" "48 \<le> d" "d \<le> 57" "csi_len ctx < 64" "csi_param_count ctx = Suc i"
  shows "vtkbd_step ctx d = Some (ctx\<lparr>csi_len := csi_len ctx + 1, csi_has_param := True,
    csi_params := (csi_params ctx)[i := csi_params ctx ! i * 10 + of_int (d - 48)]\<rparr>, [KEY_INCOMPLETE])"
  using assms
  by (intro vtkbd_step_process)
    (auto simp: vtkbd_process_def vtkbd_csi_def vtkbd_csi_param_def Let_def csi_open_def vtkbd_inv_def)

lemma vtkbd_digits:
  assumes "csi_open ctx" "\<forall>d\<in>set ds. 48 \<le> d \<and> d \<le> 57" "csi_len ctx + length ds \<le> 64"
    "csi_param_count ctx = Suc i" "ds \<noteq> []"
  shows "run_machine vtkbd_step ctx ds =
    Some (ctx\<lparr>csi_len := csi_len ctx + length ds, csi_has_param := True,
              csi_params := (csi_params ctx)[i := csi_num (csi_params ctx ! i) ds]\<rparr>,
          replicate (length ds) KEY_INCOMPLETE)"
  using assms
proof (induction ds arbitrary: ctx)
  case (Cons d ds)
  let ?c = "ctx\<lparr>csi_len := csi_len ctx + 1, csi_has_param := True,
    csi_params := (csi_params ctx)[i := csi_params ctx ! i * 10 + of_int (d - 48)]\<rparr>"
  have step: "vtkbd_step ctx d = Some (?c, [KEY_INCOMPLETE])"
    using Cons.prems by (intro vtkbd_digit) auto
  have i: "i < length (csi_params ctx)" using Cons.prems by (simp add: csi_open_def vtkbd_inv_def)
  show ?case
  proof (cases "ds = []")
    case True
    then show ?thesis using step by simp
  next
    case False
    have "csi_open ?c" using Cons.prems by (auto simp: csi_open_def vtkbd_inv_def)
    then show ?thesis using Cons.IH [of ?c] Cons.prems False i step by simp
  qed
qed simp

text \<open>The first digit of a sequence opens parameter 0.\<close>

lemma vtkbd_first_digit:
  assumes "csi_open ctx" "48 \<le> d" "d \<le> 57" "csi_len ctx < 64" "csi_param_count ctx = 0"
  shows "vtkbd_step ctx d = vtkbd_step (ctx\<lparr>csi_param_count := 1\<rparr>) d"
  using assms by (auto simp: vtkbd_step_def vtkbd_process_def vtkbd_csi_def vtkbd_csi_param_def Let_def
      csi_open_def vtkbd_inv_def)

lemma vtkbd_first_number:
  assumes "csi_open ctx" "csi_len ctx + length (dec n) \<le> 64" "csi_param_count ctx = 0" "csi_params ctx ! 0 = 0"
  shows "run_machine vtkbd_step ctx (dec n) =
    Some (ctx\<lparr>csi_len := csi_len ctx + length (dec n), csi_has_param := True, csi_param_count := 1,
              csi_params := (csi_params ctx)[0 := of_nat n]\<rparr>,
          replicate (length (dec n)) KEY_INCOMPLETE)"
proof -
  let ?c = "ctx\<lparr>csi_param_count := 1\<rparr>"
  obtain d ds where d: "dec n = d # ds" by (cases "dec n") auto
  have "run_machine vtkbd_step ctx (dec n) = run_machine vtkbd_step ?c (dec n)"
    using assms vtkbd_first_digit [of ctx d] dec_digits [of d n] d by simp
  moreover have "csi_open ?c" using assms by (simp add: csi_open_def vtkbd_inv_def)
  ultimately show ?thesis
    using vtkbd_digits [of ?c "dec n" 0] assms dec_digits [of _ n] by (simp add: csi_num_dec)
qed

lemma vtkbd_next_number:
  assumes "csi_open ctx" "csi_len ctx + length (dec n) < 64" "csi_param_count ctx = Suc i" "Suc i < 8"
    "csi_params ctx ! Suc i = 0"
  shows "run_machine vtkbd_step ctx (59 # dec n) =
    Some (ctx\<lparr>csi_len := csi_len ctx + Suc (length (dec n)), csi_has_param := True,
              csi_param_count := Suc (Suc i), csi_params := (csi_params ctx)[Suc i := of_nat n]\<rparr>,
          replicate (Suc (length (dec n))) KEY_INCOMPLETE)"
proof -
  let ?c = "ctx\<lparr>csi_len := csi_len ctx + 1, csi_param_count := Suc (Suc i), csi_has_param := False\<rparr>"
  have "vtkbd_step ctx 59 = Some (?c, [KEY_INCOMPLETE])"
    using assms by (intro vtkbd_step_process)
      (auto simp: vtkbd_process_def vtkbd_csi_def vtkbd_csi_param_def Let_def csi_open_def)
  moreover have "csi_open ?c" using assms by (simp add: csi_open_def vtkbd_inv_def)
  ultimately show ?thesis
    using vtkbd_digits [of ?c "dec n" "Suc i"] assms dec_digits [of _ n] by (simp add: csi_num_dec)
qed

text \<open>\<open>ESC [\<close> from the idle parser.\<close>

definition csi_start :: "vtkbd_ctx \<Rightarrow> vtkbd_ctx" where
  "csi_start ctx = (vtkbd_reset_csi ctx)\<lparr>vk_state := VKSTATE_CSI\<rparr>"

lemma csi_start_simps [simp]:
  "csi_len (csi_start ctx) = 0" "csi_param_count (csi_start ctx) = 0"
  "csi_params (csi_start ctx) = replicate 8 0" "csi_prefix (csi_start ctx) = 0"
  "csi_open (csi_start ctx)" "vk_state (csi_start ctx) = VKSTATE_CSI"
  "csi_inter_count (csi_start ctx) = 0"
  by (simp_all add: csi_start_def vtkbd_reset_csi_def csi_open_def vtkbd_inv_def)

lemma vtkbd_run_start:
  "vk_state ctx = VKSTATE_NORMAL \<Longrightarrow>
     run_machine vtkbd_step ctx [KEY_ESC, 91] = Some (csi_start ctx, [KEY_INCOMPLETE, KEY_INCOMPLETE])"
  by (simp add: vtkbd_step_def vtkbd_process_def vtkbd_normal_def vtkbd_esc_def csi_start_def
      vtkbd_reset_csi_def)

lemma sint_of_nat_u32: "n < 2 ^ 31 \<Longrightarrow> sint (of_nat n :: u32) = int n"
  by (simp add: signed_of_nat signed_take_bit_int_eq_self)

lemma of_nat_wrap_u32: "of_nat (n + 2 ^ 32) = (of_nat n :: u32)"
  by (simp add: word_eq_iff_unsigned unsigned_of_nat take_bit_eq_mod)

lemma vtkbd_run_tilde:
  assumes "vk_state ctx = VKSTATE_NORMAL" "length (dec n) < 64"
  shows "\<exists>ctx'. run_machine vtkbd_step ctx ([KEY_ESC, 91] @ dec n @ [126]) =
    Some (ctx', replicate (2 + length (dec n)) KEY_INCOMPLETE @ [tilde_key (sint (of_nat n :: u32))]) \<and>
    vk_state ctx' = VKSTATE_NORMAL"
proof -
  let ?c = "(csi_start ctx)\<lparr>csi_len := length (dec n), csi_has_param := True, csi_param_count := 1,
              csi_params := (replicate 8 0)[0 := of_nat n]\<rparr>"
  have num: "run_machine vtkbd_step (csi_start ctx) (dec n) =
      Some (?c, replicate (length (dec n)) KEY_INCOMPLETE)"
    using vtkbd_first_number [of "csi_start ctx" n] assms(2) by simp
  have fin: "run_machine vtkbd_step ?c [126] =
      Some (?c\<lparr>csi_len := Suc (length (dec n)), vk_state := VKSTATE_NORMAL\<rparr>, [tilde_key (sint (of_nat n :: u32))])"
    using assms(2) by (simp add: vtkbd_step_def vtkbd_process_def vtkbd_csi_def vtkbd_csi_final_def Let_def)
  show ?thesis
    using vtkbd_run_start [OF assms(1)] num fin
    by (simp add: run_machine_append del: run_machine.simps(2) append_Cons)
qed

text \<open>The parameters of a mouse report, up to its final byte.\<close>

lemma vtkbd_run_mouse_params:
  assumes "vk_state ctx = VKSTATE_NORMAL" "btn < 2 ^ 31" "col < 2 ^ 31" "row < 2 ^ 31"
  shows "\<exists>c ks. run_machine vtkbd_step ctx
      (([KEY_ESC, 91] @ [60]) @ dec btn @ (59 # dec col) @ (59 # dec row)) = Some (c, ks) \<and>
    set ks = {KEY_INCOMPLETE} \<and> vk_state c = VKSTATE_CSI \<and> csi_prefix c = 60 \<and> csi_len c < 64 \<and>
    csi_param_count c = 3 \<and>
    csi_params c = (replicate 8 0)[0 := of_nat btn, 1 := of_nat col, 2 := of_nat row]"
proof -
  have len: "length (dec n) \<le> 10" if "n < 2 ^ 31" for n
    using length_dec [of n 10] that by simp
  note lens = len [OF assms(2)] len [OF assms(3)] len [OF assms(4)]
  let ?c0 = "(csi_start ctx)\<lparr>csi_len := 1, csi_prefix := 60\<rparr>"
  let ?c1 = "?c0\<lparr>csi_len := 1 + length (dec btn), csi_has_param := True, csi_param_count := 1,
              csi_params := (replicate 8 0)[0 := of_nat btn]\<rparr>"
  let ?c2 = "?c1\<lparr>csi_len := csi_len ?c1 + Suc (length (dec col)), csi_has_param := True,
              csi_param_count := 2, csi_params := (csi_params ?c1)[1 := of_nat col]\<rparr>"
  let ?c3 = "?c2\<lparr>csi_len := csi_len ?c2 + Suc (length (dec row)), csi_has_param := True,
              csi_param_count := 3, csi_params := (csi_params ?c2)[2 := of_nat row]\<rparr>"
  have s0: "run_machine vtkbd_step (csi_start ctx) [60] = Some (?c0, [KEY_INCOMPLETE])"
    by (simp add: vtkbd_step_def vtkbd_process_def vtkbd_csi_def vtkbd_csi_param_def Let_def)
  have open0: "csi_open ?c0" and open1: "csi_open ?c1" and open2: "csi_open ?c2"
    using lens csi_start_simps(5) [of ctx] by (simp_all add: csi_open_def vtkbd_inv_def)
  have s1: "run_machine vtkbd_step ?c0 (dec btn) = Some (?c1, replicate (length (dec btn)) KEY_INCOMPLETE)"
    using vtkbd_first_number [OF open0] lens by simp
  have s2: "run_machine vtkbd_step ?c1 (59 # dec col) =
      Some (?c2, replicate (Suc (length (dec col))) KEY_INCOMPLETE)"
    using vtkbd_next_number [OF open1, of col 0] lens by (simp del: run_machine.simps(2))
  have s3: "run_machine vtkbd_step ?c2 (59 # dec row) =
      Some (?c3, replicate (Suc (length (dec row))) KEY_INCOMPLETE)"
    using vtkbd_next_number [OF open2, of row 1] lens by (simp del: run_machine.simps(2) add: numeral_2_eq_2)
  have "run_machine vtkbd_step ctx (([KEY_ESC, 91] @ [60]) @ dec btn @ (59 # dec col) @ (59 # dec row)) =
      Some (?c3, ([KEY_INCOMPLETE, KEY_INCOMPLETE] @ [KEY_INCOMPLETE]) @
        replicate (length (dec btn)) KEY_INCOMPLETE @ replicate (Suc (length (dec col))) KEY_INCOMPLETE @
        replicate (Suc (length (dec row))) KEY_INCOMPLETE)"
    by (intro run_machine_seq [OF run_machine_seq [OF vtkbd_run_start [OF assms(1)] s0]]
        run_machine_seq [OF s1] run_machine_seq [OF s2] s3)
  moreover have "csi_len ?c3 < 64" using lens by simp
  ultimately show ?thesis by (intro exI conjI) (assumption | auto)+
qed

section \<open>Properties\<close>

text \<open>C27.
  The parser is safe and cannot hang: on any codes, every reachable context
  keeps the parameter and intermediate counters inside their arrays, and among
  any 67 consecutive codes that hold neither ESC nor the internal code for an
  unfinished sequence at least one completes a key.
\<close>

theorem vtkbd_no_hang:
  assumes "reach vtkbd_step vtkbd_init ctx" "length cs = 67" "KEY_ESC \<notin> set cs" "KEY_INCOMPLETE \<notin> set cs"
  shows "\<exists>ctx' ks. run_machine vtkbd_step ctx cs = Some (ctx', ks) \<and> vtkbd_inv ctx' \<and>
    (\<exists>k\<in>set ks. k \<noteq> KEY_INCOMPLETE)"
proof -
  have inv: "vtkbd_inv ctx" using vk.reach_inv [OF assms(1)] by simp
  obtain ctx' ks where r: "run_machine vtkbd_step ctx cs = Some (ctx', ks)" "vtkbd_inv ctx'"
    using vk.run_total [OF inv] by blast
  have "vtkbd_budget ctx < length cs"
    using assms(2) by (auto simp: vtkbd_budget_def split: vkstates.split)
  then show ?thesis using vtkbd_run_complete [OF inv assms(3,4) _ r(1)] r by blast
qed

theorem vtkbd_no_hang_witness:
  "\<exists>ctx' ks. run_machine vtkbd_step vtkbd_init (91 # replicate 66 48) = Some (ctx', ks) \<and> vtkbd_inv ctx' \<and>
    (\<exists>k\<in>set ks. k \<noteq> KEY_INCOMPLETE)"
  by (rule vtkbd_no_hang) (simp_all add: reach_init)

text \<open>
  Mouse reports are decoded exactly: for every button code, column and row
  below \<open>2^31\<close>, the report \<open>ESC [ < btn ; col ; row M\<close> (or \<open>m\<close> on release), with its
  numbers in decimal, ends in the mouse key with zero-based coordinates, the
  wheel or button number, the motion bit and the modifier flags of \<open>btn\<close>.
\<close>

lemma vtkbd_mouse_report:
  assumes "vk_state ctx = VKSTATE_NORMAL" "btn < 2 ^ 31" "col < 2 ^ 31" "row < 2 ^ 31"
  shows "\<exists>ctx' ks. run_machine vtkbd_step ctx
      ([KEY_ESC, 91, 60] @ dec btn @ (59 # dec col) @ (59 # dec row) @ [if rel then 109 else 77]) =
      Some (ctx', ks @ [if rel then KEY_MOUSE_RELEASE else KEY_MOUSE]) \<and>
    set ks = {KEY_INCOMPLETE} \<and> vk_state ctx' = VKSTATE_NORMAL \<and>
    mouse ctx' = \<lparr> mouse_x = int (col - 1), mouse_y = int (row - 1),
      mouse_button = (if (of_nat btn :: u32) AND 64 \<noteq> 0
                      then if (of_nat btn :: u32) AND 1 \<noteq> 0 then 65 else 64
                      else of_nat btn AND 3),
      mouse_is_release = rel, mouse_is_motion = ((of_nat btn :: u32) AND 32 \<noteq> 0),
      mouse_flags = of_nat btn AND 28 \<rparr>"
proof -
  let ?f = "if rel then 109 else 77 :: int"
  obtain c ks where c: "run_machine vtkbd_step ctx
      (([KEY_ESC, 91] @ [60]) @ dec btn @ (59 # dec col) @ (59 # dec row)) = Some (c, ks)"
    "set ks = {KEY_INCOMPLETE}" "vk_state c = VKSTATE_CSI" "csi_prefix c = 60" "csi_len c < 64"
    "csi_param_count c = 3"
    "csi_params c = (replicate 8 0)[0 := of_nat btn, 1 := of_nat col, 2 := of_nat row]"
    using vtkbd_run_mouse_params [OF assms] by blast
  let ?c' = "c\<lparr>csi_len := csi_len c + 1, vk_state := VKSTATE_NORMAL, mouse := vtkbd_sgr_mouse ?f c\<rparr>"
  have fin: "run_machine vtkbd_step c [?f] = Some (?c', [if rel then KEY_MOUSE_RELEASE else KEY_MOUSE])"
    using c by (simp add: vtkbd_step_def vtkbd_process_def vtkbd_csi_def vtkbd_csi_final_def
        vtkbd_sgr_mouse_def Let_def)
  have "run_machine vtkbd_step ctx
      ((([KEY_ESC, 91] @ [60]) @ dec btn @ (59 # dec col) @ (59 # dec row)) @ [?f]) =
      Some (?c', ks @ [if rel then KEY_MOUSE_RELEASE else KEY_MOUSE])"
    using c(1) fin unfolding run_machine_append [of _ _ _ "[?f]"] by simp
  moreover have "mouse ?c' = \<lparr> mouse_x = int (col - 1), mouse_y = int (row - 1),
      mouse_button = (if (of_nat btn :: u32) AND 64 \<noteq> 0
                      then if (of_nat btn :: u32) AND 1 \<noteq> 0 then 65 else 64
                      else of_nat btn AND 3),
      mouse_is_release = rel, mouse_is_motion = ((of_nat btn :: u32) AND 32 \<noteq> 0),
      mouse_flags = of_nat btn AND 28 \<rparr>"
    using assms c by (simp add: vtkbd_sgr_mouse_def Let_def sint_of_nat_u32 of_nat_diff)
  moreover have "vk_state ?c' = VKSTATE_NORMAL" by simp
  ultimately show ?thesis using c(2)
    by (intro exI [of _ ?c'] exI [of _ ks]) (simp del: run_machine.simps(2))
qed

text \<open>
  Editing and function keys: \<open>ESC [ n ~\<close> gives the key the table names for the
  number \<open>n\<close>, for every \<open>n\<close> below \<open>2^31\<close>, and the parser is idle again; the same
  key is given for \<open>n + 2^32\<close>, because the parameter is accumulated in a 32-bit
  integer with no limit on its digits.
\<close>

lemma vtkbd_tilde_keys:
  assumes "vk_state ctx = VKSTATE_NORMAL" "n < 2 ^ 31" "m = n \<or> m = n + 2 ^ 32"
  shows "\<exists>ctx'. run_machine vtkbd_step ctx ([KEY_ESC, 91] @ dec m @ [126]) =
    Some (ctx', replicate (2 + length (dec m)) KEY_INCOMPLETE @ [tilde_key (int n)]) \<and>
    vk_state ctx' = VKSTATE_NORMAL"
proof -
  have "length (dec m) \<le> 10" using length_dec [of m 10] assms(2,3) by auto
  moreover have "sint (of_nat m :: u32) = int n"
    using assms(2,3) sint_of_nat_u32 of_nat_wrap_u32 by metis
  ultimately show ?thesis using vtkbd_run_tilde [OF assms(1), of m] by simp
qed

text \<open>
  The filter for repeated cursor keys halves a buffer exactly when it is one
  editing key sent twice: backspace, erase, Ctrl-D, left, right (in both cursor
  modes) or delete; every other buffer is left at its length.
\<close>

definition dbcs_keys :: "byte list list" where
  "dbcs_keys = [[0x08], [0x7F], [4], [27, 91, 67], [27, 91, 68], [27, 79, 67], [27, 79, 68],
     [27, 91, 51, 126]]"

lemma length_eq_numeral:
  "length xs = 2 \<Longrightarrow> \<exists>a b. xs = [a, b]"
  "length xs = 6 \<Longrightarrow> \<exists>a b c d e f. xs = [a, b, c, d, e, f]"
  "length xs = 8 \<Longrightarrow> \<exists>a b c d e f g h. xs = [a, b, c, d, e, f, g, h]"
  using map_nth [of xs] by (simp_all add: upt_rec) metis+

lemma vtkbd_dbcs_repeats:
  "vtkbd_ignore_dbcs_evil_repeats buf =
     (if buf \<in> set (map (\<lambda>k. k @ k) dbcs_keys) then length buf div 2 else length buf)"
proof -
  consider "length buf = 2" | "length buf = 6" | "length buf = 8" | "length buf \<notin> {2, 6, 8}" by blast
  then show ?thesis
  proof cases
    case 1
    then obtain a b where "buf = [a, b]" by (blast dest: length_eq_numeral)
    then show ?thesis by (auto simp: vtkbd_ignore_dbcs_evil_repeats_def dbcs_keys_def)
  next
    case 2
    then obtain a b c d e f where "buf = [a, b, c, d, e, f]" by (blast dest: length_eq_numeral)
    then show ?thesis
      by (cases "c = 67"; cases "c = 68"; cases "b = 91"; cases "b = 79")
        (simp_all add: vtkbd_ignore_dbcs_evil_repeats_def dbcs_keys_def, auto)
  next
    case 3
    then obtain a b c d e f g h where "buf = [a, b, c, d, e, f, g, h]" by (blast dest: length_eq_numeral)
    then show ?thesis by (simp add: vtkbd_ignore_dbcs_evil_repeats_def dbcs_keys_def)
  next
    case 4
    then show ?thesis by (auto simp: vtkbd_ignore_dbcs_evil_repeats_def dbcs_keys_def Let_def)
  qed
qed

end
