(* ===== verification/Multibyte.thy ===== *)
theory Multibyte
  imports Machine
begin

text \<open>
  The multibyte decoders of \<open>src/common/sys/utf8.c\<close> and \<open>src/include/multibyte.h\<close>:
  the incremental UTF-8 and Big5 contexts, the encoders, and the two string
  converters between the encodings.  The conversion tables \<open>u2b_table\<close> and
  \<open>b2u_table\<close> are generated when the program is built, so they are arguments of
  the converters.  The theory shows that both decoders are total automata that
  stay inside their buffers, that UTF-8 decoding accepts exactly the encodings of
  Unicode scalar values, each as itself, and that the converters respect the size
  of their destination and are inverse to each other where the tables are.
\<close>

section \<open>The UTF-8 context\<close>

record utf8_ctx =
  u_buf :: "byte list"
  u_need :: nat
  u_got :: nat
  u_len :: nat
  u_ucs :: int

definition utf8_init :: "utf8_ctx \<Rightarrow> utf8_ctx" where
  "utf8_init ctx = ctx\<lparr>u_buf := (u_buf ctx)[0 := 0], u_need := 0, u_got := 0, u_len := 0, u_ucs := -1\<rparr>"

definition utf8_error :: "utf8_ctx \<Rightarrow> utf8_ctx" where
  "utf8_error ctx =
     ctx\<lparr>u_buf := (u_buf ctx)[0 := 63, 1 := 0], u_need := 0, u_got := 0, u_len := 1, u_ucs := 63\<rparr>"

definition utf8_is_error :: "utf8_ctx \<Rightarrow> bool" where
  "utf8_is_error ctx \<longleftrightarrow> u_need ctx = 0 \<and> u_len ctx > 0"

definition utf8_pending :: "utf8_ctx \<Rightarrow> nat" where
  "utf8_pending ctx = (if u_need ctx > u_got ctx then u_need ctx - u_got ctx else 0)"

definition utf8_is_ready :: "utf8_ctx \<Rightarrow> bool" where
  "utf8_is_ready ctx \<longleftrightarrow> u_need ctx > 0 \<and> u_got ctx = u_need ctx"

definition utf8_get_ucs :: "utf8_ctx \<Rightarrow> int \<times> utf8_ctx" where
  "utf8_get_ucs ctx =
     (if \<not> utf8_is_ready ctx then (-1, ctx)
      else (u_ucs ctx, ctx\<lparr>u_need := 0, u_got := 0, u_len := 0, u_ucs := -1\<rparr>))"

text \<open>A byte that continues a character: the branch \<open>ctx->need > 0\<close>.\<close>

definition utf8_continue :: "utf8_ctx \<Rightarrow> byte \<Rightarrow> bool \<times> utf8_ctx" where
  "utf8_continue ctx b =
     (if b AND 0xC0 \<noteq> 0x80 \<or> u_need ctx < 2 \<or> u_got ctx = 0 \<or> u_got ctx \<ge> u_need ctx
      then (False, utf8_error ctx)
      else
        let ctx1 = ctx\<lparr>u_buf := (u_buf ctx)[u_got ctx := b], u_got := u_got ctx + 1,
                        u_ucs := push_bit 6 (u_ucs ctx) OR uint (b AND 0x3F)\<rparr> in
        if u_got ctx1 = u_need ctx1 then
          if u_need ctx1 = 2 \<and> u_ucs ctx1 < 0x80 \<or>
             u_need ctx1 = 3 \<and> (u_ucs ctx1 < 0x800 \<or> u_ucs ctx1 \<ge> 0xD800 \<and> u_ucs ctx1 \<le> 0xDFFF) \<or>
             u_need ctx1 = 4 \<and> (u_ucs ctx1 < 0x10000 \<or> u_ucs ctx1 > 0x10FFFF)
          then (False, utf8_error ctx1)
          else (True, ctx1\<lparr>u_buf := (u_buf ctx1)[u_got ctx1 := 0], u_len := u_got ctx1\<rparr>)
        else (False, ctx1))"

text \<open>A byte that starts a character.\<close>

definition utf8_start :: "utf8_ctx \<Rightarrow> byte \<Rightarrow> bool \<times> utf8_ctx" where
  "utf8_start ctx b =
     (if b < 0x80 then
        (True, ctx\<lparr>u_buf := (u_buf ctx)[0 := b, 1 := 0], u_ucs := uint b, u_need := 1, u_got := 1, u_len := 1\<rparr>)
      else if b < 0xC2 \<or> b > 0xF4 then (False, utf8_error ctx)
      else
        let ctx1 = ctx\<lparr>u_buf := (u_buf ctx)[0 := b], u_got := 1, u_len := 0\<rparr> in
        (False,
         if b AND 0xE0 = 0xC0 then ctx1\<lparr>u_need := 2, u_ucs := uint (b AND 0x1F)\<rparr>
         else if b AND 0xF0 = 0xE0 then ctx1\<lparr>u_need := 3, u_ucs := uint (b AND 0x0F)\<rparr>
         else ctx1\<lparr>u_need := 4, u_ucs := uint (b AND 0x07)\<rparr>))"

definition utf8_add_byte :: "utf8_ctx \<Rightarrow> byte \<Rightarrow> bool \<times> utf8_ctx" where
  "utf8_add_byte ctx0 b =
     (let ctx = (if utf8_is_ready ctx0 then utf8_init ctx0 else ctx0) in
      if u_need ctx > 0 then utf8_continue ctx b else utf8_start ctx b)"

definition utf8_from_ucs :: "utf8_ctx \<Rightarrow> int \<Rightarrow> nat \<times> utf8_ctx" where
  "utf8_from_ucs ctx0 ucs =
     (if ucs < 0 \<or> ucs > 0x10FFFF \<or> (ucs \<ge> 0xD800 \<and> ucs \<le> 0xDFFF) then (0, utf8_init ctx0)
      else
        let ctx = ctx0\<lparr>u_ucs := ucs\<rparr>;
            fill = (\<lambda>bs. (length bs, ctx\<lparr>u_buf := write_at (u_buf ctx) 0 (bs @ [0]), u_need := length bs,
                              u_got := length bs, u_len := length bs\<rparr>)) in
        if ucs < 0x80 then fill [word_of_int ucs]
        else if ucs < 0x800 then
          fill [word_of_int (0xC0 OR drop_bit 6 ucs), word_of_int (0x80 OR (ucs AND 0x3F))]
        else if ucs < 0x10000 then
          fill [word_of_int (0xE0 OR drop_bit 12 ucs), word_of_int (0x80 OR (drop_bit 6 ucs AND 0x3F)),
                word_of_int (0x80 OR (ucs AND 0x3F))]
        else
          fill [word_of_int (0xF0 OR drop_bit 18 ucs), word_of_int (0x80 OR (drop_bit 12 ucs AND 0x3F)),
                word_of_int (0x80 OR (drop_bit 6 ucs AND 0x3F)), word_of_int (0x80 OR (ucs AND 0x3F))])"

text \<open>The bytes copied out; \<open>mb\<close> receives them and a NUL.\<close>

definition utf8_to_mb :: "utf8_ctx \<Rightarrow> byte list" where
  "utf8_to_mb ctx = (if u_len ctx = 0 then [] else take (u_len ctx) (u_buf ctx))"

section \<open>The Big5 context\<close>

record big5_ctx =
  b_buf :: "byte list"
  b_need :: nat
  b_got :: nat
  b_len :: nat
  b_ch :: int

definition big5_init :: "big5_ctx \<Rightarrow> big5_ctx" where
  "big5_init ctx = ctx\<lparr>b_buf := (b_buf ctx)[0 := 0], b_need := 0, b_got := 0, b_len := 0, b_ch := -1\<rparr>"

definition big5_error :: "big5_ctx \<Rightarrow> big5_ctx" where
  "big5_error ctx =
     ctx\<lparr>b_buf := (b_buf ctx)[0 := 63, 1 := 0], b_need := 0, b_got := 0, b_len := 1, b_ch := 63\<rparr>"

definition big5_is_error :: "big5_ctx \<Rightarrow> bool" where
  "big5_is_error ctx \<longleftrightarrow> b_need ctx = 0 \<and> b_len ctx > 0"

definition big5_pending :: "big5_ctx \<Rightarrow> nat" where
  "big5_pending ctx = (if b_need ctx > b_got ctx then b_need ctx - b_got ctx else 0)"

definition big5_is_ready :: "big5_ctx \<Rightarrow> bool" where
  "big5_is_ready ctx \<longleftrightarrow> b_need ctx > 0 \<and> b_got ctx = b_need ctx"

definition big5_get_char :: "big5_ctx \<Rightarrow> int \<times> big5_ctx" where
  "big5_get_char ctx =
     (if \<not> big5_is_ready ctx then (-1, ctx)
      else (b_ch ctx, ctx\<lparr>b_need := 0, b_got := 0, b_len := 0, b_ch := -1\<rparr>))"

definition big5_add_byte :: "big5_ctx \<Rightarrow> byte \<Rightarrow> bool \<times> big5_ctx" where
  "big5_add_byte ctx0 b =
     (let ctx = (if big5_is_ready ctx0 then big5_init ctx0 else ctx0) in
      if b_need ctx > 0 then
        (if b < 0x40 \<or> b = 0xFF then (False, big5_error ctx)
         else (True, ctx\<lparr>b_buf := (b_buf ctx)[1 := b, 2 := 0], b_got := 2, b_len := 2,
                         b_ch := push_bit 8 (uint (b_buf ctx ! 0)) OR uint b\<rparr>))
      else if b < 0x80 then
        (True, ctx\<lparr>b_buf := (b_buf ctx)[0 := b, 1 := 0], b_need := 1, b_got := 1, b_len := 1, b_ch := uint b\<rparr>)
      else if b = 0x80 \<or> b = 0xFF then (False, big5_error ctx)
      else (False, ctx\<lparr>b_buf := (b_buf ctx)[0 := b, 1 := 0], b_got := 1, b_need := 2, b_len := 0, b_ch := -1\<rparr>))"

definition big5_from_char :: "big5_ctx \<Rightarrow> int \<Rightarrow> nat \<times> big5_ctx" where
  "big5_from_char ctx0 ch =
     (if ch < 0 \<or> ch > 0xFFFF then (0, big5_init ctx0)
      else
        let ctx = ctx0\<lparr>b_ch := ch\<rparr>;
            fill = (\<lambda>bs. (length bs, ctx\<lparr>b_buf := write_at (b_buf ctx) 0 (bs @ [0]), b_need := length bs,
                              b_got := length bs, b_len := length bs\<rparr>)) in
        if ch \<le> 0xFF then fill [word_of_int ch]
        else fill [word_of_int (drop_bit 8 ch AND 0xFF), word_of_int (ch AND 0xFF)])"

definition big5_to_mb :: "big5_ctx \<Rightarrow> byte list" where
  "big5_to_mb ctx = (if b_len ctx = 0 then [] else take (b_len ctx) (b_buf ctx))"

definition big5_is_valid_lead :: "byte \<Rightarrow> bool" where
  "big5_is_valid_lead b \<longleftrightarrow> 0x81 \<le> b \<and> b \<le> 0xFE"

definition big5_is_valid_trail :: "byte \<Rightarrow> bool" where
  "big5_is_valid_trail b \<longleftrightarrow> 0x40 \<le> b \<and> b \<noteq> 0xFF"

section \<open>Converting strings\<close>

type_synonym mb_table = "u16 \<Rightarrow> u16"

text \<open>
  \<open>utf8_to_big5_n\<close>: the loop over the remaining source \<open>p\<close> with the bytes
  written so far in \<open>out\<close>.  After an error in the middle of a character the
  offending byte is read again, so the measure counts a pending character.
\<close>

lemma utf8_add_byte_error_pending:
  "utf8_add_byte ctx c = (False, ctx') \<Longrightarrow> utf8_is_error ctx' \<Longrightarrow> utf8_pending ctx' = 0"
  by (auto simp: utf8_is_error_def utf8_pending_def)

function utf8_to_big5_loop ::
  "mb_table \<Rightarrow> nat \<Rightarrow> byte list \<Rightarrow> utf8_ctx \<Rightarrow> byte list \<Rightarrow> utf8_ctx \<times> byte list" where
  "utf8_to_big5_loop u2b max_len p ctx out =
     (if p = [] \<or> hd p = 0 \<or> \<not> length out < max_len - 1 then (ctx, out)
      else
        let was_pending = utf8_pending ctx > 0; (r, ctx') = utf8_add_byte ctx (hd p) in
        if \<not> r then
          if utf8_is_error ctx' then
            utf8_to_big5_loop u2b max_len (if was_pending then p else tl p) ctx' (out @ [63])
          else utf8_to_big5_loop u2b max_len (tl p) ctx' out
        else
          let (ucs, ctx'') = utf8_get_ucs ctx';
              b5_0 = (if ucs \<ge> 0 \<and> ucs < 0x10000 then u2b (word_of_int ucs) else 0);
              b5 = (if b5_0 = 0 then 63 else b5_0) in
          if b5 > 0xFF then
            if length out + 2 \<ge> max_len then (ctx'', out)
            else utf8_to_big5_loop u2b max_len (tl p) ctx'' (out @ [ucast (drop_bit 8 b5), ucast (b5 AND 0xFF)])
          else utf8_to_big5_loop u2b max_len (tl p) ctx'' (out @ [ucast b5]))"
  by pat_completeness auto
termination
proof (relation "measure (\<lambda>(u2b, m, p, ctx, out). 2 * length p + (if utf8_pending ctx > 0 then 1 else 0))",
    goal_cases)
  case (2 u2b max_len p ctx out wp x r ctx')
  then show ?case
    using utf8_add_byte_error_pending [of ctx "hd p" ctx'] by (cases p) (auto split: if_splits)
qed (auto simp: neq_Nil_conv)

declare utf8_to_big5_loop.simps [simp del]

text \<open>
  The destination afterwards without its NUL; \<open>dst\<close> is what it held, which stays
  when there is no room at all.
\<close>

definition utf8_to_big5_n :: "mb_table \<Rightarrow> byte list \<Rightarrow> nat \<Rightarrow> byte list option" where
  "utf8_to_big5_n u2b src max_len =
     (if max_len = 0 then None
      else
        let fresh = utf8_init \<lparr>u_buf = replicate 5 0, u_need = 0, u_got = 0, u_len = 0, u_ucs = 0\<rparr>;
            (ctx, out) = utf8_to_big5_loop u2b max_len src fresh [] in
        Some (if utf8_pending ctx > 0 \<and> length out < max_len - 1 then out @ [63] else out))"

text \<open>\<open>big5_to_utf8_n\<close>; a source that is also the destination is copied first, which changes nothing here.\<close>

text \<open>The next character of a source that is not at its end: its code and what remains, or the \<open>break\<close>.\<close>

definition big5_next :: "mb_table \<Rightarrow> byte list \<Rightarrow> (u16 \<times> byte list) option" where
  "big5_next b2u p =
     (if hd p AND 0x80 \<noteq> 0 then
        if length p < 2 \<or> p ! 1 = 0 then None
        else if p ! 1 \<ge> 0x40 then
          Some (b2u (push_bit 8 (ucast (hd p)) OR ucast (p ! 1)), drop 2 p)
        else Some (63, drop 1 p)
      else Some (ucast (hd p), drop 1 p))"

lemma big5_next_less: "p \<noteq> [] \<Longrightarrow> big5_next b2u p = Some (u, p') \<Longrightarrow> length p' < length p"
  by (auto simp: big5_next_def split: if_splits)

function big5_to_utf8_loop ::
  "mb_table \<Rightarrow> nat \<Rightarrow> byte list \<Rightarrow> utf8_ctx \<Rightarrow> byte list \<Rightarrow> byte list" where
  "big5_to_utf8_loop b2u max_len p ctx out =
     (if p = [] \<or> hd p = 0 \<or> \<not> length out < max_len - 1 then out
      else
        case big5_next b2u p of
          None \<Rightarrow> out
        | Some (ucs2, p') \<Rightarrow>
            let (utf_len, ctx') = utf8_from_ucs ctx (uint ucs2) in
            if length out + utf_len \<ge> max_len then out
            else big5_to_utf8_loop b2u max_len p' ctx' (out @ utf8_to_mb ctx'))"
  by pat_completeness auto
termination
  by (relation "measure (\<lambda>(b2u, m, p, ctx, out). length p)") (auto dest: big5_next_less)

declare big5_to_utf8_loop.simps [simp del]

definition big5_to_utf8_n :: "mb_table \<Rightarrow> byte list \<Rightarrow> nat \<Rightarrow> byte list option" where
  "big5_to_utf8_n b2u src max_len =
     (if max_len = 0 then None
      else Some (big5_to_utf8_loop b2u max_len src
        \<lparr>u_buf = replicate 5 0, u_need = 0, u_got = 0, u_len = 0, u_ucs = 0\<rparr> []))"

section \<open>Invariants\<close>

definition utf8_inv :: "utf8_ctx \<Rightarrow> bool" where
  "utf8_inv ctx \<longleftrightarrow> length (u_buf ctx) = 5 \<and> u_need ctx \<le> 4 \<and> u_got ctx \<le> u_need ctx \<and>
     u_len ctx \<le> 4 \<and> (u_need ctx > 0 \<longrightarrow> u_got ctx > 0)"

definition big5_inv :: "big5_ctx \<Rightarrow> bool" where
  "big5_inv ctx \<longleftrightarrow> length (b_buf ctx) = 3 \<and> b_need ctx \<le> 2 \<and> b_got ctx \<le> b_need ctx \<and>
     b_len ctx \<le> 2 \<and> (b_need ctx > 0 \<longrightarrow> b_got ctx > 0) \<and> (b_got ctx < b_need ctx \<longrightarrow> b_need ctx = 2)"

lemma utf8_add_byte_inv: "utf8_inv ctx \<Longrightarrow> utf8_inv (snd (utf8_add_byte ctx b))"
  unfolding utf8_add_byte_def utf8_continue_def utf8_start_def Let_def
  by (simp add: utf8_inv_def utf8_init_def utf8_error_def utf8_is_ready_def)

lemma utf8_init_inv: "utf8_inv ctx \<Longrightarrow> utf8_inv (utf8_init ctx)"
  by (simp add: utf8_inv_def utf8_init_def)

lemma utf8_get_ucs_inv: "utf8_inv ctx \<Longrightarrow> utf8_inv (snd (utf8_get_ucs ctx))"
  by (simp add: utf8_inv_def utf8_get_ucs_def)

lemma utf8_from_ucs_inv: "utf8_inv ctx \<Longrightarrow> utf8_inv (snd (utf8_from_ucs ctx u))"
  by (simp add: utf8_inv_def utf8_from_ucs_def utf8_init_def Let_def)

lemma big5_add_byte_inv: "big5_inv ctx \<Longrightarrow> big5_inv (snd (big5_add_byte ctx b))"
  unfolding big5_add_byte_def Let_def
  by (simp add: big5_inv_def big5_init_def big5_error_def big5_is_ready_def)

text \<open>The decoders as machines: a completed character is the output.\<close>

definition utf8_step :: "utf8_ctx \<Rightarrow> byte \<Rightarrow> (utf8_ctx \<times> int list) option" where
  "utf8_step ctx b =
     (case utf8_add_byte ctx b of (r, ctx') \<Rightarrow> Some (ctx', if r then [u_ucs ctx'] else []))"

definition big5_step :: "big5_ctx \<Rightarrow> byte \<Rightarrow> (big5_ctx \<times> int list) option" where
  "big5_step ctx b =
     (case big5_add_byte ctx b of (r, ctx') \<Rightarrow> Some (ctx', if r then [b_ch ctx'] else []))"

interpretation u8: machine utf8_step utf8_inv
proof
  fix ctx b assume "utf8_inv ctx"
  then show "\<exists>s' os. utf8_step ctx b = Some (s', os) \<and> utf8_inv s'"
    using utf8_add_byte_inv [of ctx b] by (auto simp: utf8_step_def split: prod.split)
qed

interpretation b5: machine big5_step big5_inv
proof
  fix ctx b assume "big5_inv ctx"
  then show "\<exists>s' os. big5_step ctx b = Some (s', os) \<and> big5_inv s'"
    using big5_add_byte_inv [of ctx b] by (auto simp: big5_step_def split: prod.split)
qed

section \<open>Encoding and decoding\<close>

definition ucs_scalar :: "int \<Rightarrow> bool" where
  "ucs_scalar u \<longleftrightarrow> 0 \<le> u \<and> u \<le> 0x10FFFF \<and> \<not> (0xD800 \<le> u \<and> u \<le> 0xDFFF)"

definition utf8_fresh :: utf8_ctx where
  "utf8_fresh = utf8_init \<lparr>u_buf = replicate 5 0, u_need = 0, u_got = 0, u_len = 0, u_ucs = 0\<rparr>"

text \<open>The bytes \<open>utf8_from_ucs\<close> and \<open>utf8_to_mb\<close> produce for a code point.\<close>

definition utf8_encode :: "int \<Rightarrow> byte list" where
  "utf8_encode u = utf8_to_mb (snd (utf8_from_ucs utf8_fresh u))"

lemma div_mod_64: "0 \<le> u \<Longrightarrow> 0 \<le> u mod 64 \<and> u mod 64 < (64 :: int)"
  by simp

lemma utf8_from_ucs_encode:
  assumes "length (u_buf ctx) = 5" "ucs_scalar u"
  shows "utf8_to_mb (snd (utf8_from_ucs ctx u)) = utf8_encode u"
    and "fst (utf8_from_ucs ctx u) = length (utf8_encode u)"
  using assms unfolding utf8_encode_def utf8_to_mb_def utf8_from_ucs_def Let_def ucs_scalar_def
  by (auto simp: write_at_def)

text \<open>The byte values of an encoding, as arithmetic.\<close>

lemma or_marks:
  "0 \<le> x \<Longrightarrow> x < 32 \<Longrightarrow> 0xC0 OR x = 0xC0 + (x :: int)"
  "0 \<le> x \<Longrightarrow> x < 16 \<Longrightarrow> 0xE0 OR x = 0xE0 + (x :: int)"
  "0 \<le> x \<Longrightarrow> x < 8 \<Longrightarrow> 0xF0 OR x = 0xF0 + (x :: int)"
  "0 \<le> x \<Longrightarrow> x < 64 \<Longrightarrow> 0x80 OR x = 0x80 + (x :: int)"
  using push_bit_or_int [of x 5 6] push_bit_or_int [of x 4 14] push_bit_or_int [of x 3 30]
    push_bit_or_int [of x 6 2]
  by simp_all

definition utf8_bytes :: "int \<Rightarrow> int list" where
  "utf8_bytes u =
     (if u < 0x80 then [u]
      else if u < 0x800 then [0xC0 + u div 64, 0x80 + u mod 64]
      else if u < 0x10000 then [0xE0 + u div 4096, 0x80 + u div 64 mod 64, 0x80 + u mod 64]
      else [0xF0 + u div 262144, 0x80 + u div 4096 mod 64, 0x80 + u div 64 mod 64, 0x80 + u mod 64])"

lemma utf8_encode_unfold:
  assumes "ucs_scalar u"
  shows "utf8_encode u =
    (if u < 0x80 then [word_of_int u]
     else if u < 0x800 then
       [word_of_int (0xC0 OR drop_bit 6 u), word_of_int (0x80 OR (u AND 0x3F))]
     else if u < 0x10000 then
       [word_of_int (0xE0 OR drop_bit 12 u), word_of_int (0x80 OR (drop_bit 6 u AND 0x3F)),
        word_of_int (0x80 OR (u AND 0x3F))]
     else
       [word_of_int (0xF0 OR drop_bit 18 u), word_of_int (0x80 OR (drop_bit 12 u AND 0x3F)),
        word_of_int (0x80 OR (drop_bit 6 u AND 0x3F)), word_of_int (0x80 OR (u AND 0x3F))])"
proof -
  have no: "(u < 0 \<or> u > 0x10FFFF \<or> (u \<ge> 0xD800 \<and> u \<le> 0xDFFF)) = False"
    using assms by (auto simp: ucs_scalar_def)
  have len: "length (u_buf utf8_fresh) = 5" by (simp add: utf8_fresh_def utf8_init_def)
  have fill: "utf8_to_mb (ctx\<lparr>u_buf := write_at xs 0 (bs @ [0]), u_need := length bs, u_got := length bs,
      u_len := length bs\<rparr>) = bs" for ctx xs bs
    by (auto simp: utf8_to_mb_def write_at_def)
  show ?thesis
    unfolding utf8_encode_def utf8_from_ucs_def no if_False Let_def
    by (simp only: fill if_distrib [of snd] if_distrib [of utf8_to_mb] snd_conv)
qed

lemma utf8_encode_eq:
  assumes "ucs_scalar u"
  shows "utf8_encode u = map word_of_int (utf8_bytes u)"
proof -
  have d: "drop_bit 6 u = u div 64" "drop_bit 12 u = u div 4096" "drop_bit 18 u = u div 262144"
    by (simp_all add: drop_bit_eq_div)
  have m: "0x80 OR (x AND 0x3F) = 0x80 + x mod 64" for x :: int
    by (simp add: int_and_mask or_marks)
  have u: "0 \<le> u" "u \<le> 0x10FFFF" using assms by (auto simp: ucs_scalar_def)
  consider "u < 0x80" | "0x80 \<le> u" "u < 0x800" | "0x800 \<le> u" "u < 0x10000" | "0x10000 \<le> u"
    by linarith
  then show ?thesis
  proof cases
    case 1
    then show ?thesis by (simp add: utf8_encode_unfold [OF assms] utf8_bytes_def)
  next
    case 2
    then have "0xC0 OR u div 64 = 0xC0 + u div 64" by (intro or_marks) auto
    then show ?thesis using 2 unfolding utf8_encode_unfold [OF assms] utf8_bytes_def d m by simp
  next
    case 3
    then have "0xE0 OR u div 4096 = 0xE0 + u div 4096" by (intro or_marks) auto
    then show ?thesis using 3 unfolding utf8_encode_unfold [OF assms] utf8_bytes_def d m by simp
  next
    case 4
    then have "0xF0 OR u div 262144 = 0xF0 + u div 262144" using u by (intro or_marks) auto
    then show ?thesis using 4 unfolding utf8_encode_unfold [OF assms] utf8_bytes_def d m by simp
  qed
qed

text \<open>A context between characters, and one in the middle of a character.\<close>

definition utf8_clean :: "utf8_ctx \<Rightarrow> bool" where
  "utf8_clean ctx \<longleftrightarrow> utf8_inv ctx \<and> utf8_pending ctx = 0"

definition utf8_pend :: "nat \<Rightarrow> nat \<Rightarrow> int \<Rightarrow> utf8_ctx \<Rightarrow> bool" where
  "utf8_pend n g v ctx \<longleftrightarrow> utf8_inv ctx \<and> u_need ctx = n \<and> u_got ctx = g \<and> u_ucs ctx = v"

text \<open>The values a character of \<open>n\<close> bytes may have.\<close>

definition utf8_valid :: "nat \<Rightarrow> int \<Rightarrow> bool" where
  "utf8_valid n v \<longleftrightarrow> \<not> (n = 2 \<and> v < 0x80 \<or>
     n = 3 \<and> (v < 0x800 \<or> v \<ge> 0xD800 \<and> v \<le> 0xDFFF) \<or> n = 4 \<and> (v < 0x10000 \<or> v > 0x10FFFF))"

lemma utf8_clean_cases:
  assumes "utf8_clean ctx"
  shows "utf8_add_byte ctx b = utf8_start (if utf8_is_ready ctx then utf8_init ctx else ctx) b"
  using assms by (auto simp: utf8_add_byte_def utf8_clean_def utf8_pending_def utf8_is_ready_def
      utf8_inv_def utf8_init_def Let_def split: if_splits)

lemma uint_less_iff_byte: "(b :: byte) < c \<longleftrightarrow> uint b < uint c"
  by (rule word_less_def)

lemma utf8_start_spec:
  assumes "utf8_inv ctx" "u_need ctx = 0"
  shows "uint b < 128 \<Longrightarrow> \<exists>c. utf8_start ctx b = (True, c) \<and> utf8_clean c \<and> u_ucs c = uint b"
    and "0xC2 \<le> uint b \<Longrightarrow> uint b < 0xE0 \<Longrightarrow>
      \<exists>c. utf8_start ctx b = (False, c) \<and> utf8_pend 2 1 (uint b - 0xC0) c"
    and "0xE0 \<le> uint b \<Longrightarrow> uint b < 0xF0 \<Longrightarrow>
      \<exists>c. utf8_start ctx b = (False, c) \<and> utf8_pend 3 1 (uint b - 0xE0) c"
    and "0xF0 \<le> uint b \<Longrightarrow> uint b \<le> 0xF4 \<Longrightarrow>
      \<exists>c. utf8_start ctx b = (False, c) \<and> utf8_pend 4 1 (uint b - 0xF0) c"
    and "128 \<le> uint b \<Longrightarrow> uint b < 0xC2 \<or> uint b > 0xF4 \<Longrightarrow>
      \<exists>c. utf8_start ctx b = (False, c) \<and> utf8_pending c = 0"
proof -
  note u = uint_less_iff_byte byte_and_high_iff byte_and_mask
  note i = utf8_inv_def utf8_clean_def utf8_pend_def utf8_pending_def utf8_error_def
  show "\<exists>c. utf8_start ctx b = (True, c) \<and> utf8_clean c \<and> u_ucs c = uint b" if "uint b < 128"
    using assms that by (simp add: utf8_start_def u i)
  show "\<exists>c. utf8_start ctx b = (False, c) \<and> utf8_pend 2 1 (uint b - 0xC0) c"
    if "0xC2 \<le> uint b" "uint b < 0xE0"
  proof -
    have "uint b div 32 = 6" "uint b mod 32 = uint b - 0xC0" using that by presburger+
    then show ?thesis using assms that by (simp add: utf8_start_def u i)
  qed
  show "\<exists>c. utf8_start ctx b = (False, c) \<and> utf8_pend 3 1 (uint b - 0xE0) c"
    if "0xE0 \<le> uint b" "uint b < 0xF0"
  proof -
    have "uint b div 32 \<noteq> 6" "uint b div 16 = 14" "uint b mod 16 = uint b - 0xE0"
      using that by presburger+
    then show ?thesis using assms that by (simp add: utf8_start_def u i)
  qed
  show "\<exists>c. utf8_start ctx b = (False, c) \<and> utf8_pend 4 1 (uint b - 0xF0) c"
    if "0xF0 \<le> uint b" "uint b \<le> 0xF4"
  proof -
    have "uint b div 32 \<noteq> 6" "uint b div 16 \<noteq> 14" "uint b mod 8 = uint b - 0xF0"
      using that by presburger+
    then show ?thesis using assms that by (simp add: utf8_start_def u i)
  qed
  show "\<exists>c. utf8_start ctx b = (False, c) \<and> utf8_pending c = 0"
    if "128 \<le> uint b" "uint b < 0xC2 \<or> uint b > 0xF4"
    using assms that by (auto simp: utf8_start_def u i)
qed

lemma utf8_continue_spec:
  fixes b :: byte
  assumes "utf8_pend n g v ctx" "g < n" "0 \<le> v"
  defines "w \<equiv> v * 64 + (uint b - 128)"
  shows "\<not> (128 \<le> uint b \<and> uint b < 192) \<Longrightarrow>
      \<exists>c. utf8_add_byte ctx b = (False, c) \<and> utf8_pending c = 0"
    and "128 \<le> uint b \<Longrightarrow> uint b < 192 \<Longrightarrow> g + 1 < n \<Longrightarrow>
      \<exists>c. utf8_add_byte ctx b = (False, c) \<and> utf8_pend n (g + 1) w c"
    and "128 \<le> uint b \<Longrightarrow> uint b < 192 \<Longrightarrow> g + 1 = n \<Longrightarrow> utf8_valid n w \<Longrightarrow>
      \<exists>c. utf8_add_byte ctx b = (True, c) \<and> utf8_clean c \<and> u_ucs c = w"
    and "128 \<le> uint b \<Longrightarrow> uint b < 192 \<Longrightarrow> g + 1 = n \<Longrightarrow> \<not> utf8_valid n w \<Longrightarrow>
      \<exists>c. utf8_add_byte ctx b = (False, c) \<and> utf8_pending c = 0"
proof -
  have add: "utf8_add_byte ctx b = utf8_continue ctx b" and g: "0 < g" "n \<le> 4" "length (u_buf ctx) = 5"
    using assms(1,2) by (auto simp: utf8_add_byte_def utf8_pend_def utf8_is_ready_def utf8_inv_def)
  note f = utf8_continue_def Let_def byte_and_high_iff(1)
  note i = utf8_inv_def utf8_clean_def utf8_pend_def utf8_pending_def utf8_error_def
  have "uint b div 64 = 2 \<longleftrightarrow> 128 \<le> uint b \<and> uint b < 192" by presburger
  note f = f this
  have p: "push_bit 6 v OR uint (b AND 0x3F) = w" if "128 \<le> uint b" "uint b < 192"
  proof -
    have "uint b mod 64 = uint b - 128" using that by presburger
    then show ?thesis
      using push_bit_or_int [of "uint b - 128" 6 v] that unfolding byte_and_mask w_def by simp
  qed
  have st: "u_need ctx = n" "u_got ctx = g" "u_ucs ctx = v" using assms(1) by (auto simp: utf8_pend_def)
  show "\<exists>c. utf8_add_byte ctx b = (False, c) \<and> utf8_pending c = 0"
    if "\<not> (128 \<le> uint b \<and> uint b < 192)"
    using that unfolding add f by (simp add: i)
  show "\<exists>c. utf8_add_byte ctx b = (False, c) \<and> utf8_pend n (g + 1) w c"
    if "128 \<le> uint b" "uint b < 192" "g + 1 < n"
    using that g st p [OF that(1,2)] assms(1) unfolding add f by (simp add: i)
  show "\<exists>c. utf8_add_byte ctx b = (True, c) \<and> utf8_clean c \<and> u_ucs c = w"
    if "128 \<le> uint b" "uint b < 192" "g + 1 = n" "utf8_valid n w"
    using that g st p [OF that(1,2)] assms(1) unfolding add f utf8_valid_def by (auto simp: i)
  show "\<exists>c. utf8_add_byte ctx b = (False, c) \<and> utf8_pending c = 0"
    if "128 \<le> uint b" "uint b < 192" "g + 1 = n" "\<not> utf8_valid n w"
    using that g st p [OF that(1,2)] assms(1) unfolding add f utf8_valid_def by (auto simp: i)
qed

text \<open>
  A sequence of bytes accepted as one character: every byte but the last leaves
  the decoder waiting, and the last completes the character.
\<close>

fun utf8_accept :: "utf8_ctx \<Rightarrow> byte list \<Rightarrow> int option" where
  "utf8_accept ctx [] = None"
| "utf8_accept ctx [b] = (case utf8_add_byte ctx b of (r, c) \<Rightarrow> if r then Some (u_ucs c) else None)"
| "utf8_accept ctx (b # bs) =
     (case utf8_add_byte ctx b of (r, c) \<Rightarrow>
        if \<not> r \<and> utf8_pending c > 0 then utf8_accept c bs else None)"

definition tail_byte :: "int \<Rightarrow> byte" where
  "tail_byte d = word_of_int (0x80 + d)"

lemma uint_tail_byte: "0 \<le> d \<Longrightarrow> d < 64 \<Longrightarrow> uint (tail_byte d) = 128 + d"
  unfolding tail_byte_def by (intro uint_word_of_int_byte) auto

lemma tail_byte_uint: "128 \<le> uint b \<Longrightarrow> uint b < 192 \<Longrightarrow> tail_byte (uint b - 128) = b"
  by (simp add: tail_byte_def)

lemma utf8_pend_pending: "utf8_pend n g v c \<Longrightarrow> g < n \<Longrightarrow> utf8_pending c > 0"
  by (simp add: utf8_pend_def utf8_pending_def)

lemma utf8_accept_last:
  assumes "utf8_pend n g v ctx" "g + 1 = n" "0 \<le> v"
  shows "utf8_accept ctx bs = Some u \<longleftrightarrow>
    (\<exists>d. 0 \<le> d \<and> d < 64 \<and> bs = [tail_byte d] \<and> u = v * 64 + d \<and> utf8_valid n u)"
proof (cases bs rule: list.exhaust)
  case (Cons b bs')
  note s = utf8_continue_spec [OF assms(1) _ assms(3), of b]
  show ?thesis
  proof (cases "128 \<le> uint b \<and> uint b < 192")
    case False
    then obtain c where "utf8_add_byte ctx b = (False, c)" "utf8_pending c = 0"
      using s(1) assms(2) by auto
    moreover have "b \<noteq> tail_byte d" if "0 \<le> d" "d < 64" for d
      using uint_tail_byte [OF that] that False by auto
    ultimately show ?thesis using Cons by (cases bs') auto
  next
    case True
    let ?d = "uint b - 128"
    have d: "0 \<le> d \<Longrightarrow> d < 64 \<Longrightarrow> b = tail_byte d \<longleftrightarrow> d = ?d" for d
      using uint_tail_byte [of d] tail_byte_uint [of b] True by fastforce
    have v: "utf8_accept ctx bs = Some u \<longleftrightarrow> bs' = [] \<and> u = v * 64 + ?d \<and> utf8_valid n u"
    proof (cases "utf8_valid n (v * 64 + ?d)")
      case True
      then obtain c where "utf8_add_byte ctx b = (True, c)" "u_ucs c = v * 64 + ?d"
        using s(3) assms(2) \<open>128 \<le> uint b \<and> uint b < 192\<close> by auto
      then show ?thesis using Cons True by (cases bs') auto
    next
      case False
      then obtain c where "utf8_add_byte ctx b = (False, c)" "utf8_pending c = 0"
        using s(4) assms(2) True by auto
      then show ?thesis using Cons False by (cases bs') auto
    qed
    show ?thesis unfolding v using d [of ?d] True Cons by (auto simp: uint_tail_byte)
  qed
qed simp

lemma utf8_accept_more:
  assumes "utf8_pend n g v ctx" "g + 1 < n" "0 \<le> v"
  shows "utf8_accept ctx bs = Some u \<longleftrightarrow>
    (\<exists>d bs' c. 0 \<le> d \<and> d < 64 \<and> bs = tail_byte d # bs' \<and> utf8_pend n (g + 1) (v * 64 + d) c \<and>
       utf8_accept c bs' = Some u \<and> utf8_add_byte ctx (tail_byte d) = (False, c))"
proof (cases bs rule: list.exhaust)
  case (Cons b bs')
  note s = utf8_continue_spec [OF assms(1) _ assms(3), of b]
  show ?thesis
  proof (cases "128 \<le> uint b \<and> uint b < 192")
    case False
    then obtain c where "utf8_add_byte ctx b = (False, c)" "utf8_pending c = 0"
      using s(1) assms(2) by auto
    moreover have "b \<noteq> tail_byte d" if "0 \<le> d" "d < 64" for d
      using uint_tail_byte [OF that] that False by auto
    ultimately show ?thesis using Cons by (cases bs') auto
  next
    case True
    let ?d = "uint b - 128"
    obtain c where c: "utf8_add_byte ctx b = (False, c)" "utf8_pend n (g + 1) (v * 64 + ?d) c"
      using s(2) assms(2) True by auto
    have pc: "utf8_pending c > 0" using utf8_pend_pending [OF c(2)] assms(2) by simp
    have "utf8_accept ctx bs = Some u \<longleftrightarrow> utf8_accept c bs' = Some u"
      using Cons c pc by (cases bs') auto
    moreover have "b = tail_byte ?d" using tail_byte_uint True by simp
    moreover have "0 \<le> ?d" "?d < 64" using True by auto
    ultimately show ?thesis using c Cons by (metis list.inject prod.inject)
  qed
qed simp

lemma utf8_accept_pend:
  assumes "utf8_pend n g v ctx" "g < n" "0 \<le> v"
  shows "utf8_accept ctx bs = Some u \<longleftrightarrow>
    (\<exists>ds. length ds = n - g \<and> (\<forall>d\<in>set ds. 0 \<le> d \<and> d < 64) \<and> bs = map tail_byte ds \<and>
      u = foldl (\<lambda>v d. v * 64 + d) v ds \<and> utf8_valid n u)"
  using assms
proof (induction "n - g" arbitrary: g v ctx bs)
  case (Suc k)
  show ?case
  proof (cases k)
    case 0
    then have ng: "n - g = Suc 0" "g + 1 = n" using Suc.hyps by simp_all
    show ?thesis
      unfolding ng(1) utf8_accept_last [OF Suc.prems(1) ng(2) Suc.prems(3), of bs u]
      by (auto simp: length_Suc_conv)
  next
    case (Suc m)
    have k: "k = n - (g + 1)" "g + 1 < n" using Suc.hyps Suc by auto
    have IH: "utf8_accept c bs' = Some u \<longleftrightarrow>
      (\<exists>ds. length ds = k \<and> (\<forall>d\<in>set ds. 0 \<le> d \<and> d < 64) \<and> bs' = map tail_byte ds \<and>
        u = foldl (\<lambda>v d. v * 64 + d) (v * 64 + d) ds \<and> utf8_valid n u)"
      if "utf8_pend n (g + 1) (v * 64 + d) c" "0 \<le> d" for c d bs'
      using Suc.hyps(1) [OF k(1) that(1) k(2)] Suc.prems(3) that(2) k by simp
    note more = utf8_accept_more [OF Suc.prems(1) k(2) Suc.prems(3), of bs u]
    show ?thesis
    proof
      assume "utf8_accept ctx bs = Some u"
      then obtain d bs' c where d: "0 \<le> d" "d < 64" "bs = tail_byte d # bs'"
        "utf8_pend n (g + 1) (v * 64 + d) c" "utf8_accept c bs' = Some u"
        using more by blast
      obtain ds where "length ds = k" "\<forall>d\<in>set ds. 0 \<le> d \<and> d < 64" "bs' = map tail_byte ds"
        "u = foldl (\<lambda>v d. v * 64 + d) (v * 64 + d) ds" "utf8_valid n u"
        using IH [OF d(4,1)] d(5) by blast
      then show "\<exists>ds. length ds = n - g \<and> (\<forall>d\<in>set ds. 0 \<le> d \<and> d < 64) \<and> bs = map tail_byte ds \<and>
          u = foldl (\<lambda>v d. v * 64 + d) v ds \<and> utf8_valid n u"
        using d Suc.hyps(2) by (intro exI [of _ "d # ds"]) auto
    next
      assume "\<exists>ds. length ds = n - g \<and> (\<forall>d\<in>set ds. 0 \<le> d \<and> d < 64) \<and> bs = map tail_byte ds \<and>
          u = foldl (\<lambda>v d. v * 64 + d) v ds \<and> utf8_valid n u"
      then obtain d ds where ds: "length ds = k" "\<forall>d\<in>set ds. 0 \<le> d \<and> d < 64" "0 \<le> d" "d < 64"
        "bs = tail_byte d # map tail_byte ds" "u = foldl (\<lambda>v d. v * 64 + d) (v * 64 + d) ds" "utf8_valid n u"
        unfolding Suc.hyps(2) [symmetric] by (auto simp: length_Suc_conv)
      obtain c where c: "utf8_add_byte ctx (tail_byte d) = (False, c)" "utf8_pend n (g + 1) (v * 64 + d) c"
        using utf8_continue_spec(2) [OF Suc.prems(1) _ Suc.prems(3), of "tail_byte d"] k ds(3,4)
        by (auto simp: uint_tail_byte)
      then have "utf8_accept c (map tail_byte ds) = Some u" using IH [OF c(2) ds(3)] ds by blast
      then show "utf8_accept ctx bs = Some u" using more ds c by blast
    qed
  qed
qed simp

text \<open>The lead byte of value \<open>l\<close> announces \<open>n\<close> bytes and the leading bits \<open>v\<close>.\<close>

definition utf8_lead :: "nat \<Rightarrow> int \<Rightarrow> int \<Rightarrow> bool" where
  "utf8_lead n l v \<longleftrightarrow> n = 2 \<and> 0xC2 \<le> l \<and> l < 0xE0 \<and> v = l - 0xC0 \<or>
     n = 3 \<and> 0xE0 \<le> l \<and> l < 0xF0 \<and> v = l - 0xE0 \<or> n = 4 \<and> 0xF0 \<le> l \<and> l \<le> 0xF4 \<and> v = l - 0xF0"

lemma utf8_leadD: "utf8_lead n l v \<Longrightarrow> 1 < n \<and> 0 \<le> v \<and> 0xC2 \<le> l \<and> l \<le> 0xF4"
  by (auto simp: utf8_lead_def)

lemma utf8_start_lead:
  assumes "utf8_inv ctx" "u_need ctx = 0" "utf8_lead n (uint b) v"
  shows "\<exists>c. utf8_start ctx b = (False, c) \<and> utf8_pend n 1 v c"
  using assms(3) unfolding utf8_lead_def
  by (elim disjE conjE) (use utf8_start_spec(2,3,4) [OF assms(1,2), of b] in simp)+

lemma utf8_accept_start:
  assumes "utf8_clean ctx"
  shows "utf8_accept ctx bs = Some u \<longleftrightarrow>
    (0 \<le> u \<and> u < 128 \<and> bs = [word_of_int u]) \<or>
    (\<exists>b bs' n v c. bs = b # bs' \<and> utf8_add_byte ctx b = (False, c) \<and> utf8_pend n 1 v c \<and>
       utf8_accept c bs' = Some u \<and>
       utf8_lead n (uint b) v)"
    (is "_ \<longleftrightarrow> ?ascii \<or> ?multi")
proof (cases bs rule: list.exhaust)
  case (Cons b bs')
  let ?c = "if utf8_is_ready ctx then utf8_init ctx else ctx"
  have c: "utf8_inv ?c" "u_need ?c = 0"
    using assms by (auto simp: utf8_clean_def utf8_init_inv utf8_is_ready_def utf8_pending_def
        utf8_inv_def utf8_init_def split: if_splits)
  note s = utf8_start_spec [OF c, of b] and add = utf8_clean_cases [OF assms, of b]
  consider (ascii) "uint b < 128" | (bad) "128 \<le> uint b" "uint b < 0xC2 \<or> uint b > 0xF4"
    | (lead) n v c where "utf8_add_byte ctx b = (False, c)" "utf8_pend n 1 v c" "utf8_lead n (uint b) v"
  proof -
    have "uint b < 128 \<or> 128 \<le> uint b \<and> (uint b < 0xC2 \<or> uint b > 0xF4) \<or> (\<exists>n v. utf8_lead n (uint b) v)"
      unfolding utf8_lead_def by (simp add: ex_disj_distrib) linarith
    then show ?thesis using that utf8_start_lead [OF c] unfolding add by metis
  qed
  then show ?thesis
  proof cases
    case ascii
    then obtain c where a: "utf8_add_byte ctx b = (True, c)" "u_ucs c = uint b"
      using s(1) unfolding add by blast
    then have "utf8_accept ctx bs = Some u \<longleftrightarrow> bs' = [] \<and> u = uint b"
      using Cons by (cases bs') auto
    moreover have "?ascii \<longleftrightarrow> bs' = [] \<and> u = uint b"
      using Cons ascii by (auto simp: uint_word_of_int_byte)
    moreover have "\<not> ?multi" using a Cons by auto
    ultimately show ?thesis by blast
  next
    case bad
    then obtain c where a: "utf8_add_byte ctx b = (False, c)" "utf8_pending c = 0"
      using s(5) unfolding add by blast
    then have "utf8_accept ctx bs \<noteq> Some u"
      using Cons by (cases bs') auto
    moreover have "\<not> ?ascii" using Cons bad by (auto simp: uint_word_of_int_byte)
    moreover have "\<not> ?multi" using bad Cons by (auto dest!: utf8_leadD)
    ultimately show ?thesis by blast
  next
    case (lead n v c)
    have "utf8_pending c > 0" using utf8_pend_pending [OF lead(2)] utf8_leadD [OF lead(3)] by simp
    then have "utf8_accept ctx bs = Some u \<longleftrightarrow> utf8_accept c bs' = Some u"
      using Cons lead(1) by (cases bs') auto
    moreover have "\<not> ?ascii" using Cons utf8_leadD [OF lead(3)] by (auto simp: uint_word_of_int_byte)
    moreover have "?multi \<longleftrightarrow> utf8_accept c bs' = Some u"
    proof
      assume ?multi
      then show "utf8_accept c bs' = Some u" using Cons lead(1) by auto
    next
      assume "utf8_accept c bs' = Some u"
      then show ?multi using Cons lead by blast
    qed
    ultimately show ?thesis by blast
  qed
qed simp

lemma utf8_bytes_range: "ucs_scalar u \<Longrightarrow> x \<in> set (utf8_bytes u) \<Longrightarrow> 0 \<le> x \<and> x < 256"
  by (auto simp: utf8_bytes_def ucs_scalar_def split: if_splits)

lemma digit_64:
  "0 \<le> d \<Longrightarrow> d < 64 \<Longrightarrow> (x * 64 + d) div 64 = (x :: int)"
  "0 \<le> d \<Longrightarrow> d < 64 \<Longrightarrow> (x * 64 + d) mod 64 = (d :: int)"
  by simp_all

lemma bound_64: "w < 1024 \<Longrightarrow> e < 64 \<Longrightarrow> w * 64 + e < (0x10000 :: int)"
  by linarith

lemma div_64_power: "u div 4096 = u div 64 div (64 :: int)" "u div 262144 = u div 64 div 64 div (64 :: int)"
  using zdiv_zmult2_eq [of 64 u 64] zdiv_zmult2_eq [of 64 u 4096] zdiv_zmult2_eq [of 64 "u div 64" 64]
  by simp_all

text \<open>The lead byte and the six-bit digits of a scalar value of \<open>n\<close> bytes.\<close>

lemma utf8_encode_digits:
  assumes "utf8_lead n l v" "length ds = n - 1" "\<forall>d\<in>set ds. 0 \<le> d \<and> d < 64"
    "u = foldl (\<lambda>v d. v * 64 + d) v ds" "utf8_valid n u"
  shows "ucs_scalar u \<and> utf8_encode u = word_of_int l # map tail_byte ds"
proof -
  have "n = 2 \<and> length ds = Suc 0 \<or> n = 3 \<and> length ds = Suc (Suc 0) \<or> n = 4 \<and> length ds = Suc (Suc (Suc 0))"
    using assms(1,2) unfolding utf8_lead_def by linarith
  then consider (2) d where "n = 2" "ds = [d]" | (3) d e where "n = 3" "ds = [d, e]"
    | (4) d e f where "n = 4" "ds = [d, e, f]"
    by (auto simp: length_Suc_conv)
  then show ?thesis
  proof cases
    case 2
    then have u: "u = v * 64 + d" "0 \<le> d" "d < 64" "0x80 \<le> u" "2 \<le> v" "v < 32" "l = 0xC0 + v"
      using assms by (auto simp: utf8_valid_def utf8_lead_def)
    have "u div 64 = v" "u mod 64 = d" unfolding u(1) using u(2,3) by (simp_all add: digit_64)
    moreover have "u < 0x800" using u by linarith
    moreover have "ucs_scalar u" using u \<open>u < 0x800\<close> by (simp add: ucs_scalar_def)
    ultimately show ?thesis using 2 u by (simp add: utf8_encode_eq utf8_bytes_def tail_byte_def)
  next
    case 3
    then have u: "u = (v * 64 + d) * 64 + e" "0 \<le> d" "d < 64" "0 \<le> e" "e < 64" "0x800 \<le> u"
      "\<not> (0xD800 \<le> u \<and> u \<le> 0xDFFF)" "0 \<le> v" "v < 16" "l = 0xE0 + v"
      using assms by (auto simp: utf8_valid_def utf8_lead_def)
    have "u div 4096 = v" "u div 64 = v * 64 + d" "u mod 64 = e"
      unfolding u(1) div_64_power using u(2-5) by (simp_all only: digit_64)
    moreover have "v * 64 + d < 1024" using u by linarith
    then have "u < 0x10000" unfolding u(1) using u(5) by (rule bound_64)
    moreover have "ucs_scalar u" using u \<open>u < 0x10000\<close> by (auto simp: ucs_scalar_def)
    ultimately show ?thesis using 3 u by (simp add: utf8_encode_eq utf8_bytes_def tail_byte_def)
  next
    case 4
    then have u: "u = ((v * 64 + d) * 64 + e) * 64 + f" "0 \<le> d" "d < 64" "0 \<le> e" "e < 64" "0 \<le> f" "f < 64"
      "0x10000 \<le> u" "u \<le> 0x10FFFF" "0 \<le> v" "v < 8" "l = 0xF0 + v"
      using assms by (auto simp: utf8_valid_def utf8_lead_def)
    have "u div 262144 = v" "u div 4096 mod 64 = d" "u div 64 mod 64 = e" "u mod 64 = f"
      unfolding u(1) div_64_power using u(2-7) by (simp_all only: digit_64)
    moreover have "ucs_scalar u" using u by (auto simp: ucs_scalar_def)
    ultimately show ?thesis using 4 u(8,9,12) by (simp add: utf8_encode_eq utf8_bytes_def tail_byte_def)
  qed
qed

text \<open>Lead byte and digits of every longer encoding.\<close>

lemma utf8_encode_split:
  assumes "ucs_scalar u" "128 \<le> u"
  shows "\<exists>n l v ds. utf8_lead n l v \<and> length ds = n - 1 \<and> (\<forall>d\<in>set ds. 0 \<le> d \<and> d < 64) \<and>
    foldl (\<lambda>v d. v * 64 + d) v ds = u \<and> utf8_valid n u"
proof -
  let ?m = "\<lambda>x :: int. x mod 64"
  have r: "0 \<le> u" "u \<le> 0x10FFFF" "\<not> (0xD800 \<le> u \<and> u \<le> 0xDFFF)" using assms by (auto simp: ucs_scalar_def)
  consider "u < 0x800" | "0x800 \<le> u" "u < 0x10000" | "0x10000 \<le> u" by linarith
  then show ?thesis
  proof cases
    case 1
    have "2 \<le> u div 64" "u div 64 < 32" using assms 1 by linarith+
    then have "utf8_lead 2 (0xC0 + u div 64) (u div 64)" by (simp add: utf8_lead_def)
    moreover have "foldl (\<lambda>v d. v * 64 + d) (u div 64) [?m u] = u"
      unfolding foldl_Cons foldl_Nil div_mult_mod_eq ..
    moreover have "utf8_valid 2 u" using assms by (simp add: utf8_valid_def)
    moreover have "\<forall>d\<in>set [?m u]. 0 \<le> d \<and> d < 64" by simp
    moreover have "length [?m u] = 2 - 1" by simp
    ultimately show ?thesis by blast
  next
    case 2
    have "0 \<le> u div 4096" "u div 4096 < 16" using 2 by linarith+
    then have "utf8_lead 3 (0xE0 + u div 4096) (u div 4096)" by (simp add: utf8_lead_def)
    moreover have "foldl (\<lambda>v d. v * 64 + d) (u div 4096) [?m (u div 64), ?m u] = u"
      unfolding foldl_Cons foldl_Nil div_64_power div_mult_mod_eq ..
    moreover have "utf8_valid 3 u" using 2 r by (simp add: utf8_valid_def)
    moreover have "\<forall>d\<in>set [?m (u div 64), ?m u]. 0 \<le> d \<and> d < 64" by simp
    moreover have "length [?m (u div 64), ?m u] = 3 - 1" by simp
    ultimately show ?thesis by blast
  next
    case 3
    have "0 \<le> u div 262144" "u div 262144 < 5" using 3 r by linarith+
    then have "utf8_lead 4 (0xF0 + u div 262144) (u div 262144)" by (simp add: utf8_lead_def)
    moreover have "foldl (\<lambda>v d. v * 64 + d) (u div 262144) [?m (u div 64 div 64), ?m (u div 64), ?m u] = u"
      unfolding foldl_Cons foldl_Nil div_64_power div_mult_mod_eq ..
    moreover have "utf8_valid 4 u" using 3 r by (simp add: utf8_valid_def)
    moreover have "\<forall>d\<in>set [?m (u div 64 div 64), ?m (u div 64), ?m u]. 0 \<le> d \<and> d < 64" by simp
    moreover have "length [?m (u div 64 div 64), ?m (u div 64), ?m u] = 4 - 1" by simp
    ultimately show ?thesis by blast
  qed
qed

lemma utf8_accept_iff:
  assumes "utf8_clean ctx"
  shows "utf8_accept ctx bs = Some u \<longleftrightarrow> ucs_scalar u \<and> bs = utf8_encode u"
proof
  assume "utf8_accept ctx bs = Some u"
  then consider (ascii) "0 \<le> u" "u < 128" "bs = [word_of_int u]"
    | (multi) b bs' n v c where "bs = b # bs'" "utf8_pend n 1 v c" "utf8_accept c bs' = Some u"
      "utf8_lead n (uint b) v"
    using utf8_accept_start [OF assms, of bs u] by blast
  then show "ucs_scalar u \<and> bs = utf8_encode u"
  proof cases
    case ascii
    then have "ucs_scalar u" by (simp add: ucs_scalar_def)
    then show ?thesis using ascii by (simp add: utf8_encode_eq utf8_bytes_def)
  next
    case multi
    obtain ds where ds: "length ds = n - 1" "\<forall>d\<in>set ds. 0 \<le> d \<and> d < 64" "bs' = map tail_byte ds"
      "u = foldl (\<lambda>v d. v * 64 + d) v ds" "utf8_valid n u"
      using utf8_accept_pend [OF multi(2), of bs' u] multi(3) utf8_leadD [OF multi(4)] by blast
    then show ?thesis
      using utf8_encode_digits [OF multi(4) ds(1,2,4,5)] multi(1) by simp
  qed
next
  assume u: "ucs_scalar u \<and> bs = utf8_encode u"
  show "utf8_accept ctx bs = Some u"
  proof (cases "u < 128")
    case True
    then have "bs = [word_of_int u]" "0 \<le> u"
      using u by (auto simp: utf8_encode_eq utf8_bytes_def ucs_scalar_def)
    then show ?thesis using utf8_accept_start [OF assms, of bs u] True by blast
  next
    case False
    then obtain n l v ds where l: "utf8_lead n l v" "length ds = n - 1" "\<forall>d\<in>set ds. 0 \<le> d \<and> d < 64"
      "foldl (\<lambda>v d. v * 64 + d) v ds = u" "utf8_valid n u"
      using utf8_encode_split [of u] u by (meson not_less)
    have bs: "bs = word_of_int l # map tail_byte ds"
      using utf8_encode_digits [OF l(1,2,3) l(4) [symmetric] l(5)] u by simp
    have ul: "uint (word_of_int l :: byte) = l"
      using utf8_leadD [OF l(1)] by (intro uint_word_of_int_byte) auto
    let ?c = "if utf8_is_ready ctx then utf8_init ctx else ctx"
    have c: "utf8_inv ?c" "u_need ?c = 0"
      using assms by (auto simp: utf8_clean_def utf8_init_inv utf8_is_ready_def utf8_pending_def
          utf8_inv_def utf8_init_def split: if_splits)
    have lu: "utf8_lead n (uint (word_of_int l :: byte)) v" using l(1) unfolding ul .
    obtain c' where c': "utf8_add_byte ctx (word_of_int l) = (False, c')" "utf8_pend n 1 v c'"
      using utf8_start_lead [OF c lu] unfolding utf8_clean_cases [OF assms] by blast
    have "utf8_accept c' (map tail_byte ds) = Some u"
      using utf8_accept_pend [OF c'(2), of "map tail_byte ds" u] l utf8_leadD [OF l(1)] by blast
    then show ?thesis using utf8_accept_start [OF assms, of bs u] bs c' lu by blast
  qed
qed

lemma utf8_ready_clean: "utf8_inv ctx \<Longrightarrow> utf8_add_byte ctx b = (True, c) \<Longrightarrow> utf8_clean c \<and> utf8_is_ready c"
  using utf8_add_byte_inv [of ctx b]
  unfolding utf8_add_byte_def utf8_continue_def utf8_start_def Let_def
  by (auto simp: utf8_clean_def utf8_pending_def utf8_is_ready_def utf8_inv_def split: if_splits)

lemma utf8_step_add: "utf8_add_byte ctx b = (r, c) \<Longrightarrow> utf8_step ctx b = Some (c, if r then [u_ucs c] else [])"
  by (simp add: utf8_step_def)

lemma utf8_accept_run:
  "utf8_inv ctx \<Longrightarrow> utf8_accept ctx bs = Some u \<Longrightarrow>
     \<exists>c. run_machine utf8_step ctx bs = Some (c, [u]) \<and> utf8_clean c"
proof (induction ctx bs rule: utf8_accept.induct)
  case (2 ctx b)
  then show ?case by (auto simp: utf8_step_add utf8_ready_clean split: prod.splits if_splits)
next
  case (3 ctx b b' bs)
  obtain r c where rc: "utf8_add_byte ctx b = (r, c)" by fastforce
  then have *: "\<not> r" "utf8_pending c > 0" "utf8_accept c (b' # bs) = Some u"
    using 3(3) by (auto split: if_splits)
  have "utf8_inv c" using utf8_add_byte_inv [OF 3(2), of b] rc by simp
  then obtain c' where "run_machine utf8_step c (b' # bs) = Some (c', [u])" "utf8_clean c'"
    using 3(1) [OF rc [symmetric]] * by blast
  then show ?case using rc * by (simp add: utf8_step_add)
qed simp

lemma utf8_run_encode:
  assumes "utf8_clean ctx" "list_all ucs_scalar us"
  shows "\<exists>c. run_machine utf8_step ctx (concat (map utf8_encode us)) = Some (c, us) \<and> utf8_clean c"
  using assms
proof (induction us arbitrary: ctx)
  case (Cons u us)
  have "utf8_accept ctx (utf8_encode u) = Some u"
    using utf8_accept_iff [OF Cons.prems(1)] Cons.prems(2) by simp
  then obtain c where c: "run_machine utf8_step ctx (utf8_encode u) = Some (c, [u])" "utf8_clean c"
    using utf8_accept_run [of ctx] Cons.prems(1) unfolding utf8_clean_def by blast
  then obtain c' where "run_machine utf8_step c (concat (map utf8_encode us)) = Some (c', us)" "utf8_clean c'"
    using Cons.IH Cons.prems(2) by auto
  then show ?case using c by (auto simp: run_machine_append)
qed simp

section \<open>The converters\<close>

lemma utf8_to_big5_loop_bound:
  "length out < max_len \<Longrightarrow> length (snd (utf8_to_big5_loop u2b max_len p ctx out)) < max_len"
proof (induction u2b max_len p ctx out rule: utf8_to_big5_loop.induct)
  case (1 u2b max_len p ctx out)
  show ?case
  proof (cases "p = [] \<or> hd p = 0 \<or> \<not> length out < max_len - 1")
    case True
    then show ?thesis using 1 by (simp add: utf8_to_big5_loop.simps)
  next
    case False
    obtain r c where rc: "utf8_add_byte ctx (hd p) = (r, c)" by fastforce
    obtain ucs c2 where uc: "utf8_get_ucs c = (ucs, c2)" by fastforce
    note IH = 1(1,2,3,4) [OF False refl rc [symmetric]]
    show ?thesis
    proof (cases r)
      case False
      then show ?thesis
        using IH(1,2) \<open>\<not> (p = [] \<or> hd p = 0 \<or> \<not> length out < max_len - 1)\<close> rc 1(5)
        by (subst utf8_to_big5_loop.simps) (auto simp: Let_def)
    next
      case True
      then show ?thesis
        using IH(3,4) [OF refl _ uc [symmetric] refl refl] uc
          \<open>\<not> (p = [] \<or> hd p = 0 \<or> \<not> length out < max_len - 1)\<close> rc 1(5)
        by (subst utf8_to_big5_loop.simps) (auto simp: Let_def)
    qed
  qed
qed

lemma length_utf8_to_mb_from_ucs:
  "length (u_buf ctx) = 5 \<Longrightarrow> length (utf8_to_mb (snd (utf8_from_ucs ctx u))) = fst (utf8_from_ucs ctx u)"
  unfolding utf8_to_mb_def utf8_from_ucs_def Let_def by (simp add: utf8_init_def write_at_def)

lemma utf8_from_ucs_buf: "length (u_buf ctx) = 5 \<Longrightarrow> length (u_buf (snd (utf8_from_ucs ctx u))) = 5"
  unfolding utf8_from_ucs_def Let_def by (simp add: utf8_init_def)

lemma big5_to_utf8_loop_bound:
  "length (u_buf ctx) = 5 \<Longrightarrow> length out < max_len \<Longrightarrow>
     length (big5_to_utf8_loop b2u max_len p ctx out) < max_len"
proof (induction b2u max_len p ctx out rule: big5_to_utf8_loop.induct)
  case (1 b2u max_len p ctx out)
  show ?case
  proof (cases "p = [] \<or> hd p = 0 \<or> \<not> length out < max_len - 1 \<or> big5_next b2u p = None")
    case True
    then show ?thesis using 1 by (auto simp: big5_to_utf8_loop.simps)
  next
    case False
    then obtain ucs2 p' where n: "big5_next b2u p = Some (ucs2, p')" by auto
    obtain k c where kc: "utf8_from_ucs ctx (uint ucs2) = (k, c)" by fastforce
    have c: "length (u_buf c) = 5" "length (utf8_to_mb c) = k"
      using utf8_from_ucs_buf [OF 1(2)] length_utf8_to_mb_from_ucs [OF 1(2)] kc by (metis fst_conv snd_conv)+
    show ?thesis
      using 1(1) [OF _ n refl kc [symmetric]] False n kc c 1(3)
      by (subst big5_to_utf8_loop.simps) (auto simp: Let_def)
  qed
qed

text \<open>Big5 text as a list of characters, and the code of a character.\<close>

datatype b5char = Single byte | Double byte byte

fun b5_bytes :: "b5char \<Rightarrow> byte list" where
  "b5_bytes (Single a) = [a]"
| "b5_bytes (Double h l) = [h, l]"

fun b5_code :: "b5char \<Rightarrow> u16" where
  "b5_code (Single a) = ucast a"
| "b5_code (Double h l) = push_bit 8 (ucast h) OR ucast l"

text \<open>The code point the converter gives a character: only double bytes use the table.\<close>

fun b5_ucs :: "mb_table \<Rightarrow> b5char \<Rightarrow> u16" where
  "b5_ucs b2u (Single a) = ucast a"
| "b5_ucs b2u (Double h l) = b2u (b5_code (Double h l))"

fun b5_ok :: "b5char \<Rightarrow> bool" where
  "b5_ok (Single a) \<longleftrightarrow> a \<noteq> 0 \<and> a < 0x80"
| "b5_ok (Double h l) \<longleftrightarrow> \<not> h < 0x80 \<and> \<not> l < 0x40"

text \<open>
  A character the two tables translate back and forth: its code point is a
  scalar value other than NUL that the other table maps back to its code.
\<close>

definition b5_mapped :: "mb_table \<Rightarrow> mb_table \<Rightarrow> b5char \<Rightarrow> bool" where
  "b5_mapped b2u u2b c \<longleftrightarrow> b5_ok c \<and> b5_ucs b2u c \<noteq> 0 \<and> ucs_scalar (uint (b5_ucs b2u c)) \<and>
     u2b (b5_ucs b2u c) = b5_code c"

definition utf8_text :: "mb_table \<Rightarrow> b5char list \<Rightarrow> byte list" where
  "utf8_text b2u cs = concat (map (\<lambda>c. utf8_encode (uint (b5_ucs b2u c))) cs)"

lemma utf8_encode_ne [simp]: "ucs_scalar u \<Longrightarrow> utf8_encode u \<noteq> []"
  by (simp add: utf8_encode_eq utf8_bytes_def)

lemma big5_next_char:
  assumes "b5_ok c"
  shows "big5_next b2u (b5_bytes c @ rest) = Some (b5_ucs b2u c, rest)" "hd (b5_bytes c @ rest) \<noteq> 0"
    "b5_bytes c \<noteq> []"
  using assms by (cases c; auto simp: big5_next_def byte_and_high_iff uint_less_iff_byte not_less word_le_def)+

lemma big5_to_utf8_loop_text:
  assumes "list_all (b5_mapped b2u u2b) cs" "length (u_buf ctx) = 5"
    "length out + length (utf8_text b2u cs) < max_len"
  shows "big5_to_utf8_loop b2u max_len (concat (map b5_bytes cs)) ctx out = out @ utf8_text b2u cs"
  using assms
proof (induction cs arbitrary: ctx out)
  case Nil
  then show ?case by (simp add: big5_to_utf8_loop.simps utf8_text_def)
next
  case (Cons c cs)
  let ?u = "b5_ucs b2u c" and ?rest = "concat (map b5_bytes cs)"
  have m: "b5_ok c" "ucs_scalar (uint ?u)" using Cons.prems(1) by (auto simp: b5_mapped_def)
  obtain k ctx' where f: "utf8_from_ucs ctx (uint ?u) = (k, ctx')" by fastforce
  have k: "k = length (utf8_encode (uint ?u))" "utf8_to_mb ctx' = utf8_encode (uint ?u)" "length (u_buf ctx') = 5"
    using utf8_from_ucs_encode [OF Cons.prems(2) m(2)] utf8_from_ucs_buf [OF Cons.prems(2), of "uint ?u"] f
    by auto
  have len: "length out + length (utf8_encode (uint ?u)) + length (utf8_text b2u cs) < max_len"
    using Cons.prems(3) by (simp add: utf8_text_def)
  have IH: "big5_to_utf8_loop b2u max_len ?rest ctx' (out @ utf8_encode (uint ?u)) =
      (out @ utf8_encode (uint ?u)) @ utf8_text b2u cs"
    using Cons.IH [of ctx' "out @ utf8_encode (uint ?u)"] Cons.prems(1) k(3) len by simp
  have "0 < length (utf8_encode (uint ?u))" using m(2) by simp
  then have "length out < max_len - 1" using len by linarith
  then show ?case
    using big5_next_char [OF m(1)] f k IH len
    by (subst big5_to_utf8_loop.simps) (simp add: utf8_text_def)
qed

text \<open>One character of the source of the other converter.\<close>

definition u2b_bytes :: "mb_table \<Rightarrow> int \<Rightarrow> byte list" where
  "u2b_bytes u2b u =
     (let b5_0 = (if u \<ge> 0 \<and> u < 0x10000 then u2b (word_of_int u) else 0);
          b5 = (if b5_0 = 0 then 63 else b5_0) in
      if b5 > 0xFF then [ucast (drop_bit 8 b5), ucast (b5 AND 0xFF)] else [ucast b5])"

lemma utf8_to_big5_loop_char:
  assumes "utf8_inv ctx" "utf8_accept ctx bs = Some u" "0 \<notin> set bs" "length out + length (u2b_bytes u2b u) < max_len"
  shows "\<exists>c. utf8_clean c \<and> utf8_to_big5_loop u2b max_len (bs @ rest) ctx out =
    utf8_to_big5_loop u2b max_len rest c (out @ u2b_bytes u2b u)"
  using assms
proof (induction ctx bs rule: utf8_accept.induct)
  case (2 ctx b)
  obtain r c where rc: "utf8_add_byte ctx b = (r, c)" by fastforce
  then have c: "r" "u = u_ucs c" "utf8_clean c" "utf8_is_ready c"
    using 2 utf8_ready_clean [OF 2(1), of b c] by (auto split: if_splits)
  let ?c = "c\<lparr>u_need := 0, u_got := 0, u_len := 0, u_ucs := -1\<rparr>"
  have g: "utf8_get_ucs c = (u, ?c)" using c by (simp add: utf8_get_ucs_def)
  have "utf8_clean ?c" using c(3) by (simp add: utf8_clean_def utf8_inv_def utf8_pending_def)
  moreover have "length out < max_len - 1"
    using 2(4) by (simp add: u2b_bytes_def Let_def split: if_splits)
  then have "utf8_to_big5_loop u2b max_len ([b] @ rest) ctx out =
      utf8_to_big5_loop u2b max_len rest ?c (out @ u2b_bytes u2b u)"
    using 2(3,4) rc c(1) g
    by (subst utf8_to_big5_loop.simps) (auto simp: Let_def u2b_bytes_def)
  ultimately show ?case by blast
next
  case (3 ctx b b' bs)
  obtain r c where rc: "utf8_add_byte ctx b = (r, c)" by fastforce
  then have *: "\<not> r" "utf8_pending c > 0" "utf8_accept c (b' # bs) = Some u"
    using 3(3) by (auto split: if_splits)
  have inv: "utf8_inv c" using utf8_add_byte_inv [OF 3(2), of b] rc by simp
  have ne: "\<not> utf8_is_error c" using *(2) by (auto simp: utf8_is_error_def utf8_pending_def split: if_splits)
  have "length out < max_len - 1"
    using 3(5) by (simp add: u2b_bytes_def Let_def split: if_splits)
  then have "utf8_to_big5_loop u2b max_len ((b # b' # bs) @ rest) ctx out =
      utf8_to_big5_loop u2b max_len ((b' # bs) @ rest) c out"
    using rc * ne 3(4) by (subst utf8_to_big5_loop.simps) (auto simp: Let_def)
  moreover have "0 \<notin> set (b' # bs)" using 3(4) by simp
  ultimately show ?case using 3(1) [OF rc [symmetric] _ inv *(3) _ 3(5)] * by presburger
qed simp

lemma u16_join: "ucast (drop_bit 8 (push_bit 8 (ucast h) OR ucast l :: u16)) = (h :: byte)"
  "ucast ((push_bit 8 (ucast h) OR ucast l :: u16) AND 0xFF) = (l :: byte)"
proof -
  show "ucast (drop_bit 8 (push_bit 8 (ucast h) OR ucast l :: u16)) = (h :: byte)"
    by (rule bit_word_eqI) (auto simp: bit_simps dest: bit_imp_le_length)
  show "ucast ((push_bit 8 (ucast h) OR ucast l :: u16) AND 0xFF) = (l :: byte)"
    by (rule bit_word_eqI) (auto simp: bit_simps dest!: less_8_cases)
qed

lemma u16_join_uint: "uint (push_bit 8 (ucast (h :: byte)) OR ucast (l :: byte) :: u16) = uint h * 256 + uint l"
proof -
  have "uint (push_bit 8 (ucast h) OR ucast l :: u16) = push_bit 8 (uint h) OR uint l"
    using uint_byte_bounds [of h] uint_byte_bounds [of l]
    unfolding unsigned_or_eq unsigned_push_bit_eq unsigned_ucast_eq
    by (simp add: take_bit_int_eq_self push_bit_eq_mult)
  then show ?thesis using push_bit_or_int [of "uint l" 8 "uint h"] uint_byte_bounds [of l] by simp
qed

lemma u2b_bytes_char:
  assumes "b5_mapped b2u u2b c"
  shows "u2b_bytes u2b (uint (b5_ucs b2u c)) = b5_bytes c"
proof -
  let ?u = "b5_ucs b2u c"
  have r: "uint ?u < 0x10000" using uint_lt2p [of ?u] by simp
  have u: "u2b ?u = b5_code c" "b5_ok c" using assms by (auto simp: b5_mapped_def)
  show ?thesis
  proof (cases c)
    case (Single a)
    have "\<not> (0xFF :: u16) < ucast a" "(ucast a :: u16) \<noteq> 0"
      using u(2) Single uint_byte_bounds [of a]
      by (auto simp: word_less_def unsigned_ucast_eq take_bit_int_eq_self word_uint_eq_iff)
    moreover have "ucast (ucast a :: u16) = a"
      by (rule bit_word_eqI) (auto simp: bit_simps)
    ultimately show ?thesis using u r Single by (simp add: u2b_bytes_def)
  next
    case (Double h l)
    define w :: u16 where "w = push_bit 8 (ucast h) OR ucast l"
    note j = u16_join [of h l, folded w_def]
    have "uint w = uint h * 256 + uint l" unfolding w_def by (rule u16_join_uint)
    moreover have "128 \<le> uint h" using u(2) Double by (simp add: uint_less_iff_byte)
    ultimately have "255 < uint w" using uint_ge_0 [of l] by linarith
    then have "0xFF < w" "w \<noteq> 0"
      by (auto simp: word_less_def word_uint_eq_iff)
    moreover have "u2b ?u = w" using u(1) Double by (simp add: w_def)
    ultimately show ?thesis using r j Double by (simp add: u2b_bytes_def del: b5_ucs.simps)
  qed
qed

lemma utf8_encode_nonzero:
  assumes "ucs_scalar u" "u \<noteq> 0"
  shows "0 \<notin> set (utf8_encode u)"
proof
  assume "0 \<in> set (utf8_encode u)"
  then obtain x where x: "x \<in> set (utf8_bytes u)" "(word_of_int x :: byte) = 0"
    using assms(1) by (auto simp: utf8_encode_eq)
  have "x = 0" using x(2) utf8_bytes_range [OF assms(1) x(1)] uint_word_of_int_byte [of x] by simp
  then show False using x(1) assms
    by (auto simp: utf8_bytes_def ucs_scalar_def split: if_splits)
qed

lemma utf8_to_big5_loop_text:
  assumes "list_all (b5_mapped b2u u2b) cs" "utf8_clean ctx"
    "length out + length (concat (map b5_bytes cs)) < max_len"
  shows "\<exists>c. utf8_clean c \<and>
    utf8_to_big5_loop u2b max_len (utf8_text b2u cs) ctx out = (c, out @ concat (map b5_bytes cs))"
  using assms
proof (induction cs arbitrary: ctx out)
  case Nil
  then show ?case by (simp add: utf8_to_big5_loop.simps utf8_text_def)
next
  case (Cons c cs)
  let ?u = "uint (b5_ucs b2u c)"
  have m: "ucs_scalar ?u" "?u \<noteq> 0" "u2b_bytes u2b ?u = b5_bytes c"
    using Cons.prems(1) u2b_bytes_char [of b2u u2b c] by (auto simp: b5_mapped_def uint_0_iff)
  have acc: "utf8_accept ctx (utf8_encode ?u) = Some ?u"
    using utf8_accept_iff [OF Cons.prems(2)] m by simp
  have inv: "utf8_inv ctx" using Cons.prems(2) by (simp add: utf8_clean_def)
  obtain c1 where c1: "utf8_clean c1" "utf8_to_big5_loop u2b max_len (utf8_encode ?u @ utf8_text b2u cs) ctx out =
      utf8_to_big5_loop u2b max_len (utf8_text b2u cs) c1 (out @ b5_bytes c)"
    using utf8_to_big5_loop_char [OF inv acc utf8_encode_nonzero [OF m(1,2)],
        of out u2b max_len "utf8_text b2u cs"] m(3) Cons.prems(3) by auto
  obtain c2 where "utf8_clean c2" "utf8_to_big5_loop u2b max_len (utf8_text b2u cs) c1 (out @ b5_bytes c) =
      (c2, (out @ b5_bytes c) @ concat (map b5_bytes cs))"
    using Cons.IH [of c1 "out @ b5_bytes c"] Cons.prems c1 by auto
  then show ?case using c1 by (auto simp: utf8_text_def)
qed

lemma utf8_clean_fresh [simp]: "utf8_clean utf8_fresh"
  by (simp add: utf8_clean_def utf8_inv_def utf8_fresh_def utf8_init_def utf8_pending_def)

section \<open>Properties\<close>

text \<open>C19.
  UTF-8 decoding is exact: between characters, a byte sequence is accepted as
  the character \<open>u\<close> if and only if \<open>u\<close> is a Unicode scalar value and the bytes
  are the encoding \<open>utf8_from_ucs\<close> gives it; overlong forms, surrogates and
  values beyond 0x10FFFF are never accepted.
\<close>

theorem utf8_decode_exact:
  assumes "utf8_clean ctx"
  shows "utf8_accept ctx bs = Some u \<longleftrightarrow> ucs_scalar u \<and> bs = utf8_encode u"
  by (rule utf8_accept_iff [OF assms])

theorem utf8_decode_exact_witness:
  "utf8_accept utf8_fresh [0xE4, 0xB8, 0xAD] = Some 0x4E2D \<longleftrightarrow>
     ucs_scalar 0x4E2D \<and> [0xE4, 0xB8, 0xAD] = utf8_encode 0x4E2D"
  by (rule utf8_decode_exact) simp

text \<open>
  A text survives encoding and incremental decoding: for every list of scalar
  values, feeding their encodings byte by byte to a context between characters
  yields exactly that list and leaves the context between characters.
\<close>

lemma utf8_stream_roundtrip:
  assumes "utf8_clean ctx" "list_all ucs_scalar us"
  shows "\<exists>c. run_machine utf8_step ctx (concat (map utf8_encode us)) = Some (c, us) \<and> utf8_clean c"
  by (rule utf8_run_encode [OF assms])

definition big5_fresh :: big5_ctx where
  "big5_fresh = big5_init \<lparr>b_buf = replicate 3 0, b_need = 0, b_got = 0, b_len = 0, b_ch = 0\<rparr>"

text \<open>
  Both decoders are memory safe on any input: from a fresh context, whatever
  bytes arrive, the UTF-8 context stays within its 5-byte buffer and the Big5
  context within its 3-byte buffer, with the counts of bytes never above what
  was announced.
\<close>

lemma multibyte_safe:
  "(\<exists>c os. run_machine utf8_step utf8_fresh bs = Some (c, os) \<and> utf8_inv c) \<and>
   (\<exists>c os. run_machine big5_step big5_fresh bs = Some (c, os) \<and> big5_inv c)"
proof
  show "\<exists>c os. run_machine utf8_step utf8_fresh bs = Some (c, os) \<and> utf8_inv c"
    by (rule u8.run_total) (use utf8_clean_fresh in \<open>simp add: utf8_clean_def\<close>)
  show "\<exists>c os. run_machine big5_step big5_fresh bs = Some (c, os) \<and> big5_inv c"
    by (rule b5.run_total) (simp add: big5_inv_def big5_fresh_def big5_init_def)
qed

text \<open>
  The converters never write past their destination: for any source and any
  tables, what \<open>utf8_to_big5_n\<close> and \<open>big5_to_utf8_n\<close> store, with the closing NUL,
  fits in \<open>max_len\<close> bytes.
\<close>

lemma convert_bounds:
  assumes "utf8_to_big5_n u2b src max_len = Some out1" "big5_to_utf8_n b2u src max_len = Some out2"
  shows "length out1 + 1 \<le> max_len \<and> length out2 + 1 \<le> max_len"
proof
  have pos: "0 < max_len" using assms(1) by (auto simp: utf8_to_big5_n_def split: if_splits)
  obtain c out where l: "utf8_to_big5_loop u2b max_len src utf8_fresh [] = (c, out)" by fastforce
  then have "length out < max_len" using utf8_to_big5_loop_bound [of "[]" max_len u2b src utf8_fresh] pos by simp
  then show "length out1 + 1 \<le> max_len"
    using assms(1) l by (auto simp: utf8_to_big5_n_def utf8_fresh_def split: if_splits)
  show "length out2 + 1 \<le> max_len"
    using assms(2) pos by (auto simp: big5_to_utf8_n_def Suc_le_eq intro!: big5_to_utf8_loop_bound)
qed

text \<open>  Conversion to UTF-8 and back is the identity on Big5 text whose characters the
  generated tables map one to one, whenever both destinations are large enough.
\<close>

lemma big5_utf8_roundtrip:
  assumes "list_all (b5_mapped b2u u2b) cs"
    "length (utf8_text b2u cs) < max1" "length (concat (map b5_bytes cs)) < max2"
  shows "\<exists>mid. big5_to_utf8_n b2u (concat (map b5_bytes cs)) max1 = Some mid \<and>
    utf8_to_big5_n u2b mid max2 = Some (concat (map b5_bytes cs))"
proof -
  have "big5_to_utf8_n b2u (concat (map b5_bytes cs)) max1 = Some (utf8_text b2u cs)"
    using big5_to_utf8_loop_text [OF assms(1), of _ "[]" max1] assms(2) by (simp add: big5_to_utf8_n_def)
  moreover obtain c where "utf8_clean c"
    "utf8_to_big5_loop u2b max2 (utf8_text b2u cs) utf8_fresh [] = (c, concat (map b5_bytes cs))"
    using utf8_to_big5_loop_text [OF assms(1) utf8_clean_fresh, of "[]" max2] assms(3) by auto
  then have "utf8_to_big5_n u2b (utf8_text b2u cs) max2 = Some (concat (map b5_bytes cs))"
    using assms(3) by (simp add: utf8_to_big5_n_def utf8_fresh_def utf8_clean_def)
  ultimately show ?thesis by blast
qed

definition demo_b2u :: mb_table where
  "demo_b2u w = (if w = 0xA4A4 then 0x4E2D else w)"

definition demo_u2b :: mb_table where
  "demo_u2b w = (if w = 0x4E2D then 0xA4A4 else w)"

end
