(* ===== verification/Clib.thy ===== *)
theory Clib
  imports Prelude
begin

text \<open>
  The functions of the C library that the components call, on the representation
  of C strings of the prelude: the character classes and case conversions of
  \<open>ctype.h\<close> in the C locale, bounded copies (\<open>strlcpy\<close>, \<open>strlcat\<close>), \<open>atoi\<close>,
  \<open>strtok\<close>, \<open>fgets\<close>, \<open>inet_pton\<close> for \<open>AF_INET\<close>, and the little-endian layout of
  integers that \<open>fread\<close> and \<open>fwrite\<close> of an integer object use.
\<close>

text \<open>The size of the board table, \<open>src/include/config.h\<close>.\<close>

definition MAX_BOARD :: int where "MAX_BOARD = 8192"

section \<open>Characters\<close>

definition is_upper :: "byte \<Rightarrow> bool" where "is_upper c \<longleftrightarrow> 65 \<le> c \<and> c \<le> 90"
definition is_lower :: "byte \<Rightarrow> bool" where "is_lower c \<longleftrightarrow> 97 \<le> c \<and> c \<le> 122"
definition is_digit :: "byte \<Rightarrow> bool" where "is_digit c \<longleftrightarrow> 48 \<le> c \<and> c \<le> 57"
definition is_alpha :: "byte \<Rightarrow> bool" where "is_alpha c \<longleftrightarrow> is_upper c \<or> is_lower c"
definition is_alnum :: "byte \<Rightarrow> bool" where "is_alnum c \<longleftrightarrow> is_alpha c \<or> is_digit c"
definition is_blank :: "byte \<Rightarrow> bool" where "is_blank c \<longleftrightarrow> c = 32 \<or> c = 9"
definition is_space :: "byte \<Rightarrow> bool" where "is_space c \<longleftrightarrow> c = 32 \<or> 9 \<le> c \<and> c \<le> 13"
definition to_lower :: "byte \<Rightarrow> byte" where "to_lower c = (if is_upper c then c + 32 else c)"
definition to_upper :: "byte \<Rightarrow> byte" where "to_upper c = (if is_lower c then c - 32 else c)"

section \<open>Strings in arrays\<close>

text \<open>The contents of an array of size \<open>n\<close> after \<open>strlcpy\<close> and \<open>strlcat\<close>.\<close>

definition strlcpy :: "nat \<Rightarrow> cstr \<Rightarrow> cstr" where "strlcpy n s = take (n - 1) s"

definition strlcat :: "nat \<Rightarrow> cstr \<Rightarrow> cstr \<Rightarrow> cstr" where
  "strlcat n d s = (if n \<le> length d then d else d @ take (n - 1 - length d) s)"

text \<open>All the tokens that successive calls of \<open>strtok\<close> return.\<close>

function strtok_all :: "(byte \<Rightarrow> bool) \<Rightarrow> cstr \<Rightarrow> cstr list" where
  "strtok_all d s =
     (let r = dropWhile d s in
      if r = [] then [] else takeWhile (\<lambda>c. \<not> d c) r # strtok_all d (dropWhile (\<lambda>c. \<not> d c) r))"
  by pat_completeness auto
termination
proof (relation "measure (length \<circ> snd)", goal_cases)
  case (2 d s r)
  then have "\<not> d (hd r)" using hd_dropWhile by blast
  then have "length (dropWhile (\<lambda>c. \<not> d c) r) < length r"
    using 2(2) by (cases r) (auto simp: le_imp_less_Suc)
  moreover have "length r \<le> length s" using 2(1) by simp
  ultimately show ?case by simp
qed simp

declare strtok_all.simps [simp del]

text \<open>\<open>strstr\<close>: the distance of the first occurrence.\<close>

fun strstr :: "cstr \<Rightarrow> cstr \<Rightarrow> nat option" where
  "strstr [] ptr = (if ptr = [] then Some 0 else None)"
| "strstr (c # s) ptr = (if take (length ptr) (c # s) = ptr then Some 0 else map_option Suc (strstr s ptr))"

text \<open>\<open>strcasecmp\<close>; on C strings it is 0 exactly when they agree up to the case of letters.\<close>

fun strcasecmp :: "cstr \<Rightarrow> cstr \<Rightarrow> int" where
  "strcasecmp [] [] = 0"
| "strcasecmp [] (d # t) = - uint (to_lower d)"
| "strcasecmp (c # s) [] = uint (to_lower c)"
| "strcasecmp (c # s) (d # t) = (if to_lower c = to_lower d then strcasecmp s t else uint (to_lower c) - uint (to_lower d))"

lemma to_lower_0 [simp]: "to_lower c = 0 \<longleftrightarrow> c = 0"
proof -
  have "uint (c + 32) = uint c + 32" if "c \<le> 90"
    using that by (simp add: word_le_def uint_plus_if')
  then have "c + 32 \<noteq> 0" if "c \<le> 90" using that by (metis uint_ge_0 add_nonneg_pos uint_0_eq less_irrefl zero_less_numeral)
  then show ?thesis by (auto simp: to_lower_def is_upper_def)
qed

lemma to_lower_zero [simp]: "to_lower 0 = 0"
  by simp

lemma strcasecmp_0:
  "0 \<notin> set s \<Longrightarrow> 0 \<notin> set t \<Longrightarrow> strcasecmp s t = 0 \<longleftrightarrow> map to_lower s = map to_lower t"
  by (induction s t rule: strcasecmp.induct) (auto simp: uint_0_iff simp flip: word_uint_eq_iff)

section \<open>Numbers\<close>

text \<open>\<open>(int) strtol(s, NULL, 10)\<close>: the value is clamped to 64 bits and then cut to 32.\<close>

definition digits_value :: "cstr \<Rightarrow> int" where
  "digits_value s = foldl (\<lambda>a c. a * 10 + (uint c - 48)) 0 (takeWhile is_digit s)"

definition atoi :: "cstr \<Rightarrow> int" where
  "atoi s =
     (let s1 = dropWhile is_space s;
          neg = (hd0 s1 = 45);
          s2 = (if hd0 s1 = 45 \<or> hd0 s1 = 43 then tl s1 else s1);
          v = (if neg then - digits_value s2 else digits_value s2) in
      signed_take_bit 31 (max (- (2 ^ 63)) (min v (2 ^ 63 - 1))))"

text \<open>The bytes of an unsigned integer object, low byte first, and the value of such bytes.\<close>

fun to_le :: "nat \<Rightarrow> nat \<Rightarrow> byte list" where
  "to_le 0 x = []"
| "to_le (Suc n) x = word_of_nat (x mod 256) # to_le n (x div 256)"

fun from_le :: "byte list \<Rightarrow> nat" where
  "from_le [] = 0"
| "from_le (b # bs) = unat b + 256 * from_le bs"

lemma length_to_le [simp]: "length (to_le n x) = n"
  by (induction n arbitrary: x) simp_all

lemma from_to_le: "from_le (to_le n x) = x mod 256 ^ n"
proof (induction n arbitrary: x)
  case (Suc n)
  have "unat (word_of_nat (x mod 256) :: byte) = x mod 256"
    by (simp add: unat_of_nat)
  then show ?case by (simp add: Suc mod_mult2_eq)
qed simp

lemma from_to_le_id: "x < 256 ^ n \<Longrightarrow> from_le (to_le n x) = x"
  by (simp add: from_to_le)

section \<open>Files\<close>

text \<open>The strings that successive calls of \<open>fgets(buf, n, fp)\<close> store, for \<open>n\<close> at least 2.\<close>

definition fgets_len :: "nat \<Rightarrow> byte list \<Rightarrow> nat" where
  "fgets_len n s = min (n - 1) (case memchr 10 s of None \<Rightarrow> length s | Some i \<Rightarrow> Suc i)"

function fgets_all :: "nat \<Rightarrow> byte list \<Rightarrow> cstr list" where
  "fgets_all n s =
     (if s = [] \<or> n < 2 then []
      else takeWhile (\<lambda>c. c \<noteq> 0) (take (fgets_len n s) s) # fgets_all n (drop (fgets_len n s) s))"
  by pat_completeness auto
termination
proof (relation "measure (length \<circ> snd)", goal_cases)
  case (2 n s)
  then have "0 < fgets_len n s" by (auto simp: fgets_len_def split: option.split)
  then show ?case using 2 by simp
qed simp

declare fgets_all.simps [simp del]

section \<open>Addresses\<close>

text \<open>
  \<open>inet_pton(AF_INET, s, &in)\<close>: decimal octets up to 255, without leading zeros,
  exactly four, separated by dots; \<open>tp\<close> is the octet being read and \<open>saw\<close> is
  \<open>saw_digit\<close>.  The result is the four bytes of \<open>in.s_addr\<close> in memory.
\<close>

type_synonym in_addr = "byte list"

fun pton_loop :: "cstr \<Rightarrow> nat list \<Rightarrow> nat \<Rightarrow> bool \<Rightarrow> nat list option" where
  "pton_loop [] octs tp saw = (if saw \<and> length octs = 3 then Some (octs @ [tp]) else None)"
| "pton_loop (c # s) octs tp saw =
     (if is_digit c then
        let new = tp * 10 + (unat c - 48) in
        if saw \<and> tp = 0 then None
        else if new > 255 then None
        else if \<not> saw \<and> length octs \<ge> 4 then None
        else pton_loop s octs new True
      else if c = 46 \<and> saw then
        if length octs \<ge> 3 then None else pton_loop s (octs @ [tp]) 0 False
      else None)"

definition inet_pton :: "cstr \<Rightarrow> in_addr option" where
  "inet_pton s = map_option (map word_of_nat) (pton_loop s [] 0 False)"

text \<open>\<open>ntohl\<close> of an address: its bytes from the most significant one.\<close>

definition ntohl :: "in_addr \<Rightarrow> u32" where
  "ntohl bs = word_of_nat (foldl (\<lambda>a b. a * 256 + unat b) 0 bs)"

end
