(* ===== verification/Strings.thy ===== *)
theory Strings
  imports Ansi Clib
begin

text \<open>
  The string utilities of \<open>src/common/sys/string.c\<close> and the hash of
  \<open>src/include/fnv_hash.h\<close>: affixes, blanks, paths, and the functions that know
  about double-byte (Big5) characters, in the Big5 build where \<open>MB_IS_UTF8\<close>
  is 0.  A pointer into a string is the list of the bytes that remain; a
  function that returns a pointer or \<open>NULL\<close> returns an option of such a list.
  \<open>mbs_strncasecmp\<close> reads its arguments as objects, each byte up to and with the
  NUL, so that a read past the NUL is \<^const>\<open>None\<close>.
  The theory shows that the searches find the first match at a character
  boundary, that cleaning a string yields only whole printable characters, that
  the comparison is right within the strings and reads past them beyond, and what
  a path accepted by \<open>invalid_pname\<close> can be.
\<close>

section \<open>Characters\<close>

definition CHAR_LOWER :: "byte \<Rightarrow> byte" where
  "CHAR_LOWER c = (if 65 \<le> c \<and> c \<le> 90 then c OR 32 else c)"

definition IS_DBCSLEAD :: "byte \<Rightarrow> bool" where "IS_DBCSLEAD c \<longleftrightarrow> 0x80 \<le> c"

section \<open>Conversions and affixes\<close>

definition str_lower :: "cstr \<Rightarrow> cstr" where "str_lower s = map CHAR_LOWER s"

fun str_starts_with :: "cstr \<Rightarrow> cstr \<Rightarrow> bool" where
  "str_starts_with str [] = True"
| "str_starts_with str (p # ps) = (if p \<noteq> hd0 str then False else str_starts_with (tl str) ps)"

fun str_case_starts_with :: "cstr \<Rightarrow> cstr \<Rightarrow> bool" where
  "str_case_starts_with str [] = True"
| "str_case_starts_with str (p # ps) =
     (if to_lower p \<noteq> to_lower (hd0 str) then False else str_case_starts_with (tl str) ps)"

definition str_ends_with :: "cstr \<Rightarrow> cstr \<Rightarrow> bool" where
  "str_ends_with str suf =
     (if length str < length suf then False else drop (length str - length suf) str = suf)"

definition str_case_ends_with :: "cstr \<Rightarrow> cstr \<Rightarrow> bool" where
  "str_case_ends_with str suf =
     (if length str < length suf then False
      else map to_lower (drop (length str - length suf) str) = map to_lower suf)"

fun strrchr :: "byte \<Rightarrow> cstr \<Rightarrow> cstr option" where
  "strrchr c [] = None"
| "strrchr c (x # xs) =
     (case strrchr c xs of Some p \<Rightarrow> Some p | None \<Rightarrow> if x = c then Some (x # xs) else None)"

definition path_basename :: "cstr \<Rightarrow> cstr" where
  "path_basename path = (case strrchr 47 path of Some p \<Rightarrow> tl p | None \<Rightarrow> path)"

section \<open>Blanks and newlines\<close>

text \<open>\<open>trim\<close> walks back from the NUL over the blanks.\<close>

definition trim :: "cstr \<Rightarrow> cstr" where
  "trim buf = rev (dropWhile (\<lambda>c. c = 32) (rev buf))"

text \<open>
  \<open>chomp\<close> overwrites a newline with NUL and then reads that NUL, which ends the
  loop: the string is cut at its first newline.
\<close>

fun chomp :: "cstr \<Rightarrow> cstr" where
  "chomp [] = []"
| "chomp (c # s) = (if c = 10 then [] else c # chomp s)"

fun strip_blank :: "cstr \<Rightarrow> cstr" where
  "strip_blank [] = []"
| "strip_blank (c # s) = (if c \<noteq> 32 then c # strip_blank s else strip_blank s)"

fun reduce_loop :: "bool \<Rightarrow> cstr \<Rightarrow> cstr" where
  "reduce_loop need_remove [] = []"
| "reduce_loop need_remove (c # s) =
     (if c < 0x80 \<and> is_blank c then
        if need_remove then reduce_loop True s else c # reduce_loop True s
      else c # reduce_loop False s)"

definition reduce_blank :: "cstr \<Rightarrow> cstr" where
  "reduce_blank buf =
     (let out = reduce_loop True buf in
      if out \<noteq> [] \<and> last out = 32 then butlast out else out)"

section \<open>Cleaning a multibyte string\<close>

text \<open>
  One iteration of the loop of \<open>mbs_sanitize\<close> on the byte \<open>c\<close>: the context and the
  bytes appended.  The function writes the result over its argument, never
  beyond the byte it has read, so the bytes to read are still the original ones.
\<close>

definition mbs_sanitize_step :: "big5_ctx \<Rightarrow> byte \<Rightarrow> (big5_ctx \<times> byte list) option" where
  "mbs_sanitize_step ctx c =
     (let take_char = (\<lambda>k. (big5_init k, take (b_len k) (b_buf k)));
          restart = (\<lambda>k. case big5_add_byte (big5_init k) c of
                          (True, k') \<Rightarrow> take_char k' | (False, k') \<Rightarrow> (k', [])) in
      Some (
        if big5_pending ctx > 0 then
          (case big5_add_byte ctx c of
             (True, k) \<Rightarrow> take_char k
           | (False, k) \<Rightarrow>
               if big5_pending k = 0 then
                 if 32 \<le> c \<and> c < 127 then (big5_init k, [c])
                 else if c \<ge> 0x80 then restart k
                 else (big5_init k, [])
               else (k, []))
        else if 32 \<le> c \<and> c < 127 then (ctx, [c])
        else if c \<ge> 0x80 then
          (case big5_add_byte ctx c of
             (True, k) \<Rightarrow> take_char k
           | (False, k) \<Rightarrow> if big5_is_error k then restart k else (k, []))
        else (big5_init ctx, [])))"

definition mbs_sanitize :: "cstr \<Rightarrow> nat \<Rightarrow> cstr" where
  "mbs_sanitize str maxlen =
     (case run_machine mbs_sanitize_step big5_fresh (take maxlen str) of
        Some (_, out) \<Rightarrow> out | None \<Rightarrow> [])"

text \<open>
  \<open>mbs_remove_intr_escape\<close> on a buffer of more than \<open>l\<close> bytes: a control sequence between the two
  bytes of a character is cut out.  The bytes past the new length are what \<open>memmove\<close> leaves there.
\<close>

function intr_loop :: "byte list \<Rightarrow> nat \<Rightarrow> nat \<Rightarrow> bool \<Rightarrow> byte list \<times> nat" where
  "intr_loop buf l i isInDBCS =
     (if l \<le> i \<or> length buf \<le> i then (buf, l)
      else if buf ! i = ESC_CHR then
        let s = takeWhile (\<lambda>c. c \<noteq> 0) (drop i buf);
            inext = min l (i + (length s - length (skip_control_sequence s))) in
        if isInDBCS \<and> inext < l
        then intr_loop (write_at buf i (take (l - inext) (drop inext buf))) (l - (inext - i)) i isInDBCS
        else intr_loop buf l inext isInDBCS
      else intr_loop buf l (i + 1) (\<not> isInDBCS \<and> IS_DBCSLEAD (buf ! i)))"
  by pat_completeness auto
termination
proof (relation "measure (\<lambda>(buf, l, i, d). l - i)", goal_cases)
  case (2 buf l i d s inext)
  then have "s \<noteq> []" by (simp add: Cons_nth_drop_Suc [symmetric])
  then show ?case using 2 skip_control_sequence_less [of s] by (auto simp: min_def)
next
  case (3 buf l i d s inext)
  then have "s \<noteq> []" by (simp add: Cons_nth_drop_Suc [symmetric])
  then show ?case using 3 skip_control_sequence_less [of s] by (auto simp: min_def)
qed auto

declare intr_loop.simps [simp del]

definition mbs_remove_intr_escape :: "byte list \<Rightarrow> nat option \<Rightarrow> bool \<times> byte list \<times> nat" where
  "mbs_remove_intr_escape buf len =
     (let l = (case len of Some n \<Rightarrow> n | None \<Rightarrow> length (takeWhile (\<lambda>c. c \<noteq> 0) buf)) in
      if ESC_CHR \<notin> set (take l buf) then (False, buf, l)
      else let (buf', l') = intr_loop buf l 0 False in (l \<noteq> l', buf', l'))"

section \<open>Walking over characters\<close>

datatype mb_status = MB_ASCII | MB_LEADING | MB_TRAILING

definition big5_next_status :: "byte \<Rightarrow> mb_status \<Rightarrow> mb_status" where
  "big5_next_status c prev =
     (if prev = MB_LEADING then MB_TRAILING else if c \<ge> 0x80 then MB_LEADING else MB_ASCII)"

fun status_loop :: "nat \<Rightarrow> cstr \<Rightarrow> mb_status \<Rightarrow> mb_status" where
  "status_loop 0 s sts = sts"
| "status_loop (Suc n) [] sts = big5_next_status 0 sts"
| "status_loop (Suc n) (c # s) sts = status_loop n s (big5_next_status c sts)"

definition mbs_status :: "cstr \<Rightarrow> int \<Rightarrow> mb_status" where
  "mbs_status s pos = status_loop (nat (pos + 1)) s MB_ASCII"

definition mbs_safe_trim :: "cstr \<Rightarrow> cstr" where
  "mbs_safe_trim s =
     (if length s < 1 then s
      else if mbs_status s (int (length s) - 1) = MB_LEADING then butlast s else s)"

fun nth_loop :: "cstr \<Rightarrow> nat \<Rightarrow> cstr" where
  "nth_loop s 0 = s"
| "nth_loop s (Suc n) = (if mb_bytes s > 0 then nth_loop (drop (mb_bytes s) s) n else s)"

definition mbs_nth :: "cstr \<Rightarrow> nat \<Rightarrow> cstr option" where
  "mbs_nth s n = (let p = nth_loop s n in if p \<noteq> [] then Some p else None)"

section \<open>Searching\<close>

text \<open>The next character of \<open>mbs_strstr\<close>; a lead byte before the NUL counts as one byte.\<close>

definition dbcs_next :: "cstr \<Rightarrow> cstr" where
  "dbcs_next s = (if IS_DBCSLEAD (hd0 s) \<and> hd0 (tl s) \<noteq> 0 then drop 2 s else tl s)"

text \<open>
  \<open>while (scan < match)\<close>, with \<open>m\<close> the bytes from \<open>scan\<close> to \<open>match\<close>: the final
  \<open>scan\<close>, and whether it is \<open>match\<close> (one character may step over it).
\<close>

function dbcs_walk :: "cstr \<Rightarrow> nat \<Rightarrow> cstr \<times> bool" where
  "dbcs_walk scan m =
     (if m = 0 \<or> scan = [] then (scan, m = 0)
      else let k = length scan - length (dbcs_next scan) in
        if m < k then (dbcs_next scan, False) else dbcs_walk (dbcs_next scan) (m - k))"
  by pat_completeness auto
termination
  by (relation "measure (length \<circ> fst)") (auto simp: dbcs_next_def)

declare dbcs_walk.simps [simp del]

lemma dbcs_walk_0 [simp]: "dbcs_walk s 0 = (s, True)"
  by (subst dbcs_walk.simps) simp

lemma length_dbcs_next: "s \<noteq> [] \<Longrightarrow> length (dbcs_next s) < length s"
  by (cases s) (auto simp: dbcs_next_def)

lemma length_dbcs_walk:
  "length (fst (dbcs_walk s m)) \<le> length s"
  "m \<noteq> 0 \<Longrightarrow> s \<noteq> [] \<Longrightarrow> length (fst (dbcs_walk s m)) < length s"
proof (induction s m rule: dbcs_walk.induct)
  case (1 s m)
  {
    case 1
    then show ?case
      using "1.IH"(1) length_dbcs_next [of s]
      by (subst dbcs_walk.simps) (fastforce simp: Let_def intro: order_trans less_imp_le)
  next
    case 2
    then show ?case
      using "1.IH"(1) length_dbcs_next [of s]
      by (subst dbcs_walk.simps) (fastforce simp: Let_def intro: le_less_trans)
  }
qed

lemma strstr_Some: "strstr s ptr = Some m \<Longrightarrow> m \<le> length s \<and> take (length ptr) (drop m s) = ptr"
  by (induction s ptr arbitrary: m rule: strstr.induct) (auto split: if_splits)

function strstr_loop :: "cstr \<Rightarrow> cstr \<Rightarrow> cstr option" where
  "strstr_loop scan ptr =
     (if ptr = [] then Some scan
      else case strstr scan ptr of
        None \<Rightarrow> None
      | Some m \<Rightarrow>
          if snd (dbcs_walk scan m) then Some (fst (dbcs_walk scan m))
          else strstr_loop (fst (dbcs_walk scan m)) ptr)"
  by pat_completeness auto
termination
proof (relation "measure (length \<circ> fst)", goal_cases)
  case (2 scan ptr m)
  then have "m \<noteq> 0" by (metis dbcs_walk_0 snd_conv)
  moreover have "scan \<noteq> []" using 2 by auto
  ultimately show ?case using length_dbcs_walk(2) by simp
qed simp

declare strstr_loop.simps [simp del]

definition mbs_strstr :: "cstr \<Rightarrow> cstr \<Rightarrow> cstr option" where
  "mbs_strstr pool ptr = (if ptr = [] then Some pool else strstr_loop pool ptr)"

text \<open>The comparison of \<open>mbs_strcasestr\<close> at one position of the pool.\<close>

function case_match :: "cstr \<Rightarrow> cstr \<Rightarrow> bool" where
  "case_match s ptr =
     (if ptr = [] then True
      else if IS_DBCSLEAD (hd0 s) then
        if hd ptr \<noteq> hd0 s \<or> hd0 (tl ptr) \<noteq> hd0 (tl s) then False
        else case_match (drop 2 s) (drop 2 ptr)
      else if IS_DBCSLEAD (hd ptr) \<or> to_lower (hd ptr) \<noteq> to_lower (hd0 s) then False
      else case_match (tl s) (tl ptr))"
  by pat_completeness auto
termination by (relation "measure (length \<circ> snd)") auto

declare case_match.simps [simp del]

function strcasestr_loop :: "cstr \<Rightarrow> cstr \<Rightarrow> cstr option" where
  "strcasestr_loop s ptr =
     (if length ptr \<le> length s then
        if case_match s ptr then Some s
        else if IS_DBCSLEAD (hd0 s) then strcasestr_loop (drop 2 s) ptr
        else strcasestr_loop (tl s) ptr
      else None)"
  by pat_completeness auto
termination
proof (relation "measure (length \<circ> fst)", goal_cases)
  case (2 s ptr)
  then show ?case by (cases s) (auto simp: case_match.simps)
next
  case (3 s ptr)
  then show ?case by (cases s) (auto simp: case_match.simps)
qed simp

declare strcasestr_loop.simps [simp del]

definition mbs_strcasestr :: "cstr \<Rightarrow> cstr \<Rightarrow> cstr option" where
  "mbs_strcasestr pool ptr = strcasestr_loop pool ptr"

section \<open>Comparing and hashing\<close>

text \<open>\<open>strncasecmp\<close> on C strings: the difference at the first byte that differs.\<close>

fun strncasecmp :: "cstr \<Rightarrow> cstr \<Rightarrow> nat \<Rightarrow> int" where
  "strncasecmp s1 s2 0 = 0"
| "strncasecmp s1 s2 (Suc n) =
     (if to_lower (hd0 s1) \<noteq> to_lower (hd0 s2)
      then uint (to_lower (hd0 s1)) - uint (to_lower (hd0 s2))
      else if hd0 s1 = 0 then 0 else strncasecmp (tl s1) (tl s2) n)"

text \<open>The second loop; \<open>o1\<close> and \<open>o2\<close> are the objects from \<open>s1\<close> and \<open>s2\<close> on.\<close>

fun strncasecmp_loop :: "byte list \<Rightarrow> byte list \<Rightarrow> nat \<Rightarrow> mb_status \<Rightarrow> mb_status \<Rightarrow> int option" where
  "strncasecmp_loop o1 o2 0 sts1 sts2 = Some 0"
| "strncasecmp_loop (c1 # o1) (c2 # o2) (Suc n) sts1 sts2 =
     (let sts1' = big5_next_status c1 sts1; sts2' = big5_next_status c2 sts2 in
      if sts1' \<noteq> MB_ASCII \<and> c1 \<noteq> c2 then Some (uint c1 - uint c2)
      else strncasecmp_loop o1 o2 n sts1' sts2')"
| "strncasecmp_loop _ _ (Suc n) sts1 sts2 = None"

definition mbs_strncasecmp :: "cstr \<Rightarrow> cstr \<Rightarrow> nat \<Rightarrow> int option" where
  "mbs_strncasecmp s1 s2 len =
     (let r = strncasecmp s1 s2 len in
      if r \<noteq> 0 then Some r else strncasecmp_loop (s1 @ [0]) (s2 @ [0]) len MB_ASCII MB_ASCII)"

definition FNV1_32_INIT :: u32 where "FNV1_32_INIT = 33554467"
definition FNV_32_PRIME :: u32 where "FNV_32_PRIME = 0x01000193"

fun fnv1a_32_strcase :: "cstr \<Rightarrow> u32 \<Rightarrow> u32" where
  "fnv1a_32_strcase [] hval = hval"
| "fnv1a_32_strcase (c # s) hval = fnv1a_32_strcase s ((hval XOR ucast (to_upper c)) * FNV_32_PRIME)"

fun fnv1a_32_dbcs_strcase :: "bool \<Rightarrow> cstr \<Rightarrow> u32 \<Rightarrow> u32" where
  "fnv1a_32_dbcs_strcase isDBCS [] hval = hval"
| "fnv1a_32_dbcs_strcase isDBCS (c # s) hval =
     (let c' = (if isDBCS then c else if c < 0x80 then to_upper c else c);
          isDBCS' = (if isDBCS then False else \<not> c < 0x80) in
      fnv1a_32_dbcs_strcase isDBCS' s ((hval XOR ucast c') * FNV_32_PRIME))"

definition mbs_strcasehash :: "cstr \<Rightarrow> u32" where
  "mbs_strcasehash s = fnv1a_32_dbcs_strcase False s FNV1_32_INIT"

definition StringHash :: "cstr \<Rightarrow> u32" where
  "StringHash s = fnv1a_32_strcase s FNV1_32_INIT"

section \<open>Checking names\<close>

text \<open>The characters \<open>@ [ ] - . _\<close>.\<close>

definition pname_char :: "byte \<Rightarrow> bool" where
  "pname_char c \<longleftrightarrow> is_alnum c \<or> c \<in> {64, 91, 93, 45, 46, 95}"

function invalid_pname :: "cstr \<Rightarrow> bool" where
  "invalid_pname p1 =
     (if p1 = [] then False
      else
        let seg = takeWhile (\<lambda>c. c \<noteq> 47) p1; p2 = dropWhile (\<lambda>c. c \<noteq> 47) p1 in
        if seg = [] \<or> length (takeWhile (\<lambda>c. c = 46) p1) = length seg then True
        else if \<exists>c \<in> set seg. \<not> pname_char c then True
        else invalid_pname (tl p2))"
  by pat_completeness auto
termination
proof (relation "measure length", goal_cases)
  case (2 p1 seg p2)
  have "length p2 \<le> length p1" using 2 by simp
  then show ?case using 2(1) by (cases p2) auto
qed simp

declare invalid_pname.simps [simp del]

definition is_number :: "cstr \<Rightarrow> bool" where
  "is_number p = (if p = [] then False else list_all (\<lambda>c. \<not> (c < 48 \<or> 57 < c)) p)"

abbreviation IDLEN :: nat where "IDLEN \<equiv> 12"

definition is_validuserid :: "cstr \<Rightarrow> bool" where
  "is_validuserid i =
     (if length i < 2 \<or> length i > IDLEN then False
      else if \<not> is_alpha (hd0 i) then False
      else list_all is_alnum (drop 1 i))"

section \<open>Reference definitions\<close>

text \<open>The first match at a character boundary.\<close>

function mbs_find :: "cstr \<Rightarrow> cstr \<Rightarrow> cstr option" where
  "mbs_find ptr s =
     (if take (length ptr) s = ptr then Some s
      else if s = [] then None else mbs_find ptr (dbcs_next s))"
  by pat_completeness auto
termination by (relation "measure (length \<circ> snd)") (auto simp: length_dbcs_next)

declare mbs_find.simps [simp del]

text \<open>Lower case, except for the bytes of double-byte characters; \<open>trail\<close> expects a second byte.\<close>

fun lower_from :: "bool \<Rightarrow> cstr \<Rightarrow> cstr" where
  "lower_from trail [] = []"
| "lower_from trail (c # s) =
     (if trail then c # lower_from False s
      else if IS_DBCSLEAD c then c # lower_from True s
      else to_lower c # lower_from False s)"

definition dbcs_lower :: "cstr \<Rightarrow> cstr" where "dbcs_lower s = lower_from False s"

text \<open>A string that does not end inside a character.\<close>

fun complete_from :: "bool \<Rightarrow> cstr \<Rightarrow> bool" where
  "complete_from trail [] = (\<not> trail)"
| "complete_from trail (c # s) = complete_from (\<not> trail \<and> IS_DBCSLEAD c) s"

text \<open>Only printable ASCII and whole Big5 characters.\<close>

fun clean :: "cstr \<Rightarrow> bool" where
  "clean [] = True"
| "clean [c] = (32 \<le> c \<and> c < 127)"
| "clean (c # d # s) =
     (if 32 \<le> c \<and> c < 127 then clean (d # s)
      else big5_is_valid_lead c \<and> big5_is_valid_trail d \<and> clean s)"

section \<open>Lemmas on searching\<close>

lemma strstr_first:
  "strstr s ptr = Some m \<Longrightarrow> j < m \<Longrightarrow> take (length ptr) (drop j s) \<noteq> ptr"
proof (induction s ptr arbitrary: m j rule: strstr.induct)
  case (2 c s ptr)
  then show ?case by (cases j) (auto split: if_splits)
qed (auto split: if_splits)

lemma strstr_None: "strstr s ptr = None \<Longrightarrow> take (length ptr) (drop j s) \<noteq> ptr"
proof (induction s ptr arbitrary: j rule: strstr.induct)
  case (2 c s ptr)
  then show ?case by (cases j) (auto split: if_splits)
qed (auto split: if_splits)

lemma mbs_find_step:
  "take (length ptr) s \<noteq> ptr \<Longrightarrow> s \<noteq> [] \<Longrightarrow> mbs_find ptr s = mbs_find ptr (dbcs_next s)"
  by (subst mbs_find.simps) simp

lemma dbcs_next_drop: "s \<noteq> [] \<Longrightarrow> dbcs_next s = drop (length s - length (dbcs_next s)) s"
  by (cases s; cases "tl s") (auto simp: dbcs_next_def)

lemma dbcs_walk_find:
  assumes "\<And>j. j < m \<Longrightarrow> take (length ptr) (drop j s) \<noteq> ptr" "m \<le> length s"
  shows "mbs_find ptr (fst (dbcs_walk s m)) = mbs_find ptr s \<and>
    (snd (dbcs_walk s m) \<longrightarrow> fst (dbcs_walk s m) = drop m s)"
  using assms
proof (induction s m rule: dbcs_walk.induct)
  case (1 s m)
  let ?k = "length s - length (dbcs_next s)"
  show ?case
  proof (cases "m = 0 \<or> s = []")
    case False
    then have find: "mbs_find ptr s = mbs_find ptr (dbcs_next s)"
      using 1(2) [of 0] by (intro mbs_find_step) auto
    show ?thesis
    proof (cases "m < ?k")
      case True
      then show ?thesis using False find by (subst (1 2 3) dbcs_walk.simps) simp
    next
      case walk: False
      have w: "dbcs_walk s m = dbcs_walk (dbcs_next s) (m - ?k)"
        using False walk by (subst dbcs_walk.simps) simp
      have d: "dbcs_next s = drop ?k s" using False dbcs_next_drop by blast
      have "take (length ptr) (drop j (dbcs_next s)) \<noteq> ptr" if "j < m - ?k" for j
        using 1(2) [of "j + ?k"] that d by (metis drop_drop less_diff_conv)
      moreover have "m - ?k \<le> length (dbcs_next s)" using 1(3) length_dbcs_next [of s] by linarith
      ultimately have "mbs_find ptr (fst (dbcs_walk s m)) = mbs_find ptr (dbcs_next s) \<and>
          (snd (dbcs_walk s m) \<longrightarrow> fst (dbcs_walk s m) = drop (m - ?k) (dbcs_next s))"
        using 1(1) [OF False refl walk] unfolding w by blast
      moreover have "drop (m - ?k) (dbcs_next s) = drop m s"
        using walk d by (metis drop_drop le_add_diff_inverse2 not_less)
      ultimately show ?thesis using find by simp
    qed
  qed (use 1 in \<open>auto simp: dbcs_walk.simps [of "[]"]\<close>)
qed

lemma mbs_find_None: "(\<And>j. take (length ptr) (drop j s) \<noteq> ptr) \<Longrightarrow> mbs_find ptr s = None"
proof (induction ptr s rule: mbs_find.induct)
  case (1 ptr s)
  show ?case
  proof (cases "s = []")
    case True
    then show ?thesis using 1(2) [of 0] by (subst mbs_find.simps) auto
  next
    case False
    have t: "take (length ptr) s \<noteq> ptr" using 1(2) [of 0] by simp
    have "take (length ptr) (drop j (dbcs_next s)) \<noteq> ptr" for j
      using 1(2) dbcs_next_drop [OF False] by (metis drop_drop)
    then show ?thesis using mbs_find_step [OF t False] 1(1) [OF t False] by simp
  qed
qed

lemma strstr_loop_find: "strstr_loop s ptr = mbs_find ptr s"
proof (induction s ptr rule: strstr_loop.induct)
  case (1 s ptr)
  show ?case
  proof (cases "ptr = []")
    case True
    then show ?thesis by (simp add: strstr_loop.simps mbs_find.simps)
  next
    case ne: False
    show ?thesis
    proof (cases "strstr s ptr")
      case None
      then show ?thesis
        using ne mbs_find_None [of ptr s] strstr_None by (subst strstr_loop.simps) simp
    next
      case (Some m)
      note m = strstr_Some [OF Some]
      have w: "mbs_find ptr (fst (dbcs_walk s m)) = mbs_find ptr s \<and>
          (snd (dbcs_walk s m) \<longrightarrow> fst (dbcs_walk s m) = drop m s)"
        by (rule dbcs_walk_find) (use strstr_first [OF Some] m in auto)
      show ?thesis
      proof (cases "snd (dbcs_walk s m)")
        case True
        then have "mbs_find ptr s = mbs_find ptr (drop m s)" using w by metis
        also have "\<dots> = Some (drop m s)" using m by (subst mbs_find.simps) simp
        finally show ?thesis using True w ne Some by (subst strstr_loop.simps) simp
      next
        case False
        then show ?thesis using w ne Some 1 [OF ne Some False] by (subst strstr_loop.simps) simp
      qed
    qed
  qed
qed

lemma mbs_find_Nil: "mbs_find [] s = Some s"
  by (subst mbs_find.simps) simp

text \<open>The characters of a C string: a byte from 128 on takes the byte after it with it.\<close>

fun b5_chars :: "cstr \<Rightarrow> cstr list" where
  "b5_chars [] = []"
| "b5_chars [c] = [[c]]"
| "b5_chars (c # d # s) = (if 128 \<le> c \<and> d \<noteq> 0 then [c, d] # b5_chars s else [c] # b5_chars (d # s))"

text \<open>The needle is a beginning of the text of the characters.\<close>

definition begins :: "cstr \<Rightarrow> cstr list \<Rightarrow> bool" where
  "begins ptr cs \<longleftrightarrow> (\<exists>t. concat cs = ptr @ t)"

lemma begins_take: "begins ptr cs \<longleftrightarrow> take (length ptr) (concat cs) = ptr"
  by (auto simp: begins_def) (metis append_take_drop_id)

lemma concat_b5_chars: "concat (b5_chars s) = s"
  by (induction s rule: b5_chars.induct) auto

lemma tl_b5_chars: "s \<noteq> [] \<Longrightarrow> b5_chars s \<noteq> [] \<and> tl (b5_chars s) = b5_chars (dbcs_next s)"
  by (cases s rule: b5_chars.cases) (auto simp: dbcs_next_def IS_DBCSLEAD_def)

lemma begins_chars: "begins ptr (b5_chars s) \<longleftrightarrow> take (length ptr) s = ptr"
  by (simp add: begins_take concat_b5_chars)

lemma mbs_find_None_chars: "mbs_find ptr s = None \<longleftrightarrow> (\<forall>k. \<not> begins ptr (drop k (b5_chars s)))"
proof (induction ptr s rule: mbs_find.induct)
  case (1 ptr s)
  show ?case
  proof (cases "take (length ptr) s = ptr")
    case True
    then have "begins ptr (drop 0 (b5_chars s))" by (simp add: begins_chars)
    then show ?thesis using True by (metis mbs_find.simps option.distinct(1))
  next
    case no: False
    show ?thesis
    proof (cases "s = []")
      case True
      then show ?thesis using no begins_chars [of ptr "[]"] by (subst mbs_find.simps) simp
    next
      case False
      have s: "drop (Suc k) (b5_chars s) = drop k (b5_chars (dbcs_next s))" for k
        using tl_b5_chars [OF False] by (simp add: drop_Suc)
      have "\<not> begins ptr (drop 0 (b5_chars s))" using no by (simp add: begins_chars)
      then show ?thesis unfolding mbs_find_step [OF no False] 1 [OF no False] s [symmetric]
        by (metis not0_implies_Suc)
    qed
  qed
qed

lemma mbs_find_Some_chars:
  "mbs_find ptr s = Some r \<Longrightarrow>
     \<exists>k \<le> length (b5_chars s). r = concat (drop k (b5_chars s)) \<and> begins ptr (drop k (b5_chars s)) \<and>
        (\<forall>j < k. \<not> begins ptr (drop j (b5_chars s)))"
proof (induction ptr s rule: mbs_find.induct)
  case (1 ptr s)
  show ?case
  proof (cases "take (length ptr) s = ptr")
    case True
    then have "r = s" using 1(2) by (subst (asm) mbs_find.simps) simp
    then show ?thesis using True by (intro exI [of _ 0]) (simp add: begins_chars concat_b5_chars)
  next
    case no: False
    have ne: "s \<noteq> []" using no 1(2) by (subst (asm) mbs_find.simps) (auto split: if_splits)
    have s: "drop (Suc k) (b5_chars s) = drop k (b5_chars (dbcs_next s))" for k
      using tl_b5_chars [OF ne] by (simp add: drop_Suc)
    have l: "length (b5_chars s) = Suc (length (b5_chars (dbcs_next s)))"
      using tl_b5_chars [OF ne] by (metis length_Cons list.exhaust_sel)
    obtain k where k: "k \<le> length (b5_chars (dbcs_next s))" "r = concat (drop k (b5_chars (dbcs_next s)))"
        "begins ptr (drop k (b5_chars (dbcs_next s)))" "\<forall>j < k. \<not> begins ptr (drop j (b5_chars (dbcs_next s)))"
      using 1(1) [OF no ne] 1(2) mbs_find_step [OF no ne] by auto
    have "\<not> begins ptr (drop j (b5_chars s))" if "j < Suc k" for j
      using that no k(4) s by (cases j) (auto simp: begins_chars)
    then show ?thesis using k s l by (intro exI [of _ "Suc k"]) simp
  qed
qed

lemma mbs_find_chars:
  "(mbs_find ptr s = Some r \<longleftrightarrow>
     (\<exists>k \<le> length (b5_chars s). r = concat (drop k (b5_chars s)) \<and> begins ptr (drop k (b5_chars s)) \<and>
        (\<forall>j < k. \<not> begins ptr (drop j (b5_chars s))))) \<and>
   (mbs_find ptr s = None \<longleftrightarrow> (\<forall>k. \<not> begins ptr (drop k (b5_chars s)))) \<and> concat (b5_chars s) = s"
proof -
  have "mbs_find ptr s = Some r"
    if k: "r = concat (drop k (b5_chars s))" "begins ptr (drop k (b5_chars s))"
      "\<forall>j < k. \<not> begins ptr (drop j (b5_chars s))" for k
  proof -
    obtain q where q: "mbs_find ptr s = Some q" using mbs_find_None_chars [of ptr s] k(2) by (metis option.exhaust)
    then obtain i where i: "q = concat (drop i (b5_chars s))" "begins ptr (drop i (b5_chars s))"
        "\<forall>j < i. \<not> begins ptr (drop j (b5_chars s))"
      using mbs_find_Some_chars by blast
    then have "i = k" using k by (metis nat_neq_iff)
    then show ?thesis using q i k by simp
  qed
  then show ?thesis using mbs_find_Some_chars mbs_find_None_chars concat_b5_chars by blast
qed

lemma mbs_strstr_find: "mbs_strstr pool ptr = mbs_find ptr pool"
  by (cases "ptr = []") (simp_all add: mbs_strstr_def strstr_loop_find mbs_find_Nil)

section \<open>Lemmas on letter case\<close>

lemma upper_shift: "is_upper c \<Longrightarrow> 65 \<le> uint c \<and> uint c \<le> 90 \<and> uint (c + 32) = uint c + 32"
  using uint_add_lem [of c 32] by (simp add: is_upper_def word_le_def)

lemma to_lower_upper:
  assumes "is_upper c"
  shows "c + 32 \<noteq> 0" "is_lower (c + 32)" "\<not> is_lower c" "\<not> is_upper (c + 32)" "\<not> 0x80 \<le> c + 32" "\<not> 0x80 \<le> c"
  using upper_shift [OF assms]
  by (auto simp: is_lower_def is_upper_def word_le_def word_uint_eq_iff)

lemma to_upper_to_lower: "to_upper (to_lower c) = to_upper c"
  using to_lower_upper(2,3) [of c] by (simp add: to_upper_def to_lower_def)

lemma lead_to_lower [simp]: "IS_DBCSLEAD (to_lower c) = IS_DBCSLEAD c"
  using to_lower_upper(5,6) [of c] by (simp add: to_lower_def IS_DBCSLEAD_def)

lemma to_lower_lead: "IS_DBCSLEAD c \<Longrightarrow> to_lower c = c"
  using to_lower_upper(6) [of c] by (auto simp: to_lower_def IS_DBCSLEAD_def)

lemma to_lower_idem [simp]: "to_lower (to_lower c) = to_lower c"
  using to_lower_upper(4) [of c] by (simp add: to_lower_def)

lemma length_lower_from [simp]: "length (lower_from b s) = length s"
  by (induction b s rule: lower_from.induct) auto

lemma length_dbcs_lower [simp]: "length (dbcs_lower s) = length s"
  by (simp add: dbcs_lower_def)

text \<open>Equal lower-cased strings agree byte by byte and in the shape of their characters.\<close>

lemma lower_from_ConsE:
  assumes "lower_from b (c # s) = lower_from b t"
  obtains d t' where "t = d # t'" "to_lower c = to_lower d" "IS_DBCSLEAD c = IS_DBCSLEAD d"
    "b \<or> IS_DBCSLEAD c \<longrightarrow> c = d"
    "lower_from (\<not> b \<and> IS_DBCSLEAD c) s = lower_from (\<not> b \<and> IS_DBCSLEAD c) t'"
proof -
  obtain d t' where t: "t = d # t'" using assms by (cases t) (auto split: if_splits)
  show thesis
  proof (cases b)
    case True
    then show ?thesis using assms t that by simp
  next
    case False
    have c: "to_lower c = to_lower d"
      using assms t False by (cases "IS_DBCSLEAD c"; cases "IS_DBCSLEAD d") (simp_all add: to_lower_lead)
    then have l: "IS_DBCSLEAD c = IS_DBCSLEAD d" by (metis lead_to_lower)
    then show ?thesis using assms t False c that
      by (cases "IS_DBCSLEAD c") (simp_all add: to_lower_lead)
  qed
qed

lemma lower_from_eq_lower: "lower_from b s = lower_from b t \<Longrightarrow> map to_lower s = map to_lower t"
proof (induction s arbitrary: b t)
  case Nil
  then show ?case by (metis length_0_conv length_lower_from)
next
  case (Cons c s)
  from Cons.prems show ?case
  proof (rule lower_from_ConsE)
    fix d t'
    assume "t = d # t'" "to_lower c = to_lower d"
      "lower_from (\<not> b \<and> IS_DBCSLEAD c) s = lower_from (\<not> b \<and> IS_DBCSLEAD c) t'"
    then show ?thesis using Cons.IH [of "\<not> b \<and> IS_DBCSLEAD c" t'] by simp
  qed
qed

lemma hash_lower_from:
  "lower_from b s = lower_from b t \<Longrightarrow> fnv1a_32_dbcs_strcase b s h = fnv1a_32_dbcs_strcase b t h"
proof (induction s arbitrary: b t h)
  case Nil
  then show ?case by (metis length_0_conv length_lower_from)
next
  case (Cons c s)
  have lt: "x < 0x80 \<longleftrightarrow> \<not> IS_DBCSLEAD x" for x by (auto simp: IS_DBCSLEAD_def)
  from Cons.prems obtain d t' where t: "t = d # t'" "to_lower c = to_lower d" "IS_DBCSLEAD c = IS_DBCSLEAD d"
    "b \<or> IS_DBCSLEAD c \<longrightarrow> c = d"
    "lower_from (\<not> b \<and> IS_DBCSLEAD c) s = lower_from (\<not> b \<and> IS_DBCSLEAD c) t'"
    by (rule lower_from_ConsE)
  have "to_upper c = to_upper d" using t(2) by (metis to_upper_to_lower)
  then have "(if b then c else if c < 0x80 then to_upper c else c) =
      (if b then d else if d < 0x80 then to_upper d else d)"
    using t(3,4) unfolding lt by (simp split: if_split)
  moreover have "(if b then False else \<not> x < 0x80) = (\<not> b \<and> IS_DBCSLEAD x)" for x
    unfolding lt by simp
  ultimately show ?case
    unfolding t(1) fnv1a_32_dbcs_strcase.simps Let_def using Cons.IH [OF t(5)] t(3) by (simp only:)
qed

section \<open>Lemmas on the case-insensitive search\<close>

lemma dbcs_lower_simps:
  "dbcs_lower [] = []" "dbcs_lower [c] = [to_lower c]"
  "\<not> IS_DBCSLEAD c \<Longrightarrow> dbcs_lower (c # s) = to_lower c # dbcs_lower s"
  "IS_DBCSLEAD c \<Longrightarrow> dbcs_lower (c # d # s) = c # d # dbcs_lower s"
  by (simp_all add: dbcs_lower_def to_lower_lead)

lemma case_match_lower:
  "complete_from False ptr \<Longrightarrow> length ptr \<le> length s \<Longrightarrow>
     case_match s ptr \<longleftrightarrow> take (length ptr) (dbcs_lower s) = dbcs_lower ptr"
proof (induction s ptr rule: case_match.induct)
  case (1 s ptr)
  show ?case
  proof (cases ptr)
    case Nil
    then show ?thesis by (simp add: case_match.simps dbcs_lower_simps)
  next
    case p: (Cons p ps)
    obtain c s' where s: "s = c # s'" using 1(4) p by (cases s) auto
    show ?thesis
    proof (cases "IS_DBCSLEAD c")
      case lead: True
      show ?thesis
      proof (cases "IS_DBCSLEAD p")
        case True
        then obtain q ps' where ps: "ps = q # ps'" using 1(3) p by (cases ps) auto
        then obtain d s'' where s': "s' = d # s''" using 1(4) p s by (cases s') auto
        have comp: "complete_from False ps'" using 1(3) p ps True by simp
        have ne: "ptr \<noteq> []" using p by simp
        have ls: "IS_DBCSLEAD (hd0 s)" using lead s by simp
        show ?thesis
        proof (cases "p = c \<and> q = d")
          case eq: True
          have nf: "\<not> (hd ptr \<noteq> hd0 s \<or> hd0 (tl ptr) \<noteq> hd0 (tl s))" using eq p ps s s' by simp
          have "case_match s ptr = case_match s'' ps'"
            using eq lead p ps s s' by (subst case_match.simps) simp
          also have "\<dots> = (take (length ps') (dbcs_lower s'') = dbcs_lower ps')"
            using 1(1) [OF ne ls nf] comp 1(4) p ps s s' by simp
          finally show ?thesis using eq lead p ps s s' by (simp add: dbcs_lower_simps)
        next
          case False
          then show ?thesis using lead True p ps s s'
            by (subst case_match.simps) (auto simp: dbcs_lower_simps)
        qed
      next
        case False
        then have "p \<noteq> c" "to_lower p \<noteq> c" using lead by (metis lead_to_lower)+
        moreover have "hd (dbcs_lower s) = c" using lead s by (cases s') (auto simp: dbcs_lower_simps to_lower_lead)
        moreover have "dbcs_lower s \<noteq> []" using s by (metis length_0_conv length_dbcs_lower list.distinct(1))
        ultimately show ?thesis using lead False p s
          by (subst case_match.simps) (cases "dbcs_lower s", auto simp: dbcs_lower_simps)
      qed
    next
      case nlead: False
      show ?thesis
      proof (cases "IS_DBCSLEAD p")
        case True
        then have "p \<noteq> to_lower c" using nlead by (metis lead_to_lower)
        moreover have "hd (dbcs_lower ptr) = p" "dbcs_lower ptr \<noteq> []"
          using True p by (cases ps; auto simp: dbcs_lower_simps to_lower_lead)+
        ultimately show ?thesis using nlead True p s
          by (subst case_match.simps) (cases "dbcs_lower ptr", auto simp: dbcs_lower_simps)
      next
        case False
        have ne: "ptr \<noteq> []" using p by simp
        have ls: "\<not> IS_DBCSLEAD (hd0 s)" using nlead s by simp
        show ?thesis
        proof (cases "to_lower p = to_lower c")
          case eq: True
          have nf: "\<not> (IS_DBCSLEAD (hd ptr) \<or> to_lower (hd ptr) \<noteq> to_lower (hd0 s))"
            using False eq p s by simp
          have "case_match s' ps = (take (length ps) (dbcs_lower s') = dbcs_lower ps)"
            using 1(2) [OF ne ls nf] 1(3,4) p s False by simp
          then show ?thesis using nlead False p s eq
            by (subst case_match.simps) (simp add: dbcs_lower_simps)
        next
          case ne: False
          then show ?thesis using nlead False p s
            by (subst case_match.simps) (simp add: dbcs_lower_simps)
        qed
      qed
    qed
  qed
qed

lemma dbcs_lower_next:
  assumes "s \<noteq> []" "0 \<notin> set s"
  shows "dbcs_next (dbcs_lower s) = dbcs_lower (dbcs_next s)"
    "dbcs_next s = (if IS_DBCSLEAD (hd0 s) then drop 2 s else tl s)"
proof -
  obtain c r where s: "s = c # r" using assms by (cases s) auto
  show "dbcs_next s = (if IS_DBCSLEAD (hd0 s) then drop 2 s else tl s)"
    using assms s by (cases r) (auto simp: dbcs_next_def)
  show "dbcs_next (dbcs_lower s) = dbcs_lower (dbcs_next s)"
    using assms s by (cases "IS_DBCSLEAD c"; cases r) (auto simp: dbcs_next_def dbcs_lower_simps)
qed

lemma mbs_find_suffix: "mbs_find ptr s = Some r \<Longrightarrow> length r \<le> length s"
proof (induction ptr s rule: mbs_find.induct)
  case (1 ptr s)
  show ?case
  proof (cases "take (length ptr) s = ptr \<or> s = []")
    case True
    then show ?thesis using 1(2) by (subst (asm) mbs_find.simps) (auto split: if_splits)
  next
    case False
    then show ?thesis using 1 mbs_find_step [of ptr s] length_dbcs_next [of s] by fastforce
  qed
qed

lemma mbs_find_short: "length s < length ptr \<Longrightarrow> mbs_find ptr s = None"
  by (rule mbs_find_None) (metis drop_drop leD length_drop length_take min.cobounded1 diff_le_self le_trans min.cobounded2)

lemma strcasestr_loop_find:
  "complete_from False ptr \<Longrightarrow> 0 \<notin> set s \<Longrightarrow>
     strcasestr_loop s ptr =
       map_option (\<lambda>r. drop (length s - length r) s) (mbs_find (dbcs_lower ptr) (dbcs_lower s))"
proof (induction s ptr rule: strcasestr_loop.induct)
  case (1 s ptr)
  show ?case
  proof (cases "length ptr \<le> length s")
    case False
    then show ?thesis using mbs_find_short [of "dbcs_lower s" "dbcs_lower ptr"]
      by (subst strcasestr_loop.simps) simp
  next
    case len: True
    note m = case_match_lower [OF 1(3) len]
    show ?thesis
    proof (cases "case_match s ptr")
      case True
      then show ?thesis using m len by (subst strcasestr_loop.simps, subst mbs_find.simps) simp
    next
      case False
      then have s: "s \<noteq> []" using len by (auto simp: case_match.simps)
      then have ls: "dbcs_lower s \<noteq> []" by (metis length_0_conv length_dbcs_lower)
      let ?n = "dbcs_next s"
      have n: "?n = drop (length s - length ?n) s" using dbcs_next_drop s by blast
      have z: "0 \<notin> set ?n" using 1(4) n by (metis in_set_dropD)
      have "strcasestr_loop s ptr = strcasestr_loop ?n ptr"
        using len False dbcs_lower_next(2) [OF s 1(4)] by (subst strcasestr_loop.simps) simp
      also have "\<dots> = map_option (\<lambda>r. drop (length ?n - length r) ?n) (mbs_find (dbcs_lower ptr) (dbcs_lower ?n))"
        using 1(1) [OF len False] 1(2) [OF len False] 1(3) z dbcs_lower_next(2) [OF s 1(4)]
        by (cases "IS_DBCSLEAD (hd0 s)") simp_all
      also have "\<dots> = map_option (\<lambda>r. drop (length s - length r) s) (mbs_find (dbcs_lower ptr) (dbcs_lower ?n))"
      proof (cases "mbs_find (dbcs_lower ptr) (dbcs_lower ?n)")
        case (Some r)
        then have "length r \<le> length ?n" using mbs_find_suffix by fastforce
        moreover have "length ?n \<le> length s" using length_dbcs_next [OF s] by simp
        ultimately have "drop (length ?n - length r) ?n = drop (length s - length r) s"
          by (subst n) (simp add: drop_drop)
        then show ?thesis using Some by simp
      qed simp
      also have "mbs_find (dbcs_lower ptr) (dbcs_lower ?n) = mbs_find (dbcs_lower ptr) (dbcs_lower s)"
        using mbs_find_step [of "dbcs_lower ptr" "dbcs_lower s"] m False ls dbcs_lower_next(1) [OF s 1(4)] by simp
      finally show ?thesis .
    qed
  qed
qed

section \<open>Lemmas on cleaning\<close>

text \<open>The loop of \<open>mbs_sanitize\<close> with the context reduced to a pending lead byte.\<close>

fun sanitize_from :: "byte option \<Rightarrow> cstr \<Rightarrow> cstr" where
  "sanitize_from st [] = []"
| "sanitize_from None (c # s) =
     (if 32 \<le> c \<and> c < 127 then c # sanitize_from None s
      else if big5_is_valid_lead c then sanitize_from (Some c) s
      else sanitize_from None s)"
| "sanitize_from (Some l) (c # s) =
     (if big5_is_valid_trail c then l # c # sanitize_from None s
      else if 32 \<le> c \<and> c < 127 then c # sanitize_from None s
      else sanitize_from None s)"

fun ctx_pending :: "byte option \<Rightarrow> big5_ctx \<Rightarrow> bool" where
  "ctx_pending None ctx \<longleftrightarrow> b_need ctx = 0 \<and> b_got ctx = 0 \<and> length (b_buf ctx) = 3"
| "ctx_pending (Some l) ctx \<longleftrightarrow> b_need ctx = 2 \<and> b_got ctx = 1 \<and> length (b_buf ctx) = 3 \<and> b_buf ctx ! 0 = l"

lemmas big5_unfold = big5_add_byte_def big5_init_def big5_is_ready_def big5_error_def
  big5_pending_def big5_is_error_def Let_def

lemma big5_lead_iff: "big5_is_valid_lead c \<longleftrightarrow> 0x80 \<le> c \<and> c \<noteq> 0x80 \<and> c \<noteq> 0xFF"
  using uint_byte_bounds [of c] by (auto simp: big5_is_valid_lead_def word_le_def word_uint_eq_iff)

lemma ge_0x80_not_print: "0x80 \<le> (c :: byte) \<Longrightarrow> \<not> c < 0x80 \<and> \<not> c < 127"
  by (auto simp: word_le_def word_less_def)

lemma take_2_list3: "length xs = 3 \<Longrightarrow> take 2 (xs[Suc 0 := c]) = [xs ! 0, c]"
  by (auto simp: length_Suc_conv eval_nat_numeral)

lemma sanitize_step_None:
  assumes "ctx_pending None ctx"
  shows "\<exists>ctx'. mbs_sanitize_step ctx c = Some (ctx', if 32 \<le> c \<and> c < 127 then [c] else []) \<and>
    ctx_pending (if \<not> (32 \<le> c \<and> c < 127) \<and> big5_is_valid_lead c then Some c else None) ctx'"
  using assms ge_0x80_not_print [of c] big5_lead_iff [of c] unfolding mbs_sanitize_step_def
  by (cases "32 \<le> c \<and> c < 127"; cases "0x80 \<le> c"; cases "c = 0x80 \<or> c = 0xFF")
    (auto simp: big5_unfold)

lemma sanitize_step_Some:
  assumes "ctx_pending (Some l) ctx"
  shows "\<exists>ctx'. mbs_sanitize_step ctx c = Some (ctx', if big5_is_valid_trail c then [l, c]
      else if 32 \<le> c \<and> c < 127 then [c] else []) \<and> ctx_pending None ctx'"
proof -
  have tr: "big5_is_valid_trail c \<longleftrightarrow> \<not> (c < 0x40 \<or> c = 0xFF)" by (auto simp: big5_is_valid_trail_def)
  show ?thesis
  proof (cases "big5_is_valid_trail c")
    case True
    then show ?thesis using assms tr unfolding mbs_sanitize_step_def
      by (simp add: big5_unfold take_2_list3)
  next
    case False
    then have "0x80 \<le> c \<Longrightarrow> c = 0xFF" unfolding tr by (auto simp: word_le_def word_less_def)
    then show ?thesis using assms tr False ge_0x80_not_print [of c] unfolding mbs_sanitize_step_def
      by (cases "32 \<le> c \<and> c < 127"; cases "0x80 \<le> c") (auto simp: big5_unfold)
  qed
qed

lemma sanitize_run:
  "ctx_pending st ctx \<Longrightarrow> \<exists>ctx'. run_machine mbs_sanitize_step ctx s = Some (ctx', sanitize_from st s)"
proof (induction st s arbitrary: ctx rule: sanitize_from.induct)
  case (2 c s)
  obtain ctx' where "mbs_sanitize_step ctx c = Some (ctx', if 32 \<le> c \<and> c < 127 then [c] else [])"
    "ctx_pending (if \<not> (32 \<le> c \<and> c < 127) \<and> big5_is_valid_lead c then Some c else None) ctx'"
    using sanitize_step_None [OF 2(4), of c] by blast
  then show ?case using 2(1) [of ctx'] 2(2) [of ctx'] 2(3) [of ctx']
    by (cases "32 \<le> c \<and> c < 127"; cases "big5_is_valid_lead c") auto
next
  case (3 l c s)
  obtain ctx' where "mbs_sanitize_step ctx c = Some (ctx', if big5_is_valid_trail c then [l, c]
      else if 32 \<le> c \<and> c < 127 then [c] else [])" "ctx_pending None ctx'"
    using sanitize_step_Some [OF 3(4), of c] by blast
  then show ?case using 3(1) [of ctx'] 3(2) [of ctx'] 3(3) [of ctx']
    by (cases "big5_is_valid_trail c"; cases "32 \<le> c \<and> c < 127") auto
qed simp

lemma mbs_sanitize_from: "mbs_sanitize s n = sanitize_from None (take n s)"
proof -
  have "ctx_pending None big5_fresh" by (simp add: big5_fresh_def big5_init_def)
  from sanitize_run [OF this, of "take n s"] show ?thesis by (auto simp: mbs_sanitize_def)
qed

lemma lead_not_print: "big5_is_valid_lead c \<Longrightarrow> c < 127 \<Longrightarrow> False"
  using ge_0x80_not_print [of c] by (simp add: big5_lead_iff)

lemma clean_Cons:
  "32 \<le> c \<and> c < 127 \<Longrightarrow> clean (c # s) = clean s"
  "big5_is_valid_lead c \<Longrightarrow> big5_is_valid_trail d \<Longrightarrow> clean s \<Longrightarrow> clean (c # d # s)"
proof -
  show "32 \<le> c \<and> c < 127 \<Longrightarrow> clean (c # s) = clean s" by (cases s) auto
  assume *: "big5_is_valid_lead c" "big5_is_valid_trail d" "clean s"
  then have "\<not> (32 \<le> c \<and> c < 127)" using ge_0x80_not_print [of c] by (simp add: big5_lead_iff)
  then show "clean (c # d # s)" using * unfolding clean.simps(3) if_not_P [OF \<open>\<not> (32 \<le> c \<and> c < 127)\<close>] by simp
qed

lemma sanitize_from_clean:
  "(case st of None \<Rightarrow> True | Some l \<Rightarrow> big5_is_valid_lead l) \<Longrightarrow> clean (sanitize_from st s)"
  by (induction st s rule: sanitize_from.induct) (auto simp: clean_Cons simp del: clean.simps(3) dest: lead_not_print)

lemma sanitize_from_id: "clean s \<Longrightarrow> sanitize_from None s = s"
  by (induction s rule: clean.induct) (auto split: if_splits)

lemma sanitize_from_length:
  "length (sanitize_from st s) \<le> length s + (case st of None \<Rightarrow> 0 | Some _ \<Rightarrow> 1)"
  by (induction st s rule: sanitize_from.induct) auto

section \<open>Lemmas on comparing\<close>

lemma strncasecmp_0_iff:
  "0 \<notin> set s1 \<Longrightarrow> 0 \<notin> set s2 \<Longrightarrow> n \<le> length s1 + 1 \<Longrightarrow> n \<le> length s2 + 1 \<Longrightarrow>
     strncasecmp s1 s2 n = 0 \<longleftrightarrow> map to_lower (take n s1) = map to_lower (take n s2)"
proof (induction s1 s2 n rule: strncasecmp.induct)
  case (2 s1 s2 n)
  have "uint (to_lower a) - uint (to_lower b) = 0 \<longleftrightarrow> to_lower a = to_lower b" for a b
    by (simp add: word_uint_eq_iff)
  moreover have "uint (to_lower a) = 0 \<longleftrightarrow> a = 0" for a by (simp add: uint_0_iff)
  ultimately show ?case using 2 by (cases s1; cases s2) auto
qed simp

lemma strncasecmp_loop_iff:
  "map to_lower (take n s1) = map to_lower (take n s2) \<Longrightarrow> n \<le> length s1 + 1 \<Longrightarrow> n \<le> length s2 + 1 \<Longrightarrow>
     \<exists>r. strncasecmp_loop (s1 @ [0]) (s2 @ [0]) n st st' = Some r \<and>
       (r = 0 \<longleftrightarrow> lower_from (st = MB_LEADING) (take n s1) = lower_from (st = MB_LEADING) (take n s2))"
proof (induction n arbitrary: s1 s2 st st')
  case (Suc n)
  show ?case
  proof (cases "s1 = [] \<or> s2 = []")
    case True
    then have "s1 = [] \<and> s2 = []" using Suc.prems(1) by auto
    then show ?thesis using Suc.prems(2) by simp
  next
    case False
    then obtain c1 r1 c2 r2 where s: "s1 = c1 # r1" "s2 = c2 # r2" by (meson neq_Nil_conv)
    have l: "to_lower c1 = to_lower c2" using Suc.prems(1) s by simp
    then have lead: "IS_DBCSLEAD c1 = IS_DBCSLEAD c2" by (metis lead_to_lower)
    have eq: "IS_DBCSLEAD c1 \<Longrightarrow> c1 = c2" using l lead to_lower_lead by metis
    let ?st = "big5_next_status c1 st"
    have st: "?st = MB_LEADING \<longleftrightarrow> st \<noteq> MB_LEADING \<and> IS_DBCSLEAD c1"
      "?st \<noteq> MB_ASCII \<longleftrightarrow> st = MB_LEADING \<or> IS_DBCSLEAD c1"
      by (auto simp: big5_next_status_def IS_DBCSLEAD_def)
    obtain r where r: "strncasecmp_loop (r1 @ [0]) (r2 @ [0]) n ?st (big5_next_status c2 st') = Some r"
      "r = 0 \<longleftrightarrow> lower_from (?st = MB_LEADING) (take n r1) = lower_from (?st = MB_LEADING) (take n r2)"
      using Suc.IH [of r1 r2 ?st] Suc.prems s by auto
    show ?thesis
    proof (cases "st = MB_LEADING \<and> c1 \<noteq> c2")
      case True
      then have "uint c1 - uint c2 \<noteq> 0" by (simp add: word_uint_eq_iff)
      then show ?thesis using True s st(2) by (simp add: Let_def)
    next
      case False
      then have "\<not> (?st \<noteq> MB_ASCII \<and> c1 \<noteq> c2)" using st(2) eq by auto
      then have "strncasecmp_loop (s1 @ [0]) (s2 @ [0]) (Suc n) st st' = Some r" using r(1) s by (auto simp: Let_def)
      moreover have "r = 0 \<longleftrightarrow> lower_from (st = MB_LEADING) (take (Suc n) s1) = lower_from (st = MB_LEADING) (take (Suc n) s2)"
      proof -
        have u: "lower_from b (take (Suc n) (c # x)) =
            (if \<not> b \<and> \<not> IS_DBCSLEAD c then to_lower c else c) # lower_from (\<not> b \<and> IS_DBCSLEAD c) (take n x)" for b c x
          by simp
        have "(if \<not> st = MB_LEADING \<and> \<not> IS_DBCSLEAD c1 then to_lower c1 else c1) =
            (if \<not> st = MB_LEADING \<and> \<not> IS_DBCSLEAD c2 then to_lower c2 else c2)"
          using False l lead eq by metis
        then show ?thesis unfolding r(2) st(1) s u lead by blast
      qed
      ultimately show ?thesis by blast
    qed
  qed
qed simp

lemma strncasecmp_refl: "strncasecmp s s n = 0"
  by (induction n arbitrary: s) simp_all

lemma strncasecmp_loop_refl:
  "strncasecmp_loop xs xs n st st' = (if length xs < n then None else Some 0)"
  by (induction xs arbitrary: n st st') (case_tac n; simp add: Let_def)+

lemma takeWhile_replicate_append:
  "P x \<Longrightarrow> takeWhile P b = [] \<Longrightarrow> takeWhile P (replicate n x @ b) = replicate n x"
  by (induction n) simp_all

lemma invalid_pname_unfold:
  "p \<noteq> [] \<Longrightarrow> invalid_pname p =
     (takeWhile (\<lambda>c. c \<noteq> 47) p = [] \<or>
      length (takeWhile (\<lambda>c. c = 46) p) = length (takeWhile (\<lambda>c. c \<noteq> 47) p) \<or>
      (\<exists>c \<in> set (takeWhile (\<lambda>c. c \<noteq> 47) p). \<not> pname_char c) \<or>
      invalid_pname (tl (dropWhile (\<lambda>c. c \<noteq> 47) p)))"
proof -
  let ?seg = "takeWhile (\<lambda>c. c \<noteq> 47) p"
  assume "p \<noteq> []"
  then show ?thesis
    by (subst invalid_pname.simps, cases "?seg = [] \<or> length (takeWhile (\<lambda>c. c = 46) p) = length ?seg";
        cases "\<exists>c \<in> set ?seg. \<not> pname_char c") (simp_all only: Let_def if_False if_True simp_thms, blast+)
qed

section \<open>Properties\<close>

text \<open>C24.
  \<open>mbs_strstr\<close>, which jumps from one raw match to the next and rejects those inside a
  double-byte character, returns the text from the first character on at which
  the needle matches, and fails exactly if it matches at no character.  The characters
  are those of \<open>b5_chars\<close>: a byte from 128 on takes the byte after it with it.
\<close>

theorem mbs_strstr_first:
  "(mbs_strstr pool ptr = Some r \<longleftrightarrow>
     (\<exists>k \<le> length (b5_chars pool).
        r = concat (drop k (b5_chars pool)) \<and> begins ptr (drop k (b5_chars pool)) \<and>
        (\<forall>j < k. \<not> begins ptr (drop j (b5_chars pool))))) \<and>
   (mbs_strstr pool ptr = None \<longleftrightarrow> (\<forall>k. \<not> begins ptr (drop k (b5_chars pool)))) \<and>
   concat (b5_chars pool) = pool"
  unfolding mbs_strstr_find using mbs_find_chars by blast

text \<open>The second byte of the first character is an A as well, and is passed over.\<close>

theorem mbs_strstr_first_witness:
  "mbs_strstr [0xA4, 65, 65, 66] [65] = Some [65, 66] \<and> mbs_strstr [0xA4, 65, 66] [65] = None"
proof
  have "begins [65] (drop 1 (b5_chars [0xA4, 65, 65, 66]))" "\<not> begins [65] (drop 0 (b5_chars [0xA4, 65, 65, 66]))"
    by (simp_all add: begins_take)
  then show "mbs_strstr [0xA4, 65, 65, 66] [65] = Some [65, 66]"
    using mbs_strstr_first [of "[0xA4, 65, 65, 66]" "[65]" "[65, 66]"] by fastforce
  have "\<not> begins [65] (drop k (b5_chars [0xA4, 65, 66]))" for k
    by (cases k; cases "k - 1") (simp_all add: begins_take)
  then show "mbs_strstr [0xA4, 65, 66] [65] = None"
    using mbs_strstr_first [of "[0xA4, 65, 66]" "[65]"] by blast
qed

text \<open>
  \<open>mbs_strcasestr\<close> with a needle that does not end inside a character is
  \<open>mbs_strstr\<close> on the strings in lower case, where only single-byte letters are
  lowered; it returns the corresponding position of the original string.
\<close>

lemma mbs_strcasestr_lower:
  assumes "complete_from False ptr" "0 \<notin> set pool"
  shows "mbs_strcasestr pool ptr =
    map_option (\<lambda>r. drop (length pool - length r) pool) (mbs_strstr (dbcs_lower pool) (dbcs_lower ptr))"
  unfolding mbs_strcasestr_def strcasestr_loop_find [OF assms] mbs_strstr_find ..

text \<open>C30.
  \<open>mbs_sanitize\<close> leaves only printable ASCII and whole Big5 characters, within
  \<open>maxlen\<close>; it is idempotent and changes a string exactly when it is not clean.
\<close>

theorem mbs_sanitize_clean:
  "clean (mbs_sanitize s n) \<and> length (mbs_sanitize s n) \<le> min n (length s) \<and>
   mbs_sanitize (mbs_sanitize s n) n = mbs_sanitize s n \<and>
   (mbs_sanitize s n = take n s) = clean (take n s)"
proof -
  let ?r = "mbs_sanitize s n"
  have c: "clean ?r" unfolding mbs_sanitize_from by (rule sanitize_from_clean) simp
  moreover have l: "length ?r \<le> min n (length s)"
    using sanitize_from_length [of None "take n s"] unfolding mbs_sanitize_from by (simp add: min.commute)
  moreover have "mbs_sanitize ?r n = ?r"
    using c l sanitize_from_id [of ?r] mbs_sanitize_from [of ?r n] by simp
  moreover have "(?r = take n s) = clean (take n s)"
    using c sanitize_from_id [of "take n s"] mbs_sanitize_from [of s n] by metis
  ultimately show ?thesis by simp
qed

text \<open>
  Within the two strings \<open>mbs_strncasecmp\<close> is 0 exactly on strings that are
  equal up to the case of their single-byte letters; it then hashes such strings equally.
\<close>

lemma mbs_strncasecmp_equal:
  assumes "0 \<notin> set s1" "0 \<notin> set s2" "n \<le> length s1 + 1" "n \<le> length s2 + 1"
  shows "(mbs_strncasecmp s1 s2 n = Some 0 \<longleftrightarrow> dbcs_lower (take n s1) = dbcs_lower (take n s2)) \<and>
    (dbcs_lower s1 = dbcs_lower s2 \<longrightarrow> mbs_strcasehash s1 = mbs_strcasehash s2)"
proof
  show "dbcs_lower s1 = dbcs_lower s2 \<longrightarrow> mbs_strcasehash s1 = mbs_strcasehash s2"
    using hash_lower_from [of False s1 s2] by (simp add: mbs_strcasehash_def dbcs_lower_def)
  show "mbs_strncasecmp s1 s2 n = Some 0 \<longleftrightarrow> dbcs_lower (take n s1) = dbcs_lower (take n s2)"
  proof (cases "strncasecmp s1 s2 n = 0")
    case True
    then have "map to_lower (take n s1) = map to_lower (take n s2)" using strncasecmp_0_iff assms by blast
    from strncasecmp_loop_iff [OF this assms(3,4), of MB_ASCII MB_ASCII] show ?thesis
      using True by (auto simp: mbs_strncasecmp_def dbcs_lower_def)
  next
    case False
    then have "map to_lower (take n s1) \<noteq> map to_lower (take n s2)" using strncasecmp_0_iff assms by blast
    then show ?thesis
      using False lower_from_eq_lower [of False "take n s1" "take n s2"]
      by (auto simp: mbs_strncasecmp_def dbcs_lower_def)
  qed
qed

text \<open>
  On two equal strings \<open>mbs_strncasecmp\<close> reads past their NUL as soon as
  \<open>len\<close> exceeds their size with the NUL: its second loop does not stop at the NUL.
\<close>

lemma mbs_strncasecmp_overrun: "mbs_strncasecmp s s len = None \<longleftrightarrow> length s + 1 < len"
  by (simp add: mbs_strncasecmp_def strncasecmp_refl strncasecmp_loop_refl)

text \<open>C31.
  A path that \<open>invalid_pname\<close> accepts does not start with a slash, holds only slashes
  and the allowed characters, and no component of it is empty or made of dots
  (so it cannot leave its directory); only a slash at the very end is let through.
\<close>

theorem invalid_pname_safe:
  assumes "\<not> invalid_pname s"
  shows "hd0 s \<noteq> 47 \<and> (\<forall>c \<in> set s. c = 47 \<or> pname_char c) \<and>
    \<not> (\<exists>a b n. s = a @ replicate n 46 @ b \<and> (a = [] \<or> last a = 47) \<and>
        (if b = [] then n > 0 else hd b = 47))"
  using assms
proof (induction s rule: invalid_pname.induct)
  case (1 p)
  let ?seg = "takeWhile (\<lambda>c. c \<noteq> 47) p" and ?p2 = "dropWhile (\<lambda>c. c \<noteq> 47) p"
  show ?case
  proof (cases "p = []")
    case False
    then have seg: "?seg \<noteq> []" "length (takeWhile (\<lambda>c. c = 46) p) \<noteq> length ?seg"
      "\<forall>c \<in> set ?seg. pname_char c" "\<not> invalid_pname (tl ?p2)"
      using invalid_pname_unfold [OF False] "1.prems" by blast+
    have "\<not> (\<exists>c \<in> set ?seg. \<not> pname_char c)" "\<not> (?seg = [] \<or> length (takeWhile (\<lambda>c. c = 46) p) = length ?seg)"
      using seg(1-3) by blast+
    note IH = "1.IH" [OF False refl refl this(2,1) seg(4)]
    have p: "p = ?seg @ ?p2" by simp
    have h: "hd0 p \<noteq> 47" using seg(1) by (cases p) auto
    have "c = 47 \<or> pname_char c" if "c \<in> set p" for c
    proof -
      have "c \<in> set ?seg \<or> c \<in> set ?p2" using that p by (metis Un_iff set_append)
      moreover have "c = hd ?p2 \<or> c \<in> set (tl ?p2)" if "c \<in> set ?p2"
        using that by (cases ?p2) auto
      moreover have "?p2 \<noteq> [] \<Longrightarrow> hd ?p2 = 47" using hd_dropWhile [of "\<lambda>c. c \<noteq> 47" p] by blast
      moreover have "c \<in> set ?p2 \<Longrightarrow> ?p2 \<noteq> []" by force
      ultimately show ?thesis using seg(3) IH by blast
    qed
    moreover have False if "p = a @ replicate n 46 @ b" "a = [] \<or> last a = 47"
      "if b = [] then n > 0 else hd b = 47" for a b n
    proof (cases a)
      case Nil
      have "takeWhile (\<lambda>c. c = 46) b = []" "takeWhile (\<lambda>c. c \<noteq> 47) b = []"
        using that(3) by (cases b; simp)+
      then have "takeWhile (\<lambda>c. c = 46) p = replicate n 46" "?seg = replicate n 46"
        using Nil that(1) by (simp_all add: takeWhile_replicate_append)
      then show False using seg(2) by simp
    next
      case (Cons x xs)
      then have "47 \<in> set a" using that(2) by (metis last_in_set list.distinct(1))
      then obtain u v where uv: "a = u @ 47 # v" "47 \<notin> set u" by (metis split_list_first)
      then have "dropWhile (\<lambda>c. c \<noteq> 47) (u @ (47 # v @ replicate n 46 @ b)) = 47 # v @ replicate n 46 @ b"
        by (subst dropWhile_append2) auto
      then have "tl ?p2 = v @ replicate n 46 @ b" using that(1) uv by simp
      moreover have "v = [] \<or> last v = 47" using that(2) uv by (auto split: if_splits)
      ultimately show False using IH that(3) by blast
    qed
    ultimately show ?thesis using h by blast
  qed auto
qed

theorem invalid_pname_safe_witness:
  "hd0 [97, 47, 46, 98] \<noteq> 47 \<and> list_all (\<lambda>c. c = 47 \<or> pname_char c) [97, 47, 46, 98] \<and>
    \<not> (\<exists>a b n. [97, 47, 46, 98 :: byte] = a @ replicate n 46 @ b \<and> (a = [] \<or> last a = 47) \<and>
        (if b = [] then n > 0 else hd b = 47))"
proof -
  have "\<not> invalid_pname [97, 47, 46, 98]"
    by (simp add: invalid_pname.simps Let_def pname_char_def is_alnum_def is_alpha_def is_lower_def)
  from invalid_pname_safe [OF this] show ?thesis unfolding list_all_iff .
qed

end
