(* ===== verification/Numerals.thy ===== *)
theory Numerals
  imports Clib
begin

text \<open>
  Numbers as text: \<open>strtoul\<close> in bases 10 and 16 with its blanks, sign, prefix and
  clamping to 64 bits, and the conversions \<open>%u\<close>, \<open>%d\<close> and \<open>%03X\<close> of \<open>printf\<close>.  The
  lemmas show that parsing inverts printing whatever follows the number.
\<close>

section \<open>Digits\<close>

definition digit_val :: "byte \<Rightarrow> nat" where
  "digit_val c =
     (if is_digit c then unat c - 48
      else if is_lower c then unat c - 87
      else if is_upper c then unat c - 55
      else 255)"

definition digit_chr :: "nat \<Rightarrow> byte" where
  "digit_chr d = (if d < 10 then 48 + word_of_nat d else 55 + word_of_nat d)"

fun digits_of :: "nat \<Rightarrow> nat \<Rightarrow> cstr" where
  "digits_of base n =
     (if base < 2 \<or> n < base then [digit_chr n] else digits_of base (n div base) @ [digit_chr (n mod base)])"

declare digits_of.simps [simp del]

definition strtoul :: "nat \<Rightarrow> cstr \<Rightarrow> u64" where
  "strtoul base s =
     (let s1 = dropWhile is_space s;
          s2 = (if hd0 s1 = 45 \<or> hd0 s1 = 43 then tl s1 else s1);
          s3 = (if base = 16 \<and> hd0 s2 = 48 \<and> (nth0 s2 1 = 120 \<or> nth0 s2 1 = 88) \<and> digit_val (nth0 s2 2) < 16
                then drop 2 s2 else s2);
          v = foldl (\<lambda>a c. a * base + digit_val c) 0 (takeWhile (\<lambda>c. digit_val c < base) s3) in
      if v \<ge> 2 ^ 64 then - 1
      else if hd0 s1 = 45 then - word_of_nat v
      else word_of_nat v)"

text \<open>The conversions of \<open>printf\<close>: \<open>%u\<close> of a 32-bit value, \<open>%d\<close> of the same bits, and \<open>%03X\<close>.\<close>

definition fmt_u :: "u32 \<Rightarrow> cstr" where "fmt_u w = digits_of 10 (unat w)"

definition fmt_d :: "u32 \<Rightarrow> cstr" where
  "fmt_d w = (if sint w < 0 then 45 # digits_of 10 (nat (- sint w)) else digits_of 10 (nat (sint w)))"

definition fmt_X :: "nat \<Rightarrow> cstr" where "fmt_X n = digits_of 16 n"

definition fmt_03X :: "nat \<Rightarrow> cstr" where
  "fmt_03X n = (let ds = digits_of 16 n in replicate (3 - length ds) 48 @ ds)"

section \<open>Lemmas\<close>

lemma digit_chr_table:
  "list_all (\<lambda>d. digit_val (digit_chr d) = d \<and> \<not> is_space (digit_chr d) \<and>
     digit_chr d \<noteq> 45 \<and> digit_chr d \<noteq> 43 \<and> digit_chr d \<noteq> 120 \<and> digit_chr d \<noteq> 88 \<and>
     digit_chr d \<noteq> 46 \<and> digit_chr d \<noteq> 0) [0..<16]"
  by code_simp

lemma digit_chr_val:
  assumes "d < 16"
  shows "digit_val (digit_chr d) = d" "\<not> is_space (digit_chr d)"
    "digit_chr d \<noteq> 45" "digit_chr d \<noteq> 43" "digit_chr d \<noteq> 120" "digit_chr d \<noteq> 88" "digit_chr d \<noteq> 46"
    "digit_chr d \<noteq> 0"
  using digit_chr_table assms by (simp_all add: list_all_iff)

lemma digits_of_digits: "2 \<le> base \<Longrightarrow> base \<le> 16 \<Longrightarrow> c \<in> set (digits_of base n) \<Longrightarrow> \<exists>d < base. c = digit_chr d"
proof (induction base n rule: digits_of.induct)
  case (1 base n)
  show ?case
  proof (cases "n < base")
    case True
    then show ?thesis using 1(4) by (subst (asm) digits_of.simps) auto
  next
    case False
    then have "c \<in> set (digits_of base (n div base)) \<or> c = digit_chr (n mod base)"
      using 1(2,4) by (subst (asm) digits_of.simps) auto
    then show ?thesis
    proof
      assume "c \<in> set (digits_of base (n div base))"
      moreover have "\<not> (base < 2 \<or> n < base)" using 1(2) False by simp
      ultimately show ?thesis using "1.IH" 1(2,3) by (simp only: simp_thms)
    next
      assume "c = digit_chr (n mod base)"
      then show ?thesis using 1(2) by (intro exI [of _ "n mod base"]) simp
    qed
  qed
qed

lemma digits_of_ne [simp]: "digits_of base n \<noteq> []"
  by (subst digits_of.simps) auto

lemma digits_of_value:
  "2 \<le> base \<Longrightarrow> base \<le> 16 \<Longrightarrow> foldl (\<lambda>a c. a * base + digit_val c) 0 (digits_of base n) = n"
proof (induction base n rule: digits_of.induct)
  case (1 base n)
  show ?case
  proof (cases "n < base")
    case True
    then show ?thesis using 1(2,3) by (subst digits_of.simps) (simp add: digit_chr_val)
  next
    case False
    moreover have "digit_val (digit_chr (n mod base)) = n mod base"
      using 1(2,3) less_le_trans [of "n mod base" base 16] by (intro digit_chr_val) simp
    ultimately show ?thesis using 1 by (subst digits_of.simps) simp
  qed
qed

lemma foldl_zeros: "foldl (\<lambda>a c. a * base + digit_val c) 0 (replicate k 48) = 0"
  by (induction k) (simp_all add: digit_val_def is_digit_def)

lemma dropWhile_hd0: "\<not> P (hd0 s) \<Longrightarrow> dropWhile P s = s"
  by (cases s) auto

text \<open>Parsing digits and a rest that starts with no digit.\<close>

lemma strtoul_run:
  assumes base: "base = 10 \<or> base = 16" and ne: "ds \<noteq> []"
    and ds: "\<And>c. c \<in> set ds \<Longrightarrow> \<exists>d < base. c = digit_chr d"
    and rest: "digit_val (hd0 rest) \<ge> base" "hd0 rest \<noteq> 120" "hd0 rest \<noteq> 88"
    and v: "foldl (\<lambda>a c. a * base + digit_val c) 0 ds = n" "n < 2 ^ 64"
  shows "strtoul base (ds @ rest) = word_of_nat n"
proof -
  let ?s = "ds @ rest"
  have sp: "\<not> is_space c" "c \<noteq> 45" "c \<noteq> 43" "c \<noteq> 120" "c \<noteq> 88" "digit_val c < base" if "c \<in> set ds" for c
    using ds [OF that] base digit_chr_val by force+
  have hd: "hd0 ?s = hd ds" "hd ds \<in> set ds" using ne by (cases ds; simp)+
  have s1: "dropWhile is_space ?s = ?s"
    using sp(1) [OF hd(2)] unfolding hd(1) [symmetric] by (rule dropWhile_hd0)
  have "nth0 ?s 1 \<noteq> 120 \<and> nth0 ?s 1 \<noteq> 88"
  proof (cases "length ds \<ge> 2")
    case True
    then have "nth0 ?s 1 = ds ! 1" "ds ! 1 \<in> set ds" by (auto simp: nth0_def nth_append)
    then show ?thesis using sp by metis
  next
    case False
    then obtain c where "ds = [c]" using ne by (cases ds) (auto simp: Suc_le_eq)
    then show ?thesis using rest(2,3) nth0_hd0 [of rest] by simp
  qed
  then have nx: "(nth0 ?s 1 = 120 \<or> nth0 ?s 1 = 88) = False" by simp
  have "takeWhile (\<lambda>c. digit_val c < base) rest = []" using rest(1) by (cases rest) auto
  then have tw: "takeWhile (\<lambda>c. digit_val c < base) ?s = ds" using sp(6) by (simp add: takeWhile_append2)
  have sg: "hd0 ?s \<noteq> 45" "hd0 ?s \<noteq> 43" using hd sp by metis+
  show ?thesis using v(2) by (simp only: strtoul_def Let_def s1 sg simp_thms if_False nx tw v(1)) simp
qed

lemma strtoul_digits:
  assumes "base = 10 \<or> base = 16" "n < 2 ^ 64" "digit_val (hd0 rest) \<ge> base" "hd0 rest \<noteq> 120" "hd0 rest \<noteq> 88"
  shows "strtoul base (replicate k 48 @ digits_of base n @ rest) = word_of_nat n"
proof -
  have b: "2 \<le> base" "base \<le> 16" using assms(1) by auto
  have z: "48 = digit_chr 0" by (simp add: digit_chr_def)
  have "\<exists>d < base. c = digit_chr d" if "c \<in> set (replicate k 48 @ digits_of base n)" for c
  proof (cases "c = 48")
    case True
    then show ?thesis using z b by (metis not_numeral_le_zero gr0I le_zero_eq)
  next
    case False
    then show ?thesis using that digits_of_digits [OF b] by auto
  qed
  moreover have "foldl (\<lambda>a c. a * base + digit_val c) 0 (replicate k 48 @ digits_of base n) = n"
    by (simp add: foldl_zeros digits_of_value b)
  ultimately show ?thesis
    using strtoul_run [of base "replicate k 48 @ digits_of base n" rest n] assms by simp
qed

text \<open>Lengths and characters of printed numbers.\<close>

lemma digits_of_length: "2 \<le> base \<Longrightarrow> n < base ^ Suc k \<Longrightarrow> length (digits_of base n) \<le> Suc k"
proof (induction k arbitrary: n)
  case 0
  then show ?case by (subst digits_of.simps) simp
next
  case (Suc k)
  then have "n div base < base ^ Suc k" by (simp add: less_mult_imp_div_less mult.commute)
  then have "length (digits_of base (n div base)) \<le> Suc k" using Suc by blast
  then show ?case by (subst digits_of.simps) simp
qed

lemma fmt_03X_length: "n < 4096 \<Longrightarrow> length (fmt_03X n) = 3"
  using digits_of_length [of 16 n 2] by (simp add: fmt_03X_def Let_def)

lemma fmt_03X_value: "n < 4096 \<Longrightarrow> strtoul 16 (fmt_03X n) = word_of_nat n"
  using strtoul_digits [of 16 n "[]" "3 - length (digits_of 16 n)"]
  by (simp add: fmt_03X_def Let_def digit_val_def is_digit_def is_lower_def is_upper_def)

lemma fmt_u_value:
  assumes "digit_val (hd0 rest) \<ge> 10" "hd0 rest \<noteq> 120" "hd0 rest \<noteq> 88"
  shows "ucast (strtoul 10 (fmt_u w @ rest)) = w"
proof -
  have "unat w < 2 ^ 64" using unsigned_less [of w, where ?'a = nat] by simp
  then have "strtoul 10 (fmt_u w @ rest) = word_of_nat (unat w)"
    using strtoul_digits [of 10 "unat w" rest 0] assms by (simp add: fmt_u_def)
  then show ?thesis by (auto intro!: bit_word_eqI simp: bit_simps)
qed

lemma fmt_u_length: "length (fmt_u w) \<le> 10"
proof -
  have "unat w < 10 ^ Suc 9" using unsigned_less [of w, where ?'a = nat] by simp
  then show ?thesis using digits_of_length [of 10 "unat w" 9] by (simp add: fmt_u_def)
qed

lemma fmt_u_chars: "c \<in> set (fmt_u w) \<Longrightarrow> c \<noteq> 46 \<and> c \<noteq> 65 \<and> c \<noteq> 0"
proof -
  assume "c \<in> set (fmt_u w)"
  then obtain d where "d < 10" "c = digit_chr d" using digits_of_digits [of 10 c "unat w"] by (auto simp: fmt_u_def)
  then show ?thesis using digit_chr_val [of d] by (auto simp: digit_val_def is_digit_def is_lower_def is_upper_def split: if_splits)
qed

lemma fmt_d_pos: "0 \<le> sint w \<Longrightarrow> fmt_d w = fmt_u w"
proof -
  assume pos: "0 \<le> sint w"
  then have "uint w = sint w" using sint_lt [of w] uint_sint [of w] by (simp add: take_bit_int_eq_self)
  then have "nat (sint w) = unat w" by (metis unat_eq_nat_uint)
  then show ?thesis using pos by (simp add: fmt_d_def fmt_u_def)
qed

end
