(* ===== verification/Time4.thy ===== *)
theory Time4
  imports Numerals
begin

text \<open>
  The 32-bit times of \<open>src/include/cmsys.h\<close> and the time stamps in file names.  A
  \<open>time4_t\<close> is a signed 32-bit integer that the helpers compare as unsigned, so the
  model keeps its 32 bits.
\<close>

definition time4_is_invalid :: "u32 \<Rightarrow> bool" where
  "time4_is_invalid t \<longleftrightarrow> t = 0 \<or> t = 0xFFFFFFFF"

definition time4_gt :: "u32 \<Rightarrow> u32 \<Rightarrow> bool" where "time4_gt a b \<longleftrightarrow> a > b"

definition time4_diff :: "u32 \<Rightarrow> u32 \<Rightarrow> int" where "time4_diff a b = uint a - uint b"

text \<open>The days that remain, counting a part of a day as one.\<close>

definition time4_days_remaining :: "u32 \<Rightarrow> u32 \<Rightarrow> int" where
  "time4_days_remaining expire now_time =
     (if \<not> time4_gt expire now_time then 0 else time4_diff expire now_time div 86400 + 1)"

text \<open>The sum has 64 bits; \<open>None\<close> when it does not fit.\<close>

definition time4_add_sec :: "u32 \<Rightarrow> int \<Rightarrow> u32 option" where
  "time4_add_sec base seconds = (if uint base + seconds > 0xFFFFFFFF then None else Some (word_of_int (uint base + seconds)))"

text \<open>The file name after its type, and the time in a name such as \<open>M.1120582370.A.1EA\<close>; \<open>.d\<close> marks a deleted file.\<close>

definition get_fhdr_stamp_ts :: "cstr \<Rightarrow> u32" where
  "get_fhdr_stamp_ts fn =
     ucast (strtoul 10 (if fn \<noteq> [] \<and> (hd0 (tl fn) = 46 \<or> hd0 fn = 46 \<and> hd0 (tl fn) = 100) then drop 2 fn else fn))"

text \<open>The 12 bits after \<open>.A.\<close> in a file name.\<close>

definition get_fhdr_stamp_hex :: "cstr \<Rightarrow> nat" where
  "get_fhdr_stamp_hex fn =
     (case strstr fn [46, 65, 46] of
        None \<Rightarrow> 0
      | Some i \<Rightarrow> unat (strtoul 16 (drop (i + 3) fn) AND 0xFFF))"

end
