(* ===== verification/Banip.thy ===== *)
theory Banip
  imports Time4 "HOL-Library.Multiset" "HOL-Library.Product_Lexorder"
begin

text \<open>
  The table of banned addresses of \<open>src/common/bbs/banip.c\<close>: parsing an address,
  a CIDR subnet, a range or a wildcard, building the table from \<open>banip.conf\<close>,
  sorting and merging it, searching it, and its binary cache file.  \<open>sz\<close> and
  \<open>szmsg\<close> are the lengths of the lists; \<open>alloc\<close> and \<open>allocmsg\<close> are kept to
  state that no write leaves the allocation.  \<open>qsort\<close> is a parameter of the
  definitions that use it: C does not say in which order it leaves records that
  compare equal, so the theorems assume only that it returns a sorted
  permutation (\<open>qsort_ok\<close>).  An \<open>assert\<close> that fails is \<^const>\<open>None\<close>; the warnings printed to
  \<open>err\<close> are left out.
  The theory shows that a client is refused exactly when some range of the file
  contains its address, that loading never fails an assertion, what each notation
  denotes, and that the cache answers like the file it was made from.
\<close>

section \<open>Records\<close>

abbreviation BANIP_ALLOC :: nat where "BANIP_ALLOC \<equiv> 512"
abbreviation BANIP_ALLOCMSG :: nat where "BANIP_ALLOCMSG \<equiv> 1024"
abbreviation PATHLEN :: nat where "PATHLEN \<equiv> 256"
abbreviation MSGLEN :: nat where "MSGLEN \<equiv> 25 * 511"

text \<open>\<open>YOUR ARE USING A BANNED IP.\<close>, newline and carriage return.\<close>

definition str_banned :: cstr where
  "str_banned = map (word_of_nat \<circ> of_char) ''YOUR ARE USING A BANNED IP.'' @ [10, 13]"

record ban_record =
  start_ip :: u32
  end_ip :: u32
  msg_offset :: u32

record ipv4_list =
  bl_ar :: "ban_record list"
  bl_alloc :: nat
  bl_msg :: "byte list"
  bl_allocmsg :: nat

section \<open>Parsing\<close>

text \<open>The mask of a prefix of 0 to 32 bits.\<close>

definition cidr_mask :: "int \<Rightarrow> u32" where
  "cidr_mask prefix =
     (if prefix = 0 then 0 else if prefix = 32 then 0xFFFFFFFF else push_bit (nat (32 - prefix)) 0xFFFFFFFF)"

definition parse_cidr :: "cstr \<Rightarrow> cstr \<Rightarrow> (u32 \<times> u32) option" where
  "parse_cidr addr pre =
     (let prefix = atoi pre in
      if prefix < 0 \<or> prefix > 32 then None
      else case inet_pton addr of
        None \<Rightarrow> None
      | Some i \<Rightarrow>
          let ip = ntohl i; mask = cidr_mask prefix; s = ip AND mask in Some (s, s OR NOT mask))"

definition parse_range :: "cstr \<Rightarrow> cstr \<Rightarrow> (u32 \<times> u32) option" where
  "parse_range s_start s_end =
     (case inet_pton s_start of
        None \<Rightarrow> None
      | Some i \<Rightarrow>
          let ip1 = ntohl i;
              ip2 = (if 46 \<in> set s_end then map_option ntohl (inet_pton s_end)
                     else let val = atoi s_end in
                       if val < 0 \<or> val > 255 then None
                       else Some ((ip1 AND 0xFFFFFF00) OR word_of_int val)) in
          case ip2 of
            None \<Rightarrow> None
          | Some ip2 \<Rightarrow> Some (if ip1 > ip2 then (ip2, ip1) else (ip1, ip2)))"

text \<open>The two strings a wildcard expands to, built in arrays of 128 bytes.\<close>

fun expand_wildcard :: "cstr \<Rightarrow> cstr \<Rightarrow> cstr \<Rightarrow> (cstr \<times> cstr) option" where
  "expand_wildcard [] s_min s_max = Some (s_min, s_max)"
| "expand_wildcard (c # s) s_min s_max =
     (let need_max = (if c = 42 then 3 else 1 :: nat) in
      if length s_min + 1 \<ge> 128 \<or> length s_max + need_max \<ge> 128 then None
      else if c = 42 then expand_wildcard s (s_min @ [48]) (s_max @ [50, 53, 53])
      else expand_wildcard s (s_min @ [c]) (s_max @ [c]))"

definition parse_wildcard :: "cstr \<Rightarrow> (u32 \<times> u32) option" where
  "parse_wildcard buf =
     (case expand_wildcard buf [] [] of
        None \<Rightarrow> None
      | Some (s_min, s_max) \<Rightarrow>
          (case (inet_pton s_min, inet_pton s_max) of
             (Some a, Some b) \<Rightarrow>
               Some (if ntohl a > ntohl b then (ntohl b, ntohl a) else (ntohl a, ntohl b))
           | _ \<Rightarrow> None))"

definition parse_ip_or_range :: "cstr \<Rightarrow> (u32 \<times> u32) option" where
  "parse_ip_or_range s =
     (let buf = strlcpy 128 s in
      case memchr 47 buf of
        Some i \<Rightarrow> parse_cidr (take i buf) (drop (Suc i) buf)
      | None \<Rightarrow>
      case memchr 45 buf of
        Some i \<Rightarrow> parse_range (take i buf) (drop (Suc i) buf)
      | None \<Rightarrow>
          if 42 \<in> set buf then parse_wildcard buf
          else map_option (\<lambda>i. (ntohl i, ntohl i)) (inet_pton buf))"

section \<open>Building the table\<close>

definition compare_banrecord :: "ban_record \<Rightarrow> ban_record \<Rightarrow> int" where
  "compare_banrecord a b =
     (if start_ip a < start_ip b then -1
      else if start_ip a > start_ip b then 1
      else if end_ip a < end_ip b then -1
      else if end_ip a > end_ip b then 1
      else 0)"

definition add_banip_list_range :: "ipv4_list \<Rightarrow> u32 \<Rightarrow> u32 \<Rightarrow> ipv4_list" where
  "add_banip_list_range l s e =
     (let l' = (if length (bl_ar l) \<ge> bl_alloc l then l\<lparr>bl_alloc := bl_alloc l + BANIP_ALLOC\<rparr> else l) in
      l'\<lparr>bl_ar := bl_ar l' @ [\<lparr>start_ip = s, end_ip = e, msg_offset = word_of_nat (length (bl_msg l))\<rparr>]\<rparr>)"

text \<open>\<open>while (szmsg + len + 3 >= allocmsg) allocmsg += BANIP_ALLOCMSG\<close>\<close>

function grow_msg :: "nat \<Rightarrow> nat \<Rightarrow> nat" where
  "grow_msg need alloc = (if need \<ge> alloc then grow_msg need (alloc + BANIP_ALLOCMSG) else alloc)"
  by pat_completeness auto
termination by (relation "measure (\<lambda>(need, alloc). Suc need - alloc)") auto

declare grow_msg.simps [simp del]

text \<open>The message without its trailing white space.\<close>

definition rtrim :: "cstr \<Rightarrow> cstr" where
  "rtrim s = rev (dropWhile (\<lambda>c. c < 0x80 \<and> is_space c) (rev s))"

definition add_banip_list_message :: "ipv4_list \<Rightarrow> cstr \<Rightarrow> ipv4_list option" where
  "add_banip_list_message l msg =
     (let l' = l\<lparr>bl_allocmsg := grow_msg (length (bl_msg l) + length msg + 3) (bl_allocmsg l)\<rparr>;
          m = rtrim msg in
      if m = [] then None else Some (l'\<lparr>bl_msg := bl_msg l' @ m @ [10, 13, 0]\<rparr>))"

definition reset_banip_list :: "ipv4_list \<Rightarrow> ipv4_list" where
  "reset_banip_list l = l\<lparr>bl_ar := [], bl_msg := []\<rparr>"

text \<open>The merge pass: \<open>prev\<close> is \<open>ar[out]\<close> and the list holds the records still to visit.\<close>

fun merge_loop :: "ban_record \<Rightarrow> ban_record list \<Rightarrow> ban_record list" where
  "merge_loop prev [] = [prev]"
| "merge_loop prev (cur # rest) =
     (if start_ip cur \<le> end_ip prev + 1 \<and> start_ip cur \<ge> start_ip prev \<and> msg_offset cur = msg_offset prev
      then merge_loop (if end_ip cur > end_ip prev then prev\<lparr>end_ip := end_ip cur\<rparr> else prev) rest
      else prev # merge_loop cur rest)"

definition sort_banip_list :: "(ban_record list \<Rightarrow> ban_record list) \<Rightarrow> ipv4_list \<Rightarrow> ipv4_list" where
  "sort_banip_list qsort l =
     (if bl_ar l = [] then l
      else l\<lparr>bl_ar := (case qsort (bl_ar l) of [] \<Rightarrow> [] | r # rs \<Rightarrow> merge_loop r rs)\<rparr>)"

section \<open>Searching\<close>

text \<open>The binary search: a record that contains \<open>ip\<close>, or \<open>best_candidate\<close>.\<close>

function search_loop :: "ban_record list \<Rightarrow> u32 \<Rightarrow> nat \<Rightarrow> nat \<Rightarrow> nat option \<Rightarrow> ban_record + nat option" where
  "search_loop ar ip low high best =
     (if low \<le> high then
        let mid = low + (high - low) div 2 in
        if start_ip (ar ! mid) \<le> ip then
          if ip \<le> end_ip (ar ! mid) then Inl (ar ! mid)
          else search_loop ar ip (mid + 1) high (Some mid)
        else if mid = 0 then Inr best
        else search_loop ar ip low (mid - 1) best
      else Inr best)"
  by pat_completeness auto
termination
  by (relation "measure (\<lambda>(ar, ip, low, high, best). Suc high - low)") auto

declare search_loop.simps [simp del]

fun scan_back :: "ban_record list \<Rightarrow> u32 \<Rightarrow> nat \<Rightarrow> ban_record option" where
  "scan_back ar ip i =
     (if ip \<ge> start_ip (ar ! i) \<and> ip \<le> end_ip (ar ! i) then Some (ar ! i)
      else case i of 0 \<Rightarrow> None | Suc j \<Rightarrow> scan_back ar ip j)"

declare scan_back.simps [simp del]

definition search_banrecord :: "ban_record list \<Rightarrow> u32 \<Rightarrow> ban_record option" where
  "search_banrecord ar ip =
     (if ar = [] then None
      else case search_loop ar ip 0 (length ar - 1) None of
        Inl r \<Rightarrow> Some r
      | Inr None \<Rightarrow> None
      | Inr (Some i) \<Rightarrow> scan_back ar ip i)"

definition in_banip_list_addr :: "ipv4_list \<Rightarrow> in_addr \<Rightarrow> cstr option" where
  "in_banip_list_addr l addr =
     (if bl_ar l = [] then None
      else case search_banrecord (bl_ar l) (ntohl addr) of
        None \<Rightarrow> None
      | Some p \<Rightarrow>
          Some (if unat (msg_offset p) < length (bl_msg l)
                then takeWhile (\<lambda>c. c \<noteq> 0) (drop (unat (msg_offset p)) (bl_msg l)) else str_banned))"

definition in_banip_list :: "ipv4_list option \<Rightarrow> cstr \<Rightarrow> cstr option" where
  "in_banip_list bl ip =
     (case bl of None \<Rightarrow> None
      | Some l \<Rightarrow> (case inet_pton ip of None \<Rightarrow> None | Some addr \<Rightarrow> in_banip_list_addr l addr))"

section \<open>Loading\<close>

record load_state =
  ld_list :: ipv4_list
  ld_msg :: cstr
  ld_was_ip :: bool

text \<open>The separators of \<open>strtok\<close>: blank, tab, carriage return and newline.\<close>

definition ip_delim :: "byte \<Rightarrow> bool" where "ip_delim c \<longleftrightarrow> c \<in> {32, 9, 13, 10}"

definition line_start :: "cstr \<Rightarrow> cstr" where
  "line_start buf = dropWhile (\<lambda>c. c < 0x80 \<and> is_space c) buf"

definition line_tokens :: "cstr \<Rightarrow> cstr list" where
  "line_tokens p = strtok_all ip_delim (takeWhile (\<lambda>c. c \<noteq> 35) (strlcpy PATHLEN p))"

definition add_token :: "ipv4_list \<Rightarrow> cstr \<Rightarrow> ipv4_list" where
  "add_token l tok = (case parse_ip_or_range tok of None \<Rightarrow> l | Some (s, e) \<Rightarrow> add_banip_list_range l s e)"

text \<open>One iteration of the loop of \<open>load_banip_list\<close> on a line read by \<open>fgets\<close>.\<close>

definition load_line :: "cstr \<Rightarrow> load_state \<Rightarrow> load_state option" where
  "load_line line st =
     (let buf = strlcat PATHLEN line [13]; p = line_start buf in
      if hd0 p = 35 then Some st
      else
        let toks = line_tokens p;
            is_ip_line = (toks \<noteq> [] \<and> list_all (\<lambda>t. parse_ip_or_range t \<noteq> None) toks) in
        if is_ip_line then
          (case (if ld_was_ip st then Some st
                 else map_option (\<lambda>l. st\<lparr>ld_list := l, ld_msg := [], ld_was_ip := True\<rparr>)
                        (add_banip_list_message (ld_list st) (ld_msg st))) of
             None \<Rightarrow> None
           | Some st' \<Rightarrow> Some (st'\<lparr>ld_list := foldl add_token (ld_list st') toks\<rparr>))
        else if bl_ar (ld_list st) = [] then Some st
        else if ld_was_ip st then
          if p = [] then Some st else Some (st\<lparr>ld_msg := strlcpy MSGLEN buf, ld_was_ip := False\<rparr>)
        else Some (st\<lparr>ld_msg := strlcat MSGLEN (ld_msg st) buf\<rparr>))"

fun load_lines :: "cstr list \<Rightarrow> load_state \<Rightarrow> load_state option" where
  "load_lines [] st = Some st"
| "load_lines (l # ls) st = (case load_line l st of None \<Rightarrow> None | Some st' \<Rightarrow> load_lines ls st')"

definition empty_list :: ipv4_list where
  "empty_list = \<lparr>bl_ar = [], bl_alloc = 0, bl_msg = [], bl_allocmsg = 0\<rparr>"

definition load_init :: load_state where
  "load_init = \<lparr>ld_list = reset_banip_list empty_list, ld_msg = [], ld_was_ip = True\<rparr>"

definition load_banip_list :: "(ban_record list \<Rightarrow> ban_record list) \<Rightarrow> byte list \<Rightarrow> ipv4_list option" where
  "load_banip_list qsort file =
     (case load_lines (fgets_all PATHLEN file) load_init of
        None \<Rightarrow> None
      | Some st \<Rightarrow>
          map_option (sort_banip_list qsort)
            (if ld_was_ip st then Some (ld_list st) else add_banip_list_message (ld_list st) (ld_msg st)))"

section \<open>The cache file\<close>

text \<open>A \<open>BanRecord\<close> is three 32-bit integers; \<open>size_t\<close> has 8 bytes.\<close>

definition record_bytes :: "ban_record \<Rightarrow> byte list" where
  "record_bytes r = to_le 4 (unat (start_ip r)) @ to_le 4 (unat (end_ip r)) @ to_le 4 (unat (msg_offset r))"

definition bytes_record :: "byte list \<Rightarrow> ban_record" where
  "bytes_record bs =
     \<lparr>start_ip = word_of_nat (from_le (take 4 bs)), end_ip = word_of_nat (from_le (take 4 (drop 4 bs))),
      msg_offset = word_of_nat (from_le (take 4 (drop 8 bs)))\<rparr>"

definition cache_write :: "ipv4_list \<Rightarrow> byte list" where
  "cache_write l =
     to_le 8 (length (bl_ar l)) @ to_le 8 (length (bl_msg l)) @ concat (map record_bytes (bl_ar l)) @ bl_msg l"

text \<open>
  Reading it: \<open>Some None\<close> when the sizes do not match.  The product of the size
  check is a \<open>size_t\<close> and wraps; with a wrapped product the records are read
  into an object that is too small (\<^const>\<open>None\<close>).
\<close>

definition cache_read :: "byte list \<Rightarrow> ipv4_list option option" where
  "cache_read f =
     (let rsz = from_le (take 8 f); rszmsg = from_le (take 8 (drop 8 f)); body = drop 16 f in
      if length f \<noteq> (16 + rsz * 12 + rszmsg) mod 2 ^ 64 then Some None
      else if 16 + rsz * 12 + rszmsg \<ge> 2 ^ 64 then None
      else Some (Some \<lparr>bl_ar = map (\<lambda>i. bytes_record (take 12 (drop (12 * i) body))) [0..<rsz], bl_alloc = rsz,
                       bl_msg = take rszmsg (drop (12 * rsz) body), bl_allocmsg = rszmsg\<rparr>))"

text \<open>
  \<open>cached_banip_list\<close>: \<open>base\<close> and \<open>cache\<close> are the files with their times (a file that is
  missing has time -1 and no contents), \<open>can_write\<close> tells whether the
  temporary file can be created.  The result is the list (\<open>NULL\<close> is \<open>Some None\<close>,
  an undefined behaviour or failed assertion is \<^const>\<open>None\<close>) and the cache afterwards.
\<close>

definition cached_banip_list ::
  "(ban_record list \<Rightarrow> ban_record list) \<Rightarrow> u32 \<times> byte list option \<Rightarrow> u32 \<times> byte list option \<Rightarrow> bool \<Rightarrow>
     (ipv4_list option \<times> byte list option) option" where
  "cached_banip_list qsort base cache can_write =
     (if time4_is_invalid (fst base) then Some (None, snd cache)
      else
        let cached = (case snd cache of
                        Some f \<Rightarrow> if sint (fst cache) \<ge> sint (fst base) \<and> length f \<ge> 16 then cache_read f else Some None
                      | None \<Rightarrow> Some None) in
        case cached of
          None \<Rightarrow> None
        | Some (Some l) \<Rightarrow> Some (Some l, snd cache)
        | Some None \<Rightarrow>
            (case snd base of
               None \<Rightarrow> Some (None, snd cache)
             | Some file \<Rightarrow>
                 map_option (\<lambda>l. (Some l, if can_write then Some (cache_write l) else snd cache))
                   (load_banip_list qsort file)))"

section \<open>Reference definitions\<close>

definition contains :: "ban_record \<Rightarrow> u32 \<Rightarrow> bool" where
  "contains r x \<longleftrightarrow> start_ip r \<le> x \<and> x \<le> end_ip r"

text \<open>What C promises of \<open>qsort\<close> with \<open>compare_banrecord\<close>.\<close>

definition qsort_ok :: "(ban_record list \<Rightarrow> ban_record list) \<Rightarrow> bool" where
  "qsort_ok qsort \<longleftrightarrow>
     (\<forall>xs. mset (qsort xs) = mset xs \<and> sorted_wrt (\<lambda>a b. compare_banrecord a b \<le> 0) (qsort xs))"

text \<open>The ranges a line of the file bans, and those of the whole file.\<close>

definition line_ranges :: "cstr \<Rightarrow> (u32 \<times> u32) list" where
  "line_ranges line =
     (let p = line_start (strlcat PATHLEN line [13]); rs = map parse_ip_or_range (line_tokens p) in
      if hd0 p = 35 \<or> None \<in> set rs then [] else map the rs)"

definition file_ranges :: "byte list \<Rightarrow> (u32 \<times> u32) list" where
  "file_ranges file = concat (map line_ranges (fgets_all PATHLEN file))"

section \<open>Lemmas on merging and searching\<close>

lemma u32_not_less_Suc: "\<not> x \<le> (a :: u32) \<Longrightarrow> a + 1 \<le> x"
  by (simp add: inc_le not_le)

lemma contains_extend:
  assumes "start_ip c \<le> end_ip p + 1" "start_ip p \<le> start_ip c"
  shows "contains (if end_ip c > end_ip p then p\<lparr>end_ip := end_ip c\<rparr> else p) x \<longleftrightarrow> contains p x \<or> contains c x"
proof (cases "end_ip c > end_ip p")
  case True
  have "x \<le> end_ip p \<or> start_ip c \<le> x" using assms(1) u32_not_less_Suc [of x "end_ip p"] by (meson order_trans)
  then show ?thesis using True assms(2) by (auto simp: contains_def)
next
  case False
  then show ?thesis using assms(2) by (auto simp: contains_def)
qed

lemma merge_covers:
  "(\<exists>r \<in> set (merge_loop p rs). contains r x) \<longleftrightarrow> (\<exists>r \<in> set (p # rs). contains r x)"
proof (induction p rs rule: merge_loop.induct)
  case (2 p c rs)
  show ?case
  proof (cases "start_ip c \<le> end_ip p + 1 \<and> start_ip c \<ge> start_ip p \<and> msg_offset c = msg_offset p")
    case True
    let ?p = "if end_ip c > end_ip p then p\<lparr>end_ip := end_ip c\<rparr> else p"
    have "merge_loop p (c # rs) = merge_loop ?p rs" using True by simp
    then show ?thesis using 2(1) [OF True] contains_extend [of c p x] True by auto
  next
    case False
    then have "merge_loop p (c # rs) = p # merge_loop c rs" by (simp only: merge_loop.simps if_False)
    then show ?thesis using 2(2) [OF False] by auto
  qed
qed simp

lemma merge_starts: "start_ip ` set (merge_loop p rs) \<subseteq> start_ip ` set (p # rs)"
proof (induction p rs rule: merge_loop.induct)
  case (2 p c rs)
  show ?case
  proof (cases "start_ip c \<le> end_ip p + 1 \<and> start_ip c \<ge> start_ip p \<and> msg_offset c = msg_offset p")
    case True
    let ?p = "if end_ip c > end_ip p then p\<lparr>end_ip := end_ip c\<rparr> else p"
    have "merge_loop p (c # rs) = merge_loop ?p rs" using True by simp
    moreover have "start_ip ?p = start_ip p" by simp
    ultimately have "start_ip ` set (merge_loop p (c # rs)) \<subseteq> insert (start_ip p) (start_ip ` set rs)"
      using 2(1) [OF True] by (simp only: list.set image_insert)
    then show ?thesis by (simp only: list.set image_insert) blast
  next
    case False
    then have "merge_loop p (c # rs) = p # merge_loop c rs" by (simp only: merge_loop.simps if_False)
    then show ?thesis using 2(2) [OF False] by auto
  qed
qed simp

lemma merge_sorted: "sorted (map start_ip (p # rs)) \<Longrightarrow> sorted (map start_ip (merge_loop p rs))"
proof (induction p rs rule: merge_loop.induct)
  case (2 p c rs)
  show ?case
  proof (cases "start_ip c \<le> end_ip p + 1 \<and> start_ip c \<ge> start_ip p \<and> msg_offset c = msg_offset p")
    case True
    let ?p = "if end_ip c > end_ip p then p\<lparr>end_ip := end_ip c\<rparr> else p"
    have "merge_loop p (c # rs) = merge_loop ?p rs" using True by simp
    then show ?thesis using 2(1) [OF True] 2(3) by auto
  next
    case False
    then have "merge_loop p (c # rs) = p # merge_loop c rs" by (simp only: merge_loop.simps if_False)
    then show ?thesis using 2(2) [OF False] 2(3) merge_starts [of c rs] by fastforce
  qed
qed simp

lemma merge_loop_ne [simp]: "merge_loop p rs \<noteq> []"
  by (induction p rs rule: merge_loop.induct) simp_all

lemma qsort_sorted:
  assumes "qsort_ok qsort"
  shows "sorted (map start_ip (qsort xs))" "set (qsort xs) = set xs"
proof -
  have "sorted_wrt (\<lambda>a b. compare_banrecord a b \<le> 0) (qsort xs)" using assms by (simp add: qsort_ok_def)
  then have "sorted_wrt (\<lambda>a b. start_ip a \<le> start_ip b) (qsort xs)"
    by (rule sorted_wrt_mono_rel [rotated]) (auto simp: compare_banrecord_def split: if_splits)
  then show "sorted (map start_ip (qsort xs))" by (simp add: sorted_wrt_map)
  show "set (qsort xs) = set xs" using assms by (metis qsort_ok_def set_mset_mset)
qed

lemma sort_banip_list_ok:
  assumes "qsort_ok qsort"
  shows "sorted (map start_ip (bl_ar (sort_banip_list qsort l)))"
    "(\<exists>r \<in> set (bl_ar (sort_banip_list qsort l)). contains r x) \<longleftrightarrow> (\<exists>r \<in> set (bl_ar l). contains r x)"
proof -
  have "sorted (map start_ip (bl_ar (sort_banip_list qsort l))) \<and>
    ((\<exists>r \<in> set (bl_ar (sort_banip_list qsort l)). contains r x) \<longleftrightarrow> (\<exists>r \<in> set (bl_ar l). contains r x))"
  proof (cases "qsort (bl_ar l)")
    case Nil
    then show ?thesis using qsort_sorted(2) [OF assms, of "bl_ar l"] by (auto simp: sort_banip_list_def)
  next
    case (Cons r rs)
    then have "bl_ar l \<noteq> []" using qsort_sorted(2) [OF assms, of "bl_ar l"] by auto
    then have "bl_ar (sort_banip_list qsort l) = merge_loop r rs" using Cons by (simp add: sort_banip_list_def)
    then show ?thesis
      using qsort_sorted [OF assms, of "bl_ar l"] Cons merge_sorted [of r rs] merge_covers [of r rs x] by simp
  qed
  then show "sorted (map start_ip (bl_ar (sort_banip_list qsort l)))"
    "(\<exists>r \<in> set (bl_ar (sort_banip_list qsort l)). contains r x) \<longleftrightarrow> (\<exists>r \<in> set (bl_ar l). contains r x)" by auto
qed

text \<open>What the binary search knows when it stops at \<open>best\<close>: every later record starts beyond \<open>ip\<close>.\<close>

lemma search_loop_ok:
  assumes "sorted (map start_ip ar)" "high < length ar" "low \<le> Suc high"
    "best = (if low = 0 then None else Some (low - 1))"
    "\<And>i. high < i \<Longrightarrow> i < length ar \<Longrightarrow> start_ip (ar ! i) > ip"
  shows "case search_loop ar ip low high best of
      Inl r \<Rightarrow> r \<in> set ar \<and> contains r ip
    | Inr b \<Rightarrow> (case b of None \<Rightarrow> \<forall>i < length ar. start_ip (ar ! i) > ip
                | Some j \<Rightarrow> j < length ar \<and> (\<forall>i. j < i \<longrightarrow> i < length ar \<longrightarrow> start_ip (ar ! i) > ip))"
  using assms
proof (induction ar ip low high best rule: search_loop.induct)
  case (1 ar ip low high best)
  define mid where "mid = low + (high - low) div 2"
  have le: "start_ip (ar ! i) \<le> start_ip (ar ! j)" if "i \<le> j" "j < length ar" for i j
    using sorted_nth_mono [OF "1.prems"(1), of i j] that by simp
  show ?case
  proof (cases "low \<le> high")
    case True
    then have m: "low \<le> mid" "mid \<le> high" by (auto simp: mid_def)
    then have ml: "mid < length ar" using "1.prems"(2) by simp
    show ?thesis
    proof (cases "start_ip (ar ! mid) \<le> ip")
      case s: True
      show ?thesis
      proof (cases "ip \<le> end_ip (ar ! mid)")
        case e: True
        then have "search_loop ar ip low high best = Inl (ar ! mid)"
          using True s by (subst search_loop.simps) (simp add: Let_def flip: mid_def)
        then show ?thesis using s e ml by (simp add: contains_def)
      next
        case e: False
        have u: "search_loop ar ip low high best = search_loop ar ip (mid + 1) high (Some mid)"
          using True s e by (subst search_loop.simps) (simp add: Let_def flip: mid_def)
        show ?thesis unfolding u
          by (rule "1.IH"(1) [OF True mid_def s e]) (use "1.prems" m in auto)
      qed
    next
      case s: False
      show ?thesis
      proof (cases "mid = 0")
        case z: True
        have u: "search_loop ar ip low high best = Inr best"
          using True s z by (subst search_loop.simps) (simp add: Let_def flip: mid_def)
        have "start_ip (ar ! i) > ip" if "i < length ar" for i
          using le [of 0 i] that s z by auto
        then show ?thesis unfolding u using "1.prems"(4) m z by simp
      next
        case z: False
        have u: "search_loop ar ip low high best = search_loop ar ip low (mid - 1) best"
          using True s z by (subst search_loop.simps) (simp add: Let_def flip: mid_def)
        have "start_ip (ar ! i) > ip" if "mid - 1 < i" "i < length ar" for i
        proof -
          have "mid \<le> i" using that(1) z by simp
          from le [OF this that(2)] s show ?thesis by (meson leD not_le order_trans)
        qed
        then show ?thesis unfolding u
          by (intro "1.IH"(2) [OF True mid_def s z]) (use "1.prems" m z in auto)
      qed
    qed
  next
    case False
    then have u: "search_loop ar ip low high best = Inr best" by (subst search_loop.simps) simp
    have "low = Suc high" using False "1.prems"(3) by simp
    then show ?thesis unfolding u using "1.prems"(2,4,5) by simp
  qed
qed

lemma scan_back_ok:
  "i < length ar \<Longrightarrow>
     (case scan_back ar ip i of Some r \<Rightarrow> r \<in> set ar \<and> contains r ip | None \<Rightarrow> \<forall>j \<le> i. \<not> contains (ar ! j) ip)"
proof (induction i)
  case 0
  then show ?case by (subst scan_back.simps) (auto simp: contains_def)
next
  case (Suc i)
  show ?case
  proof (cases "contains (ar ! Suc i) ip")
    case True
    then show ?thesis using Suc.prems by (subst scan_back.simps) (simp add: contains_def)
  next
    case False
    then have "scan_back ar ip (Suc i) = scan_back ar ip i" by (subst scan_back.simps) (auto simp: contains_def)
    then show ?thesis using Suc False by (cases "scan_back ar ip i") (auto simp: le_Suc_eq)
  qed
qed

lemma search_banrecord_ok:
  assumes "sorted (map start_ip ar)"
  shows "case search_banrecord ar ip of
      Some r \<Rightarrow> r \<in> set ar \<and> contains r ip | None \<Rightarrow> \<forall>r \<in> set ar. \<not> contains r ip"
proof (cases "ar = []")
  case False
  let ?s = "search_loop ar ip 0 (length ar - 1) None"
  have *: "case ?s of Inl r \<Rightarrow> r \<in> set ar \<and> contains r ip
    | Inr b \<Rightarrow> (case b of None \<Rightarrow> \<forall>i < length ar. start_ip (ar ! i) > ip
                | Some j \<Rightarrow> j < length ar \<and> (\<forall>i. j < i \<longrightarrow> i < length ar \<longrightarrow> start_ip (ar ! i) > ip))"
    by (rule search_loop_ok) (use assms False in auto)
  have out: "start_ip r > ip \<Longrightarrow> \<not> contains r ip" for r by (auto simp: contains_def)
  show ?thesis
  proof (cases ?s)
    case (Inl r)
    then show ?thesis using * False by (simp add: search_banrecord_def)
  next
    case (Inr b)
    show ?thesis
    proof (cases b)
      case None
      then have "\<forall>r \<in> set ar. \<not> contains r ip" using * Inr out by (auto simp: in_set_conv_nth)
      then show ?thesis using Inr None by (simp add: search_banrecord_def)
    next
      case (Some j)
      then have j: "j < length ar" "\<And>i. j < i \<Longrightarrow> i < length ar \<Longrightarrow> \<not> contains (ar ! i) ip"
        using * Inr out by auto
      have sb: "search_banrecord ar ip = scan_back ar ip j" using Some Inr False by (simp add: search_banrecord_def)
      show ?thesis
      proof (cases "scan_back ar ip j")
        case None
        then have "\<forall>i \<le> j. \<not> contains (ar ! i) ip" using scan_back_ok [OF j(1), of ip] by simp
        then have "\<forall>r \<in> set ar. \<not> contains r ip" using j(2) by (metis in_set_conv_nth not_le)
        then show ?thesis using sb None by simp
      qed (use sb scan_back_ok [OF j(1), of ip] in simp)
    qed
  qed
qed (simp add: search_banrecord_def)

lemma in_banip_list_addr_iff:
  assumes "sorted (map start_ip (bl_ar l))"
  shows "in_banip_list_addr l addr \<noteq> None \<longleftrightarrow> (\<exists>r \<in> set (bl_ar l). contains r (ntohl addr))"
  using search_banrecord_ok [OF assms, of "ntohl addr"]
  by (auto simp: in_banip_list_addr_def split: option.splits)

section \<open>Lemmas on loading\<close>

abbreviation rec_range :: "ban_record \<Rightarrow> u32 \<times> u32" where "rec_range r \<equiv> (start_ip r, end_ip r)"

text \<open>The allocations hold the records and the messages.\<close>

definition list_ok :: "ipv4_list \<Rightarrow> bool" where
  "list_ok l \<longleftrightarrow> length (bl_ar l) \<le> bl_alloc l \<and> length (bl_msg l) \<le> bl_allocmsg l"

lemma grow_msg_less: "need < grow_msg need alloc"
proof (induction need alloc rule: grow_msg.induct)
  case (1 need alloc)
  then show ?case by (cases "need \<ge> alloc") (subst grow_msg.simps, simp)+
qed

lemma rtrim_length: "length (rtrim s) \<le> length s"
  by (metis length_dropWhile_less_eq length_rev rtrim_def)

lemma rtrim_Nil_iff: "rtrim s = [] \<longleftrightarrow> (\<forall>c \<in> set s. c < 0x80 \<and> is_space c)"
  by (simp add: rtrim_def dropWhile_eq_Nil_conv)

lemma add_range_ok:
  "list_ok l \<Longrightarrow> list_ok (add_banip_list_range l s e)"
  "map rec_range (bl_ar (add_banip_list_range l s e)) = map rec_range (bl_ar l) @ [(s, e)]"
  by (auto simp: add_banip_list_range_def list_ok_def Let_def)

lemma add_message_ok:
  assumes "rtrim m \<noteq> []"
  obtains l' where "add_banip_list_message l m = Some l'" "bl_ar l' = bl_ar l" "list_ok l \<Longrightarrow> list_ok l'"
proof
  let ?a = "grow_msg (length (bl_msg l) + length m + 3) (bl_allocmsg l)"
  let ?l = "l\<lparr>bl_allocmsg := ?a, bl_msg := bl_msg l @ rtrim m @ [10, 13, 0]\<rparr>"
  show "add_banip_list_message l m = Some ?l" using assms by (simp add: add_banip_list_message_def Let_def)
  show "list_ok l \<Longrightarrow> list_ok ?l"
    using grow_msg_less [of "length (bl_msg l) + length m + 3" "bl_allocmsg l"] rtrim_length [of m]
    by (simp add: list_ok_def)
qed simp

lemma foldl_add_token:
  "list_all (\<lambda>t. parse_ip_or_range t \<noteq> None) toks \<Longrightarrow>
     map rec_range (bl_ar (foldl add_token l toks)) = map rec_range (bl_ar l) @ map (the \<circ> parse_ip_or_range) toks \<and>
     (list_ok l \<longrightarrow> list_ok (foldl add_token l toks))"
proof (induction toks arbitrary: l)
  case (Cons t toks)
  then obtain s e where p: "parse_ip_or_range t = Some (s, e)" by auto
  then have "add_token l t = add_banip_list_range l s e" by (simp add: add_token_def)
  then show ?case using Cons.IH [of "add_banip_list_range l s e"] Cons.prems p add_range_ok by simp
qed simp

text \<open>A pending message has a visible character, so that the assertion holds when it is stored.\<close>

definition load_ok :: "load_state \<Rightarrow> bool" where
  "load_ok st \<longleftrightarrow> list_ok (ld_list st) \<and> (ld_was_ip st \<or> rtrim (ld_msg st) \<noteq> [])"

lemma rtrim_buf:
  assumes "line_start buf \<noteq> []" "length buf < MSGLEN"
  shows "rtrim (strlcpy MSGLEN buf) \<noteq> []"
proof -
  have "\<exists>c \<in> set buf. \<not> (c < 0x80 \<and> is_space c)"
    using assms(1) by (auto simp: line_start_def dropWhile_eq_Nil_conv)
  then show ?thesis using assms(2) unfolding rtrim_Nil_iff by (simp add: strlcpy_def)
qed

lemma rtrim_strlcat: "rtrim d \<noteq> [] \<Longrightarrow> rtrim (strlcat n d s) \<noteq> []"
  unfolding rtrim_Nil_iff by (auto simp: strlcat_def)

lemma load_line_ok:
  assumes "load_ok st" "length line < PATHLEN"
  obtains st' where "load_line line st = Some st'" "load_ok st'"
    "map rec_range (bl_ar (ld_list st')) = map rec_range (bl_ar (ld_list st)) @ line_ranges line"
proof -
  define buf where "buf = strlcat PATHLEN line [13]"
  define p where "p = line_start buf"
  define toks where "toks = line_tokens p"
  note d = buf_def [symmetric] p_def [symmetric] toks_def [symmetric]
  have bl: "length buf < MSGLEN" using assms(2) by (simp add: buf_def strlcat_def)
  let ?ip = "toks \<noteq> [] \<and> list_all (\<lambda>t. parse_ip_or_range t \<noteq> None) toks"
  have lr: "line_ranges line = (if hd0 p = 35 \<or> \<not> ?ip then [] else map (the \<circ> parse_ip_or_range) toks)"
  proof -
    have "None \<in> set (map parse_ip_or_range toks) \<longleftrightarrow> \<not> list_all (\<lambda>t. parse_ip_or_range t \<noteq> None) toks"
      by (force simp: list_all_iff simp del: not_None_eq)
    then show ?thesis unfolding line_ranges_def d Let_def by auto
  qed
  consider (comment) "hd0 p = 35" | (ip) "hd0 p \<noteq> 35" ?ip | (prose) "hd0 p \<noteq> 35" "\<not> ?ip" by blast
  then show thesis
  proof cases
    case comment
    then have "load_line line st = Some st" by (simp add: load_line_def d Let_def)
    then show ?thesis using that [of st] assms comment lr by simp
  next
    case ip
    obtain st1 where st1: "(if ld_was_ip st then Some st
        else map_option (\<lambda>l. st\<lparr>ld_list := l, ld_msg := [], ld_was_ip := True\<rparr>)
          (add_banip_list_message (ld_list st) (ld_msg st))) = Some st1"
      "bl_ar (ld_list st1) = bl_ar (ld_list st)" "list_ok (ld_list st1)" "ld_was_ip st1"
    proof (cases "ld_was_ip st")
      case False
      then have "rtrim (ld_msg st) \<noteq> []" using assms(1) by (simp add: load_ok_def)
      then show ?thesis
        by (rule add_message_ok [where l = "ld_list st"]) (use that False assms(1) in \<open>auto simp: load_ok_def\<close>)
    qed (use that assms(1) in \<open>auto simp: load_ok_def\<close>)
    let ?st = "st1\<lparr>ld_list := foldl add_token (ld_list st1) toks\<rparr>"
    have "load_line line st = Some ?st" using ip st1(1) by (simp add: load_line_def d Let_def)
    then show ?thesis using that [of ?st] foldl_add_token [of toks "ld_list st1"] ip lr st1
      by (simp add: load_ok_def)
  next
    case prose
    then have "load_line line st = (if bl_ar (ld_list st) = [] then Some st
        else if ld_was_ip st then
          if p = [] then Some st else Some (st\<lparr>ld_msg := strlcpy MSGLEN buf, ld_was_ip := False\<rparr>)
        else Some (st\<lparr>ld_msg := strlcat MSGLEN (ld_msg st) buf\<rparr>))"
      unfolding load_line_def d Let_def by (simp only: if_False if_True simp_thms)
    moreover have "load_ok (st\<lparr>ld_msg := strlcpy MSGLEN buf, ld_was_ip := False\<rparr>)" if "p \<noteq> []"
      using assms(1) rtrim_buf [OF _ bl] that by (simp add: load_ok_def p_def)
    moreover have "load_ok (st\<lparr>ld_msg := strlcat MSGLEN (ld_msg st) buf\<rparr>)" if "\<not> ld_was_ip st"
      using assms(1) rtrim_strlcat that by (simp add: load_ok_def)
    ultimately show ?thesis using that assms(1) lr prose by (simp split: if_splits)
  qed
qed

lemma load_lines_ok:
  "load_ok st \<Longrightarrow> (\<And>l. l \<in> set ls \<Longrightarrow> length l < PATHLEN) \<Longrightarrow>
     \<exists>st'. load_lines ls st = Some st' \<and> load_ok st' \<and>
       map rec_range (bl_ar (ld_list st')) = map rec_range (bl_ar (ld_list st)) @ concat (map line_ranges ls)"
proof (induction ls arbitrary: st)
  case (Cons l ls)
  obtain st1 where 1: "load_line l st = Some st1" "load_ok st1"
    "map rec_range (bl_ar (ld_list st1)) = map rec_range (bl_ar (ld_list st)) @ line_ranges l"
    using load_line_ok [OF Cons.prems(1), of l] Cons.prems(2) by auto
  obtain st' where "load_lines ls st1 = Some st'" "load_ok st'"
    "map rec_range (bl_ar (ld_list st')) = map rec_range (bl_ar (ld_list st1)) @ concat (map line_ranges ls)"
    using Cons.IH [OF 1(2)] Cons.prems(2) by auto
  then show ?case using 1 by simp
qed simp

lemma fgets_all_length: "l \<in> set (fgets_all n s) \<Longrightarrow> 2 \<le> n \<Longrightarrow> length l < n"
proof (induction n s rule: fgets_all.induct)
  case (1 n s)
  show ?case
  proof (cases "s = [] \<or> n < 2")
    case True
    then show ?thesis using 1(2) by (simp add: fgets_all.simps)
  next
    case False
    have "length (takeWhile (\<lambda>c. c \<noteq> 0) (take (fgets_len n s) s)) < n"
    proof -
      have "length (takeWhile (\<lambda>c. c \<noteq> 0) (take (fgets_len n s) s)) \<le> length (take (fgets_len n s) s)"
        by (rule length_takeWhile_le)
      also have "\<dots> \<le> n - 1" by (simp add: fgets_len_def)
      finally show ?thesis using False by linarith
    qed
    then show ?thesis using 1 False by (subst (asm) (2) fgets_all.simps) auto
  qed
qed

lemma load_banip_list_exists:
  obtains l where "load_banip_list qsort file = Some (sort_banip_list qsort l)" "list_ok l"
    "map rec_range (bl_ar l) = file_ranges file"
proof -
  have "load_ok load_init"
    by (simp add: load_init_def load_ok_def list_ok_def empty_list_def reset_banip_list_def)
  moreover have "length l < PATHLEN" if "l \<in> set (fgets_all PATHLEN file)" for l
    using fgets_all_length [OF that] by simp
  ultimately obtain st where st: "load_lines (fgets_all PATHLEN file) load_init = Some st" "load_ok st"
    "map rec_range (bl_ar (ld_list st)) = map rec_range (bl_ar (ld_list load_init)) @ file_ranges file"
    unfolding file_ranges_def using load_lines_ok by blast
  have e: "bl_ar (ld_list load_init) = []" by (simp add: load_init_def reset_banip_list_def)
  show thesis
  proof (cases "ld_was_ip st")
    case True
    then show ?thesis using that [of "ld_list st"] st e by (simp add: load_banip_list_def load_ok_def)
  next
    case False
    then have "rtrim (ld_msg st) \<noteq> []" using st(2) by (simp add: load_ok_def)
    then obtain l where "add_banip_list_message (ld_list st) (ld_msg st) = Some l" "bl_ar l = bl_ar (ld_list st)"
      "list_ok (ld_list st) \<Longrightarrow> list_ok l" by (rule add_message_ok) blast
    then show ?thesis using that [of l] st e False by (simp add: load_banip_list_def load_ok_def)
  qed
qed

lemma merge_length: "length (merge_loop p rs) \<le> Suc (length rs)"
  by (induction p rs rule: merge_loop.induct) (auto simp: le_Suc_eq)

lemma sort_list_ok:
  assumes "qsort_ok qsort" "list_ok l"
  shows "list_ok (sort_banip_list qsort l)"
proof (cases "qsort (bl_ar l)")
  case (Cons r rs)
  have "length (qsort (bl_ar l)) = length (bl_ar l)"
    using assms(1) by (metis qsort_ok_def size_mset)
  then show ?thesis
    using assms(2) Cons merge_length [of r rs] by (auto simp: sort_banip_list_def list_ok_def)
qed (use assms(2) in \<open>auto simp: sort_banip_list_def list_ok_def\<close>)

section \<open>Lemmas on subnets\<close>

lemma cidr_mask_eq:
  assumes "0 \<le> k" "k \<le> 32"
  shows "cidr_mask k = NOT (mask (nat (32 - k)))"
proof -
  have m: "(0xFFFFFFFF :: u32) = - 1" by simp
  show ?thesis using assms unfolding cidr_mask_def m
    by (intro bit_word_eqI) (auto simp: bit_simps)
qed

lemma and_not_mask_eq: "(x :: u32) AND NOT (mask j) = push_bit j (drop_bit j x)"
  by (rule bit_word_eqI) (auto simp: bit_simps)

lemma uint_push_drop32: "j \<le> 32 \<Longrightarrow> uint (push_bit j (drop_bit j (x :: u32))) = uint x div 2 ^ j * 2 ^ j"
proof -
  have "uint x div 2 ^ j * 2 ^ j \<le> uint x" by (simp flip: minus_mod_eq_div_mult)
  then have "uint x div 2 ^ j * 2 ^ j < 2 ^ 32" using uint_lt2p [of x] by simp
  moreover have "0 \<le> uint x div 2 ^ j * 2 ^ j" by (simp add: pos_imp_zdiv_nonneg_iff)
  moreover have "uint x mod 2 ^ 32 = uint x" using uint_lt2p [of x] by (intro mod_pos_pos_trivial) simp_all
  ultimately show ?thesis
    unfolding unsigned_push_bit_eq unsigned_drop_bit_eq
    by (simp add: take_bit_eq_mod push_bit_eq_mult drop_bit_eq_div)
qed

lemma uint_or_mask32:
  assumes "j \<le> 32"
  shows "uint (push_bit j (drop_bit j (x :: u32)) OR mask j) = uint x div 2 ^ j * 2 ^ j + (2 ^ j - 1)"
proof -
  have m: "uint (mask j :: u32) = 2 ^ j - 1"
    using assms unfolding uint_mask_eq by (simp add: min_absorb2 mask_eq_exp_minus_1)
  have "uint (push_bit j (drop_bit j x) OR mask j) = push_bit j (uint x div 2 ^ j) OR (2 ^ j - 1)"
    using uint_push_drop32 [OF assms, of x] m by (simp add: uint_or push_bit_eq_mult)
  also have "\<dots> = uint x div 2 ^ j * 2 ^ j + (2 ^ j - 1)"
    by (rule push_bit_or_int) simp_all
  finally show ?thesis .
qed

lemma div_interval:
  fixes q :: int
  assumes "0 < q"
  shows "(a * q \<le> x \<and> x \<le> a * q + (q - 1)) \<longleftrightarrow> x div q = a"
proof
  assume "a * q \<le> x \<and> x \<le> a * q + (q - 1)"
  then have "x = q * a + (x - a * q)" "0 \<le> x - a * q" "x - a * q < q" by (simp_all add: mult.commute)
  then show "x div q = a" by (rule int_div_pos_eq)
next
  assume "x div q = a"
  then have "x = a * q + x mod q" by (metis div_mult_mod_eq)
  then show "a * q \<le> x \<and> x \<le> a * q + (q - 1)" using pos_mod_sign [OF assms, of x] pos_mod_bound [OF assms, of x] by linarith
qed

lemma subnet_iff:
  assumes "0 \<le> k" "k \<le> 32"
  shows "(ip AND cidr_mask k \<le> x \<and> x \<le> (ip AND cidr_mask k) OR NOT (cidr_mask k)) \<longleftrightarrow>
    drop_bit (nat (32 - k)) x = drop_bit (nat (32 - k)) ip"
proof -
  let ?j = "nat (32 - k)"
  have j: "?j \<le> 32" using assms by simp
  have "drop_bit ?j x = drop_bit ?j ip \<longleftrightarrow> uint x div 2 ^ ?j = uint ip div 2 ^ ?j"
  proof -
    have "take_bit 32 (uint w) = uint w" for w :: u32
      using uint_lt2p [of w] by (simp add: take_bit_int_eq_self)
    then show ?thesis unfolding word_uint_eq_iff unsigned_drop_bit_eq by (simp add: drop_bit_eq_div)
  qed
  also have "\<dots> \<longleftrightarrow> uint ip div 2 ^ ?j * 2 ^ ?j \<le> uint x \<and> uint x \<le> uint ip div 2 ^ ?j * 2 ^ ?j + (2 ^ ?j - 1)"
    using div_interval [of "2 ^ ?j" "uint ip div 2 ^ ?j" "uint x"] by simp
  finally show ?thesis
    unfolding cidr_mask_eq [OF assms] and_not_mask_eq word_le_def
    using uint_push_drop32 [OF j, of ip] uint_or_mask32 [OF j, of ip] by simp
qed

lemma memchr_split: "c \<notin> set a \<Longrightarrow> memchr c (a @ c # b) = Some (length a)"
  by (induction a) auto

lemma parse_cidr_split:
  assumes "47 \<notin> set a" "length a + length n < 127"
  shows "parse_ip_or_range (a @ 47 # n) = parse_cidr a n"
  using assms memchr_split [of 47 a n]
  by (simp add: parse_ip_or_range_def strlcpy_def Let_def)

section \<open>Lemmas on the cache\<close>

lemma bytes_record_bytes: "bytes_record (record_bytes r) = r"
proof -
  have w: "unat (x :: u32) < 256 ^ 4" for x using unsigned_less [of x, where ?'a = nat] by simp
  show ?thesis by (simp add: bytes_record_def record_bytes_def from_to_le_id [OF w])
qed

lemma length_record_bytes [simp]: "length (record_bytes r) = 12"
  by (simp add: record_bytes_def)

lemma length_concat_records [simp]: "length (concat (map record_bytes rs)) = 12 * length rs"
  by (induction rs) simp_all

lemma nth_record_bytes:
  "i < length rs \<Longrightarrow> take 12 (drop (12 * i) (concat (map record_bytes rs))) = record_bytes (rs ! i)"
proof (induction rs arbitrary: i)
  case (Cons r rs)
  then show ?case by (cases i) simp_all
qed simp

lemma cache_read_write:
  assumes "16 + 12 * length (bl_ar l) + length (bl_msg l) < 2 ^ 64"
  shows "cache_read (cache_write l) =
    Some (Some (l\<lparr>bl_alloc := length (bl_ar l), bl_allocmsg := length (bl_msg l)\<rparr>))"
proof -
  let ?n = "length (bl_ar l)" and ?m = "length (bl_msg l)"
  have b: "?n < 256 ^ 8" "?m < 256 ^ 8" using assms by simp_all
  have h: "take 8 (cache_write l) = to_le 8 ?n" "take 8 (drop 8 (cache_write l)) = to_le 8 ?m"
    "drop 16 (cache_write l) = concat (map record_bytes (bl_ar l)) @ bl_msg l"
    "length (cache_write l) = 16 + ?n * 12 + ?m"
    by (simp_all add: cache_write_def)
  have m: "(16 + ?n * 12 + ?m) mod 2 ^ 64 = 16 + ?n * 12 + ?m" using assms by (intro mod_less) simp
  have "map (\<lambda>i. bytes_record (take 12 (drop (12 * i) (concat (map record_bytes (bl_ar l)) @ bl_msg l)))) [0..<?n] = bl_ar l"
    by (rule nth_equalityI) (simp_all add: nth_record_bytes bytes_record_bytes)
  moreover have "take ?m (drop (12 * ?n) (concat (map record_bytes (bl_ar l)) @ bl_msg l)) = bl_msg l" by simp
  ultimately show ?thesis
    unfolding cache_read_def Let_def h from_to_le_id [OF b(1)] from_to_le_id [OF b(2)] m
    using assms by simp
qed

section \<open>Properties\<close>

text \<open>A stable sort by the two ends is such a \<open>qsort\<close>.\<close>

lemma qsort_ok_sort: "qsort_ok (sort_key rec_range)"
proof -
  have "sorted_wrt (\<lambda>a b. compare_banrecord a b \<le> 0) (sort_key rec_range xs)" for xs
  proof -
    have "sorted_wrt (\<lambda>a b. rec_range a \<le> rec_range b) (sort_key rec_range xs)"
      using sorted_sort_key [of rec_range xs] by (simp add: sorted_wrt_map)
    then show ?thesis
      by (rule sorted_wrt_mono_rel [rotated]) (auto simp: compare_banrecord_def less_eq_prod_def)
  qed
  then show ?thesis by (simp add: qsort_ok_def)
qed

text \<open>C8.
  Loading a file never fails an assertion and keeps within its allocations,
  and a client is refused exactly when its address lies in one of the ranges
  on the address lines of the file, for every \<open>qsort\<close> that sorts.
\<close>

theorem load_banip_list_correct:
  assumes "qsort_ok qsort"
  shows "\<exists>l. load_banip_list qsort file = Some l \<and> list_ok l \<and>
    (\<forall>addr. (in_banip_list_addr l addr \<noteq> None) =
       list_ex (\<lambda>(s, e). s \<le> ntohl addr \<and> ntohl addr \<le> e) (file_ranges file))"
proof -
  obtain l where l: "load_banip_list qsort file = Some (sort_banip_list qsort l)" "list_ok l"
    "map rec_range (bl_ar l) = file_ranges file" by (rule load_banip_list_exists)
  have "(in_banip_list_addr (sort_banip_list qsort l) addr \<noteq> None) =
      list_ex (\<lambda>(s, e). s \<le> ntohl addr \<and> ntohl addr \<le> e) (file_ranges file)" for addr
  proof -
    have "in_banip_list_addr (sort_banip_list qsort l) addr \<noteq> None \<longleftrightarrow> (\<exists>r \<in> set (bl_ar l). contains r (ntohl addr))"
      using in_banip_list_addr_iff sort_banip_list_ok [OF assms] by simp
    also have "\<dots> \<longleftrightarrow> list_ex (\<lambda>(s, e). s \<le> ntohl addr \<and> ntohl addr \<le> e) (map rec_range (bl_ar l))"
      by (auto simp: contains_def list_ex_iff)
    finally show ?thesis unfolding l(3) .
  qed
  then show ?thesis using l(1) sort_list_ok [OF assms l(2)] by blast
qed

theorem load_banip_list_correct_witness:
  "\<exists>l. load_banip_list (sort_key rec_range) [49, 46, 50, 46, 51, 46, 52, 10] = Some l \<and> list_ok l \<and>
    (\<forall>addr. (in_banip_list_addr l addr \<noteq> None) =
       list_ex (\<lambda>(s, e). s \<le> ntohl addr \<and> ntohl addr \<le> e) (file_ranges [49, 46, 50, 46, 51, 46, 52, 10]))"
  by (rule load_banip_list_correct) (rule qsort_ok_sort)

text \<open>
  \<open>a/n\<close> with a prefix length \<open>n\<close> from 0 to 32 bans exactly the addresses that
  agree with \<open>a\<close> in their first \<open>n\<close> bits.
\<close>

lemma parse_cidr_subnet:
  assumes "inet_pton a = Some i" "47 \<notin> set a" "length a + length n < 127" "0 \<le> atoi n" "atoi n \<le> 32"
  shows "\<exists>s e. parse_ip_or_range (a @ 47 # n) = Some (s, e) \<and>
    (\<forall>x. (s \<le> x \<and> x \<le> e) = (drop_bit (nat (32 - atoi n)) x = drop_bit (nat (32 - atoi n)) (ntohl i)))"
  unfolding parse_cidr_split [OF assms(2,3)] parse_cidr_def Let_def
  using assms subnet_iff [OF assms(4,5)] by simp

text \<open>
  An address with a slash and no digits after it is accepted as a subnet of
  prefix length 0: it bans every address.
\<close>

lemma parse_cidr_no_prefix:
  assumes "inet_pton a = Some i" "47 \<notin> set a" "length a < 127"
  shows "parse_ip_or_range (a @ [47]) = Some (0, 0xFFFFFFFF)"
  using assms parse_cidr_split [of a "[]"]
  by (simp add: parse_cidr_def cidr_mask_def atoi_def digits_value_def)

text \<open>  The cache is transparent: a call that finds it out of date loads the file and
  rewrites it, and a later call that finds it up to date reads back the same
  records and messages, hence gives every client the same answer.
\<close>

lemma cached_banip_list_roundtrip:
  assumes "cached_banip_list qsort (t, Some file) (tc, c) True = Some (Some l, Some c')"
    "\<not> time4_is_invalid t" "sint tc < sint t" "sint t \<le> sint tc'" "16 + 12 * length (bl_ar l) + length (bl_msg l) < 2 ^ 64"
  shows "\<exists>l'. cached_banip_list qsort (t, Some file) (tc', Some c') w = Some (Some l', Some c') \<and>
    bl_ar l' = bl_ar l \<and> bl_msg l' = bl_msg l \<and> in_banip_list_addr l' = in_banip_list_addr l"
proof -
  have c: "c' = cache_write l"
    using assms(1-3) by (cases c) (auto simp: cached_banip_list_def Let_def)
  let ?l = "l\<lparr>bl_alloc := length (bl_ar l), bl_allocmsg := length (bl_msg l)\<rparr>"
  have "cache_read c' = Some (Some ?l)" unfolding c by (rule cache_read_write [OF assms(5)])
  moreover have "16 \<le> length c'" by (simp add: c cache_write_def)
  ultimately have "cached_banip_list qsort (t, Some file) (tc', Some c') w = Some (Some ?l, Some c')"
    using assms(2,4) by (simp add: cached_banip_list_def)
  moreover have "in_banip_list_addr ?l = in_banip_list_addr l"
    by (simp add: fun_eq_iff in_banip_list_addr_def split: option.split)
  ultimately show ?thesis by (intro exI [of _ ?l]) simp
qed

end
