(* ===== verification/Brc.thy ===== *)
theory Brc
  imports Time4
begin

text \<open>
  The read records of \<open>src/mbbsd/brc.c\<close>: for each board the creation times of the
  articles a user has read, newest first, kept in a byte buffer of at most
  64 KB that is saved to the user's \<open>.brc3\<close> file.  The static variables of the file
  are the record \<open>brc_state\<close>; \<open>brc_buf\<close> is the whole allocated object (empty for
  \<open>NULL\<close>, its length is \<open>brc_alloc\<close>), and \<open>junk\<close> gives the unspecified
  contents of fresh memory, so the theorems hold for all of them.  A \<open>time4_t\<close> is a
  \<^typ>\<open>u32\<close>, because the comparisons of \<open>cmsys.h\<close> are unsigned; bytes of integers are
  little-endian.
  The theory shows that inserting a record refines an update of a list of
  boards in most-recently-used order, that the buffer never exceeds its limit or
  its allocation, and what marking an article read does.
\<close>

abbreviation BRC_MAXSIZE :: nat where "BRC_MAXSIZE \<equiv> 65536"
abbreviation BRC_MAXNUM :: nat where "BRC_MAXNUM \<equiv> 80"
abbreviation BRC_BLOCKSIZE :: nat where "BRC_BLOCKSIZE \<equiv> 1024"

record brc_rec =
  create :: u32
  modified :: u32

record brc_state =
  brc_initialized :: bool
  brc_expire_time :: u32
  brc_changed :: bool
  brc_buf :: "byte list"
  brc_size :: nat
  brc_needs_file_update :: bool
  brc_currbid :: nat
  brc_num :: nat
  brc_list :: "brc_rec list"
  brc_file :: "byte list option"

section \<open>Records in the buffer\<close>

definition rec_bytes :: "brc_rec \<Rightarrow> byte list" where
  "rec_bytes r = to_le 4 (unat (create r)) @ to_le 4 (unat (modified r))"

definition bytes_rec :: "byte list \<Rightarrow> brc_rec" where
  "bytes_rec bs =
     \<lparr>create = word_of_nat (from_le (take 4 bs)), modified = word_of_nat (from_le (take 4 (drop 4 bs)))\<rparr>"

definition brc_read_bid :: "byte list \<Rightarrow> nat \<Rightarrow> nat" where
  "brc_read_bid buf p = from_le (take 4 (drop p buf))"

definition brc_read_num :: "byte list \<Rightarrow> nat \<Rightarrow> nat" where
  "brc_read_num buf p = from_le (take 2 (drop p buf))"

definition brc_write_num :: "byte list \<Rightarrow> nat \<Rightarrow> nat \<Rightarrow> byte list" where
  "brc_write_num buf p v = write_at buf p (to_le 2 v)"

text \<open>\<open>sizeof(brcbid_t) + sizeof(brcnbrd_t) + num * sizeof(brc_rec)\<close>\<close>

definition rec_len :: "nat \<Rightarrow> nat" where "rec_len num = 6 + num * 8"

text \<open>The offset of the record and \<open>*num\<close>, scanning from \<open>ptr\<close> to \<open>endp\<close>.\<close>

function brc_findrecord_in :: "byte list \<Rightarrow> nat \<Rightarrow> nat \<Rightarrow> nat \<Rightarrow> nat option \<times> nat" where
  "brc_findrecord_in buf ptr endp bid =
     (if ptr + 6 < endp then
        let tbid = brc_read_bid buf ptr; num = brc_read_num buf (ptr + 4); tmpp = ptr + rec_len num in
        if tmpp > endp then (None, endp - ptr)
        else if tbid = bid then (Some ptr, num)
        else brc_findrecord_in buf tmpp endp bid
      else (None, 0))"
  by pat_completeness auto
termination
  by (relation "measure (\<lambda>(buf, ptr, endp, bid). endp - ptr)") (auto simp: rec_len_def)

declare brc_findrecord_in.simps [simp del]

definition read_list :: "byte list \<Rightarrow> nat \<Rightarrow> nat \<Rightarrow> brc_rec list" where
  "read_list buf p num = map (\<lambda>i. bytes_rec (take 8 (drop (p + 8 * i) buf))) [0..<num]"

definition brc_find_record :: "brc_state \<Rightarrow> nat \<Rightarrow> brc_rec list option" where
  "brc_find_record s bid =
     (case brc_findrecord_in (brc_buf s) 0 (brc_size s) bid of
        (Some p, num) \<Rightarrow> Some (read_list (brc_buf s) (p + 6) num)
      | (None, _) \<Rightarrow> None)"

definition brc_putrecord :: "u32 \<Rightarrow> byte list \<Rightarrow> nat \<Rightarrow> nat \<Rightarrow> nat \<Rightarrow> nat \<Rightarrow> brc_rec list \<Rightarrow> byte list \<times> nat" where
  "brc_putrecord expire buf ptr endp bid num list =
     (if num > 0 \<and> create (list ! 0) > expire \<and> ptr + 6 < endp then
        let num' = (if num > BRC_MAXNUM then BRC_MAXNUM else num);
            buf1 = write_at buf ptr (to_le 4 bid @ to_le 2 num');
            tmp = ptr + 6 + num' * 8;
            buf2 = (if tmp \<le> endp then write_at buf1 (ptr + 6) (concat (map rec_bytes (take num' list))) else buf1) in
        (buf2, tmp)
      else (buf, ptr))"

section \<open>Memory\<close>

definition brc_enlarge_buf :: "(nat \<Rightarrow> byte) \<Rightarrow> byte list \<Rightarrow> bool \<times> byte list" where
  "brc_enlarge_buf junk buf =
     (if length buf \<ge> BRC_MAXSIZE then (False, buf)
      else (True, buf @ map junk [length buf..<length buf + BRC_BLOCKSIZE]))"

definition brc_get_buf :: "(nat \<Rightarrow> byte) \<Rightarrow> nat \<Rightarrow> byte list" where
  "brc_get_buf junk sz =
     (let a = (if sz = 0 then BRC_BLOCKSIZE
               else (sz + BRC_BLOCKSIZE - 1) div BRC_BLOCKSIZE * BRC_BLOCKSIZE) in
      map junk [0..<min a BRC_MAXSIZE])"

text \<open>\<open>while (brc_size + new_size > brc_alloc && brc_enlarge_buf());\<close>\<close>

function enlarge_loop :: "(nat \<Rightarrow> byte) \<Rightarrow> nat \<Rightarrow> byte list \<Rightarrow> byte list" where
  "enlarge_loop junk need buf =
     (if need > length buf \<and> fst (brc_enlarge_buf junk buf)
      then enlarge_loop junk need (snd (brc_enlarge_buf junk buf)) else buf)"
  by pat_completeness auto
termination
  by (relation "measure (\<lambda>(junk, need, buf). need - length buf)") (auto simp: brc_enlarge_buf_def split: if_splits)

declare enlarge_loop.simps [simp del]

section \<open>Compaction\<close>

text \<open>The scan of \<open>brc_compact_tail_drop\<close> for the last whole record.\<close>

function scan_last :: "byte list \<Rightarrow> nat \<Rightarrow> nat \<Rightarrow> nat option \<Rightarrow> nat option" where
  "scan_last buf ptr endp last_rec =
     (if ptr + 6 < endp then
        let len = rec_len (brc_read_num buf (ptr + 4)) in
        if ptr + len > endp then last_rec else scan_last buf (ptr + len) endp (Some ptr)
      else last_rec)"
  by pat_completeness auto
termination
  by (relation "measure (\<lambda>(buf, ptr, endp, l). endp - ptr)") (auto simp: rec_len_def)

declare scan_last.simps [simp del]

lemma scan_last_step:
  "ptr + 6 < endp \<Longrightarrow> ptr + rec_len (brc_read_num buf (ptr + 4)) \<le> endp \<Longrightarrow>
     scan_last buf ptr endp l = scan_last buf (ptr + rec_len (brc_read_num buf (ptr + 4))) endp (Some ptr)"
  "\<not> (ptr + 6 < endp \<and> ptr + rec_len (brc_read_num buf (ptr + 4)) \<le> endp) \<Longrightarrow> scan_last buf ptr endp l = l"
  by (auto simp: scan_last.simps [of buf ptr endp l] Let_def)

lemma scan_last_less:
  "scan_last buf ptr endp l = Some p \<Longrightarrow> (\<And>q. l = Some q \<Longrightarrow> q < endp) \<Longrightarrow> p < endp"
proof (induction buf ptr endp l rule: scan_last.induct)
  case (1 buf ptr endp l)
  show ?case
  proof (cases "ptr + 6 < endp \<and> ptr + rec_len (brc_read_num buf (ptr + 4)) \<le> endp")
    case True
    then show ?thesis using "1.IH" [OF _ refl] "1.prems"(1) scan_last_step(1) [of ptr endp buf l] by auto
  next
    case False
    then show ?thesis using "1.prems" scan_last_step(2) by simp
  qed
qed

function brc_compact_tail_drop :: "byte list \<Rightarrow> nat \<Rightarrow> nat \<Rightarrow> nat" where
  "brc_compact_tail_drop buf sz needed =
     (if sz + needed > BRC_MAXSIZE \<and> sz > 0 then
        case scan_last buf 0 sz None of
          Some p \<Rightarrow> brc_compact_tail_drop buf p needed
        | None \<Rightarrow> sz
      else sz)"
  by pat_completeness auto
termination
  by (relation "measure (\<lambda>(buf, sz, needed). sz)") (auto dest: scan_last_less)

declare brc_compact_tail_drop.simps [simp del]

text \<open>The scan of \<open>brc_compact\<close> for the last record with more than one entry.\<close>

function scan_candidate :: "byte list \<Rightarrow> nat \<Rightarrow> nat \<Rightarrow> nat \<Rightarrow> nat option \<Rightarrow> nat option" where
  "scan_candidate buf ptr endp protect cand =
     (if ptr + 6 < endp then
        let bid = brc_read_bid buf ptr; num = brc_read_num buf (ptr + 4); len = rec_len num in
        if ptr + len > endp then cand
        else scan_candidate buf (ptr + len) endp protect (if bid \<noteq> protect \<and> num > 1 then Some ptr else cand)
      else cand)"
  by pat_completeness auto
termination
  by (relation "measure (\<lambda>(buf, ptr, endp, protect, c). endp - ptr)") (auto simp: rec_len_def)

declare scan_candidate.simps [simp del]

definition cand_ok :: "byte list \<Rightarrow> nat \<Rightarrow> nat \<Rightarrow> bool" where
  "cand_ok buf endp p \<longleftrightarrow>
     brc_read_num buf (p + 4) > 1 \<and> p + rec_len (brc_read_num buf (p + 4)) \<le> endp"

lemma scan_candidate_step:
  "ptr + 6 < endp \<Longrightarrow> ptr + rec_len (brc_read_num buf (ptr + 4)) \<le> endp \<Longrightarrow>
     scan_candidate buf ptr endp protect c =
       scan_candidate buf (ptr + rec_len (brc_read_num buf (ptr + 4))) endp protect
         (if brc_read_bid buf ptr \<noteq> protect \<and> brc_read_num buf (ptr + 4) > 1 then Some ptr else c)"
  "\<not> (ptr + 6 < endp \<and> ptr + rec_len (brc_read_num buf (ptr + 4)) \<le> endp) \<Longrightarrow>
     scan_candidate buf ptr endp protect c = c"
  by (auto simp: scan_candidate.simps [of buf ptr endp protect c] Let_def)

lemma scan_candidate_ok:
  "scan_candidate buf ptr endp protect c = Some p \<Longrightarrow> (\<And>q. c = Some q \<Longrightarrow> cand_ok buf endp q) \<Longrightarrow> cand_ok buf endp p"
proof (induction buf ptr endp protect c rule: scan_candidate.induct)
  case (1 buf ptr endp protect c)
  let ?n = "brc_read_num buf (ptr + 4)"
  let ?c = "if brc_read_bid buf ptr \<noteq> protect \<and> ?n > 1 then Some ptr else c"
  show ?case
  proof (cases "ptr + 6 < endp \<and> ptr + rec_len ?n \<le> endp")
    case True
    have "cand_ok buf endp q" if "?c = Some q" for q
      using that True "1.prems"(2) by (auto simp: cand_ok_def split: if_splits)
    moreover have "scan_candidate buf (ptr + rec_len ?n) endp protect ?c = Some p"
      using "1.prems"(1) scan_candidate_step(1) True by metis
    moreover have "\<not> endp < ptr + rec_len ?n" using True by simp
    ultimately show ?thesis using "1.IH" [OF _ refl refl refl] True by blast
  next
    case False
    then show ?thesis using "1.prems" scan_candidate_step(2) by simp
  qed
qed

text \<open>Cutting the record at \<open>c\<close> down to its first entry; the buffer and \<open>brc_size\<close>.\<close>

definition compact_at :: "byte list \<Rightarrow> nat \<Rightarrow> nat \<Rightarrow> byte list \<times> nat" where
  "compact_at buf sz c =
     (let cnum = brc_read_num buf (c + 4);
          old_len = rec_len cnum; new_len = rec_len 1; diff = old_len - new_len;
          tail = c + old_len; tail_size = sz - tail;
          buf1 = brc_write_num buf (c + 4) 1;
          buf2 = (if tail_size > 0 then write_at buf1 (c + new_len) (take tail_size (drop tail buf1)) else buf1) in
      (buf2, sz - diff))"

function brc_compact :: "byte list \<Rightarrow> nat \<Rightarrow> nat \<Rightarrow> nat \<Rightarrow> byte list \<times> nat" where
  "brc_compact buf sz needed protect =
     (if sz + needed > BRC_MAXSIZE \<and> sz > 0 then
        case scan_candidate buf 0 sz protect None of
          None \<Rightarrow> (buf, sz)
        | Some c \<Rightarrow> brc_compact (fst (compact_at buf sz c)) (snd (compact_at buf sz c)) needed protect
      else (buf, sz))"
  by pat_completeness auto
termination
proof (relation "measure (\<lambda>(buf, sz, needed, protect). sz)", goal_cases)
  case (2 buf sz needed protect c)
  then have "cand_ok buf sz c" using scan_candidate_ok by blast
  then have "brc_read_num buf (c + 4) > 1" "sz > 0" using 2 by (auto simp: cand_ok_def)
  then show ?case by (simp add: compact_at_def Let_def rec_len_def)
qed simp

declare brc_compact.simps [simp del]

section \<open>Inserting a record\<close>

text \<open>\<open>while (num > 0 && time4_lt(list[num - 1].create, brc_expire_time)) num--;\<close>\<close>

fun trim_expired :: "u32 \<Rightarrow> brc_rec list \<Rightarrow> nat \<Rightarrow> nat" where
  "trim_expired expire list 0 = 0"
| "trim_expired expire list (Suc n) = (if create (list ! n) < expire then trim_expired expire list n else Suc n)"

text \<open>From ``insert at the head of \<open>brc_buf\<close>'' on, for \<open>num > 0\<close>.\<close>

definition insert_head :: "(nat \<Rightarrow> byte) \<Rightarrow> nat \<Rightarrow> nat \<Rightarrow> brc_rec list \<Rightarrow> brc_state \<Rightarrow> brc_state" where
  "insert_head junk bid num list s =
     (let new_size = rec_len num;
          (buf1, size1) = (if brc_size s + new_size > BRC_MAXSIZE
                           then brc_compact (brc_buf s) (brc_size s) new_size bid else (brc_buf s, brc_size s));
          num2 = (if size1 + new_size > BRC_MAXSIZE \<and> num > 1 then 1 else num);
          new_size2 = rec_len num2;
          buf2 = (if buf1 = [] then brc_get_buf junk new_size2 else buf1);
          buf3 = enlarge_loop junk (size1 + new_size2) buf2;
          size2 = (if size1 + new_size2 > BRC_MAXSIZE then brc_compact_tail_drop buf3 size1 new_size2 else size1) in
      if size2 + new_size2 \<le> BRC_MAXSIZE then
        let buf4 = (if size2 > 0 then write_at buf3 new_size2 (take size2 buf3) else buf3) in
        s\<lparr>brc_buf := fst (brc_putrecord (brc_expire_time s) buf4 0 new_size2 bid num2 list),
          brc_size := size2 + new_size2, brc_changed := False\<rparr>
      else s\<lparr>brc_buf := buf3, brc_size := size2, brc_changed := False\<rparr>)"

definition brc_insert_record :: "(nat \<Rightarrow> byte) \<Rightarrow> nat \<Rightarrow> nat \<Rightarrow> brc_rec list \<Rightarrow> brc_state \<Rightarrow> brc_state" where
  "brc_insert_record junk bid num0 list s0 =
     (let s = s0\<lparr>brc_needs_file_update := True\<rparr>;
          (found, tnum) = brc_findrecord_in (brc_buf s) 0 (brc_size s) bid;
          num = trim_expired (brc_expire_time s) list num0;
          new_size = (if num = 0 then 0 else rec_len num) in
      case found of
        Some ptr \<Rightarrow>
          let len = rec_len tnum in
          if ptr = 0 \<and> new_size = len then
            s\<lparr>brc_buf := fst (brc_putrecord (brc_expire_time s) (brc_buf s) 0 new_size bid num list), brc_changed := False\<rparr>
          else
            let end_size = brc_size s - (ptr + len);
                s' = s\<lparr>brc_buf := (if end_size > 0
                                   then write_at (brc_buf s) ptr (take end_size (drop (ptr + len) (brc_buf s)))
                                   else brc_buf s),
                       brc_size := brc_size s - len\<rparr> in
            if num = 0 then s'\<lparr>brc_changed := False\<rparr> else insert_head junk bid num list s'
      | None \<Rightarrow>
          let s' = s\<lparr>brc_size := brc_size s - tnum\<rparr> in
          if num = 0 then s'\<lparr>brc_changed := False\<rparr> else insert_head junk bid num list s')"

section \<open>Files and initialisation\<close>

definition brc_release :: "brc_state \<Rightarrow> brc_state" where
  "brc_release s = s\<lparr>brc_buf := [], brc_changed := False, brc_size := 0\<rparr>"

text \<open>The user's file, if there is one, is \<open>brc_file\<close>.\<close>

definition load_local_brc :: "(nat \<Rightarrow> byte) \<Rightarrow> brc_state \<Rightarrow> brc_state" where
  "load_local_brc junk s0 =
     (let s = s0\<lparr>brc_size := 0\<rparr> in
      case brc_file s of
        None \<Rightarrow> s
      | Some f \<Rightarrow>
          let buf = brc_get_buf junk (length f); n = min (length f) (length buf) in
          s\<lparr>brc_buf := write_at buf 0 (take n f), brc_size := n, brc_needs_file_update := False\<rparr>)"

text \<open>\<open>save_local_brc\<close>; \<open>ok\<close> tells whether the temporary file can be written completely.\<close>

definition save_local_brc :: "bool \<Rightarrow> brc_state \<Rightarrow> bool \<times> brc_state" where
  "save_local_brc ok s =
     (if \<not> brc_needs_file_update s then (True, s)
      else if brc_buf s \<noteq> [] then
        (ok, s\<lparr>brc_file := (if ok then Some (take (brc_size s) (brc_buf s)) else brc_file s),
               brc_needs_file_update := False\<rparr>)
      else (True, s\<lparr>brc_needs_file_update := False\<rparr>))"

definition read_brc_buf :: "(nat \<Rightarrow> byte) \<Rightarrow> brc_state \<Rightarrow> brc_state" where
  "read_brc_buf junk s = (if brc_buf s \<noteq> [] then s else load_local_brc junk s)"

definition brc_initialize :: "(nat \<Rightarrow> byte) \<Rightarrow> u32 \<Rightarrow> brc_state \<Rightarrow> brc_state" where
  "brc_initialize junk login_start_time s =
     (if brc_initialized s then s
      else read_brc_buf junk (s\<lparr>brc_initialized := True, brc_expire_time := login_start_time - 365 * 86400\<rparr>))"

text \<open>\<open>userlevel\<close> is \<open>cuser.userlevel\<close>.\<close>

definition brc_update :: "(nat \<Rightarrow> byte) \<Rightarrow> u32 \<Rightarrow> nat \<Rightarrow> brc_state \<Rightarrow> brc_state" where
  "brc_update junk login_start_time userlevel s =
     (if brc_currbid s \<noteq> 0 \<and> brc_changed s \<and> userlevel \<noteq> 0 \<and> brc_num s > 0 then
        let s' = brc_initialize junk login_start_time s in
        brc_insert_record junk (brc_currbid s') (brc_num s') (brc_list s') s'
      else s)"

definition brc_finalize :: "(nat \<Rightarrow> byte) \<Rightarrow> u32 \<Rightarrow> nat \<Rightarrow> bool \<Rightarrow> brc_state \<Rightarrow> brc_state" where
  "brc_finalize junk login_start_time userlevel ok s =
     (if \<not> brc_initialized s then s
      else (brc_release (snd (save_local_brc ok (brc_update junk login_start_time userlevel s))))
             \<lparr>brc_initialized := False\<rparr>)"

section \<open>The current board\<close>

text \<open>
  \<open>brc_read_record(brc_currbid, &brc_num, brc_list)\<close>; an entry count above the
  size of \<open>brc_list\<close> fails the assertion.
\<close>

definition brc_read_record :: "nat \<Rightarrow> brc_state \<Rightarrow> (nat \<times> brc_state) option" where
  "brc_read_record bid s =
     (case brc_findrecord_in (brc_buf s) 0 (brc_size s) bid of
        (Some p, num) \<Rightarrow>
          if num > BRC_MAXNUM then None
          else
            let l = write_at (brc_list s) 0 (read_list (brc_buf s) (p + 6) num);
                l' = (if num < BRC_MAXNUM then l[num := \<lparr>create = 0, modified = 0\<rparr>] else l) in
            Some (num, s\<lparr>brc_num := num, brc_list := l'\<rparr>)
      | (None, _) \<Rightarrow>
          Some (0, s\<lparr>brc_num := 1, brc_list := (brc_list s)[0 := (brc_list s ! 0)\<lparr>create := 1\<rparr>]\<rparr>))"

text \<open>
  Entering a board: \<open>getbnum\<close>, \<open>MAX_BOARD\<close> and the names in \<open>bcache\<close> belong to the
  board cache and are parameters.  The result is the number of entries, the new
  \<open>currboard\<close> and \<open>currbid\<close>, and the state; a failed assertion is \<^const>\<open>None\<close>.
\<close>

definition brc_initial_board ::
  "(nat \<Rightarrow> byte) \<Rightarrow> u32 \<Rightarrow> nat \<Rightarrow> (cstr \<Rightarrow> nat) \<Rightarrow> nat \<Rightarrow> (nat \<Rightarrow> cstr) \<Rightarrow> cstr \<Rightarrow> cstr \<times> nat \<Rightarrow> cstr \<Rightarrow> brc_state \<Rightarrow>
     (nat \<times> (cstr \<times> nat) \<times> brc_state) option" where
  "brc_initial_board junk login_start_time userlevel getbnum max_board brdname default_board cur boardname s0 =
     (let s = brc_initialize junk login_start_time s0; (currboard, currbid) = cur in
      if currboard = boardname then
        if currbid = brc_currbid s then Some (brc_num s, cur, s) else None
      else
        let s1 = brc_update junk login_start_time userlevel s;
            bid = (if getbnum boardname = 0 then getbnum default_board else getbnum boardname) in
        if \<not> (1 \<le> bid \<and> bid \<le> max_board) then None
        else map_option (\<lambda>(n, s2). (n, (brdname bid, bid), s2)) (brc_read_record bid (s1\<lparr>brc_currbid := bid\<rparr>)))"

definition brc_trunc :: "(nat \<Rightarrow> byte) \<Rightarrow> nat \<Rightarrow> u32 \<Rightarrow> brc_state \<Rightarrow> brc_state" where
  "brc_trunc junk bid ftime s =
     (let r = \<lparr>create = ftime, modified = ftime\<rparr>; s' = brc_insert_record junk bid 1 [r] s in
      if bid = brc_currbid s' then s'\<lparr>brc_num := 1, brc_list := (brc_list s')[0 := r], brc_changed := False\<rparr> else s')"

definition brc_toggle_all_read :: "(nat \<Rightarrow> byte) \<Rightarrow> u32 \<Rightarrow> u32 \<Rightarrow> nat \<Rightarrow> bool \<Rightarrow> brc_state \<Rightarrow> brc_state" where
  "brc_toggle_all_read junk login_start_time now bid is_all_read s =
     brc_trunc junk bid (if is_all_read then now else 1) (brc_initialize junk login_start_time s)"

definition brc_toggle_read :: "(nat \<Rightarrow> byte) \<Rightarrow> u32 \<Rightarrow> nat \<Rightarrow> u32 \<Rightarrow> brc_state \<Rightarrow> brc_state" where
  "brc_toggle_read junk login_start_time bid newtime s =
     brc_trunc junk bid newtime (brc_initialize junk login_start_time s)"

text \<open>
  The loop of \<open>brc_addlist\<close> from index \<open>n\<close> on: the new \<open>brc_num\<close> and \<open>brc_list\<close>,
  and whether they changed.
\<close>

function addlist_loop :: "brc_rec \<Rightarrow> nat \<Rightarrow> nat \<Rightarrow> brc_rec list \<Rightarrow> nat \<times> brc_rec list \<times> bool" where
  "addlist_loop frec n num l =
     (if n < num then
        if create frec = create (l ! n) then
          if time4_is_invalid (modified frec) then (num, l, False)
          else
            let m = (if time4_is_invalid (modified (l ! n)) then 0 else modified (l ! n));
                l1 = l[n := (l ! n)\<lparr>modified := m\<rparr>] in
            if m < modified frec then (num, l1[n := (l1 ! n)\<lparr>modified := modified frec\<rparr>], True) else (num, l1, False)
        else if create frec > create (l ! n) then
          let num' = (if num < BRC_MAXNUM then num + 1 else num) in
          (num', take n l @ [frec] @ take (num' - 1 - n) (drop n l) @ drop num' l, True)
        else addlist_loop frec (n + 1) num l
      else (num, l, False))"
  by pat_completeness auto
termination by (relation "measure (\<lambda>(frec, n, num, l). num - n)") auto

declare addlist_loop.simps [simp del]

text \<open>\<open>brc_addlist\<close> after its checks; \<open>ctime\<close> is \<open>get_fhdr_stamp_ts(fname)\<close>.\<close>

definition brc_addlist :: "(nat \<Rightarrow> byte) \<Rightarrow> u32 \<Rightarrow> nat \<Rightarrow> u32 \<Rightarrow> u32 \<Rightarrow> brc_state \<Rightarrow> brc_state" where
  "brc_addlist junk login_start_time userlevel ctime mtime s0 =
     (if userlevel = 0 then s0
      else
        let s = brc_initialize junk login_start_time s0; frec = \<lparr>create = ctime, modified = mtime\<rparr> in
        if ctime \<le> brc_expire_time s then s
        else if brc_num s = 0 then
          s\<lparr>brc_list := (brc_list s)[0 := frec], brc_num := 1, brc_changed := True\<rparr>
        else if brc_num s = 1 \<and> ctime < create (brc_list s ! 0) then s
        else
          case addlist_loop frec 0 (brc_num s) (brc_list s) of (num, l, ch) \<Rightarrow>
            s\<lparr>brc_num := num, brc_list := l, brc_changed := (brc_changed s \<or> ch)\<rparr>)"

section \<open>Queries\<close>

text \<open>The entries consulted for a board: those of the current board, or those in the buffer.\<close>

definition board_recs :: "nat \<Rightarrow> brc_state \<Rightarrow> brc_rec list" where
  "board_recs bid s =
     (if brc_currbid s \<noteq> 0 \<and> bid = brc_currbid s then take (brc_num s) (brc_list s)
      else case brc_find_record s bid of Some l \<Rightarrow> l | None \<Rightarrow> [])"

fun unread_loop :: "u32 \<Rightarrow> u32 \<Rightarrow> brc_rec list \<Rightarrow> nat" where
  "unread_loop ftime mtime [] = 0"
| "unread_loop ftime mtime (r # rs) =
     (if ftime > create r then 1
      else if ftime = create r then
        let brcm = modified r in
        if mtime = 0 \<or> brcm = 0 then 0
        else if time4_is_invalid mtime \<or> time4_is_invalid brcm then 0
        else if mtime > brcm then 2 else 0
      else unread_loop ftime mtime rs)"

definition brc_unread_time :: "(nat \<Rightarrow> byte) \<Rightarrow> u32 \<Rightarrow> nat \<Rightarrow> u32 \<Rightarrow> u32 \<Rightarrow> brc_state \<Rightarrow> nat" where
  "brc_unread_time junk login_start_time bid ftime mtime s0 =
     (let s = brc_initialize junk login_start_time s0; bl = board_recs bid s in
      if ftime \<le> brc_expire_time s then 0
      else if bl = [] then 1
      else unread_loop ftime mtime bl)"

definition brc_unread :: "(nat \<Rightarrow> byte) \<Rightarrow> u32 \<Rightarrow> nat \<Rightarrow> cstr \<Rightarrow> u32 \<Rightarrow> brc_state \<Rightarrow> nat" where
  "brc_unread junk login_start_time bid fname mtime s =
     brc_unread_time junk login_start_time bid (get_fhdr_stamp_ts fname) mtime s"

text \<open>
  The loop of \<open>brc_search_read\<close>: the outcome and \<open>*result\<close>.
\<close>

function search_read_loop :: "u32 \<Rightarrow> bool \<Rightarrow> brc_rec list \<Rightarrow> nat \<Rightarrow> int \<times> u32 option" where
  "search_read_loop ftime forward bl i =
     (let newer = (1, Some (create (bl ! (i - 1)))) in
      if i < length bl then
        if ftime > create (bl ! i) then
          if forward then if i \<noteq> 0 then newer else (0, None)
          else (1, Some (create (bl ! i)))
        else if ftime = create (bl ! i) then
          if forward \<and> i \<noteq> 0 then newer
          else if \<not> forward \<and> i + 1 < length bl then (1, Some (create (bl ! (i + 1))))
          else (0, None)
        else search_read_loop ftime forward bl (i + 1)
      else if forward \<and> i \<noteq> 0 then newer
      else (0, None))"
  by pat_completeness auto
termination by (relation "measure (\<lambda>(ftime, forward, bl, i). length bl - i)") auto

declare search_read_loop.simps [simp del]

definition brc_search_read :: "(nat \<Rightarrow> byte) \<Rightarrow> u32 \<Rightarrow> nat \<Rightarrow> u32 \<Rightarrow> bool \<Rightarrow> brc_state \<Rightarrow> int \<times> u32 option" where
  "brc_search_read junk login_start_time bid ftime forward s0 =
     (let s = brc_initialize junk login_start_time s0; bl = board_recs bid s in
      if bl = [] \<or> length bl = 1 \<and> create (bl ! 0) = 1 then (-1, None)
      else search_read_loop ftime forward bl 0)"

section \<open>The abstract buffer\<close>

text \<open>
  The buffer stands for a list of boards with their entries, most recently used
  first; \<open>encs\<close> is its layout in bytes.
\<close>

type_synonym entry = "nat \<times> brc_rec list"

definition enc :: "entry \<Rightarrow> byte list" where
  "enc e = to_le 4 (fst e) @ to_le 2 (length (snd e)) @ concat (map rec_bytes (snd e))"

abbreviation encs :: "entry list \<Rightarrow> byte list" where "encs es \<equiv> concat (map enc es)"

definition entry_ok :: "entry \<Rightarrow> bool" where
  "entry_ok e \<longleftrightarrow> fst e < 2 ^ 32 \<and> 0 < length (snd e) \<and> length (snd e) < 2 ^ 16"

definition holds :: "byte list \<Rightarrow> nat \<Rightarrow> entry list \<Rightarrow> bool" where
  "holds buf n es \<longleftrightarrow> n \<le> length buf \<and> take n buf = encs es \<and> list_all entry_ok es"

definition brc_inv :: "brc_state \<Rightarrow> entry list \<Rightarrow> bool" where
  "brc_inv s es \<longleftrightarrow> holds (brc_buf s) (brc_size s) es \<and> brc_size s \<le> BRC_MAXSIZE \<and> distinct (map fst es)"

definition without :: "nat \<Rightarrow> entry list \<Rightarrow> entry list" where
  "without bid es = filter (\<lambda>e. fst e \<noteq> bid) es"

text \<open>An entry that compaction may have cut down to its newest time.\<close>

definition shrunk :: "entry \<Rightarrow> entry \<Rightarrow> bool" where
  "shrunk e e' \<longleftrightarrow> e' = e \<or> e' = (fst e, [hd (snd e)])"

text \<open>
  The reference for inserting: the board moves to the front of the list.  Without room, boards from the end of the list on are
  cut to their newest entry, one at a time; if that is not enough, the board itself is cut, and then boards are dropped
  from the end.
\<close>

primrec cut_last :: "entry list \<Rightarrow> entry list option" where
  "cut_last [] = None"
| "cut_last (e # es) =
     (case cut_last es of
        Some es' \<Rightarrow> Some (e # es')
      | None \<Rightarrow> if 1 < length (snd e) then Some ((fst e, [hd (snd e)]) # es) else None)"

lemma cut_last_less: "cut_last es = Some es' \<Longrightarrow> sum_list (map (length \<circ> snd) es') < sum_list (map (length \<circ> snd) es)"
  by (induction es arbitrary: es') (auto split: option.splits if_splits)

function cut_old :: "nat \<Rightarrow> entry list \<Rightarrow> entry list" where
  "cut_old need es =
     (if length (encs es) + need > BRC_MAXSIZE
      then case cut_last es of None \<Rightarrow> es | Some es' \<Rightarrow> cut_old need es' else es)"
  by pat_completeness auto
termination by (relation "measure (\<lambda>(need, es). sum_list (map (length \<circ> snd) es))") (auto dest: cut_last_less)

declare cut_old.simps [simp del]

function drop_old :: "nat \<Rightarrow> entry list \<Rightarrow> entry list" where
  "drop_old need es =
     (if length (encs es) + need > BRC_MAXSIZE \<and> es \<noteq> [] then drop_old need (butlast es) else es)"
  by pat_completeness auto
termination by (relation "measure (\<lambda>(need, es). length es)") auto

declare drop_old.simps [simp del]

definition mru_insert :: "nat \<Rightarrow> brc_rec list \<Rightarrow> entry list \<Rightarrow> entry list" where
  "mru_insert bid l es =
     (let old = without bid es in
      if l = [] then old
      else let ys = cut_old (rec_len (length l)) old;
               l' = (if length (encs ys) + rec_len (length l) > BRC_MAXSIZE \<and> 1 < length l then [hd l] else l) in
           (bid, l') # drop_old (rec_len (length l')) ys)"

section \<open>Lemmas on the layout\<close>

lemma length_rec_bytes [simp]: "length (rec_bytes r) = 8"
  by (simp add: rec_bytes_def)

lemma length_recs [simp]: "length (concat (map rec_bytes l)) = 8 * length l"
  by (induction l) simp_all

lemma length_enc [simp]: "length (enc e) = rec_len (length (snd e))"
  by (simp add: enc_def rec_len_def)

lemma rec_len_gt: "entry_ok e \<Longrightarrow> 6 < rec_len (length (snd e))"
  by (simp add: entry_ok_def rec_len_def)

lemma holds_size: "holds buf n es \<Longrightarrow> n = length (encs es)"
  unfolding holds_def by (metis length_take min.absorb2)

lemma take_drop_take: "p + k \<le> n \<Longrightarrow> take k (drop p xs) = take k (drop p (take n xs))"
  by (simp add: drop_take min_def)

lemma holds_read:
  assumes "holds buf n (pre @ e # post)" "p = length (encs pre)"
  shows "brc_read_bid buf p = fst e" "brc_read_num buf (p + 4) = length (snd e)"
    "p + rec_len (length (snd e)) \<le> n" "p + 6 < n"
proof -
  have n: "n = length (encs pre) + rec_len (length (snd e)) + length (encs post)"
    using holds_size [OF assms(1)] by simp
  have e: "entry_ok e" and t: "take n buf = encs pre @ enc e @ encs post" using assms(1) by (auto simp: holds_def)
  show l: "p + rec_len (length (snd e)) \<le> n" using n assms(2) by simp
  then show "p + 6 < n" using rec_len_gt [OF e] by linarith
  have d: "drop p (take n buf) = enc e @ encs post" using t assms(2) by simp
  have "take 4 (drop p buf) = to_le 4 (fst e)"
    using take_drop_take [of p 4 n buf] \<open>p + 6 < n\<close> d by (simp add: enc_def)
  then show "brc_read_bid buf p = fst e" using e by (simp add: brc_read_bid_def from_to_le_id entry_ok_def)
  have "take 2 (drop (p + 4) buf) = take 2 (drop 4 (drop p (take n buf)))"
    using take_drop_take [of "p + 4" 2 n buf] \<open>p + 6 < n\<close> by (simp add: add.commute)
  then have "take 2 (drop (p + 4) buf) = to_le 2 (length (snd e))" using d by (simp add: enc_def)
  then show "brc_read_num buf (p + 4) = length (snd e)" using e by (simp add: brc_read_num_def from_to_le_id entry_ok_def)
qed

lemma holds_end: "holds buf n pre \<Longrightarrow> \<not> length (encs pre) + 6 < n"
  using holds_size by fastforce

lemma holds_append1: "holds buf n (pre @ e # post) \<longleftrightarrow> holds buf n ((pre @ [e]) @ post)"
  by simp

lemma find_entries:
  assumes "holds buf n (pre @ es)" "p = length (encs pre)"
  shows "(bid \<notin> fst ` set es \<and> brc_findrecord_in buf p n bid = (None, 0)) \<or>
    (\<exists>a l b. es = a @ (bid, l) # b \<and> bid \<notin> fst ` set a \<and>
       brc_findrecord_in buf p n bid = (Some (length (encs (pre @ a))), length l))"
  using assms
proof (induction es arbitrary: pre p)
  case Nil
  then show ?case using holds_end [of buf n pre] by (subst brc_findrecord_in.simps) simp
next
  case (Cons e es)
  note r = holds_read [OF Cons.prems]
  let ?q = "p + rec_len (length (snd e))"
  have f: "brc_findrecord_in buf p n bid = (if fst e = bid then (Some p, length (snd e)) else brc_findrecord_in buf ?q n bid)"
    using r by (subst brc_findrecord_in.simps) (simp add: Let_def not_less)
  show ?case
  proof (cases "fst e = bid")
    case True
    then have "e # es = [] @ (bid, snd e) # es \<and> bid \<notin> fst ` set [] \<and>
        brc_findrecord_in buf p n bid = (Some (length (encs (pre @ []))), length (snd e))"
      using f Cons.prems(2) by auto
    then show ?thesis by (intro disjI2 exI)
  next
    case False
    have "holds buf n ((pre @ [e]) @ es)" "?q = length (encs (pre @ [e]))" using Cons.prems by simp_all
    from Cons.IH [OF this] show ?thesis
    proof (elim disjE exE conjE)
      fix a l b
      assume "es = a @ (bid, l) # b" "bid \<notin> fst ` set a"
        "brc_findrecord_in buf ?q n bid = (Some (length (encs ((pre @ [e]) @ a))), length l)"
      then show ?thesis using f False by (intro disjI2 exI [of _ "e # a"] exI [of _ l] exI [of _ b]) auto
    qed (use f False in auto)
  qed
qed

lemma scan_last_entries:
  assumes "holds buf n (pre @ es)" "p = length (encs pre)"
  shows "scan_last buf p n c = (if es = [] then c else Some (length (encs (pre @ butlast es))))"
  using assms
proof (induction es arbitrary: pre p c)
  case Nil
  then show ?case using holds_end [of buf n pre] by (simp add: scan_last_step(2))
next
  case (Cons e es)
  note r = holds_read [OF Cons.prems]
  let ?q = "p + rec_len (length (snd e))"
  have "scan_last buf p n c = scan_last buf ?q n (Some p)" using r scan_last_step(1) [of p n buf c] by simp
  moreover have "holds buf n ((pre @ [e]) @ es)" "?q = length (encs (pre @ [e]))" using Cons.prems by simp_all
  ultimately show ?case using Cons.IH [of "pre @ [e]" ?q "Some p"] Cons.prems(2) by simp
qed

definition is_cand :: "nat \<Rightarrow> entry \<Rightarrow> bool" where
  "is_cand protect e \<longleftrightarrow> fst e \<noteq> protect \<and> 1 < length (snd e)"

lemma scan_candidate_entries:
  assumes "holds buf n (pre @ es)" "p = length (encs pre)"
  shows "(list_all (\<lambda>e. \<not> is_cand protect e) es \<and> scan_candidate buf p n protect c = c) \<or>
    (\<exists>a e b. es = a @ e # b \<and> is_cand protect e \<and> list_all (\<lambda>e. \<not> is_cand protect e) b \<and>
       scan_candidate buf p n protect c = Some (length (encs (pre @ a))))"
  using assms
proof (induction es arbitrary: pre p c)
  case Nil
  then show ?case using holds_end [of buf n pre] by (simp add: scan_candidate_step(2))
next
  case (Cons e es)
  note r = holds_read [OF Cons.prems]
  let ?q = "p + rec_len (length (snd e))" and ?c = "if is_cand protect e then Some p else c"
  have s: "scan_candidate buf p n protect c = scan_candidate buf ?q n protect ?c"
    using r scan_candidate_step(1) [of p n buf protect c] by (simp add: is_cand_def)
  have h: "holds buf n ((pre @ [e]) @ es)" "?q = length (encs (pre @ [e]))" using Cons.prems by simp_all
  from Cons.IH [OF h, of ?c] show ?case
  proof (elim disjE exE conjE)
    assume *: "list_all (\<lambda>e. \<not> is_cand protect e) es" "scan_candidate buf ?q n protect ?c = ?c"
    show ?thesis
    proof (cases "is_cand protect e")
      case True
      then have "e # es = [] @ e # es" "scan_candidate buf p n protect c = Some (length (encs (pre @ [])))"
        using s * Cons.prems(2) by auto
      then show ?thesis using True *(1) by blast
    qed (use s * in auto)
  next
    fix a e' b
    assume "es = a @ e' # b" "is_cand protect e'" "list_all (\<lambda>e. \<not> is_cand protect e) b"
      "scan_candidate buf ?q n protect ?c = Some (length (encs ((pre @ [e]) @ a)))"
    then show ?thesis using s by (intro disjI2 exI [of _ "e # a"] exI [of _ e'] exI [of _ b]) auto
  qed
qed

text \<open>The candidate is the entry the reference cuts.\<close>

lemma cut_last_None: "protect \<notin> fst ` set es \<Longrightarrow> cut_last es = None \<longleftrightarrow> list_all (\<lambda>e. \<not> is_cand protect e) es"
  by (induction es) (auto simp: is_cand_def split: option.splits)

lemma cut_last_cand:
  assumes "protect \<notin> fst ` set (a @ e # b)" "is_cand protect e" "list_all (\<lambda>e. \<not> is_cand protect e) b"
  shows "cut_last (a @ e # b) = Some (a @ (fst e, [hd (snd e)]) # b)"
  using assms cut_last_None [of protect b] by (induction a) (auto simp: is_cand_def)

section \<open>Lemmas on changing the buffer\<close>

text \<open>\<open>memmove\<close> of the part \<open>C\<close> over \<open>B\<close>.\<close>

lemma move_over:
  assumes "take n buf = A @ B @ C" "n \<le> length buf" "p = length A" "q = length A + length B"
  shows "take (n - length B) (if n - q > 0 then write_at buf p (take (n - q) (drop q buf)) else buf) = A @ C \<and>
    length (if n - q > 0 then write_at buf p (take (n - q) (drop q buf)) else buf) = length buf"
proof -
  have n: "n = length A + length B + length C" using assms(1,2) by (metis add.assoc length_append length_take min.absorb2)
  have A: "take (length A) buf = A"
    using arg_cong [OF assms(1), of "take (length A)"] n by (simp add: min_def)
  have C: "take (n - q) (drop q buf) = C"
  proof -
    have "take (n - q) (drop q buf) = drop q (take n buf)" by (simp add: drop_take)
    then show ?thesis using assms(1,4) by simp
  qed
  show ?thesis
  proof (cases "n - q > 0")
    case True
    then show ?thesis using A C n assms(2,3,4) by (auto simp: write_at_def)
  next
    case False
    then have "C = []" using n assms(4) by simp
    then show ?thesis using False A n by simp
  qed
qed

lemma take_write_at_inside:
  assumes "take n buf = A @ B @ C" "n \<le> length buf" "length B' = length B"
  shows "take n (write_at buf (length A) B') = A @ B' @ C" "length (write_at buf (length A) B') = length buf"
proof -
  have n: "n = length A + length B + length C" using assms(1,2) by (metis add.assoc length_append length_take min.absorb2)
  have A: "take (length A) buf = A"
    using arg_cong [OF assms(1), of "take (length A)"] n by (simp add: min_def)
  have "take (length C) (drop (length A + length B) buf) = drop (length A + length B) (take n buf)"
    using n by (simp add: drop_take)
  then have C: "take (length C) (drop (length A + length B) buf) = C" using assms(1) by simp
  show "take n (write_at buf (length A) B') = A @ B' @ C" using A C n assms(2,3) by (simp add: write_at_def)
  show "length (write_at buf (length A) B') = length buf" using n assms(2,3) by simp
qed

lemma compact_at_entries:
  assumes h: "holds buf n (a @ e # b)" and cand: "1 < length (snd e)"
  shows "holds (fst (compact_at buf n (length (encs a)))) (snd (compact_at buf n (length (encs a))))
      (a @ (fst e, [hd (snd e)]) # b) \<and>
    length (fst (compact_at buf n (length (encs a)))) = length buf \<and>
    snd (compact_at buf n (length (encs a))) < n"
proof -
  let ?c = "length (encs a)" and ?l = "snd e"
  have ne: "?l = hd ?l # tl ?l" using cand by (cases ?l) auto
  have num: "brc_read_num buf (?c + 4) = length ?l" using holds_read(2) [OF h refl] .
  have nl: "n \<le> length buf" and ok: "list_all entry_ok (a @ e # b)" using h by (auto simp: holds_def)
  define A where "A = encs a @ to_le 4 (fst e)"
  define R where "R = concat (map rec_bytes ?l) @ encs b"
  have t: "take n buf = A @ to_le 2 (length ?l) @ R" using h by (simp add: holds_def A_def R_def enc_def)
  let ?b1 = "brc_write_num buf (?c + 4) 1"
  have b1: "take n ?b1 = A @ to_le 2 1 @ R" "length ?b1 = length buf"
    using take_write_at_inside [OF t nl, of "to_le 2 1"] by (simp_all add: brc_write_num_def A_def add.commute)
  define A' where "A' = A @ to_le 2 1 @ rec_bytes (hd ?l)"
  define B where "B = concat (map rec_bytes (tl ?l))"
  have t1: "take n ?b1 = A' @ B @ encs b"
    unfolding b1(1) A'_def B_def R_def by (subst (1) ne) simp
  have len: "length A' = ?c + rec_len 1" "length A' + length B = ?c + rec_len (length ?l)"
    "length B = rec_len (length ?l) - rec_len 1"
    using cand by (auto simp: A'_def A_def B_def rec_len_def)
  let ?q = "?c + rec_len (length ?l)"
  let ?b2 = "if n - ?q > 0 then write_at ?b1 (?c + rec_len 1) (take (n - ?q) (drop ?q ?b1)) else ?b1"
  have ca: "compact_at buf n ?c = (?b2, n - length B)"
    unfolding compact_at_def Let_def num len(3) by (rule refl)
  have m: "take (n - length B) ?b2 = A' @ encs b \<and> length ?b2 = length ?b1"
    by (rule move_over [OF t1]) (use nl b1(2) len in auto)
  have e': "A' = encs a @ enc (fst e, [hd ?l])" by (simp add: A'_def A_def enc_def)
  have "entry_ok (fst e, [hd ?l])" using ok by (simp add: entry_ok_def)
  then have "holds ?b2 (n - length B) (a @ (fst e, [hd ?l]) # b)"
    using m e' nl b1(2) ok by (simp add: holds_def)
  moreover have "0 < length B" "0 < n" using cand holds_read(4) [OF h refl] by (auto simp: len(3) rec_len_def)
  ultimately show ?thesis unfolding ca using m b1(2) by simp
qed

lemma list_all2_shrunk_refl [simp]: "list_all2 shrunk es es"
  by (rule list_all2_refl) (simp add: shrunk_def)

lemma shrunk_trans: "shrunk e e' \<Longrightarrow> shrunk e' e'' \<Longrightarrow> shrunk e e''"
  by (auto simp: shrunk_def)

lemma list_all2_shrunk_trans:
  "list_all2 shrunk xs ys \<Longrightarrow> list_all2 shrunk ys zs \<Longrightarrow> list_all2 shrunk xs zs"
  by (rule list_all2_trans [OF shrunk_trans])

lemma old_fits: "length (encs es) + need \<le> BRC_MAXSIZE \<Longrightarrow> cut_old need es = es" "length (encs es) + need \<le> BRC_MAXSIZE \<Longrightarrow> drop_old need es = es"
  by (simp_all add: cut_old.simps [of need es] drop_old.simps [of need es])

lemma old_Nil: "cut_old need [] = []" "drop_old need [] = []"
  by (simp_all add: cut_old.simps [of need "[]"] drop_old.simps [of need "[]"])

lemma encs_Nil_iff: "length (encs es) = 0 \<longleftrightarrow> es = []"
  by (cases es) (auto simp: rec_len_def)

lemma brc_compact_entries:
  "holds buf n es \<Longrightarrow> protect \<notin> fst ` set es \<Longrightarrow>
     holds (fst (brc_compact buf n needed protect)) (snd (brc_compact buf n needed protect)) (cut_old needed es) \<and>
     length (fst (brc_compact buf n needed protect)) = length buf"
proof (induction buf n needed protect arbitrary: es rule: brc_compact.induct)
  case (1 buf n needed protect)
  have n: "n = length (encs es)" by (rule holds_size [OF "1.prems"(1)])
  show ?case
  proof (cases "n + needed > BRC_MAXSIZE \<and> n > 0")
    case True
    from scan_candidate_entries [of buf n "[]" es 0 protect None] "1.prems"
    consider (none) "list_all (\<lambda>e. \<not> is_cand protect e) es" "scan_candidate buf 0 n protect None = None"
      | (some) a e b where "es = a @ e # b" "is_cand protect e" "list_all (\<lambda>e. \<not> is_cand protect e) b"
          "scan_candidate buf 0 n protect None = Some (length (encs a))"
      by auto
    then show ?thesis
    proof cases
      case none
      then have "brc_compact buf n needed protect = (buf, n)" by (simp add: brc_compact.simps [of buf n needed protect])
      moreover have "cut_last es = None" using cut_last_None [OF "1.prems"(2)] none(1) by simp
      then have "cut_old needed es = es" by (subst cut_old.simps) simp
      ultimately show ?thesis using "1.prems" by simp
    next
      case some
      let ?c = "length (encs a)" and ?es = "a @ (fst e, [hd (snd e)]) # b"
      let ?r = "compact_at buf n ?c"
      have ca: "holds (fst ?r) (snd ?r) ?es" "length (fst ?r) = length buf"
        using compact_at_entries [of buf n a e b] "1.prems" some by (auto simp: is_cand_def)
      have u: "brc_compact buf n needed protect = brc_compact (fst ?r) (snd ?r) needed protect"
        using True some(4) by (subst brc_compact.simps) simp
      have c: "cut_old needed es = cut_old needed ?es"
        using True n cut_last_cand [of protect a e b] "1.prems"(2) some(1-3) by (subst cut_old.simps) simp
      have "protect \<notin> fst ` set ?es" using "1.prems"(2) some(1) by auto
      from "1.IH" [OF True some(4) ca(1) this] show ?thesis unfolding u c using ca(2) by simp
    qed
  next
    case False
    then have "brc_compact buf n needed protect = (buf, n)"
      by (simp only: brc_compact.simps [of buf n needed protect] if_False)
    moreover have "cut_old needed es = es"
      using False n old_fits(1) [of es needed] old_Nil encs_Nil_iff [of es] by (cases "es = []") auto
    ultimately show ?thesis using "1.prems" by simp
  qed
qed

lemma tail_drop_entries:
  "holds buf n es \<Longrightarrow> holds buf (brc_compact_tail_drop buf n needed) (drop_old needed es) \<and>
     (brc_compact_tail_drop buf n needed + needed \<le> BRC_MAXSIZE \<or> brc_compact_tail_drop buf n needed = 0)"
proof (induction buf n needed arbitrary: es rule: brc_compact_tail_drop.induct)
  case (1 buf n needed)
  have n: "n = length (encs es)" by (rule holds_size [OF "1.prems"])
  show ?case
  proof (cases "n + needed > BRC_MAXSIZE \<and> n > 0")
    case True
    then have ne: "es \<noteq> []" using n by auto
    have s: "scan_last buf 0 n None = Some (length (encs (butlast es)))"
      using scan_last_entries [of buf n "[]" es 0 None] "1.prems" ne by simp
    let ?m = "length (encs (butlast es))"
    have es: "es = butlast es @ [last es]" using ne by simp
    have "holds buf ?m (butlast es)"
    proof -
      have h0: "holds buf n (butlast es @ [last es])" using "1.prems" es by simp
      then have h: "take n buf = encs (butlast es) @ enc (last es)" "n \<le> length buf" "list_all entry_ok (butlast es)"
        unfolding holds_def by simp_all
      have m: "?m \<le> n" using holds_size [OF h0] by simp
      have "take ?m buf = take ?m (take n buf)" using m by (simp add: min_def)
      then have "take ?m buf = encs (butlast es)" unfolding h(1) by simp
      then show ?thesis using h(2,3) m by (simp add: holds_def)
    qed
    moreover have "brc_compact_tail_drop buf n needed = brc_compact_tail_drop buf ?m needed"
      using True s by (subst brc_compact_tail_drop.simps) simp
    moreover have "drop_old needed es = drop_old needed (butlast es)" using True n ne by (subst drop_old.simps) simp
    ultimately show ?thesis using "1.IH" [OF True s, of "butlast es"] by simp
  next
    case False
    then have "brc_compact_tail_drop buf n needed = n" by (subst brc_compact_tail_drop.simps) auto
    moreover have "drop_old needed es = es"
      using False n old_fits(2) [of es needed] old_Nil encs_Nil_iff [of es] by (cases "es = []") auto
    ultimately show ?thesis using "1.prems" False by auto
  qed
qed

text \<open>What the reference keeps: boards are only cut, then dropped from the end.\<close>

lemma cut_last_shrunk: "cut_last es = Some es' \<Longrightarrow> list_all2 shrunk es es'"
  by (induction es arbitrary: es') (auto simp: shrunk_def split: option.splits if_splits)

lemma cut_old_shrunk: "list_all2 shrunk es (cut_old need es)"
proof (induction need es rule: cut_old.induct)
  case (1 need es)
  show ?case
    using "1.IH" cut_last_shrunk [of es] list_all2_shrunk_trans [of es]
    by (subst cut_old.simps) (auto split: option.split)
qed

lemma drop_old_take: "\<exists>m. drop_old need es = take m es"
proof (induction need es rule: drop_old.induct)
  case (1 need es)
  show ?case
  proof (cases "length (encs es) + need > BRC_MAXSIZE \<and> es \<noteq> []")
    case True
    then obtain m where "drop_old need (butlast es) = take m (butlast es)" using "1.IH" by blast
    moreover have "take m (butlast es) = take (min m (length es - 1)) es" by (simp add: butlast_conv_take min.commute)
    moreover have "drop_old need es = drop_old need (butlast es)" using True by (subst drop_old.simps) simp
    ultimately show ?thesis by auto
  next
    case False
    then have "drop_old need es = es" by (subst drop_old.simps) auto
    then show ?thesis by (intro exI [of _ "length es"]) simp
  qed
qed

section \<open>Lemmas on inserting\<close>

lemma enlarge_loop_ok:
  "\<exists>x. enlarge_loop junk need buf = buf @ x \<and> (need \<le> length (buf @ x) \<or> BRC_MAXSIZE \<le> length (buf @ x))"
proof (induction junk need buf rule: enlarge_loop.induct)
  case (1 junk need buf)
  show ?case
  proof (cases "need > length buf \<and> fst (brc_enlarge_buf junk buf)")
    case True
    obtain y where y: "snd (brc_enlarge_buf junk buf) = buf @ y"
      by (cases "BRC_MAXSIZE \<le> length buf") (auto simp: brc_enlarge_buf_def)
    have "enlarge_loop junk need buf = enlarge_loop junk need (snd (brc_enlarge_buf junk buf))"
      using True by (simp add: enlarge_loop.simps [of junk need buf])
    then show ?thesis using "1.IH" [OF True] y by auto
  next
    case False
    then have "enlarge_loop junk need buf = buf" by (simp only: enlarge_loop.simps [of junk need buf] if_False)
    moreover have "need \<le> length buf \<or> BRC_MAXSIZE \<le> length buf"
      using False by (auto simp: brc_enlarge_buf_def split: if_splits)
    ultimately show ?thesis by simp
  qed
qed

lemma length_get_buf: "n \<le> BRC_MAXSIZE \<Longrightarrow> n \<le> length (brc_get_buf junk n)"
  unfolding brc_get_buf_def by (simp add: Let_def) (use div_mult_mod_eq [of "n + 1023" 1024] in linarith)

lemma write_at_write_at:
  "length x + length y \<le> length b \<Longrightarrow> write_at (write_at b 0 x) (length x) y = write_at b 0 (x @ y)"
  by (simp add: write_at_def add.commute)

lemma put_entry:
  assumes "0 < num" "num \<le> BRC_MAXNUM" "num \<le> length list" "expire < create (list ! 0)"
    "rec_len num \<le> n" "n \<le> length buf" "drop (rec_len num) (take n buf) = encs zs"
  shows "take n (fst (brc_putrecord expire buf 0 (rec_len num) bid num list)) = enc (bid, take num list) @ encs zs \<and>
    length (fst (brc_putrecord expire buf 0 (rec_len num) bid num list)) = length buf"
proof -
  let ?h = "to_le 4 bid @ to_le 2 num" and ?r = "concat (map rec_bytes (take num list))"
  have l: "length ?h = 6" "length ?r = 8 * num" using assms(3) by simp_all
  have e: "?h @ ?r = enc (bid, take num list)" using assms(3) by (simp add: enc_def)
  have "fst (brc_putrecord expire buf 0 (rec_len num) bid num list) = write_at (write_at buf 0 ?h) 6 ?r"
    using assms(1,2,4) by (simp add: brc_putrecord_def Let_def rec_len_def)
  also have "\<dots> = write_at buf 0 (?h @ ?r)"
    using write_at_write_at [of ?h ?r buf] l assms(5,6) by (simp add: rec_len_def)
  finally have p: "fst (brc_putrecord expire buf 0 (rec_len num) bid num list) = write_at buf 0 (enc (bid, take num list))"
    unfolding e .
  have le: "length (enc (bid, take num list)) = rec_len num" using assms(3) by simp
  have "take (n - rec_len num) (drop (rec_len num) buf) = encs zs" using assms(7) by (simp add: drop_take)
  then show ?thesis unfolding p using le assms(5,6) by (simp add: write_at_def)
qed

lemma shrunk_fst: "list_all2 shrunk es ys \<Longrightarrow> map fst ys = map fst es"
  by (induction rule: list_all2_induct) (auto simp: shrunk_def)

lemma holds_write_head:
  assumes "holds buf n zs" "k + n \<le> length buf"
  shows "drop k (take (n + k) (if n > 0 then write_at buf k (take n buf) else buf)) = encs zs \<and>
    length (if n > 0 then write_at buf k (take n buf) else buf) = length buf"
proof (cases "n > 0")
  case True
  then show ?thesis using assms holds_size [OF assms(1)] by (simp add: holds_def write_at_def)
next
  case False
  then show ?thesis using assms by (simp add: holds_def)
qed

text \<open>The stages of \<open>insert_head\<close>: compaction, then room for the new record at the head.\<close>

lemma head_compact:
  assumes h: "holds buf sz es" and "bid \<notin> fst ` set es"
    and r: "(if sz + new > BRC_MAXSIZE then brc_compact buf sz new bid else (buf, sz)) = (buf1, size1)"
  shows "holds buf1 size1 (cut_old new es)"
proof (cases "sz + new > BRC_MAXSIZE")
  case True
  then have "brc_compact buf sz new bid = (buf1, size1)" using r by simp
  then show ?thesis using brc_compact_entries [OF h assms(2), of new] by simp
next
  case False
  then show ?thesis using h r holds_size [OF h] old_fits(1) [of es new] by simp
qed

lemma head_room:
  fixes junk :: "nat \<Rightarrow> byte"
  assumes h: "holds buf1 size1 ys" and small: "new \<le> BRC_MAXSIZE"
  defines "buf2 \<equiv> if buf1 = [] then brc_get_buf junk new else buf1"
  defines "buf3 \<equiv> enlarge_loop junk (size1 + new) buf2"
  defines "size2 \<equiv> if size1 + new > BRC_MAXSIZE then brc_compact_tail_drop buf3 size1 new else size1"
  shows "holds buf3 size2 (drop_old new ys) \<and> size2 + new \<le> BRC_MAXSIZE \<and> size2 + new \<le> length buf3"
proof -
  obtain x where x: "buf3 = buf2 @ x" "size1 + new \<le> length buf3 \<or> BRC_MAXSIZE \<le> length buf3"
    using enlarge_loop_ok [of junk "size1 + new" buf2] by (auto simp: buf3_def)
  have h3: "holds buf3 size1 ys"
  proof (cases "buf1 = []")
    case True
    then have "size1 = 0" "encs ys = []" using h by (auto simp: holds_def)
    then show ?thesis using h by (simp add: holds_def)
  next
    case False
    then show ?thesis using h x(1) by (auto simp: holds_def buf2_def)
  qed
  show ?thesis
  proof (cases "size1 + new > BRC_MAXSIZE")
    case True
    then have "size2 = brc_compact_tail_drop buf3 size1 new" by (simp add: size2_def)
    then show ?thesis using tail_drop_entries [OF h3, of new] small x(2) True by auto
  next
    case False
    then show ?thesis using h3 x(2) holds_size [OF h] old_fits(2) [of ys new] by (auto simp: size2_def)
  qed
qed

lemma head_distinct:
  assumes "map fst ys = map fst es" "distinct (map fst es)" "bid \<notin> fst ` set es"
  shows "distinct (map fst ((bid, l) # take m ys))"
proof -
  have "map fst (take m ys) = take m (map fst es)" using assms(1) by (simp flip: take_map)
  then show ?thesis using assms(2,3)
    by (metis (no_types, lifting) distinct.simps(2) distinct_take fst_conv in_set_takeD list.set_map list.simps(9))
qed

lemma insert_head_entries:
  assumes "brc_inv s es" "bid \<notin> fst ` set es" "bid < 2 ^ 32" "0 < num" "num \<le> BRC_MAXNUM" "num \<le> length list"
    "brc_expire_time s < create (list ! 0)"
  shows "brc_inv (insert_head junk bid num list s) (mru_insert bid (take num list) es)"
proof -
  have h: "holds (brc_buf s) (brc_size s) es" and dist: "distinct (map fst es)" using assms(1) by (auto simp: brc_inv_def)
  have wo: "without bid es = es" using assms(2) by (force simp: without_def filter_id_conv)
  let ?new = "rec_len num"
  obtain buf1 size1 where r1: "(if brc_size s + ?new > BRC_MAXSIZE
      then brc_compact (brc_buf s) (brc_size s) ?new bid else (brc_buf s, brc_size s)) = (buf1, size1)" by (meson surj_pair)
  define ys where "ys = cut_old ?new es"
  have ys: "holds buf1 size1 ys" "list_all2 shrunk es ys" "size1 = length (encs ys)"
    using head_compact [OF h assms(2) r1] cut_old_shrunk holds_size unfolding ys_def by blast+
  define num2 where "num2 = (if size1 + ?new > BRC_MAXSIZE \<and> num > 1 then 1 else num)"
  let ?new2 = "rec_len num2"
  define buf2 where "buf2 = (if buf1 = [] then brc_get_buf junk ?new2 else buf1)"
  define buf3 where "buf3 = enlarge_loop junk (size1 + ?new2) buf2"
  define size2 where "size2 = (if size1 + ?new2 > BRC_MAXSIZE then brc_compact_tail_drop buf3 size1 ?new2 else size1)"
  have n2: "0 < num2" "num2 \<le> BRC_MAXNUM" "num2 \<le> length list" "num2 = num \<or> num2 = 1"
    using assms(4,5,6) by (auto simp: num2_def)
  have "?new2 \<le> BRC_MAXSIZE" using n2(2) by (simp add: rec_len_def)
  from head_room [OF ys(1) this, of junk, folded buf2_def, folded buf3_def, folded size2_def]
  have m0: "holds buf3 size2 (drop_old ?new2 ys)" "size2 + ?new2 \<le> BRC_MAXSIZE" and fits: "size2 + ?new2 \<le> length buf3" by blast+
  obtain m where dm: "drop_old ?new2 ys = take m ys" using drop_old_take by blast
  then have m: "holds buf3 size2 (take m ys)" "size2 + ?new2 \<le> BRC_MAXSIZE" using m0 by simp_all
  let ?buf4 = "if size2 > 0 then write_at buf3 ?new2 (take size2 buf3) else buf3"
  let ?buf5 = "fst (brc_putrecord (brc_expire_time s) ?buf4 0 ?new2 bid num2 list)"
  have b4: "drop ?new2 (take (size2 + ?new2) ?buf4) = encs (take m ys)" "length ?buf4 = length buf3"
    using holds_write_head [OF m(1), of ?new2] fits by (auto simp: add.commute)
  have b5: "take (size2 + ?new2) ?buf5 = enc (bid, take num2 list) @ encs (take m ys) \<and> length ?buf5 = length ?buf4"
    by (rule put_entry [OF n2(1-3) assms(7)]) (use b4 fits in auto)
  have ih: "insert_head junk bid num list s = s\<lparr>brc_buf := ?buf5, brc_size := size2 + ?new2, brc_changed := False\<rparr>"
    unfolding insert_head_def Let_def r1 prod.case num2_def [symmetric] buf2_def [symmetric] buf3_def [symmetric]
      size2_def [symmetric] using m(2) by simp
  let ?es = "(bid, take num2 list) # take m ys"
  have ok: "entry_ok (bid, take num2 list)" using n2 assms(3) by (simp add: entry_ok_def)
  have inv: "brc_inv (insert_head junk bid num list s) ?es"
    unfolding ih brc_inv_def holds_def
    using b5 b4(2) fits m(1,2) ok head_distinct [OF shrunk_fst [OF ys(2)] dist assms(2)] by (auto simp: holds_def)
  have tk: "length (take num list) = num" "take 1 list = [hd (take num list)]"
    using assms(4,6) by (cases list; cases num; simp)+
  have "mru_insert bid (take num list) es = ?es"
    using assms(4,6) tk by (auto simp: mru_insert_def wo ys_def [symmetric] num2_def ys(3) dm [symmetric] Let_def)
  then show ?thesis using inv by simp
qed

lemma trim_expired_le: "trim_expired expire list n \<le> n"
  by (induction n) (auto simp: le_SucI)

lemma without_absent: "bid \<notin> fst ` set es \<Longrightarrow> without bid es = es"
  unfolding without_def by (rule filter_True) force

lemma without_split: "distinct (map fst (a @ (bid, l) # b)) \<Longrightarrow> without bid (a @ (bid, l) # b) = a @ b"
  using without_absent [of bid a] without_absent [of bid b] by (simp add: without_def)

lemma without_without: "without bid (without bid es) = without bid es"
  by (simp add: without_def)

lemma mru_insert_without: "mru_insert bid l (without bid es) = mru_insert bid l es"
  unfolding mru_insert_def without_without ..

lemma brc_inv_fields:
  "brc_inv (s\<lparr>brc_needs_file_update := x\<rparr>) es = brc_inv s es"
  "brc_inv (s\<lparr>brc_changed := y\<rparr>) es = brc_inv s es"
  by (simp_all add: brc_inv_def)

lemma remove_entries:
  assumes "brc_inv s (a @ (bid, l) # b)" "len = rec_len (length l)" "ptr = length (encs a)"
  shows "brc_inv (s\<lparr>brc_buf := (if brc_size s - (ptr + len) > 0
        then write_at (brc_buf s) ptr (take (brc_size s - (ptr + len)) (drop (ptr + len) (brc_buf s)))
        else brc_buf s), brc_size := brc_size s - len\<rparr>) (a @ b)"
proof -
  have "take (brc_size s) (brc_buf s) = encs a @ enc (bid, l) @ encs b" "brc_size s \<le> length (brc_buf s)"
    "list_all entry_ok (a @ b)" "distinct (map fst (a @ b))"
    using assms(1) by (auto simp: brc_inv_def holds_def)
  then show ?thesis
    using move_over [of "brc_size s" "brc_buf s" "encs a" "enc (bid, l)" "encs b" ptr "ptr + len"] assms
    by (simp add: brc_inv_def holds_def order_trans [OF diff_le_self])
qed

text \<open>The record is the first one and keeps its size: it is written in place.\<close>

lemma insert_in_place:
  assumes "brc_inv s ((bid, l) # b)" "bid < 2 ^ 32" "0 < n" "n \<le> BRC_MAXNUM" "n \<le> length list" "rec_len n = rec_len (length l)"
    "brc_expire_time s < create (list ! 0)"
  shows "brc_inv (s\<lparr>brc_buf := fst (brc_putrecord (brc_expire_time s) (brc_buf s) 0 (rec_len n) bid n list), brc_changed := False\<rparr>)
    ((bid, take n list) # b)"
proof -
  have h: "holds (brc_buf s) (brc_size s) ((bid, l) # b)" and dist: "distinct (map fst ((bid, l) # b))" using assms(1) by (auto simp: brc_inv_def)
  have tk: "take (brc_size s) (brc_buf s) = enc (bid, l) @ encs b" "brc_size s \<le> length (brc_buf s)"
    "list_all entry_ok b" "brc_size s \<le> BRC_MAXSIZE" using assms(1) by (auto simp: brc_inv_def holds_def)
  have "take (brc_size s) (fst (brc_putrecord (brc_expire_time s) (brc_buf s) 0 (rec_len n) bid n list)) =
      enc (bid, take n list) @ encs b \<and>
      length (fst (brc_putrecord (brc_expire_time s) (brc_buf s) 0 (rec_len n) bid n list)) = length (brc_buf s)"
    by (rule put_entry) (use assms(3-7) tk holds_size [OF h] in auto)
  moreover have "entry_ok (bid, take n list)" using assms(2-5) by (simp add: entry_ok_def)
  ultimately show ?thesis using tk dist by (simp add: brc_inv_def holds_def)
qed

lemma brc_insert_entries:
  assumes "brc_inv s es" "bid < 2 ^ 32" "num \<le> BRC_MAXNUM" "num \<le> length list"
    "n = trim_expired (brc_expire_time s) list num" "n = 0 \<or> brc_expire_time s < create (list ! 0)"
  shows "brc_inv (brc_insert_record junk bid num list s) (mru_insert bid (take n list) es)"
proof -
  let ?s = "s\<lparr>brc_needs_file_update := True\<rparr>"
  have sel: "brc_buf ?s = brc_buf s" "brc_size ?s = brc_size s" "brc_expire_time ?s = brc_expire_time s" by simp_all
  have inv: "brc_inv ?s es" using assms(1) by (simp add: brc_inv_fields)
  have h: "holds (brc_buf s) (brc_size s) ([] @ es)" and dist: "distinct (map fst es)" using assms(1) by (auto simp: brc_inv_def)
  have n: "n \<le> BRC_MAXNUM" "n \<le> length list" using trim_expired_le [of _ list num] assms(3,4,5) by (auto intro: order_trans)
  from find_entries [OF h, of 0 bid]
  consider (none) "bid \<notin> fst ` set es" "brc_findrecord_in (brc_buf s) 0 (brc_size s) bid = (None, 0)"
    | (some) a l b where "es = a @ (bid, l) # b" "bid \<notin> fst ` set a"
        "brc_findrecord_in (brc_buf s) 0 (brc_size s) bid = (Some (length (encs a)), length l)" by auto
  then show ?thesis
  proof cases
    case none
    then have ins: "brc_insert_record junk bid num list s =
        (if n = 0 then ?s\<lparr>brc_changed := False\<rparr> else insert_head junk bid n list ?s)"
      using assms(5) by (simp add: brc_insert_record_def Let_def)
    show ?thesis
    proof (cases "n = 0")
      case True
      then show ?thesis unfolding ins using inv none(1) without_absent
        by (simp add: mru_insert_def brc_inv_fields)
    next
      case False
      then show ?thesis unfolding ins
        using insert_head_entries [OF inv none(1) assms(2) _ n(1) n(2)] assms(6) by simp
    qed
  next
    case some
    let ?p = "length (encs a)" and ?len = "rec_len (length l)" and ?new = "if n = 0 then 0 else rec_len n"
    let ?s' = "?s\<lparr>brc_buf := (if brc_size s - (?p + ?len) > 0
        then write_at (brc_buf s) ?p (take (brc_size s - (?p + ?len)) (drop (?p + ?len) (brc_buf s))) else brc_buf s),
        brc_size := brc_size s - ?len\<rparr>"
    have wo: "without bid es = a @ b" using without_split dist some(1) by simp
    have inv': "brc_inv ?s' (a @ b)" using remove_entries [of s a bid l b ?len ?p] assms(1) some(1) by (simp add: brc_inv_def)
    show ?thesis
    proof (cases "?p = 0 \<and> ?new = ?len")
      case True
      have "a = []" using True h some(1) by (cases a) (auto simp: holds_def rec_len_def)
      have nz: "n \<noteq> 0" "rec_len n = ?len" using True by (auto simp: rec_len_def split: if_splits)
      have ins: "brc_insert_record junk bid num list s = ?s\<lparr>brc_buf :=
          fst (brc_putrecord (brc_expire_time s) (brc_buf s) 0 (rec_len n) bid n list), brc_changed := False\<rparr>"
        using some(3) True nz assms(5) by (simp add: brc_insert_record_def Let_def)
      have "brc_inv (brc_insert_record junk bid num list s) ((bid, take n list) # b)" unfolding ins
        using insert_in_place [of ?s bid l b n list] inv some(1) \<open>a = []\<close> assms(2,6) n nz by simp
      moreover have "length (encs b) + rec_len n \<le> BRC_MAXSIZE"
        using holds_size [OF h] nz(2) some(1) \<open>a = []\<close> assms(1) by (simp add: brc_inv_def)
      then have "mru_insert bid (take n list) es = (bid, take n list) # b"
        using nz(1) n(2) \<open>a = []\<close> by (auto simp: mru_insert_def wo old_fits min_absorb2 Let_def)
      ultimately show ?thesis by simp
    next
      case False
      then have ins: "brc_insert_record junk bid num list s =
          (if n = 0 then ?s'\<lparr>brc_changed := False\<rparr> else insert_head junk bid n list ?s')"
        unfolding brc_insert_record_def Let_def
        by (simp only: sel some(3) assms(5) [symmetric] prod.case option.case if_not_P [OF False] if_False)
      show ?thesis
      proof (cases "n = 0")
        case True
        then show ?thesis unfolding ins using inv' wo
          by (simp add: mru_insert_def brc_inv_fields)
      next
        case nz: False
        have nb: "bid \<notin> fst ` set (a @ b)" using dist some(1) by auto
        have "brc_inv (insert_head junk bid n list ?s') (mru_insert bid (take n list) (a @ b))"
          using insert_head_entries [OF inv' nb assms(2) _ n(1) n(2)] assms(6) nz by auto
        then show ?thesis unfolding ins using nz mru_insert_without [of bid "take n list" es] wo by simp
      qed
    qed
  qed
qed

text \<open>Reading the entries of a board back.\<close>

lemma bytes_rec_bytes: "bytes_rec (rec_bytes r) = r"
proof -
  have w: "unat (x :: u32) < 256 ^ 4" for x using unsigned_less [of x, where ?'a = nat] by simp
  show ?thesis by (simp add: bytes_rec_def rec_bytes_def from_to_le_id [OF w])
qed

lemma nth_rec_bytes: "i < length l \<Longrightarrow> take 8 (drop (8 * i) (concat (map rec_bytes l))) = rec_bytes (l ! i)"
proof (induction l arbitrary: i)
  case (Cons r l)
  then show ?case by (cases i) simp_all
qed simp

lemma read_list_entries:
  assumes "holds buf n (a @ (bid, l) # b)" "p = length (encs a)"
  shows "read_list buf (p + 6) (length l) = l"
proof (rule nth_equalityI)
  fix i assume "i < length (read_list buf (p + 6) (length l))"
  then have i: "i < length l" by (simp add: read_list_def)
  have n: "p + rec_len (length l) \<le> n" using holds_read(3) [OF assms] by simp
  have t: "take n buf = encs a @ enc (bid, l) @ encs b" using assms(1) by (simp add: holds_def)
  have "take 8 (drop (p + 6 + 8 * i) buf) = take 8 (drop (p + 6 + 8 * i) (take n buf))"
    by (rule take_drop_take) (use n i in \<open>simp add: rec_len_def\<close>)
  also have "\<dots> = take 8 (drop (8 * i) (concat (map rec_bytes l) @ encs b))"
    unfolding t using assms(2) by (simp add: enc_def)
  also have "\<dots> = rec_bytes (l ! i)" using nth_rec_bytes [OF i] i by simp
  finally show "read_list buf (p + 6) (length l) ! i = l ! i"
    using i by (simp add: read_list_def bytes_rec_bytes add.commute add.left_commute)
qed (simp add: read_list_def)

lemma brc_find_entries: "brc_inv s es \<Longrightarrow> brc_find_record s bid = map_of es bid"
proof -
  assume inv: "brc_inv s es"
  have h: "holds (brc_buf s) (brc_size s) ([] @ es)" using inv by (simp add: brc_inv_def)
  from find_entries [OF h, of 0 bid]
  consider (none) "bid \<notin> fst ` set es" "brc_findrecord_in (brc_buf s) 0 (brc_size s) bid = (None, 0)"
    | (some) a l b where "es = a @ (bid, l) # b" "bid \<notin> fst ` set a"
        "brc_findrecord_in (brc_buf s) 0 (brc_size s) bid = (Some (length (encs a)), length l)" by auto
  then show ?thesis
  proof cases
    case some
    then have "map_of a bid = None" by (simp add: map_of_eq_None_iff)
    then have "map_of es bid = Some l" using some by (simp add: map_add_def)
    then show ?thesis using some h read_list_entries [of "brc_buf s" "brc_size s" a bid l b] by (simp add: brc_find_record_def)
  next
    case none
    have "map_of es bid = None" using none(1) by (simp add: map_of_eq_None_iff)
    then show ?thesis using none(2) by (simp add: brc_find_record_def)
  qed
qed

section \<open>Lemmas on marking articles\<close>

text \<open>What \<open>brc_addlist\<close> makes of the entries, before the list is cut to its size.\<close>

fun add_rec :: "brc_rec \<Rightarrow> brc_rec list \<Rightarrow> brc_rec list" where
  "add_rec r [] = []"
| "add_rec r (x # xs) =
     (if create r = create x then
        (if time4_is_invalid (modified r) then x
         else let m = (if time4_is_invalid (modified x) then 0 else modified x) in
           x\<lparr>modified := (if m < modified r then modified r else m)\<rparr>) # xs
      else if create r > create x then r # x # xs
      else x # add_rec r xs)"

lemma drop_take_Cons: "n < num \<Longrightarrow> num \<le> length l \<Longrightarrow> drop n (take num l) = l ! n # drop (Suc n) (take num l)"
  using Cons_nth_drop_Suc [of n "take num l"] by simp

lemma addlist_loop_rec:
  assumes "n \<le> num" "num \<le> BRC_MAXNUM" "length l = BRC_MAXNUM" "addlist_loop r n num l = (num', l', ch)"
  shows "take num' l' = take BRC_MAXNUM (take n l @ add_rec r (drop n (take num l))) \<and> num' \<le> BRC_MAXNUM \<and> length l' = BRC_MAXNUM \<and> num \<le> num'"
  using assms
proof (induction r n num l rule: addlist_loop.induct)
  case (1 r n num l)
  show ?case
  proof (cases "n < num")
    case False
    then have "addlist_loop r n num l = (num, l, False)" by (simp add: addlist_loop.simps [of r n num l])
    then have "n = num" "num' = num" "l' = l" using False "1.prems"(1,4) by simp_all
    then show ?thesis using "1.prems"(2,3) by (simp add: min_def)
  next
    case True
    let ?y = "l ! n" and ?ys = "drop (Suc n) (take num l)"
    have d: "drop n (take num l) = ?y # ?ys" using True "1.prems"(2,3) by (intro drop_take_Cons) simp_all
    have tl: "take num l = take n l @ ?y # ?ys"
      using d append_take_drop_id [of n "take num l"] True by (simp add: min_def)
    have upd: "take num (l[n := z]) = take n l @ z # ?ys" for z
    proof -
      have "n < length (take num l)" using True "1.prems"(2,3) by simp
      from upd_conv_take_nth_drop [OF this, of z] show ?thesis
        using True by (simp add: take_update_swap min_absorb1)
    qed
    have cut: "length (take n l @ z # ?ys) \<le> BRC_MAXNUM" for z
      using True "1.prems"(2,3) by simp
    consider (eq) "create r = create ?y" | (gt) "create r \<noteq> create ?y" "create r > create ?y"
      | (lt) "create r \<noteq> create ?y" "\<not> create r > create ?y" by blast
    then show ?thesis
    proof cases
      case eq
      then show ?thesis
        using "1.prems" True d tl upd cut
        by (auto simp: addlist_loop.simps [of r n num l] Let_def split: if_splits)
    next
      case gt
      let ?n' = "if num < BRC_MAXNUM then num + 1 else num"
      have n': "num' = ?n'" "l' = take n l @ [r] @ take (?n' - 1 - n) (drop n l) @ drop ?n' l"
        using "1.prems"(4) True gt by (auto simp: addlist_loop.simps [of r n num l] Let_def split: if_splits)
      have "add_rec r (drop n (take num l)) = r # drop n (take num l)" using gt d by simp
      then have ar: "add_rec r (drop n (take num l)) = r # take (num - n) (drop n l)" by (simp only: drop_take)
      define P where "P = take n l @ [r] @ take (?n' - 1 - n) (drop n l)"
      have lP: "length P = ?n'" using True "1.prems"(2,3) by (auto simp: P_def)
      have l': "l' = P @ drop ?n' l" using n'(2) by (simp add: P_def)
      have "P = take BRC_MAXNUM (take n l @ r # take (num - n) (drop n l))"
      proof (cases "num < BRC_MAXNUM")
        case lt: True
        then have "P = take n l @ r # take (num - n) (drop n l)" by (simp add: P_def)
        moreover have "take BRC_MAXNUM P = P" using lP lt by (intro take_all) simp
        ultimately show ?thesis by metis
      next
        case ge: False
        then have "BRC_MAXNUM - n = Suc (BRC_MAXNUM - 1 - n)" using True "1.prems"(2) by simp
        then show ?thesis using ge True "1.prems"(2,3) by (simp add: P_def)
      qed
      moreover have "take num' l' = P" using l' lP n'(1) by simp
      moreover have "length l' = BRC_MAXNUM" "num' \<le> BRC_MAXNUM" "num \<le> num'"
        using l' lP n'(1) "1.prems"(2,3) by auto
      ultimately show ?thesis unfolding ar by simp
    next
      case lt
      have "addlist_loop r (n + 1) num l = (num', l', ch)"
        using "1.prems"(4) True lt by (simp add: addlist_loop.simps [of r n num l])
      from "1.IH" [OF True lt _ _ _ this] "1.prems"(2,3) True
      have "take num' l' = take BRC_MAXNUM (take (Suc n) l @ add_rec r ?ys) \<and> num' \<le> BRC_MAXNUM \<and> length l' = BRC_MAXNUM \<and> num \<le> num'"
        by simp
      moreover have "take (Suc n) l = take n l @ [?y]" using True "1.prems"(2,3) by (simp add: take_Suc_conv_app_nth)
      ultimately show ?thesis using lt d by simp
    qed
  qed
qed

lemma unread_add_self: "unread_loop (create r) (modified r) (take k (add_rec r xs)) = 0"
proof (induction xs arbitrary: k)
  case (Cons x xs)
  show ?case
  proof (cases k)
    case (Suc j)
    consider (eq) "create r = create x" | (gt) "create r \<noteq> create x" "create r > create x"
      | (lt) "create r \<noteq> create x" "\<not> create r > create x" by blast
    then show ?thesis
    proof cases
      case eq
      then show ?thesis using Suc by (auto simp: Let_def time4_is_invalid_def)
    next
      case gt
      then show ?thesis using Suc by (simp add: Let_def)
    next
      case lt
      then show ?thesis using Suc Cons [of j] by simp
    qed
  qed simp
qed simp

lemma unread_add_other:
  assumes "x \<noteq> create r"
  shows "unread_loop x m (add_rec r xs) = unread_loop x m xs"
proof (induction xs)
  case (Cons y xs)
  consider (eq) "create r = create y" | (gt) "create r \<noteq> create y" "create r > create y"
    | (lt) "create r \<noteq> create y" "\<not> create r > create y" by blast
  then show ?case
  proof cases
    case eq
    then show ?thesis using assms by (simp add: Let_def)
  next
    case gt
    then show ?thesis using assms by (auto dest: order.strict_trans)
  next
    case lt
    then show ?thesis using Cons by simp
  qed
qed simp

lemma add_rec_length: "length xs \<le> length (add_rec r xs)" "length (add_rec r xs) \<le> Suc (length xs)"
  by (induction xs) auto

lemma brc_initialize_done: "brc_initialized s \<Longrightarrow> brc_initialize junk t s = s"
  by (simp add: brc_initialize_def)

section \<open>Properties\<close>

text \<open>
  The reference itself: with room, the board moves to the front and every other board keeps its entries; in any case
  boards are only cut to their newest entry or dropped from the end, and the board just read keeps its newest entry.
\<close>

definition mru_update :: "nat \<Rightarrow> brc_rec list \<Rightarrow> entry list \<Rightarrow> entry list \<Rightarrow> bool" where
  "mru_update bid l es es' \<longleftrightarrow>
     (if l = [] then es' = without bid es
      else \<exists>l' ys m. (l' = l \<or> l' = [hd l]) \<and> list_all2 shrunk (without bid es) ys \<and> es' = (bid, l') # take m ys \<and>
        (length (encs ((bid, l) # without bid es)) \<le> BRC_MAXSIZE \<longrightarrow> es' = (bid, l) # without bid es))"

lemma mru_insert_update: "mru_update bid l es (mru_insert bid l es)"
proof (cases "l = []")
  case False
  let ?ys = "cut_old (rec_len (length l)) (without bid es)"
  define l' where "l' = (if length (encs ?ys) + rec_len (length l) > BRC_MAXSIZE \<and> 1 < length l then [hd l] else l)"
  obtain m where m: "drop_old (rec_len (length l')) ?ys = take m ?ys" using drop_old_take by blast
  have i: "mru_insert bid l es = (bid, l') # take m ?ys" using False m by (simp add: mru_insert_def Let_def l'_def)
  have "mru_insert bid l es = (bid, l) # without bid es" if "length (encs ((bid, l) # without bid es)) \<le> BRC_MAXSIZE"
    using that False by (simp add: mru_insert_def Let_def old_fits add.commute)
  moreover have "l' = l \<or> l' = [hd l]" by (simp add: l'_def)
  ultimately show ?thesis using False i cut_old_shrunk unfolding mru_update_def by auto
qed (simp add: mru_update_def mru_insert_def)

text \<open>C9.
  Inserting the records of a board refines a most-recently-used list of boards with their entries, cut and dropped from the end
  so that it fits 64 KB: the buffer afterwards is exactly the encoding of the reference list, whose first board is the
  one inserted without its expired entries, it stays within its allocation, and every lookup finds what the reference
  has.  With room the other boards are untouched; otherwise they are cut to their newest entry and only then dropped, from the end.
  The entry at the head of the inserted records must not have been created exactly at the expiry time: there the code writes
  a record of arbitrary bytes (\<open>brc_insert_expiry_boundary\<close>).
\<close>

theorem brc_insert_refines:
  assumes "brc_inv s es" "bid < 2 ^ 32" "num \<le> BRC_MAXNUM" "num \<le> length list"
    "n = trim_expired (brc_expire_time s) list num" "n = 0 \<or> brc_expire_time s < create (list ! 0)"
    "es' = mru_insert bid (take n list) es"
  shows "brc_inv (brc_insert_record junk bid num list s) es' \<and>
    (\<forall>b. brc_find_record (brc_insert_record junk bid num list s) b = map_of es' b) \<and> mru_update bid (take n list) es es'"
  using brc_insert_entries [OF assms(1-6), of junk] brc_find_entries mru_insert_update assms(7) by blast

definition brc_fresh :: brc_state where
  "brc_fresh = \<lparr>brc_initialized = True, brc_expire_time = 5, brc_changed = False, brc_buf = [], brc_size = 0,
     brc_needs_file_update = False, brc_currbid = 0, brc_num = 0, brc_list = [], brc_file = None\<rparr>"

theorem brc_insert_refines_witness:
  "brc_inv (brc_insert_record (\<lambda>i. 0) 7 2 [\<lparr>create = 9, modified = 9\<rparr>, \<lparr>create = 4, modified = 4\<rparr>] brc_fresh) [(7, [\<lparr>create = 9, modified = 9\<rparr>])] \<and>
    brc_find_record (brc_insert_record (\<lambda>i. 0) 7 2 [\<lparr>create = 9, modified = 9\<rparr>, \<lparr>create = 4, modified = 4\<rparr>] brc_fresh) 7 =
      Some [\<lparr>create = 9, modified = 9\<rparr>]"
proof -
  let ?l = "[\<lparr>create = 9, modified = 9\<rparr>, \<lparr>create = 4, modified = 4 :: u32\<rparr>]"
  have n: "1 = trim_expired (brc_expire_time brc_fresh) ?l 2"
    by (subst numeral_2_eq_2) (simp add: brc_fresh_def)
  have "[(7, [\<lparr>create = 9, modified = 9\<rparr>])] = mru_insert 7 (take 1 ?l) []"
    by (simp add: mru_insert_def without_def old_fits rec_len_def Let_def)
  from brc_insert_refines [OF _ _ _ _ n _ this, where junk = "\<lambda>i. 0"] show ?thesis
    by (simp add: brc_fresh_def brc_inv_def holds_def)
qed

text \<open>C32.
  An article that is added to the list of its board is read from then on, and
  as long as the list has room the status of every other article of the board
  stays as it was.
\<close>

theorem brc_addlist_marks_read:
  assumes "brc_initialized s" "userlevel \<noteq> 0" "brc_currbid s \<noteq> 0" "length (brc_list s) = BRC_MAXNUM"
    "0 < brc_num s" "brc_num s < BRC_MAXNUM"
  shows "brc_unread_time junk t (brc_currbid s) c m (brc_addlist junk t userlevel c m s) = 0 \<and>
    (x = c \<or> brc_unread_time junk t (brc_currbid s) x m' (brc_addlist junk t userlevel c m s) =
       brc_unread_time junk t (brc_currbid s) x m' s)"
proof (cases "c \<le> brc_expire_time s \<or> brc_num s = 1 \<and> c < create (brc_list s ! 0)")
  case True
  then have "brc_addlist junk t userlevel c m s = s"
    using assms by (auto simp: brc_addlist_def brc_initialize_done Let_def)
  moreover have "brc_unread_time junk t (brc_currbid s) c m s = 0"
  proof (cases "c \<le> brc_expire_time s")
    case False
    then have c: "brc_num s = 1" "c < create (brc_list s ! 0)" using True by auto
    obtain y ys where "brc_list s = y # ys" using assms(4) by (cases "brc_list s") auto
    moreover from this have "c \<noteq> create y" "\<not> create y < c" using c(2) by auto
    ultimately show ?thesis using c(1) assms(1,3) False
      by (simp add: brc_unread_time_def brc_initialize_done board_recs_def Let_def)
  qed (use assms(1) in \<open>simp add: brc_unread_time_def brc_initialize_done Let_def\<close>)
  ultimately show ?thesis by simp
next
  case False
  let ?r = "\<lparr>create = c, modified = m\<rparr>" and ?l = "take (brc_num s) (brc_list s)"
  obtain num' l' ch where al: "addlist_loop ?r 0 (brc_num s) (brc_list s) = (num', l', ch)" by (metis prod_cases3)
  let ?s = "s\<lparr>brc_num := num', brc_list := l', brc_changed := (brc_changed s \<or> ch)\<rparr>"
  have s': "brc_addlist junk t userlevel c m s = ?s"
    using False assms(1,2,5) al by (auto simp: brc_addlist_def brc_initialize_done Let_def)
  have tk: "take num' l' = add_rec ?r ?l" "num' \<noteq> 0"
    using addlist_loop_rec [OF _ _ assms(4) al] assms(4,5,6) add_rec_length(2) [of ?r ?l] by auto
  have ne: "add_rec ?r ?l \<noteq> []" "?l \<noteq> []"
    using add_rec_length(1) [of ?l ?r] assms(4,5,6) by auto
  have u: "brc_unread_time junk t (brc_currbid s) y m'' ?s =
      (if y \<le> brc_expire_time s then 0 else unread_loop y m'' (add_rec ?r ?l))" for y m''
    using assms(1,3) tk ne by (simp add: brc_unread_time_def brc_initialize_done board_recs_def Let_def)
  have u0: "brc_unread_time junk t (brc_currbid s) y m'' s = (if y \<le> brc_expire_time s then 0 else unread_loop y m'' ?l)" for y m''
    using assms(1,3) ne by (simp add: brc_unread_time_def brc_initialize_done board_recs_def Let_def)
  show ?thesis
    unfolding s' u u0 using unread_add_self [of ?r "length (add_rec ?r ?l)" ?l] unread_add_other [of x ?r m' ?l] by auto
qed

theorem brc_addlist_marks_read_witness:
  "brc_unread_time (\<lambda>i. 0) 0 3 9 8 (brc_addlist (\<lambda>i. 0) 0 1 9 8
      \<lparr>brc_initialized = True, brc_expire_time = 5, brc_changed = False, brc_buf = [], brc_size = 0,
       brc_needs_file_update = False, brc_currbid = 3, brc_num = 1,
       brc_list = replicate 80 \<lparr>create = 1, modified = 0\<rparr>, brc_file = None\<rparr>) = 0"
  using brc_addlist_marks_read [where s = "\<lparr>brc_initialized = True, brc_expire_time = 5, brc_changed = False, brc_buf = [],
      brc_size = 0, brc_needs_file_update = False, brc_currbid = 3, brc_num = 1,
      brc_list = replicate 80 \<lparr>create = 1, modified = 0\<rparr>, brc_file = None\<rparr>"
      and junk = "\<lambda>i. 0" and t = 0 and userlevel = 1 and c = 9 and m = 8]
  by simp

text \<open>  Logging out and in again: the boards that \<open>brc_finalize\<close> saves are the
  boards that the next \<open>brc_initialize\<close> loads.
\<close>

lemma brc_save_load_roundtrip:
  assumes "brc_inv s es" "brc_initialized s" "\<not> brc_changed s" "brc_needs_file_update s" "brc_buf s \<noteq> []"
  shows "brc_inv (brc_initialize junk t' (brc_finalize junk t userlevel True s)) es"
proof -
  let ?f = "take (brc_size s) (brc_buf s)"
  have sz: "brc_size s \<le> length (brc_buf s)" "brc_size s \<le> BRC_MAXSIZE" "?f = encs es" "list_all entry_ok es"
    "distinct (map fst es)" using assms(1) by (auto simp: brc_inv_def holds_def)
  have lf: "length ?f = brc_size s" using sz(1) by simp
  have "brc_finalize junk t userlevel True s =
      s\<lparr>brc_file := Some ?f, brc_needs_file_update := False, brc_buf := [], brc_changed := False, brc_size := 0,
        brc_initialized := False\<rparr>"
    using assms(2-5) by (simp add: brc_finalize_def brc_update_def save_local_brc_def brc_release_def)
  moreover have "length ?f \<le> length (brc_get_buf junk (length ?f))"
    using lf sz(2) by (intro length_get_buf) simp
  ultimately show ?thesis
    using sz lf by (simp add: brc_initialize_def read_brc_buf_def load_local_brc_def Let_def brc_inv_def holds_def
        write_at_def min_absorb1)
qed

text \<open>
  An entry created exactly at the expiry time is not trimmed by \<open>brc_insert_record\<close>
  but not written by \<open>brc_putrecord\<close> either: the buffer grows by a record of
  unspecified bytes.
\<close>

lemma brc_insert_expiry_boundary:
  assumes "brc_buf s = []" "brc_size s = 0" "create r = brc_expire_time s"
  shows "brc_size (brc_insert_record junk bid 1 [r] s) = 14 \<and>
    take 14 (brc_buf (brc_insert_record junk bid 1 [r] s)) = map junk [0..<14]"
proof -
  have f: "brc_findrecord_in [] 0 0 bid = (None, 0)" by (simp add: brc_findrecord_in.simps)
  have l: "rec_len (Suc 0) = 14" by (simp add: rec_len_def)
  have g: "brc_get_buf junk 14 = map junk [0..<1024]" by (simp add: brc_get_buf_def)
  have e: "enlarge_loop junk 14 (map junk [0..<1024]) = map junk [0..<1024]"
    by (subst enlarge_loop.simps) simp
  have "take 14 (map junk [0..<1024]) = map junk [0..<14]" by (simp add: take_map)
  then show ?thesis
    using assms by (simp add: brc_insert_record_def insert_head_def Let_def f l g e brc_putrecord_def)
qed

end
