(* ===== verification/Mime.thy ===== *)
theory Mime
  imports Ansi Clib
begin

text \<open>
  MIME header words (RFC 2047) in \<open>src/common/sys/string.c\<close>: \<open>qp_encode\<close>, the
  decoder \<open>mmdecode\<close> for quoted-printable and base64, the charset conversion
  \<open>str_iconv\<close>, the charset names and \<open>str_decode_M3\<close>, which decodes a header in
  place.  \<open>iconv\<close> is a library outside the program: its descriptor is a parameter
  that maps a state, the input and the room left to the new state, the bytes consumed, the
  bytes produced and the error; the theorems assume of it what POSIX says
  (\<open>iconv_ok\<close>).  A failed assertion or a result of \<open>-1\<close> is \<^const>\<open>None\<close>.
  The theory shows that \<open>mmdecode\<close> inverts \<open>qp_encode\<close> and the base64 encoding, and that
  \<open>str_decode_M3\<close> ends and never writes past its buffers, whatever the input.
\<close>

section \<open>Quoted-printable\<close>

text \<open>The bytes of \<open>MimeSpecials\<close>, and the NUL that \<open>strchr\<close> finds too.\<close>

definition mime_special :: "byte \<Rightarrow> bool" where
  "mime_special c \<longleftrightarrow> c \<in> {64, 46, 44, 59, 58, 60, 62, 91, 93, 92, 34, 40, 41, 63, 47, 61, 32, 9, 0}"

definition hex_digit :: "byte \<Rightarrow> byte" where
  "hex_digit n = (if n < 10 then 48 + n else 55 + n)"

definition qp_char :: "byte \<Rightarrow> byte list" where
  "qp_char c =
     (if c = 32 then [95]
      else if c \<ge> 0x7f \<or> c < 0x20 \<or> c = 95 \<or> mime_special c
      then [61, hex_digit (drop_bit 4 (c AND 0xf0)), hex_digit (c AND 0x0f)]
      else [c])"

text \<open>The loop, with the bytes written so far.\<close>

fun qp_loop :: "nat \<Rightarrow> byte list \<Rightarrow> cstr \<Rightarrow> byte list" where
  "qp_loop slen out [] = out"
| "qp_loop slen out (c # d) = (if length out + 6 < slen then qp_loop slen (out @ qp_char c) d else out)"

definition qp_encode :: "nat \<Rightarrow> cstr \<Rightarrow> cstr \<Rightarrow> cstr option" where
  "qp_encode slen d tocode =
     (let h = [61, 63] @ tocode @ [63, 81, 63] in
      if \<not> length h + 3 < slen then None else Some (qp_loop slen h d @ [63, 61]))"

definition qp_code :: "byte \<Rightarrow> int" where
  "qp_code x =
     (if 48 \<le> x \<and> x \<le> 57 then uint x - 48
      else if 97 \<le> x \<and> x \<le> 102 then uint x - 97 + 10
      else if 65 \<le> x \<and> x \<le> 70 then uint x - 65 + 10
      else -1)"

definition base64_code :: "byte \<Rightarrow> int" where
  "base64_code x =
     (if 65 \<le> x \<and> x \<le> 90 then uint x - 65
      else if 97 \<le> x \<and> x \<le> 122 then uint x - 97 + 26
      else if 48 \<le> x \<and> x \<le> 57 then uint x - 48 + 52
      else if x = 43 then 62
      else if x = 47 then 63
      else -1)"

definition isreturn :: "byte \<Rightarrow> bool" where "isreturn c \<longleftrightarrow> c = 13 \<or> c = 10"

function mmdecode_q :: "nat \<Rightarrow> cstr \<Rightarrow> byte list \<Rightarrow> byte list option" where
  "mmdecode_q dstlen src t =
     (if src = [] \<or> hd src = 63 \<or> length t \<ge> dstlen then Some t
      else if hd src = 61 then
        let x = hd0 (tl src); y = (if x \<noteq> 0 then hd0 (tl (tl src)) else 0) in
        if isreturn x then mmdecode_q dstlen (tl (tl src)) t
        else if qp_code x < 0 \<or> qp_code y < 0 then None
        else mmdecode_q dstlen (tl (tl (tl src))) (t @ [word_of_int (push_bit 4 (qp_code x) + qp_code y)])
      else if hd src = 95 then mmdecode_q dstlen (tl src) (t @ [32])
      else mmdecode_q dstlen (tl src) (t @ [hd src]))"
  by pat_completeness auto
termination by (relation "measure (\<lambda>(dstlen, src, t). length src)") (auto intro: diff_less)

declare mmdecode_q.simps [simp del]

section \<open>Base64\<close>

fun mmdecode_b :: "nat \<Rightarrow> cstr \<Rightarrow> u32 \<Rightarrow> nat \<Rightarrow> byte list \<Rightarrow> byte list" where
  "mmdecode_b dstlen [] pattern bits t = t"
| "mmdecode_b dstlen (c # src) pattern bits t =
     (if c = 63 \<or> length t \<ge> dstlen then t
      else let x = base64_code c in
        if x < 0 then mmdecode_b dstlen src pattern bits t
        else
          let pattern' = push_bit 6 pattern OR word_of_int x; bits' = bits + 6 in
          if bits' \<ge> 8 then
            mmdecode_b dstlen src pattern' (bits' - 8) (t @ [ucast (drop_bit (bits' - 8) pattern' AND 0xff)])
          else mmdecode_b dstlen src pattern' bits' t)"

definition mmdecode :: "cstr \<Rightarrow> byte \<Rightarrow> nat \<Rightarrow> byte list option" where
  "mmdecode src encode dstlen =
     (let e = encode OR 0x20 in
      if e = 113 then mmdecode_q dstlen src []
      else if e = 98 then Some (mmdecode_b dstlen src 0 0 [])
      else None)"

section \<open>Charset conversion\<close>

datatype errno = EILSEQ | EINVAL | E2BIG | EOTHER

type_synonym 's iconv = "'s \<Rightarrow> byte list \<Rightarrow> nat \<Rightarrow> 's \<times> nat \<times> byte list \<times> errno option"

definition iconv_ok :: "'s iconv \<Rightarrow> bool" where
  "iconv_ok iconv \<longleftrightarrow>
     (\<forall>st src n. case iconv st src n of (st', k, bs, e) \<Rightarrow>
        k \<le> length src \<and> length bs \<le> n \<and> (e = None \<longrightarrow> k = length src) \<and>
        (e = Some EILSEQ \<or> e = Some EINVAL \<longrightarrow> k < length src))"

text \<open>The translation loop; \<open>dstlen\<close> is the room left, \<open>out\<close> what has been written.\<close>

partial_function (option) iconv_loop ::
  "'s iconv \<Rightarrow> 's \<Rightarrow> byte list \<Rightarrow> nat \<Rightarrow> byte list \<Rightarrow> byte list option" where
  "iconv_loop iconv st src dstlen out =
     (if src = [] \<or> dstlen = 0 then Some out
      else case iconv st src dstlen of (st', k, bs, e) \<Rightarrow>
        let src1 = drop k src; room = dstlen - length bs; out1 = out @ bs in
        case e of
          None \<Rightarrow> iconv_loop iconv st' src1 room out1
        | Some er \<Rightarrow>
            if er = EILSEQ \<or> er = EINVAL then
              if room = 0 then Some out1
              else iconv_loop iconv st' (tl src1) (room - 1) (out1 @ [hd0 src1])
            else Some out1)"

text \<open>\<open>open\<close> is \<open>iconv_open(tocode, fromcode)\<close>: a descriptor with its initial state, or failure.\<close>

definition str_iconv ::
  "(cstr \<Rightarrow> cstr \<Rightarrow> ('s iconv \<times> 's) option) \<Rightarrow> cstr \<Rightarrow> cstr \<Rightarrow> byte list \<Rightarrow> nat \<Rightarrow> byte list option" where
  "str_iconv iconv_open fromcode tocode src dstlen0 =
     (if dstlen0 = 0 then Some []
      else
        let dstlen = dstlen0 - 1 in
        case iconv_open tocode fromcode of
          None \<Rightarrow> Some (take dstlen src)
        | Some (iconv, st) \<Rightarrow> iconv_loop iconv st src dstlen [])"

text \<open>String literals as bytes.\<close>

definition lit :: "string \<Rightarrow> cstr" where "lit s = map (word_of_nat \<circ> of_char) s"

definition known_charsets :: "(string \<times> string) list" where
  "known_charsets =
     [(''usascii'', ''US-ASCII''), (''ascii'', ''US-ASCII''), (''utf8'', ''UTF-8''),
      (''big5'', ''BIG5''), (''big5hkscs'', ''BIG5-HKSCS''), (''cp950'', ''CP950''),
      (''gb2312'', ''GB2312''), (''gbk'', ''GBK''), (''gb18030'', ''GB18030''), (''euctw'', ''EUC-TW''),
      (''windows1252'', ''CP1252''), (''cp1252'', ''CP1252''), (''latin1'', ''ISO-8859-1'')]"

text \<open>The normalised name, \<open>NULL\<close> when it does not fit into \<open>key\<close>.\<close>

fun charset_key :: "cstr \<Rightarrow> cstr \<Rightarrow> cstr option" where
  "charset_key [] key = Some key"
| "charset_key (c # cs) key =
     (if c = 42 then Some key
      else if c = 45 \<or> c = 95 then charset_key cs key
      else if length key + 1 \<ge> 32 then None
      else charset_key cs (key @ [to_lower c]))"

definition decimal :: "nat \<Rightarrow> cstr" where
  "decimal v = (if v < 10 then [48 + word_of_nat v] else [48 + word_of_nat (v div 10), 48 + word_of_nat (v mod 10)])"

definition mime_charset_name :: "cstr \<Rightarrow> cstr option" where
  "mime_charset_name cs =
     (case charset_key cs [] of
        None \<Rightarrow> None
      | Some key \<Rightarrow>
          case find (\<lambda>(k, n). lit k = key) known_charsets of
            Some (k, n) \<Rightarrow> Some (lit n)
          | None \<Rightarrow>
              if take 7 key = lit ''iso8859'' then
                let d = drop 7 key; v = nat (digits_value d) in
                if d = [] \<or> length d > 2 then None
                else if \<not> list_all is_digit d then None
                else if v < 1 \<or> v > 16 then None
                else Some (lit ''ISO-8859-'' @ decimal v)
              else None)"

section \<open>Decoding a header\<close>

text \<open>
  Copying the run \<open>run\<close> of bytes that is not an encoded word: the bytes written, whether
  the last one is a lone Big5 lead byte (\<open>lastlead\<close>), and the bytes left when the
  limit is reached.
\<close>

function copy_run :: "nat \<Rightarrow> byte list \<Rightarrow> byte list \<Rightarrow> bool \<Rightarrow> byte list \<times> bool \<times> byte list" where
  "copy_run cap run dst lastlead =
     (if run = [] \<or> \<not> length dst < cap - 1 then (dst, lastlead, run)
      else if big5_is_valid_lead (hd run) \<and> tl run \<noteq> [] \<and> big5_is_valid_trail (hd (tl run)) then
        if length dst + 2 > cap - 1 then (dst, lastlead, run)
        else copy_run cap (drop 2 run) (dst @ take 2 run) False
      else copy_run cap (tl run) (dst @ [hd run]) (big5_is_valid_lead (hd run)))"
  by pat_completeness auto
termination by (relation "measure (\<lambda>(cap, run, dst, l). length run)") auto

declare copy_run.simps [simp del]

text \<open>
  An encoded word at \<open>src\<close>, which starts with \<open>=?\<close>: the bytes it decodes to and what
  follows it, or where the scan for its charset stopped; \<^const>\<open>None\<close> only if
  \<open>str_iconv\<close> does not return.
\<close>

definition encoded_word ::
  "(cstr \<Rightarrow> cstr \<Rightarrow> ('s iconv \<times> 's) option) \<Rightarrow> cstr \<Rightarrow> nat \<Rightarrow> (byte list option \<times> cstr) option" where
  "encoded_word iconv_open src room =
     (let body = drop 2 src;
          charset = take 511 (takeWhile (\<lambda>c. c \<noteq> 63) body);
          tmp = dropWhile (\<lambda>c. c \<noteq> 63) body in
      if tmp \<noteq> [] \<and> tl tmp \<noteq> [] \<and> hd0 (tl (tl tmp)) = 63 then
        case mmdecode (drop 3 tmp) (hd (tl tmp)) 512 of
          None \<Rightarrow> Some (None, tmp)
        | Some dst1 \<Rightarrow>
            let conv = (case mime_charset_name charset of
                          Some cs \<Rightarrow> str_iconv iconv_open cs (lit ''big5'') dst1 room
                        | None \<Rightarrow> Some (take (room - 1) dst1));
                rest = tl (dropWhile (\<lambda>c. c \<noteq> 63) (drop 3 tmp));
                rest' = (if hd0 rest = 61 then tl rest else rest) in
            map_option (\<lambda>bs. (Some (map (\<lambda>c. if c < 0x20 \<or> c = 0x7f then 32 else c) bs), rest')) conv
      else Some (None, tmp))"

partial_function (option) decode_loop ::
  "(cstr \<Rightarrow> cstr \<Rightarrow> ('s iconv \<times> 's) option) \<Rightarrow> nat \<Rightarrow> cstr \<Rightarrow> byte list \<Rightarrow> bool \<Rightarrow> cstr option \<Rightarrow> bool \<Rightarrow>
     (byte list \<times> bool) option" where
  "decode_loop iconv_open cap src dst adj ws lastlead =
     (if src = [] \<or> \<not> length dst < cap - 1 then Some (dst, lastlead)
      else if hd src \<noteq> 61 then
        let tmp = (if adj then dropWhile is_space src else src) in
        if adj \<and> hd0 tmp = 61 then decode_loop iconv_open cap tmp dst False (Some src) lastlead
        else if big5_is_valid_lead (hd src) \<and> big5_is_valid_trail (hd0 (tl src)) then
          if length dst + 2 > cap - 1 then Some (dst, lastlead)
          else decode_loop iconv_open cap (drop 2 src) (dst @ take 2 src) adj ws False
        else decode_loop iconv_open cap (tl src) (dst @ [hd src]) adj ws (big5_is_valid_lead (hd src))
      else
        case (if hd0 (tl src) = 63 then encoded_word iconv_open src (cap - length dst) else Some (None, tl src)) of
          None \<Rightarrow> None
        | Some (Some bs, tmp) \<Rightarrow> decode_loop iconv_open cap tmp (dst @ bs) True None False
        | Some (None, tmp) \<Rightarrow>
            let src0 = (case ws of Some w \<Rightarrow> w | None \<Rightarrow> src) in
            (case copy_run cap (take (length src0 - length tmp) src0) dst lastlead of
               (dst', lastlead', left) \<Rightarrow>
                 decode_loop iconv_open cap (left @ tmp) dst' adj None lastlead'))"

text \<open>\<open>str_decode_M3(str, size)\<close>: the new contents of the array of \<open>size\<close> bytes.\<close>

definition str_decode_M3 ::
  "(cstr \<Rightarrow> cstr \<Rightarrow> ('s iconv \<times> 's) option) \<Rightarrow> cstr \<Rightarrow> nat \<Rightarrow> cstr option" where
  "str_decode_M3 iconv_open str size0 =
     (if size0 = 0 then Some str
      else
        let cap = min size0 512 in
        map_option (\<lambda>(dst, lastlead). if lastlead then butlast dst else dst)
          (decode_loop iconv_open cap str [] False None False))"

section \<open>Lemmas on quoted-printable\<close>

lemma uint_add_byte: "uint (a :: byte) + uint b < 256 \<Longrightarrow> uint (a + b) = uint a + uint b"
  using uint_add_lem [of a b] by simp

lemma qp_code_hex: "uint n < 16 \<Longrightarrow> qp_code (hex_digit n) = uint n \<and> hex_digit n \<noteq> 0 \<and> \<not> isreturn (hex_digit n)"
proof -
  assume n: "uint n < 16"
  have u: "uint (hex_digit n) = (if uint n < 10 then 48 + uint n else 55 + uint n)"
    using n uint_add_byte [of 48 n] uint_add_byte [of 55 n] by (simp add: hex_digit_def word_less_def)
  then have "hex_digit n \<noteq> 0 \<and> \<not> isreturn (hex_digit n)"
    using n uint_byte_bounds(1) [of n]
    by (auto simp: isreturn_def word_uint_eq_iff) (use uint_byte_bounds(1) [of n] in linarith)+
  moreover have "qp_code (hex_digit n) = uint n"
    using n u uint_byte_bounds(1) [of n] by (auto simp: qp_code_def word_le_def)
  ultimately show ?thesis by blast
qed

lemma nibbles:
  fixes c :: byte
  shows "uint (drop_bit 4 (c AND 0xf0)) = uint c div 16" "uint (c AND 0x0f) = uint c mod 16"
proof -
  have h: "drop_bit 4 (c AND 0xf0) = drop_bit 4 c"
    unfolding byte_and_high by (rule bit_word_eqI) (auto simp: bit_simps dest: bit_imp_le_length)
  have "take_bit 8 (uint c) = uint c" using uint_byte_bounds [of c] by (simp add: take_bit_int_eq_self)
  then show "uint (drop_bit 4 (c AND 0xf0)) = uint c div 16"
    unfolding h unsigned_drop_bit_eq by (simp add: drop_bit_eq_div)
  show "uint (c AND 0x0f) = uint c mod 16" by (rule byte_and_mask)
qed

lemma mmdecode_q_char:
  assumes "length t < dstlen"
  shows "mmdecode_q dstlen (qp_char c @ s) t = mmdecode_q dstlen s (t @ [c])"
proof -
  let ?h = "drop_bit 4 (c AND 0xf0)" and ?l = "c AND 0x0f"
  consider (blank) "c = 32" | (esc) "c \<noteq> 32" "qp_char c = [61, hex_digit ?h, hex_digit ?l]"
    | (plain) "c \<noteq> 61" "c \<noteq> 63" "c \<noteq> 95" "c \<noteq> 32" "qp_char c = [c]"
  proof (cases "c = 32")
    case False
    show ?thesis
    proof (cases "c \<ge> 0x7f \<or> c < 0x20 \<or> c = 95 \<or> mime_special c")
      case True
      then have "qp_char c = [61, hex_digit ?h, hex_digit ?l]" using False by (simp only: qp_char_def if_True if_False)
      then show ?thesis using that(2) False by blast
    next
      case f: False
      then have "qp_char c = [c]" using False by (simp only: qp_char_def if_False)
      then show ?thesis using that(3) False f by (auto simp: mime_special_def)
    qed
  qed (use that in blast)
  then show ?thesis
  proof cases
    case blank
    then show ?thesis using assms by (subst mmdecode_q.simps) (simp add: qp_char_def)
  next
    case esc
    have b: "uint ?h < 16" "uint ?l < 16" unfolding nibbles using uint_byte_bounds [of c] by auto
    have "word_of_int (push_bit 4 (uint ?h) + uint ?l) = c"
    proof -
      have "push_bit 4 (uint ?h) + uint ?l = uint c" unfolding nibbles by (simp add: push_bit_eq_mult)
      then show ?thesis by simp
    qed
    moreover have "\<not> qp_code (hex_digit ?h) < 0" "\<not> qp_code (hex_digit ?l) < 0"
      using qp_code_hex [OF b(1)] qp_code_hex [OF b(2)] uint_byte_bounds(1) by auto
    ultimately show ?thesis
      unfolding esc(2) using assms qp_code_hex [OF b(1)] qp_code_hex [OF b(2)]
      by (subst mmdecode_q.simps) (simp add: Let_def)
  next
    case plain
    then show ?thesis using assms by (subst mmdecode_q.simps) simp
  qed
qed

lemma mmdecode_q_chars:
  "length t + length d \<le> dstlen \<Longrightarrow>
     mmdecode_q dstlen (concat (map qp_char d) @ s) t = mmdecode_q dstlen s (t @ d)"
proof (induction d arbitrary: t)
  case (Cons c d)
  then show ?case using mmdecode_q_char [of t dstlen c "concat (map qp_char d) @ s"] by simp
qed simp

lemma length_qp_char: "length (qp_char c) \<le> 3"
  by (simp add: qp_char_def)

lemma qp_loop_prefix:
  "\<exists>k \<le> length d. qp_loop slen out d = out @ concat (map qp_char (take k d)) \<and>
     (length out + 3 < slen \<longrightarrow> length (qp_loop slen out d) + 3 \<le> slen) \<and>
     (k = length d \<or> slen \<le> length out + 3 * length d + 3)"
proof (induction d arbitrary: out)
  case (Cons c d)
  show ?case
  proof (cases "length out + 6 < slen")
    case True
    have l: "length (out @ qp_char c) + 3 < slen" "length (out @ qp_char c) \<le> length out + 3"
      using True length_qp_char [of c] by simp_all
    obtain k where "k \<le> length d" "qp_loop slen (out @ qp_char c) d = (out @ qp_char c) @ concat (map qp_char (take k d))"
      "length (qp_loop slen (out @ qp_char c) d) + 3 \<le> slen"
      "k = length d \<or> slen \<le> length (out @ qp_char c) + 3 * length d + 3"
      using Cons [of "out @ qp_char c"] l(1) by blast
    then show ?thesis using True l(2) by (intro exI [of _ "Suc k"]) auto
  next
    case False
    then show ?thesis by (intro exI [of _ 0]) auto
  qed
qed simp

section \<open>Lemmas on base64\<close>

text \<open>The decoder only looks at the low \<open>bits\<close> bits of its pattern; on those it computes with numbers.\<close>

fun decode64 :: "nat \<Rightarrow> cstr \<Rightarrow> int \<Rightarrow> nat \<Rightarrow> byte list \<Rightarrow> byte list" where
  "decode64 dstlen [] r bits t = t"
| "decode64 dstlen (c # src) r bits t =
     (if c = 63 \<or> length t \<ge> dstlen then t
      else let x = base64_code c in
        if x < 0 then decode64 dstlen src r bits t
        else
          let v = r * 64 + x in
          if bits \<ge> 2 then decode64 dstlen src (v mod 2 ^ (bits - 2)) (bits - 2) (t @ [word_of_int (v div 2 ^ (bits - 2))])
          else decode64 dstlen src v (bits + 6) t)"

lemma base64_code_bounds: "base64_code c < 64"
  using uint_byte_bounds [of c] by (auto simp: base64_code_def word_le_def)

lemma pattern_step:
  fixes p :: u32
  assumes "0 \<le> x" "x < 64"
  shows "uint (push_bit 6 p OR word_of_int x) = (uint p * 64 + x) mod 2 ^ 32"
proof -
  have "uint (push_bit 6 p OR word_of_int x) = uint (push_bit 6 p) OR x"
    using assms by (simp add: uint_or unsigned_of_int take_bit_int_eq_self)
  also have "uint (push_bit 6 p) = push_bit 6 (uint p mod 2 ^ 26)"
  proof -
    have "uint p * 64 mod (2 ^ 26 * 64) = uint p mod 2 ^ 26 * 64" by (rule mod_mult_mult2)
    then show ?thesis unfolding unsigned_push_bit_eq by (simp add: take_bit_eq_mod push_bit_eq_mult)
  qed
  also have "push_bit 6 (uint p mod 2 ^ 26) OR x = uint p mod 2 ^ 26 * 2 ^ 6 + x"
    by (rule push_bit_or_int) (use assms in simp_all)
  also have "\<dots> = (uint p * 64 + x) mod 2 ^ 32"
  proof -
    have "(uint p * 64 + x) mod (64 * 2 ^ 26) = 64 * ((uint p * 64 + x) div 64 mod 2 ^ 26) + (uint p * 64 + x) mod 64"
      by (rule zmod_zmult2_eq) simp
    moreover have "(uint p * 64 + x) div 64 = uint p" "(uint p * 64 + x) mod 64 = x" using assms by simp_all
    ultimately show ?thesis by simp
  qed
  finally show ?thesis .
qed

lemma mod_power_mod: "n \<le> m \<Longrightarrow> (z :: int) mod 2 ^ m mod 2 ^ n = z mod 2 ^ n"
  by (simp add: mod_mod_cancel le_imp_power_dvd)

lemma mmdecode_b_decode64:
  "bits < 8 \<Longrightarrow> mmdecode_b dstlen s p bits t = decode64 dstlen s (uint p mod 2 ^ bits) bits t"
proof (induction s arbitrary: p bits t)
  case (Cons c s)
  let ?x = "base64_code c"
  let ?p = "push_bit 6 p OR word_of_int ?x :: u32"
  show ?case
  proof (cases "c = 63 \<or> length t \<ge> dstlen \<or> ?x < 0")
    case True
    then show ?thesis using Cons by (auto simp: Let_def)
  next
    case False
    let ?r = "uint p mod 2 ^ bits" and ?v = "uint p mod 2 ^ bits * 64 + ?x"
    have x: "0 \<le> ?x" "?x < 64" using False base64_code_bounds [of c] by simp_all
    have v: "uint ?p mod 2 ^ (bits + 6) = ?v"
    proof -
      have "uint ?p mod 2 ^ (bits + 6) = (uint p * 64 + ?x) mod 2 ^ (bits + 6)"
        unfolding pattern_step [OF x] using Cons.prems by (intro mod_power_mod) simp
      also have "\<dots> = (uint p * 64 + ?x) mod (64 * 2 ^ bits)" by (simp add: power_add mult.commute)
      also have "\<dots> = 64 * ((uint p * 64 + ?x) div 64 mod 2 ^ bits) + (uint p * 64 + ?x) mod 64"
        by (rule zmod_zmult2_eq) simp
      finally show ?thesis using x by simp
    qed
    show ?thesis
    proof (cases "bits \<ge> 2")
      case True
      let ?b = "bits - 2"
      have eq: "bits + 6 = ?b + 8" using True by simp
      have out: "(ucast (drop_bit ?b ?p AND 0xff) :: byte) = word_of_int (?v div 2 ^ ?b)"
      proof -
        have a: "uint (drop_bit ?b ?p AND 0xff) = uint ?p div 2 ^ ?b mod 256"
        proof -
          have "take_bit 32 (uint ?p) = uint ?p" using uint_lt2p [of ?p] by (simp add: take_bit_int_eq_self)
          then show ?thesis unfolding uint_and unsigned_drop_bit_eq by (simp add: int_and_mask drop_bit_eq_div)
        qed
        have "uint ?p div 2 ^ ?b mod 256 = uint ?p mod (2 ^ ?b * 256) div 2 ^ ?b"
          by (simp add: zmod_zmult2_eq)
        also have "uint ?p mod (2 ^ ?b * 256) = ?v" using v unfolding eq by (simp add: power_add)
        finally show ?thesis using a by (simp only: ucast_eq)
      qed
      have "uint ?p mod 2 ^ ?b = ?v mod 2 ^ ?b" using mod_power_mod [of ?b "bits + 6" "uint ?p"] v by simp
      moreover have "mmdecode_b dstlen (c # s) p bits t =
          mmdecode_b dstlen s ?p ?b (t @ [ucast (drop_bit ?b ?p AND 0xff)])"
        using False True by (simp add: Let_def eq)
      moreover have "decode64 dstlen (c # s) ?r bits t = decode64 dstlen s (?v mod 2 ^ ?b) ?b (t @ [word_of_int (?v div 2 ^ ?b)])"
        using False True by (simp add: Let_def)
      ultimately show ?thesis using Cons.IH [of ?b ?p] Cons.prems out by simp
    next
      case nb: False
      have "mmdecode_b dstlen (c # s) p bits t = mmdecode_b dstlen s ?p (bits + 6) t"
        using False nb by (simp add: Let_def)
      moreover have "decode64 dstlen (c # s) ?r bits t = decode64 dstlen s ?v (bits + 6) t"
        using False nb by (simp add: Let_def)
      ultimately show ?thesis using Cons.IH [of "bits + 6" ?p] nb v by simp
    qed
  qed
qed simp

text \<open>The base64 encoding with padding, by groups of three bytes.\<close>

definition b64_char :: "int \<Rightarrow> byte" where
  "b64_char n =
     (if n < 26 then word_of_int (65 + n) else if n < 52 then word_of_int (71 + n)
      else if n < 62 then word_of_int (n - 4) else if n = 62 then 43 else 47)"

fun b64_encode :: "byte list \<Rightarrow> cstr" where
  "b64_encode [] = []"
| "b64_encode [a] = [b64_char (uint a div 4), b64_char (uint a mod 4 * 16), 61, 61]"
| "b64_encode [a, b] =
     [b64_char (uint a div 4), b64_char (uint a mod 4 * 16 + uint b div 16), b64_char (uint b mod 16 * 4), 61]"
| "b64_encode (a # b # c # s) =
     [b64_char (uint a div 4), b64_char (uint a mod 4 * 16 + uint b div 16),
      b64_char (uint b mod 16 * 4 + uint c div 64), b64_char (uint c mod 64)] @ b64_encode s"

lemma b64_char_code:
  assumes "0 \<le> n" "n < 64"
  shows "base64_code (b64_char n) = n" "b64_char n \<noteq> 63"
proof -
  consider "n < 26" "uint (b64_char n) = 65 + n" | "26 \<le> n" "n < 52" "uint (b64_char n) = 71 + n"
    | "52 \<le> n" "n < 62" "uint (b64_char n) = n - 4" | "n = 62" "uint (b64_char n) = 43" | "n = 63" "uint (b64_char n) = 47"
  proof -
    have u: "n < 26 \<Longrightarrow> uint (word_of_int (65 + n) :: byte) = 65 + n" "n < 52 \<Longrightarrow> uint (word_of_int (71 + n) :: byte) = 71 + n"
      "52 \<le> n \<Longrightarrow> uint (word_of_int (n - 4) :: byte) = n - 4"
      using assms by (intro uint_word_of_int_byte; simp)+
    consider "n < 26" | "26 \<le> n" "n < 52" | "52 \<le> n" "n < 62" | "n = 62" | "n = 63" using assms by linarith
    then show ?thesis using u that unfolding b64_char_def by cases (simp_all del: of_int_add of_int_diff)
  qed
  then have "base64_code (b64_char n) = n \<and> b64_char n \<noteq> 63"
    by cases (use assms in \<open>auto simp: base64_code_def word_le_def word_uint_eq_iff\<close>)
  then show "base64_code (b64_char n) = n" "b64_char n \<noteq> 63" by auto
qed

lemma decode64_step:
  assumes "0 \<le> x" "x < 64" "length t < dstlen"
  shows "decode64 dstlen (b64_char x # s) r bits t =
    (if bits \<ge> 2 then decode64 dstlen s ((r * 64 + x) mod 2 ^ (bits - 2)) (bits - 2)
        (t @ [word_of_int ((r * 64 + x) div 2 ^ (bits - 2))])
     else decode64 dstlen s (r * 64 + x) (bits + 6) t)"
  using b64_char_code [OF assms(1,2)] assms by (simp add: Let_def)

lemma decode64_pad: "decode64 dstlen (61 # s) r bits t = (if length t \<ge> dstlen then t else decode64 dstlen s r bits t)"
  by (simp add: base64_code_def word_le_def)

lemma group_bits:
  fixes a b c :: int
  assumes "0 \<le> a" "a < 256" "0 \<le> b" "b < 256" "0 \<le> c" "c < 256"
  shows "(a div 4 * 64 + (a mod 4 * 16 + b div 16)) div 16 = a"
    "(a div 4 * 64 + (a mod 4 * 16 + b div 16)) mod 16 = b div 16"
    "(b div 16 * 64 + (b mod 16 * 4 + c div 64)) div 4 = b"
    "(b div 16 * 64 + (b mod 16 * 4 + c div 64)) mod 4 = c div 64"
    "c div 64 * 64 + c mod 64 = c"
proof -
  have e: "a div 4 * 64 + (a mod 4 * 16 + b div 16) = b div 16 + a * 16"
    "b div 16 * 64 + (b mod 16 * 4 + c div 64) = c div 64 + b * 4"
    using div_mult_mod_eq [of a 4] div_mult_mod_eq [of b 16] by linarith+
  have z: "b div 16 div 16 = 0" "b div 16 mod 16 = b div 16" "c div 64 div 4 = 0" "c div 64 mod 4 = c div 64"
    using assms by (simp_all add: div_pos_pos_trivial mod_pos_pos_trivial pos_imp_zdiv_nonneg_iff)
  show "(a div 4 * 64 + (a mod 4 * 16 + b div 16)) div 16 = a"
    "(a div 4 * 64 + (a mod 4 * 16 + b div 16)) mod 16 = b div 16"
    "(b div 16 * 64 + (b mod 16 * 4 + c div 64)) div 4 = b"
    "(b div 16 * 64 + (b mod 16 * 4 + c div 64)) mod 4 = c div 64"
    unfolding e using z by simp_all
  show "c div 64 * 64 + c mod 64 = c" by simp
qed

lemma decode64_group:
  assumes "length t + 3 \<le> dstlen"
  shows "decode64 dstlen (b64_char (uint a div 4) # b64_char (uint a mod 4 * 16 + uint b div 16) #
      b64_char (uint b mod 16 * 4 + uint c div 64) # b64_char (uint c mod 64) # s) 0 0 t =
    decode64 dstlen s 0 0 (t @ [a, b, c])"
proof -
  note u = uint_byte_bounds [of a] uint_byte_bounds [of b] uint_byte_bounds [of c]
  have x: "0 \<le> uint a div 4" "uint a div 4 < 64" "0 \<le> uint a mod 4 * 16 + uint b div 16" "uint a mod 4 * 16 + uint b div 16 < 64"
    "0 \<le> uint b mod 16 * 4 + uint c div 64" "uint b mod 16 * 4 + uint c div 64 < 64" "0 \<le> uint c mod 64" "uint c mod 64 < 64"
    using u by presburger+
  note g = group_bits [OF u]
  show ?thesis using assms x by (simp add: decode64_step g del: decode64.simps)
qed

lemma decode64_two:
  assumes "length t + 2 \<le> dstlen"
  shows "decode64 dstlen (b64_char (uint a div 4) # b64_char (uint a mod 4 * 16 + uint b div 16) #
      b64_char (uint b mod 16 * 4) # 61 # 63 # s) 0 0 t = t @ [a, b]"
proof -
  note u = uint_byte_bounds [of a] uint_byte_bounds [of b]
  have x: "0 \<le> uint a div 4" "uint a div 4 < 64" "0 \<le> uint a mod 4 * 16 + uint b div 16" "uint a mod 4 * 16 + uint b div 16 < 64"
    "0 \<le> uint b mod 16 * 4" "uint b mod 16 * 4 < 64" using u by presburger+
  have g: "(uint a div 4 * 64 + (uint a mod 4 * 16 + uint b div 16)) div 16 = uint a"
    "(uint a div 4 * 64 + (uint a mod 4 * 16 + uint b div 16)) mod 16 = uint b div 16"
    "(uint b div 16 * 64 + uint b mod 16 * 4) div 4 = uint b"
    using group_bits [OF u, of 0] by simp_all
  show ?thesis using assms x by (simp add: decode64_step decode64_pad g del: decode64.simps) simp
qed

lemma decode64_one:
  assumes "length t + 1 \<le> dstlen"
  shows "decode64 dstlen (b64_char (uint a div 4) # b64_char (uint a mod 4 * 16) # 61 # 61 # 63 # s) 0 0 t = t @ [a]"
proof -
  note u = uint_byte_bounds [of a]
  have x: "0 \<le> uint a div 4" "uint a div 4 < 64" "0 \<le> uint a mod 4 * 16" "uint a mod 4 * 16 < 64" using u by presburger+
  have g: "(uint a div 4 * 64 + uint a mod 4 * 16) div 16 = uint a" using group_bits(1) [OF u, of 0] by simp
  show ?thesis using assms x by (simp add: decode64_step decode64_pad g del: decode64.simps) simp
qed

lemma decode64_encode:
  "length t + length d \<le> dstlen \<Longrightarrow> decode64 dstlen (b64_encode d @ 63 # s) 0 0 t = t @ d"
proof (induction d arbitrary: t rule: b64_encode.induct)
  case (2 a)
  then show ?case using decode64_one [of t dstlen a s] by (simp del: decode64.simps)
next
  case (3 a b)
  then show ?case using decode64_two [of t dstlen a b s] by (simp del: decode64.simps)
next
  case (4 a b c d)
  then show ?case using decode64_group [of t dstlen a b c "b64_encode d @ 63 # s"] by (simp del: decode64.simps)
qed simp

section \<open>Lemmas on the conversion of headers\<close>

lemma iconv_loop_total:
  assumes "iconv_ok iconv"
  shows "\<exists>bs. iconv_loop iconv st src n out = Some (out @ bs) \<and> length bs \<le> n"
proof (induction src arbitrary: st n out rule: length_induct)
  case (1 src)
  obtain st' k bs e where i: "iconv st src n = (st', k, bs, e)" by (metis prod_cases4)
  have ok: "k \<le> length src" "length bs \<le> n" "e = None \<Longrightarrow> k = length src"
    "e = Some EILSEQ \<or> e = Some EINVAL \<Longrightarrow> k < length src"
  proof -
    note * = spec [OF spec [OF spec [OF assms [unfolded iconv_ok_def], of st], of src], of n]
    from * show "k \<le> length src" "length bs \<le> n" "e = None \<Longrightarrow> k = length src"
      "e = Some EILSEQ \<or> e = Some EINVAL \<Longrightarrow> k < length src" unfolding i prod.case by blast+
  qed
  show ?case
  proof (cases "src = [] \<or> n = 0")
    case True
    then show ?thesis by (subst iconv_loop.simps) simp
  next
    case False
    show ?thesis
    proof (cases e)
      case None
      then have "drop k src = []" using ok(3) by simp
      then have "iconv_loop iconv st src n out = Some (out @ bs)"
        using False i None by (subst iconv_loop.simps, subst iconv_loop.simps) (simp add: Let_def)
      then show ?thesis using ok(2) by blast
    next
      case (Some er)
      show ?thesis
      proof (cases "(er = EILSEQ \<or> er = EINVAL) \<and> n - length bs \<noteq> 0")
        case True
        let ?src = "tl (drop k src)"
        have "length ?src < length src" using ok(4) Some True by auto
        then obtain cs where "iconv_loop iconv st' ?src (n - length bs - 1) (out @ bs @ [hd0 (drop k src)]) =
            Some ((out @ bs @ [hd0 (drop k src)]) @ cs)" "length cs \<le> n - length bs - 1"
          using 1 by blast
        moreover have "iconv_loop iconv st src n out =
            iconv_loop iconv st' ?src (n - length bs - 1) (out @ bs @ [hd0 (drop k src)])"
          using False i Some True by (subst iconv_loop.simps) (simp add: Let_def)
        ultimately show ?thesis using True by (intro exI [of _ "bs @ [hd0 (drop k src)] @ cs"]) auto
      next
        case f: False
        then have "iconv_loop iconv st src n out = Some (out @ bs)"
          using False i Some by (subst iconv_loop.simps) (auto simp: Let_def)
        then show ?thesis using ok(2) by blast
      qed
    qed
  qed
qed

definition iconv_open_ok :: "(cstr \<Rightarrow> cstr \<Rightarrow> ('s iconv \<times> 's) option) \<Rightarrow> bool" where
  "iconv_open_ok iconv_open \<longleftrightarrow> (\<forall>a b ic st. iconv_open a b = Some (ic, st) \<longrightarrow> iconv_ok ic)"

lemma str_iconv_total:
  assumes "iconv_open_ok iconv_open" "0 < n"
  shows "\<exists>bs. str_iconv iconv_open a b src n = Some bs \<and> length bs \<le> n - 1"
proof (cases "iconv_open b a")
  case None
  then show ?thesis using assms(2) by (simp add: str_iconv_def Let_def)
next
  case (Some p)
  obtain ic st where p: "p = (ic, st)" by (cases p)
  have "iconv_ok ic" using assms(1) Some p by (auto simp: iconv_open_ok_def)
  from iconv_loop_total [OF this, of st src "n - 1" "[]"] show ?thesis
    using Some p assms(2) by (simp add: str_iconv_def Let_def)
qed

lemma encoded_word_total:
  assumes "iconv_open_ok iconv_open" "src \<noteq> []" "0 < room"
  shows "\<exists>r tmp. encoded_word iconv_open src room = Some (r, tmp) \<and> length tmp < length src \<and>
    (\<forall>bs. r = Some bs \<longrightarrow> length bs \<le> room - 1)"
proof -
  let ?body = "drop 2 src"
  let ?tmp = "dropWhile (\<lambda>c. c \<noteq> 63) ?body"
  have tl: "length ?tmp < length src"
    using length_dropWhile_less_eq [of "\<lambda>c. c \<noteq> 63" ?body] assms(2) by (cases src) auto
  show ?thesis
  proof (cases "?tmp \<noteq> [] \<and> tl ?tmp \<noteq> [] \<and> hd0 (tl (tl ?tmp)) = 63")
    case False
    then have "encoded_word iconv_open src room = Some (None, ?tmp)"
      unfolding encoded_word_def Let_def by (simp only: if_False)
    then show ?thesis using tl by blast
  next
    case True
    let ?cs = "mime_charset_name (take 511 (takeWhile (\<lambda>c. c \<noteq> 63) ?body))"
    let ?rest = "tl (dropWhile (\<lambda>c. c \<noteq> 63) (drop 3 ?tmp))"
    let ?rest' = "if hd0 ?rest = 61 then tl ?rest else ?rest"
    let ?fix = "map (\<lambda>c. if c < 0x20 \<or> c = 0x7f then 32 else c :: byte)"
    have "length ?rest' \<le> length ?tmp"
      using length_dropWhile_less_eq [of "\<lambda>c. c \<noteq> 63" "drop 3 ?tmp"] by auto
    then have rl: "length ?rest' < length src" using tl by linarith
    show ?thesis
    proof (cases "mmdecode (drop 3 ?tmp) (hd (tl ?tmp)) 512")
      case None
      then have "encoded_word iconv_open src room = Some (None, ?tmp)"
        unfolding encoded_word_def Let_def using True by (simp only: if_True simp_thms option.case)
      then show ?thesis using tl by blast
    next
      case (Some dst1)
      let ?conv = "case ?cs of Some cs \<Rightarrow> str_iconv iconv_open cs (lit ''big5'') dst1 room
        | None \<Rightarrow> Some (take (room - 1) dst1)"
      have e: "encoded_word iconv_open src room = map_option (\<lambda>bs. (Some (?fix bs), ?rest')) ?conv"
        unfolding encoded_word_def Let_def if_P [OF True] Some option.case ..
      obtain bs where "?conv = Some bs" "length bs \<le> room - 1"
      proof (cases ?cs)
        case None
        then show ?thesis using that [of "take (room - 1) dst1"] by simp
      next
        case (Some cs)
        obtain bs where "str_iconv iconv_open cs (lit ''big5'') dst1 room = Some bs" "length bs \<le> room - 1"
          using str_iconv_total [OF assms(1,3)] by blast
        then show ?thesis using that [of bs] Some by simp
      qed
      then show ?thesis unfolding e using rl by simp
    qed
  qed
qed

lemma copy_run_bounds:
  "length dst \<le> cap - 1 \<Longrightarrow> copy_run cap run dst l = (dst', l', left) \<Longrightarrow>
     length dst' \<le> cap - 1 \<and> length dst \<le> length dst'"
proof (induction cap run dst l rule: copy_run.induct)
  case (1 cap run dst l)
  show ?case
  proof (cases "run = [] \<or> \<not> length dst < cap - 1")
    case True
    then show ?thesis using "1.prems" by (simp add: copy_run.simps [of cap run dst l])
  next
    case False
    show ?thesis
    proof (cases "big5_is_valid_lead (hd run) \<and> tl run \<noteq> [] \<and> big5_is_valid_trail (hd (tl run))")
      case pair: True
      show ?thesis
      proof (cases "length dst + 2 > cap - 1")
        case True
        then show ?thesis using "1.prems" False pair by (simp add: copy_run.simps [of cap run dst l])
      next
        case fit: False
        have "copy_run cap (drop 2 run) (dst @ take 2 run) False = (dst', l', left)"
          using "1.prems"(2) False pair fit by (simp add: copy_run.simps [of cap run dst l])
        moreover have "length (dst @ take 2 run) \<le> cap - 1" "length dst \<le> length (dst @ take 2 run)"
          using fit by (auto simp: min_def)
        ultimately show ?thesis using "1.IH"(1) [OF False pair fit] by fastforce
      qed
    next
      case single: False
      have "copy_run cap (tl run) (dst @ [hd run]) (big5_is_valid_lead (hd run)) = (dst', l', left)"
        using "1.prems"(2) False single by (simp only: copy_run.simps [of cap run dst l] if_False)
      then show ?thesis using "1.IH"(2) [OF False single] False by simp
    qed
  qed
qed

lemma copy_run_grows:
  assumes "run \<noteq> []" "length dst < cap - 1" "\<not> big5_is_valid_lead (hd run)" "copy_run cap run dst l = (dst', l', left)"
  shows "length dst < length dst'"
proof -
  have "copy_run cap (tl run) (dst @ [hd run]) False = (dst', l', left)"
    using assms by (simp add: copy_run.simps [of cap run dst l])
  from copy_run_bounds [OF _ this] assms(2) show ?thesis by simp
qed

text \<open>White space that was skipped before \<open>src\<close>, kept to be put back.\<close>

definition ws_ok :: "cstr \<Rightarrow> cstr option \<Rightarrow> bool" where
  "ws_ok src ws \<longleftrightarrow> (\<forall>w. ws = Some w \<longrightarrow> w \<noteq> [] \<and> is_space (hd w) \<and> length src \<le> length w)"

lemma space_not_lead: "is_space c \<or> c = 61 \<Longrightarrow> \<not> big5_is_valid_lead c"
  by (auto simp: is_space_def big5_is_valid_lead_def word_le_def)

text \<open>The branches of one round.\<close>

lemma decode_loop_round:
  fixes iconv_open
  assumes "\<not> (src = [] \<or> \<not> length dst < cap - 1)"
  defines "L \<equiv> decode_loop iconv_open cap"
  shows
    "hd src \<noteq> 61 \<Longrightarrow> adj \<Longrightarrow> hd0 (dropWhile is_space src) = 61 \<Longrightarrow>
      L src dst adj ws ll = L (dropWhile is_space src) dst False (Some src) ll"
    "hd src \<noteq> 61 \<Longrightarrow> \<not> (adj \<and> hd0 (if adj then dropWhile is_space src else src) = 61) \<Longrightarrow>
      big5_is_valid_lead (hd src) \<and> big5_is_valid_trail (hd0 (tl src)) \<Longrightarrow>
      L src dst adj ws ll =
        (if length dst + 2 > cap - 1 then Some (dst, ll) else L (drop 2 src) (dst @ take 2 src) adj ws False)"
    "hd src \<noteq> 61 \<Longrightarrow> \<not> (adj \<and> hd0 (if adj then dropWhile is_space src else src) = 61) \<Longrightarrow>
      \<not> (big5_is_valid_lead (hd src) \<and> big5_is_valid_trail (hd0 (tl src))) \<Longrightarrow>
      L src dst adj ws ll = L (tl src) (dst @ [hd src]) adj ws (big5_is_valid_lead (hd src))"
    "\<not> hd src \<noteq> 61 \<Longrightarrow> (if hd0 (tl src) = 63 then encoded_word iconv_open src (cap - length dst) else Some (None, tl src)) = Some (r, tmp) \<Longrightarrow>
      L src dst adj ws ll =
        (case (r, tmp) of
           (Some bs, tmp) \<Rightarrow> L tmp (dst @ bs) True None False
         | (None, tmp) \<Rightarrow>
             (case copy_run cap (take (length (case ws of Some w \<Rightarrow> w | None \<Rightarrow> src) - length tmp)
                     (case ws of Some w \<Rightarrow> w | None \<Rightarrow> src)) dst ll of
                (dst', ll', left) \<Rightarrow> L (left @ tmp) dst' adj None ll'))"
  using assms(1) unfolding L_def decode_loop.simps [of iconv_open cap src dst adj ws ll] Let_def
  by (simp_all only: if_False if_True simp_thms option.case)

text \<open>The loop ends and its result fits.\<close>

definition decodes :: "nat \<Rightarrow> (byte list \<times> bool) option \<Rightarrow> bool" where
  "decodes cap x \<longleftrightarrow> (\<exists>dst' l'. x = Some (dst', l') \<and> length dst' \<le> cap - 1)"

lemma decode_plain:
  assumes go: "\<And>src' d adj' ws' l. length d \<le> cap - 1 \<Longrightarrow> ws_ok src' ws' \<Longrightarrow>
      length dst < length d \<or> length dst = length d \<and> length src' < length src \<Longrightarrow> decodes cap (decode_loop iconv_open cap src' d adj' ws' l)"
    and ne: "\<not> (src = [] \<or> \<not> length dst < cap - 1)" and ws: "ws_ok src ws" and plain: "hd src \<noteq> 61"
  shows "decodes cap (decode_loop iconv_open cap src dst adj ws lastlead)"
proof -
  note round = decode_loop_round [where iconv_open = iconv_open and adj = adj and ws = ws and ll = lastlead, OF ne]
  have room: "length dst < cap - 1" "src \<noteq> []" using ne by auto
  have shorter: "ws_ok src' ws" if "length src' \<le> length src" for src' using ws that by (auto simp: ws_ok_def)
  show ?thesis
  proof (cases "adj \<and> hd0 (if adj then dropWhile is_space src else src) = 61")
    case True
    then have t: "adj" "hd0 (dropWhile is_space src) = 61" by auto
    have sp: "is_space (hd src)" using t(2) plain room(2) by (cases src) (auto split: if_splits)
    then have "length (dropWhile is_space src) < length src" using room(2) by (cases src) (auto simp: le_imp_less_Suc)
    moreover have "ws_ok (dropWhile is_space src) (Some src)" using sp room(2) by (simp add: ws_ok_def)
    ultimately show ?thesis unfolding round(1) [OF plain t] using go [of dst] room(1) by simp
  next
    case na: False
    show ?thesis
    proof (cases "big5_is_valid_lead (hd src) \<and> big5_is_valid_trail (hd0 (tl src))")
      case pair: True
      have "0 < length (take 2 src)" using room(2) by simp
      then show ?thesis unfolding round(2) [OF plain na pair]
        using go [of "dst @ take 2 src" "drop 2 src" ws] shorter [of "drop 2 src"] room(1) by (auto simp: decodes_def min_def)
    next
      case single: False
      show ?thesis unfolding round(3) [OF plain na single]
        using go [of "dst @ [hd src]" "tl src" ws] shorter [of "tl src"] room(1) by simp
    qed
  qed
qed

lemma decode_word:
  assumes io: "iconv_open_ok iconv_open"
    and go: "\<And>src' d adj' ws' l. length d \<le> cap - 1 \<Longrightarrow> ws_ok src' ws' \<Longrightarrow>
      length dst < length d \<or> length dst = length d \<and> length src' < length src \<Longrightarrow> decodes cap (decode_loop iconv_open cap src' d adj' ws' l)"
    and ne: "\<not> (src = [] \<or> \<not> length dst < cap - 1)" and ws: "ws_ok src ws" and eq: "\<not> hd src \<noteq> 61"
  shows "decodes cap (decode_loop iconv_open cap src dst adj ws lastlead)"
proof -
  have room: "length dst < cap - 1" "src \<noteq> []" using ne by auto
  let ?w = "if hd0 (tl src) = 63 then encoded_word iconv_open src (cap - length dst) else Some (None, tl src)"
  have "\<exists>r tmp. ?w = Some (r, tmp) \<and> length tmp < length src \<and> (\<forall>bs. r = Some bs \<longrightarrow> length bs \<le> cap - length dst - 1)"
    using encoded_word_total [OF io room(2), of "cap - length dst"] room by (cases "hd0 (tl src) = 63") auto
  then obtain r tmp where w: "?w = Some (r, tmp)" "length tmp < length src"
    "\<And>bs. r = Some bs \<Longrightarrow> length bs \<le> cap - length dst - 1" by blast
  note u = decode_loop_round(4) [where adj = adj and ws = ws and ll = lastlead, OF ne eq w(1)]
  show ?thesis
  proof (cases r)
    case (Some bs)
    have "length (dst @ bs) \<le> cap - 1" using w(3) [OF Some] room(1) by simp
    then show ?thesis unfolding u Some using go [of "dst @ bs" tmp None] w(2) by (cases bs) (auto simp: ws_ok_def)
  next
    case None
    let ?src0 = "case ws of Some w \<Rightarrow> w | None \<Rightarrow> src"
    let ?run = "take (length ?src0 - length tmp) ?src0"
    obtain dst' l' left where c: "copy_run cap ?run dst lastlead = (dst', l', left)" by (metis prod_cases3)
    have s0: "length tmp < length ?src0" "\<not> big5_is_valid_lead (hd ?src0)"
      using ws w(2) eq space_not_lead by (auto simp: ws_ok_def split: option.split)
    then have run: "?run \<noteq> []" "hd ?run = hd ?src0" by auto
    have "length dst \<le> cap - 1" using room(1) by simp
    then have "length dst < length dst'" "length dst' \<le> cap - 1"
      using copy_run_grows [OF run(1) room(1) _ c] s0(2) run(2) copy_run_bounds [OF _ c] by auto
    then show ?thesis unfolding u None prod.case option.case c using go [of dst' "left @ tmp" None] by (simp add: ws_ok_def)
  qed
qed

lemma decode_loop_total:
  assumes io: "iconv_open_ok iconv_open"
  shows "length dst \<le> cap - 1 \<Longrightarrow> ws_ok src ws \<Longrightarrow>
    \<exists>dst' l'. decode_loop iconv_open cap src dst adj ws lastlead = Some (dst', l') \<and> length dst' \<le> cap - 1"
  unfolding decodes_def [symmetric]
proof (induction "(cap - length dst, length src)" arbitrary: src dst adj ws lastlead
    rule: wf_induct_rule [OF wf_lex_prod [OF wf_less_than wf_less_than]])
  case less: 1
  show ?case
  proof (cases "src = [] \<or> \<not> length dst < cap - 1")
    case True
    then have "decode_loop iconv_open cap src dst adj ws lastlead = Some (dst, lastlead)"
      by (simp add: decode_loop.simps [of iconv_open cap src])
    then show ?thesis using less(2) by (simp add: decodes_def)
  next
    case ne: False
    have go: "decodes cap (decode_loop iconv_open cap src' d adj' ws' l)"
      if "length d \<le> cap - 1" "ws_ok src' ws'" "length dst < length d \<or> length dst = length d \<and> length src' < length src" for src' d adj' ws' l
    proof -
      have "cap - length d < cap - length dst \<or> cap - length d = cap - length dst \<and> length src' < length src"
        using that(1,3) ne by linarith
      then show ?thesis using less(1) [of d src' ws' adj' l] that(1,2) by auto
    qed
    show ?thesis using decode_plain [OF go ne less(3)] decode_word [OF io go ne less(3)] by blast
  qed
qed

section \<open>Properties\<close>

text \<open>  \<open>mmdecode\<close> inverts \<open>qp_encode\<close>: the word it produces has the form
  \<open>=?charset?Q?body?=\<close>, fits the buffer with its NUL, and its body decodes to the text,
  or to a prefix of it only where the buffer is too small.
\<close>

lemma qp_encode_roundtrip:
  assumes "qp_encode slen d tocode = Some w" "length d \<le> dstlen"
  shows "\<exists>body k. w = [61, 63] @ tocode @ [63, 81, 63] @ body @ [63, 61] \<and> length w + 1 \<le> slen \<and>
    mmdecode (body @ [63, 61]) 81 dstlen = Some (take k d) \<and>
    (k = length d \<or> slen \<le> length tocode + 3 * length d + 8)"
proof -
  let ?h = "[61, 63] @ tocode @ [63, 81, 63]"
  have h: "length ?h + 3 < slen" "w = qp_loop slen ?h d @ [63, 61]"
    using assms(1) by (auto simp: qp_encode_def Let_def split: if_splits)
  obtain k where k: "k \<le> length d" "qp_loop slen ?h d = ?h @ concat (map qp_char (take k d))"
    "length (qp_loop slen ?h d) + 3 \<le> slen" "k = length d \<or> slen \<le> length ?h + 3 * length d + 3"
    using qp_loop_prefix [of d slen ?h] h(1) by blast
  let ?body = "concat (map qp_char (take k d))"
  have "mmdecode_q dstlen (?body @ [63, 61]) [] = mmdecode_q dstlen [63, 61] (take k d)"
    using mmdecode_q_chars [of "[]" "take k d" dstlen "[63, 61]"] assms(2) k(1) by simp
  also have "\<dots> = Some (take k d)" by (simp add: mmdecode_q.simps)
  finally have "mmdecode (?body @ [63, 61]) 81 dstlen = Some (take k d)" by (simp add: mmdecode_def)
  moreover have "w = [61, 63] @ tocode @ [63, 81, 63] @ ?body @ [63, 61]" "length w + 1 \<le> slen"
    using h(2) k(2,3) by simp_all
  moreover have "k = length d \<or> slen \<le> length tocode + 3 * length d + 8" using k(4) by (auto simp: add.commute)
  ultimately show ?thesis by blast
qed

text \<open>C26.
  The base64 decoder, which shifts its bits through a 32-bit word and skips
  padding, inverts the base64 encoding of every byte string.
\<close>

theorem mmdecode_base64:
  assumes "length d \<le> dstlen"
  shows "mmdecode (b64_encode d @ 63 # rest) 66 dstlen = Some d"
proof -
  have "mmdecode_b dstlen (b64_encode d @ 63 # rest) 0 0 [] = d"
    using mmdecode_b_decode64 [of 0 dstlen "b64_encode d @ 63 # rest" 0 "[]"] decode64_encode [of "[]" d dstlen rest] assms
    by simp
  then show ?thesis by (simp add: mmdecode_def)
qed

theorem mmdecode_base64_witness: "mmdecode (b64_encode [0xA4, 0xA4] @ 63 # [61]) 66 512 = Some [0xA4, 0xA4]"
  by (rule mmdecode_base64) simp

text \<open>C33.
  Decoding a header ends on every input, for every \<open>iconv\<close> that behaves as POSIX
  says, and the result fits with its NUL in the caller's array and in the local
  one of 512 bytes.
\<close>

theorem str_decode_M3_safe:
  assumes "iconv_open_ok iconv_open" "0 < n"
  shows "\<exists>out. str_decode_M3 iconv_open str n = Some out \<and> length out < min n 512"
proof -
  obtain dst l where d: "decode_loop iconv_open (min n 512) str [] False None False = Some (dst, l)"
    "length dst \<le> min n 512 - 1"
    using decode_loop_total [OF assms(1), of "[]" "min n 512" str None False False] by (auto simp: ws_ok_def)
  have "length (if l then butlast dst else dst) \<le> length dst" by simp
  moreover have "0 < min n 512" using assms(2) by simp
  ultimately show ?thesis using d assms(2) by (simp add: str_decode_M3_def Let_def) linarith
qed

theorem str_decode_M3_safe_witness:
  "\<exists>out. str_decode_M3 (\<lambda>a b. Some (\<lambda>st src n. ((), min n (length src), take n src, if n < length src then Some E2BIG else None), ()))
    [61, 63, 98, 105, 103, 53, 63, 81, 63, 65, 63, 61] 80 = Some out \<and> length out < min 80 512"
  by (rule str_decode_M3_safe) (auto simp: iconv_open_ok_def iconv_ok_def)

end
