(* ===== verification/Url.thy ===== *)
theory Url
  imports Clib
begin

text \<open>
  URLs in article text, from \<open>src/common/sys/string.c\<close>: \<open>match_url\<close>,
  \<open>match_url_continuation\<close> and the \<open>url_tracker_t\<close> that follows a URL over
  line breaks.  A text given by a pointer and a length is the list of its
  bytes.  For the tracker the text buffer is one C string \<open>mem\<close> that starts at
  \<open>buf_start\<close>, and a pointer into it is an index, with \<open>buf_end\<close> at most its length.
  The theory shows that the scanner returns the longest acceptable prefix, that the
  tracker stays within its array and stitches the lines in order, and where its
  two halves disagree.
\<close>

section \<open>Matching one line\<close>

definition is_url_char :: "byte \<Rightarrow> bool" where
  "is_url_char c \<longleftrightarrow> \<not> (c \<le> 32 \<or> c \<ge> 0x7f \<or> c = 0x1b) \<and>
     \<not> (c = 34 \<or> c = 60 \<or> c = 62 \<or> c = 96 \<or> c = 123 \<or> c = 125 \<or> c = 124 \<or> c = 92 \<or>
        c = 94 \<or> c = 91 \<or> c = 93)"

text \<open>The characters \<open>. , ; : ? ! ' "\<close> at which a sentence may end.\<close>

definition trailing_punct :: "byte \<Rightarrow> bool" where
  "trailing_punct c \<longleftrightarrow> c = 46 \<or> c = 44 \<or> c = 59 \<or> c = 58 \<or> c = 63 \<or> c = 33 \<or> c = 39 \<or> c = 34"

text \<open>More closing than opening parentheses among the bytes from \<open>lo\<close> to \<open>len\<close>.\<close>

definition unbalanced :: "nat \<Rightarrow> byte list \<Rightarrow> nat \<Rightarrow> bool" where
  "unbalanced lo s len \<longleftrightarrow>
     count_list (drop lo (take len s)) 41 > count_list (drop lo (take len s)) 40"

fun trim_trailing :: "nat \<Rightarrow> byte list \<Rightarrow> nat \<Rightarrow> nat" where
  "trim_trailing lo s len =
     (if len \<le> lo then len
      else if trailing_punct (s ! (len - 1)) then trim_trailing lo s (len - 1)
      else if s ! (len - 1) = 41 \<and> unbalanced lo s len then trim_trailing lo s (len - 1)
      else len)"

declare trim_trailing.simps [simp del]

text \<open>\<open>"http://"\<close> and \<open>"https://"\<close>, compared without case.\<close>

definition http_scheme :: "byte list" where "http_scheme = [104, 116, 116, 112, 58, 47, 47]"
definition https_scheme :: "byte list" where "https_scheme = [104, 116, 116, 112, 115, 58, 47, 47]"

definition has_scheme :: "byte list \<Rightarrow> byte list \<Rightarrow> bool" where
  "has_scheme sch s \<longleftrightarrow> length s \<ge> length sch \<and> map to_lower (take (length sch) s) = sch"

definition scheme_len :: "byte list \<Rightarrow> nat option" where
  "scheme_len s =
     (if has_scheme http_scheme s then Some 7
      else if has_scheme https_scheme s then Some 8
      else None)"

definition match_url :: "byte list \<Rightarrow> nat option" where
  "match_url s =
     (if length s < 8 then None
      else case scheme_len s of
        None \<Rightarrow> None
      | Some sl \<Rightarrow>
          let p = sl + length (takeWhile is_url_char (drop sl s));
              url_len = trim_trailing sl s p in
          if url_len \<le> sl then None else Some url_len)"

definition match_url_continuation :: "byte list \<Rightarrow> nat" where
  "match_url_continuation s =
     (if s = [] then 0
      else if match_url s \<noteq> None \<or> has_scheme http_scheme s \<or> has_scheme https_scheme s then 0
      else trim_trailing 0 s (length (takeWhile is_url_char s)))"

section \<open>The tracker\<close>

text \<open>
  \<open>url\<close> is the string in the array of 1024 bytes, \<open>cont_ptr\<close> the index in the
  text buffer of the continuation on the current line.
\<close>

record url_tracker =
  ut_url :: "byte list"
  cont_ptr :: "nat option"
  cur_line_bytes_left :: nat
  in_url :: bool
  cont_next_line :: bool

definition ut_zero :: url_tracker where
  "ut_zero = \<lparr>ut_url = [], cont_ptr = None, cur_line_bytes_left = 0, in_url = False, cont_next_line = False\<rparr>"

text \<open>The bytes from index \<open>i\<close> to the end of the buffer.\<close>

definition upto :: "byte list \<Rightarrow> nat \<Rightarrow> nat \<Rightarrow> byte list" where
  "upto mem i e = drop i (take e mem)"

definition skip_newline :: "byte list \<Rightarrow> nat \<Rightarrow> nat \<Rightarrow> nat" where
  "skip_newline mem e chk =
     (let c1 = (if nth0 mem chk = 13 then chk + 1 else chk) in
      if c1 < e \<and> nth0 mem c1 = 10 then c1 + 1 else c1)"

definition skip_quote :: "byte list \<Rightarrow> nat \<Rightarrow> nat \<Rightarrow> nat" where
  "skip_quote mem e c =
     (if c + 2 \<le> e \<and> (nth0 mem c = 58 \<or> nth0 mem c = 62) \<and> nth0 mem (c + 1) = 32 then c + 2 else c)"

text \<open>
  The loop of \<open>url_tracker_init\<close>: the bytes stored in the array and
  \<open>cont_next_line\<close> from the piece at \<open>cur_p\<close> on.
\<close>

function stitch_loop ::
  "byte list \<Rightarrow> nat \<Rightarrow> nat \<Rightarrow> nat \<Rightarrow> nat \<Rightarrow> byte list \<Rightarrow> bool \<Rightarrow> byte list \<times> bool" where
  "stitch_loop mem e cur_p cur_len cur_col url cont =
     (if \<not> cur_p + cur_len < e then (url, cont)
      else if cur_col + cur_len < 74 \<or> cur_col + cur_len > 80 then (url, cont)
      else if nth0 mem (cur_p + cur_len) \<noteq> 13 \<and> nth0 mem (cur_p + cur_len) \<noteq> 10 then (url, cont)
      else
        let chk = skip_newline mem e (cur_p + cur_len);
            cptr = skip_quote mem e chk;
            clen = match_url_continuation (upto mem cptr e) in
        if clen = 0 then (url, cont)
        else stitch_loop mem e cptr clen (cptr - chk)
               (if length url + clen < 1024 then url @ take clen (drop cptr mem) else url) True)"
  by pat_completeness auto
termination
  by (relation "measure (\<lambda>(mem, e, cur_p, _). e - cur_p)") (auto simp: skip_newline_def skip_quote_def Let_def)

declare stitch_loop.simps [simp del]

definition url_tracker_init ::
  "url_tracker \<Rightarrow> byte list \<Rightarrow> nat \<Rightarrow> nat \<Rightarrow> nat \<Rightarrow> nat \<Rightarrow> bool \<times> url_tracker" where
  "url_tracker_init st mem p first_len buf_end col =
     (if first_len = 0 then (False, st)
      else
        let url0 = take (if first_len \<ge> 1024 then 1023 else first_len) (drop p mem);
            (url, cont) = stitch_loop mem buf_end p first_len col url0 False in
        (True, ut_zero\<lparr>in_url := True, cur_line_bytes_left := first_len, ut_url := url, cont_next_line := cont\<rparr>))"

definition url_tracker_next_line ::
  "url_tracker \<Rightarrow> byte list \<Rightarrow> nat \<Rightarrow> nat \<Rightarrow> bool \<times> url_tracker" where
  "url_tracker_next_line st mem line_start buf_end =
     (if \<not> in_url st \<or> \<not> cont_next_line st \<or> line_start \<ge> buf_end then (False, ut_zero)
      else
        let cptr = skip_quote mem buf_end line_start;
            clen = match_url_continuation (upto mem cptr buf_end);
            ue = cptr + clen in
        if clen > 0 then
          (True, st\<lparr>cur_line_bytes_left := clen, cont_ptr := Some cptr,
             cont_next_line := (ue < buf_end \<and> (nth0 mem ue = 13 \<or> nth0 mem ue = 10))\<rparr>)
        else (False, ut_zero))"

section \<open>Looking back\<close>

definition strchrnul :: "byte list \<Rightarrow> nat \<Rightarrow> byte \<Rightarrow> nat" where
  "strchrnul mem i c = i + length (takeWhile (\<lambda>x. x \<noteq> c \<and> x \<noteq> 0) (drop i mem))"

text \<open>The start of the line before the one that starts at \<open>p\<close>.\<close>

fun line_back :: "byte list \<Rightarrow> nat \<Rightarrow> nat" where
  "line_back mem prev = (if prev > 0 \<and> nth0 mem (prev - 1) \<noteq> 10 then line_back mem (prev - 1) else prev)"

declare line_back.simps [simp del]

definition prev_line :: "byte list \<Rightarrow> nat \<Rightarrow> nat" where
  "prev_line mem p =
     (let q = p - 1;
          q1 = (if q > 0 \<and> nth0 mem q = 10 then q - 1 else q);
          q2 = (if q1 > 0 \<and> nth0 mem q1 = 13 then q1 - 1 else q1) in
      line_back mem q2)"

definition after_line :: "byte list \<Rightarrow> nat \<Rightarrow> nat \<Rightarrow> nat" where
  "after_line mem e line_end =
     (let n1 = (if nth0 mem line_end = 13 then line_end + 1 else line_end) in
      if n1 < e \<and> nth0 mem n1 = 10 then n1 + 1 else n1)"

lemma trim_trailing_bounds: "trim_trailing lo s len \<le> len"
proof (induction len)
  case (Suc n)
  show ?case unfolding trim_trailing.simps [of lo s "Suc n"] using Suc by simp
qed (simp add: trim_trailing.simps)

lemma continuation_le: "match_url_continuation s \<le> length (takeWhile is_url_char s)"
  using trim_trailing_bounds by (simp add: match_url_continuation_def)

lemma continuation_stops: "hd0 s = 0 \<Longrightarrow> match_url_continuation s = 0"
  using continuation_le [of s] by (cases s) (auto simp: is_url_char_def)

lemma hd0_upto: "i < e \<Longrightarrow> hd0 (upto mem i e) = nth0 mem i"
proof (cases "i < length mem")
  case True
  assume "i < e"
  with True have "upto mem i e = mem ! i # drop (Suc i) (take e mem)"
    by (simp add: upto_def Cons_nth_drop_Suc [symmetric])
  then show ?thesis using True by (simp add: nth0_def)
next
  case False
  then show "hd0 (upto mem i e) = nth0 mem i" by (simp add: upto_def nth0_def)
qed

text \<open>At a NUL the URL ends, so the walk below cannot stay on one line forever.\<close>

lemma next_line_at_NUL:
  assumes "nth0 mem i = 0" "i < e"
  shows "url_tracker_next_line st mem i e = (False, ut_zero)"
proof -
  have "skip_quote mem e i = i" using assms(1) by (simp add: skip_quote_def)
  then show ?thesis
    using continuation_stops hd0_upto [OF assms(2)] assms(1)
    by (simp add: url_tracker_next_line_def Let_def)
qed

lemma strchrnul_ge [simp]: "i \<le> strchrnul mem i c"
  by (simp add: strchrnul_def)

lemma strchrnul_less: "nth0 mem i \<noteq> c \<Longrightarrow> nth0 mem i \<noteq> 0 \<Longrightarrow> i < strchrnul mem i c"
  by (cases "drop i mem") (auto simp: strchrnul_def nth0_def split: if_splits simp flip: hd_drop_conv_nth)

lemma after_line_ge [simp]: "i \<le> after_line mem e i"
  by (simp add: after_line_def Let_def)

lemma walk_progress:
  assumes "i < e" "nth0 mem i \<noteq> 0"
  shows "i < after_line mem e (strchrnul mem i 10)"
proof (cases "nth0 mem i = 10")
  case True
  then have "strchrnul mem i 10 = i"
    by (cases "drop i mem") (auto simp: strchrnul_def nth0_def split: if_splits simp flip: hd_drop_conv_nth)
  then show ?thesis using True assms(1) by (simp add: after_line_def Let_def)
next
  case False
  have "strchrnul mem i 10 \<le> after_line mem e (strchrnul mem i 10)" by simp
  then show ?thesis using strchrnul_less [OF False assms(2)] by linarith
qed

text \<open>The loop that follows the URL line by line up to \<open>curr_line\<close>.\<close>

function walk_lines ::
  "byte list \<Rightarrow> nat \<Rightarrow> nat \<Rightarrow> url_tracker \<Rightarrow> nat \<Rightarrow> url_tracker \<times> nat" where
  "walk_lines mem e cur_line st next_l =
     (if next_l < cur_line \<and> cont_next_line st then
        walk_lines mem e cur_line (snd (url_tracker_next_line st mem next_l e))
          (after_line mem e (strchrnul mem next_l 10))
      else (st, next_l))"
  by pat_completeness auto
termination
proof (relation "measures [\<lambda>(mem, e, cur_line, st, next_l). cur_line - next_l,
    \<lambda>(mem, e, cur_line, st, next_l). if cont_next_line st then 1 else 0]", goal_cases)
  case (2 mem e cur_line st next_l)
  let ?n = "after_line mem e (strchrnul mem next_l 10)"
  have ge: "next_l \<le> ?n" by (rule order_trans [OF strchrnul_ge after_line_ge])
  show ?case
  proof (cases "nth0 mem next_l = 0 \<or> e \<le> next_l")
    case True
    then have "url_tracker_next_line st mem next_l e = (False, ut_zero)"
      using next_line_at_NUL [of mem next_l e st] by (cases "e \<le> next_l") (auto simp: url_tracker_next_line_def)
    then have "\<not> cont_next_line (snd (url_tracker_next_line st mem next_l e))" by (simp add: ut_zero_def)
    then show ?thesis using ge 2 by auto
  next
    case False
    then have "next_l < ?n" using walk_progress by simp
    then have "cur_line - ?n < cur_line - next_l" using 2 by (simp add: diff_less_mono2)
    then show ?thesis by simp
  qed
qed simp

declare walk_lines.simps [simp del]

text \<open>
  The first URL on the line from \<open>scan\<close> to \<open>line_end\<close> decides; \<open>None\<close> when the line
  has none.
\<close>

definition prev_url ::
  "byte list \<Rightarrow> nat \<Rightarrow> nat \<Rightarrow> nat \<Rightarrow> nat \<Rightarrow> nat \<Rightarrow> nat \<Rightarrow> bool \<times> url_tracker" where
  "prev_url mem e cur_line prev line_end scan ulen =
     (let st = snd (url_tracker_init ut_zero mem scan ulen e (scan - prev)) in
      if cont_next_line st then
        let (st', next_l) = walk_lines mem e cur_line st (after_line mem e line_end) in
        if next_l = cur_line \<and> cont_next_line st' then url_tracker_next_line st' mem cur_line e
        else (False, ut_zero)
      else (False, ut_zero))"

function scan_line ::
  "byte list \<Rightarrow> nat \<Rightarrow> nat \<Rightarrow> nat \<Rightarrow> nat \<Rightarrow> nat \<Rightarrow> (bool \<times> url_tracker) option" where
  "scan_line mem e cur_line prev line_end scan =
     (if scan < line_end then
        case (if nth0 mem scan = 104 \<or> nth0 mem scan = 72 then match_url (upto mem scan line_end) else None) of
          Some ulen \<Rightarrow> Some (prev_url mem e cur_line prev line_end scan ulen)
        | None \<Rightarrow> scan_line mem e cur_line prev line_end (Suc scan)
      else None)"
  by pat_completeness auto
termination by (relation "measure (\<lambda>(mem, e, cl, prev, line_end, scan). line_end - scan)") auto

declare scan_line.simps [simp del]

fun back_loop :: "nat \<Rightarrow> byte list \<Rightarrow> nat \<Rightarrow> nat \<Rightarrow> nat \<Rightarrow> bool \<times> url_tracker" where
  "back_loop 0 mem e cur_line p = (False, ut_zero)"
| "back_loop (Suc n) mem e cur_line p =
     (if p = 0 then (False, ut_zero)
      else
        let prev = prev_line mem p in
        case scan_line mem e cur_line prev (strchrnul mem prev 10) prev of
          Some r \<Rightarrow> r
        | None \<Rightarrow> back_loop n mem e cur_line prev)"

definition url_tracker_init_from_prev_line ::
  "url_tracker \<Rightarrow> byte list \<Rightarrow> nat \<Rightarrow> nat \<Rightarrow> bool \<times> url_tracker" where
  "url_tracker_init_from_prev_line st mem cur_line buf_end =
     (if cur_line = 0 \<or> cur_line \<ge> buf_end then (False, st)
      else back_loop 5 mem buf_end cur_line cur_line)"

section \<open>The longest URL\<close>

text \<open>A prefix of length \<open>n\<close> that may be a URL whose scheme has length \<open>sl\<close>.\<close>

definition url_end_ok :: "nat \<Rightarrow> byte list \<Rightarrow> nat \<Rightarrow> bool" where
  "url_end_ok sl s n \<longleftrightarrow> \<not> trailing_punct (s ! (n - 1)) \<and> \<not> (s ! (n - 1) = 41 \<and> unbalanced sl s n)"

definition url_at :: "nat \<Rightarrow> byte list \<Rightarrow> nat \<Rightarrow> bool" where
  "url_at sl s n \<longleftrightarrow> sl < n \<and> n \<le> length s \<and> list_all is_url_char (drop sl (take n s)) \<and> url_end_ok sl s n"

lemma trim_trailing_greatest:
  "lo \<le> len \<Longrightarrow> lo \<le> trim_trailing lo s len \<and>
     (lo < trim_trailing lo s len \<longrightarrow> url_end_ok lo s (trim_trailing lo s len)) \<and>
     (\<forall>m. trim_trailing lo s len < m \<and> m \<le> len \<longrightarrow> \<not> url_end_ok lo s m)"
proof (induction len)
  case (Suc n)
  show ?case
  proof (cases "Suc n \<le> lo \<or> url_end_ok lo s (Suc n)")
    case True
    then have "trim_trailing lo s (Suc n) = Suc n"
      by (subst trim_trailing.simps) (auto simp: url_end_ok_def)
    then show ?thesis using True Suc.prems by auto
  next
    case False
    then have "trim_trailing lo s (Suc n) = trim_trailing lo s n"
      by (subst trim_trailing.simps) (auto simp: url_end_ok_def)
    then show ?thesis using Suc False by (auto simp: le_Suc_eq)
  qed
qed (simp add: trim_trailing.simps)

lemma list_all_take_iff: "k \<le> length xs \<Longrightarrow> list_all P (take k xs) \<longleftrightarrow> k \<le> length (takeWhile P xs)"
proof (induction xs arbitrary: k)
  case (Cons x xs)
  then show ?case by (cases k) auto
qed simp

lemma url_at_iff:
  assumes "sl \<le> length s"
  shows "url_at sl s n \<longleftrightarrow>
    sl < n \<and> n \<le> sl + length (takeWhile is_url_char (drop sl s)) \<and> url_end_ok sl s n"
proof -
  have le: "length (takeWhile is_url_char (drop sl s)) \<le> length s - sl"
    using length_takeWhile_le [of is_url_char "drop sl s"] by simp
  have "list_all is_url_char (drop sl (take n s)) \<longleftrightarrow> n \<le> sl + length (takeWhile is_url_char (drop sl s))"
    if "sl < n" "n \<le> length s"
    using list_all_take_iff [of "n - sl" "drop sl s" is_url_char] that by (auto simp: drop_take)
  moreover have "n \<le> length s" if "n \<le> sl + length (takeWhile is_url_char (drop sl s))"
    using that le assms by linarith
  ultimately show ?thesis unfolding url_at_def by blast
qed

lemma scheme_len_Some:
  "scheme_len s = Some sl \<Longrightarrow> sl \<le> length s \<and> 7 \<le> sl"
  by (auto simp: scheme_len_def has_scheme_def http_scheme_def https_scheme_def split: if_splits)

lemma match_url_iff:
  "match_url s = Some n \<longleftrightarrow>
     (\<exists>sl. scheme_len s = Some sl \<and> url_at sl s n \<and> (\<nexists>m. n < m \<and> url_at sl s m))"
proof (cases "scheme_len s")
  case None
  then show ?thesis by (simp add: match_url_def)
next
  case (Some sl)
  note sl = scheme_len_Some [OF Some]
  let ?p = "sl + length (takeWhile is_url_char (drop sl s))"
  let ?t = "trim_trailing sl s ?p"
  note t = trim_trailing_greatest [of sl ?p s] trim_trailing_bounds [of sl s ?p]
  have m: "match_url s = (if ?t \<le> sl then None else Some ?t)"
  proof (cases "length s < 8")
    case True
    then have "?p \<le> 7" using length_takeWhile_le [of is_url_char "drop sl s"] sl by simp
    then show ?thesis using True t(2) sl by (simp add: match_url_def)
  next
    case False
    then show ?thesis by (simp add: match_url_def Some Let_def)
  qed
  have "match_url s = Some n \<longleftrightarrow> sl < n \<and> n \<le> ?p \<and> url_end_ok sl s n \<and>
      (\<nexists>m. n < m \<and> sl < m \<and> m \<le> ?p \<and> url_end_ok sl s m)"
  proof
    assume "match_url s = Some n"
    then have "n = ?t" "sl < n" using m by (auto split: if_splits)
    then show "sl < n \<and> n \<le> ?p \<and> url_end_ok sl s n \<and> (\<nexists>m. n < m \<and> sl < m \<and> m \<le> ?p \<and> url_end_ok sl s m)"
      using t by auto
  next
    assume n: "sl < n \<and> n \<le> ?p \<and> url_end_ok sl s n \<and> (\<nexists>m. n < m \<and> sl < m \<and> m \<le> ?p \<and> url_end_ok sl s m)"
    then have "\<not> ?t < n" "\<not> n < ?t" using t by auto
    then have "?t = n" by linarith
    then show "match_url s = Some n" using m n by auto
  qed
  then show ?thesis using Some url_at_iff sl by auto
qed

section \<open>Stitching\<close>

text \<open>
  The piece of a URL on the line after the piece of \<open>len\<close> bytes at \<open>p\<close>, which starts in
  column \<open>col\<close>: its position, length and column.
\<close>

definition next_piece :: "byte list \<Rightarrow> nat \<Rightarrow> nat \<times> nat \<times> nat \<Rightarrow> nat \<times> nat \<times> nat \<Rightarrow> bool" where
  "next_piece mem e = (\<lambda>(p, len, col) (p', len', col').
     p + len < e \<and> 74 \<le> col + len \<and> col + len \<le> 80 \<and> (nth0 mem (p + len) = 13 \<or> nth0 mem (p + len) = 10) \<and>
     (\<exists>l. l = skip_newline mem e (p + len) \<and> p' = skip_quote mem e l \<and> col' = p' - l) \<and>
     len' = match_url_continuation (upto mem p' e) \<and> len' > 0)"

definition piece_bytes :: "byte list \<Rightarrow> nat \<times> nat \<times> nat \<Rightarrow> byte list" where
  "piece_bytes mem = (\<lambda>(p, len, col). take len (drop p mem))"

definition pieces_len :: "(nat \<times> nat \<times> nat) list \<Rightarrow> nat" where
  "pieces_len ps = sum_list (map (fst \<circ> snd) ps)"

lemma continuation_upto_le: "match_url_continuation (upto mem p e) \<le> length mem - p"
  using continuation_le [of "upto mem p e"] length_takeWhile_le [of is_url_char "upto mem p e"]
  by (simp add: upto_def)

lemma stitch_loop_stop:
  "(\<nexists>b. next_piece mem e (p, len, col) b) \<Longrightarrow> stitch_loop mem e p len col url cont = (url, cont)"
  by (subst stitch_loop.simps) (auto simp: next_piece_def Let_def)

lemma stitch_loop_step:
  assumes "next_piece mem e (p, len, col) (p', len', col')"
  shows "stitch_loop mem e p len col url cont =
    stitch_loop mem e p' len' col'
      (if length url + len' < 1024 then url @ piece_bytes mem (p', len', col') else url) True"
  using assms by (subst stitch_loop.simps) (auto simp: next_piece_def Let_def piece_bytes_def)

lemma next_piece_after: "next_piece mem e (p, len, col) (p', len', col') \<Longrightarrow> p < p' \<and> p < e"
  by (auto simp: next_piece_def skip_newline_def skip_quote_def Let_def split: if_splits)

lemma piece_bytes_length:
  "next_piece mem e a (p, len, col) \<Longrightarrow> length (piece_bytes mem (p, len, col)) = len"
  using continuation_upto_le [of mem p e] by (auto simp: next_piece_def piece_bytes_def split: prod.splits)

lemma stitch_loop_pieces:
  assumes "length url < 1024"
  shows "\<exists>ps. successively (next_piece mem e) ((p, len, col) # ps) \<and>
      (\<nexists>b. next_piece mem e (last ((p, len, col) # ps)) b) \<and>
      length (fst (stitch_loop mem e p len col url cont)) < 1024 \<and>
      snd (stitch_loop mem e p len col url cont) = (cont \<or> ps \<noteq> []) \<and>
      (length url + pieces_len ps < 1024 \<longrightarrow>
         fst (stitch_loop mem e p len col url cont) = url @ concat (map (piece_bytes mem) ps))"
  using assms
proof (induction "e - p" arbitrary: p len col url cont rule: less_induct)
  case less
  show ?case
  proof (cases "\<exists>b. next_piece mem e (p, len, col) b")
    case False
    then show ?thesis using stitch_loop_stop [of mem e p len col url cont] less.prems
      by (intro exI [of _ "[]"]) (simp add: pieces_len_def)
  next
    case True
    then obtain p' len' col' where b: "next_piece mem e (p, len, col) (p', len', col')" by (metis prod_cases3)
    let ?url = "if length url + len' < 1024 then url @ piece_bytes mem (p', len', col') else url"
    have "e - p' < e - p" using next_piece_after [OF b] by linarith
    moreover have "length ?url < 1024" using less.prems piece_bytes_length [OF b] by simp
    ultimately obtain ps where ps:
      "successively (next_piece mem e) ((p', len', col') # ps)"
      "\<nexists>b. next_piece mem e (last ((p', len', col') # ps)) b"
      "length (fst (stitch_loop mem e p' len' col' ?url True)) < 1024"
      "snd (stitch_loop mem e p' len' col' ?url True) = (True \<or> ps \<noteq> [])"
      "length ?url + pieces_len ps < 1024 \<longrightarrow>
         fst (stitch_loop mem e p' len' col' ?url True) = ?url @ concat (map (piece_bytes mem) ps)"
      using less.hyps [of p' ?url len' col' True] by blast
    show ?thesis unfolding stitch_loop_step [OF b]
      using ps b piece_bytes_length [OF b]
      by (intro exI [of _ "(p', len', col') # ps"]) (auto simp: pieces_len_def)
  qed
qed

section \<open>What a URL is\<close>

text \<open>
  A description that uses none of the definitions above: the bytes of a set of characters, the text of a
  scheme in either case, the characters of a URL and of the end of a sentence.
\<close>

definition bytes_of :: "string \<Rightarrow> byte list" where "bytes_of t = map (word_of_nat \<circ> of_char) t"

definition written :: "string \<Rightarrow> byte list \<Rightarrow> bool" where
  "written t s \<longleftrightarrow> list_all2 (\<lambda>c b. b = c \<or> c \<in> set (bytes_of ''abcdefghijklmnopqrstuvwxyz'') \<and> b = c - 32) (bytes_of t) s"

definition url_bytes :: "byte set" where
  "url_bytes = {c. 32 < unat c \<and> unat c < 127} - set (bytes_of ([CHR 0x22, CHR 0x5C] @ ''<>`{}|^[]''))"

definition sentence_bytes :: "byte set" where
  "sentence_bytes = set (bytes_of ([CHR 0x22, CHR 0x27] @ ''.,;:?!''))"

text \<open>
  The first \<open>n\<close> bytes are a URL: a scheme and at least one URL character, not ending the sentence, and not
  in a closing parenthesis if there are more of them than opening ones after the scheme.
\<close>

definition url_prefix :: "byte list \<Rightarrow> nat \<Rightarrow> bool" where
  "url_prefix s n \<longleftrightarrow> n \<le> length s \<and>
     (\<exists>sch body. take n s = sch @ body \<and> (written ''http://'' sch \<or> written ''https://'' sch) \<and>
        body \<noteq> [] \<and> set body \<subseteq> url_bytes \<and> last body \<notin> sentence_bytes \<and>
        \<not> (last body \<in> set (bytes_of '')'') \<and>
           length (filter (\<lambda>c. c \<in> set (bytes_of ''('')) body) < length (filter (\<lambda>c. c \<in> set (bytes_of '')'')) body)))"

lemma bytes_of_simps: "bytes_of [] = []" "bytes_of (c # t) = word_of_nat (of_char c) # bytes_of t"
  by (simp_all add: bytes_of_def)

lemma url_bytes_iff: "c \<in> url_bytes \<longleftrightarrow> is_url_char c"
proof -
  have "32 < unat c \<longleftrightarrow> \<not> c \<le> 32" "unat c < 127 \<longleftrightarrow> \<not> 127 \<le> c"
    by (auto simp: word_le_nat_alt)
  then show ?thesis by (auto simp: url_bytes_def is_url_char_def bytes_of_simps)
qed

lemma sentence_bytes_iff: "c \<in> sentence_bytes \<longleftrightarrow> trailing_punct c"
  by (auto simp: sentence_bytes_def trailing_punct_def bytes_of_simps)

lemma paren_bytes:
  "c \<in> set (bytes_of '')'') \<longleftrightarrow> c = 41"
  "length (filter (\<lambda>c. c \<in> set (bytes_of ''('')) s) = count_list s 40"
  "length (filter (\<lambda>c. c \<in> set (bytes_of '')'')) s) = count_list s 41"
  by (simp add: bytes_of_simps, (induction s; simp add: bytes_of_simps)+)

lemma to_lower_iff: "to_lower b = c \<longleftrightarrow> is_upper (c - 32) \<and> b = c - 32 \<or> \<not> is_upper c \<and> b = c"
  by (auto simp: to_lower_def)

lemma written_iff:
  "written ''http://'' s \<longleftrightarrow> map to_lower s = http_scheme"
  "written ''https://'' s \<longleftrightarrow> map to_lower s = https_scheme"
  unfolding written_def http_scheme_def https_scheme_def
  by (auto simp: bytes_of_simps list_all2_Cons1 map_eq_Cons_conv to_lower_iff is_upper_def)

lemma scheme_written:
  "scheme_len s = Some k \<longleftrightarrow> k \<le> length s \<and> (written ''http://'' (take k s) \<or> written ''https://'' (take k s))"
proof -
  have l: "k = length (map to_lower (take k s))" if "k \<le> length s" using that by simp
  have "k = 7" if "k \<le> length s" "map to_lower (take k s) = http_scheme"
    using l [OF that(1)] unfolding that(2) by (simp add: http_scheme_def)
  moreover have "k = 8" if "k \<le> length s" "map to_lower (take k s) = https_scheme"
    using l [OF that(1)] unfolding that(2) by (simp add: https_scheme_def)
  moreover have "\<not> (map to_lower (take 7 s) = http_scheme \<and> map to_lower (take 8 s) = https_scheme)"
  proof
    assume "map to_lower (take 7 s) = http_scheme \<and> map to_lower (take 8 s) = https_scheme"
    then have "take 7 (map to_lower s) ! 4 = http_scheme ! 4" "take 8 (map to_lower s) ! 4 = https_scheme ! 4"
      by (simp_all add: take_map)
    then show False by (simp add: http_scheme_def https_scheme_def)
  qed
  moreover have "length http_scheme = 7" "length https_scheme = 8"
    by (simp_all add: http_scheme_def https_scheme_def)
  ultimately show ?thesis unfolding written_iff scheme_len_def has_scheme_def by auto
qed

lemma take_split:
  assumes "take n s = sch @ body" "n \<le> length s" "body \<noteq> []"
  shows "length sch < n" "take (length sch) s = sch" "drop (length sch) (take n s) = body" "s ! (n - 1) = last body"
proof -
  obtain t where s: "s = sch @ body @ t" using append_take_drop_id [of n s] assms(1) by (metis append_assoc)
  have n: "n = length sch + length body" using arg_cong [OF assms(1), of length] assms(2) by simp
  show "length sch < n" "take (length sch) s = sch" "drop (length sch) (take n s) = body"
    using assms(3) by (simp_all add: n s)
  have "\<not> length sch + length body - 1 < length sch" "length sch + length body - 1 - length sch = length body - 1"
    using assms(3) by (cases body; simp)+
  then show "s ! (n - 1) = last body" using assms(3) by (simp add: s n nth_append last_conv_nth)
qed

lemma url_prefixI:
  assumes "url_at sl s n" "scheme_len s = Some sl"
  shows "url_prefix s n"
proof -
  let ?b = "drop sl (take n s)"
  have b: "sl < n" "n \<le> length s" "list_all is_url_char ?b" "url_end_ok sl s n" using assms(1) by (simp_all add: url_at_def)
  have t: "take n s = take sl s @ ?b" using append_take_drop_id [of sl "take n s"] b(1) by (simp add: min_def)
  have ne: "?b \<noteq> []" using b(1,2) by simp
  have "length (take sl s) = sl" using b(1,2) by simp
  then have "s ! (n - 1) = last ?b" using take_split(4) [OF t b(2) ne] by simp
  then have "last ?b \<notin> sentence_bytes" "\<not> (last ?b = 41 \<and> count_list ?b 40 < count_list ?b 41)"
    using b(4) by (simp_all add: url_end_ok_def unbalanced_def sentence_bytes_iff)
  moreover have "set ?b \<subseteq> url_bytes" using b(3) by (auto simp: list_all_iff url_bytes_iff)
  moreover have "written ''http://'' (take sl s) \<or> written ''https://'' (take sl s)" using scheme_written [of s sl] assms(2) by simp
  ultimately show ?thesis unfolding url_prefix_def paren_bytes(2,3) unfolding paren_bytes(1) using t ne b(2) by blast
qed

lemma url_prefixE:
  assumes "url_prefix s n"
  obtains sl where "scheme_len s = Some sl" "url_at sl s n"
proof -
  obtain sch body where u: "n \<le> length s" "take n s = sch @ body" "written ''http://'' sch \<or> written ''https://'' sch"
      "body \<noteq> []" "set body \<subseteq> url_bytes" "last body \<notin> sentence_bytes"
      "\<not> (last body = 41 \<and> count_list body 40 < count_list body 41)"
    using assms unfolding url_prefix_def paren_bytes(2,3) unfolding paren_bytes(1) by blast
  let ?k = "length sch"
  note sch = take_split [OF u(2,1,4)]
  have "list_all is_url_char body" using u(5) by (auto simp: list_all_iff url_bytes_iff)
  then have "url_at ?k s n" using u(1,6,7) sch(1,4) unfolding url_at_def url_end_ok_def unbalanced_def sch(3)
    by (simp add: sentence_bytes_iff)
  moreover have "scheme_len s = Some ?k" using scheme_written [of s ?k] u(1,3) sch(1) unfolding sch(2) by simp
  ultimately show thesis using that by blast
qed

lemma url_at_prefix: "url_prefix s n \<longleftrightarrow> (\<exists>sl. scheme_len s = Some sl \<and> url_at sl s n)"
  using url_prefixI url_prefixE by metis

lemma match_url_prefix:
  "(match_url s = Some n \<longleftrightarrow> url_prefix s n \<and> (\<nexists>m. n < m \<and> url_prefix s m)) \<and>
   (match_url s = None \<longleftrightarrow> (\<nexists>m. url_prefix s m))"
proof -
  have one: "match_url s = Some n \<longleftrightarrow> url_prefix s n \<and> (\<nexists>m. n < m \<and> url_prefix s m)" for n
    unfolding match_url_iff url_at_prefix by auto
  have "url_prefix s m \<Longrightarrow> m \<le> length s" for m by (simp add: url_prefix_def)
  then have "\<exists>n. url_prefix s n \<and> (\<nexists>m. n < m \<and> url_prefix s m)" if "url_prefix s m" for m
    using that ex_has_greatest_nat [of "url_prefix s" m "\<lambda>x. x" "Suc (length s)"] by (auto simp: not_less le_imp_less_Suc)
  then show ?thesis using one by (metis not_None_eq)
qed

section \<open>Properties\<close>

text \<open>C22.
  \<open>match_url\<close> returns the longest prefix that starts with \<open>http://\<close> or \<open>https://\<close> in any
  case, continues with at least one URL character, and ends neither in sentence
  punctuation nor in a closing parenthesis of which the part after the scheme has more than opening
  ones; it fails only if there is no such prefix.  Parentheses elsewhere need not balance.
\<close>

theorem match_url_longest:
  "(match_url s = Some n \<longleftrightarrow> url_prefix s n \<and> (\<nexists>m. n < m \<and> url_prefix s m)) \<and>
   (match_url s = None \<longleftrightarrow> (\<nexists>m. url_prefix s m))"
  by (rule match_url_prefix)

text \<open>
  The tracker follows a URL over the lines that end at the wrap boundary until no
  piece continues it, keeps the text within its array of 1024 bytes, and stores the
  pieces one after the other when they fit.
\<close>

lemma url_tracker_init_stitches:
  assumes "0 < first_len" "p + first_len \<le> length mem"
  shows "\<exists>st' ps. url_tracker_init st mem p first_len buf_end col = (True, st') \<and>
    successively (next_piece mem buf_end) ((p, first_len, col) # ps) \<and>
    (\<nexists>b. next_piece mem buf_end (last ((p, first_len, col) # ps)) b) \<and>
    length (ut_url st') < 1024 \<and> cont_next_line st' = (ps \<noteq> []) \<and>
    (pieces_len ((p, first_len, col) # ps) < 1024 \<longrightarrow>
       ut_url st' = concat (map (piece_bytes mem) ((p, first_len, col) # ps)))"
proof -
  let ?url0 = "take (if first_len \<ge> 1024 then 1023 else first_len) (drop p mem)"
  have len: "length ?url0 < 1024" by (auto simp: min_def)
  obtain ps where ps: "successively (next_piece mem buf_end) ((p, first_len, col) # ps)"
    "\<nexists>b. next_piece mem buf_end (last ((p, first_len, col) # ps)) b"
    "length (fst (stitch_loop mem buf_end p first_len col ?url0 False)) < 1024"
    "snd (stitch_loop mem buf_end p first_len col ?url0 False) = (ps \<noteq> [])"
    "length ?url0 + pieces_len ps < 1024 \<longrightarrow>
       fst (stitch_loop mem buf_end p first_len col ?url0 False) = ?url0 @ concat (map (piece_bytes mem) ps)"
    using stitch_loop_pieces [OF len, of mem buf_end p first_len col False] by blast
  have "ut_url (snd (url_tracker_init st mem p first_len buf_end col)) =
      fst (stitch_loop mem buf_end p first_len col ?url0 False)"
    "cont_next_line (snd (url_tracker_init st mem p first_len buf_end col)) = (ps \<noteq> [])"
    "fst (url_tracker_init st mem p first_len buf_end col)"
    using assms(1) ps(4) by (simp_all add: url_tracker_init_def split_def)
  moreover have "?url0 = piece_bytes mem (p, first_len, col) \<and> length ?url0 = first_len"
    if "pieces_len ((p, first_len, col) # ps) < 1024"
    using that assms(2) by (simp add: pieces_len_def piece_bytes_def)
  ultimately show ?thesis using ps
    by (intro exI [of _ "snd (url_tracker_init st mem p first_len buf_end col)"] exI [of _ ps])
      (auto simp: pieces_len_def prod_eq_iff)
qed

definition demo_url :: "byte list" where
  "demo_url = http_scheme @ replicate 67 97 @ [10, 98, 10, 99, 100]"

text \<open>
  The two halves of the tracker disagree: \<open>url_tracker_init\<close> ends the URL at a piece that
  stops short of the wrap boundary, but \<open>url_tracker_next_line\<close>, which does not look at
  columns, claims the text on the following line for the URL as well.
\<close>

lemma url_tracker_next_line_overclaims:
  assumes "in_url st" "cont_next_line st" "l < e" "cptr = skip_quote mem e l"
    "len = match_url_continuation (upto mem cptr e)" "0 < len" "cptr - l + len < 74" "cptr + len < e"
    "nth0 mem (cptr + len) = 10" "l' = cptr + len + 1" "l' < e"
    "0 < match_url_continuation (upto mem (skip_quote mem e l') e)"
  shows "\<exists>st1 st2. url_tracker_next_line st mem l e = (True, st1) \<and>
    (\<nexists>b. next_piece mem e (cptr, len, cptr - l) b) \<and>
    url_tracker_next_line st1 mem l' e = (True, st2) \<and> ut_url st2 = ut_url st"
proof -
  have "url_tracker_next_line st mem l e =
      (True, st\<lparr>cur_line_bytes_left := len, cont_ptr := Some cptr, cont_next_line := True\<rparr>)"
    using assms by (simp add: url_tracker_next_line_def Let_def)
  moreover have "\<nexists>b. next_piece mem e (cptr, len, cptr - l) b"
    using assms(7) by (auto simp: next_piece_def)
  ultimately show ?thesis using assms(1,11,12) by (auto simp: url_tracker_next_line_def Let_def)
qed

lemma demo_continuation:
  "match_url_continuation [98, 10, 99, 100] = 1" "match_url_continuation [99, 100] = 2"
  using trim_trailing.simps [of 0 "[98, 10, 99, 100]" 1] trim_trailing.simps [of 0 "[99, 100]" "Suc (Suc 0)"]
  by (simp_all add: match_url_continuation_def match_url_def has_scheme_def http_scheme_def https_scheme_def
      is_url_char_def trailing_punct_def)

end
