(* ===== verification/RecFile.thy ===== *)
theory RecFile
  imports Clib
begin

text \<open>
  Files of fixed-size records, \<open>src/common/sys/record.c\<close>.  A file is the list of its
  bytes, and a path names \<^const>\<open>None\<close> when no file exists there; a descriptor is an
  offset into the file.  An operation returns the value of the C function and the
  file afterwards.  \<open>size\<close> is the record size; the offsets are 64-bit and the
  sizes that the code keeps in an \<open>int\<close> are cut to 32 bits by \<open>to_int\<close>.
  Locks are not modelled: each operation runs alone.

  The theory shows that the operations refine a list of records, the deletion that
  moves the tail of the file in blocks of 512 bytes included, that the binary
  searches find what they promise, and what happens outside the range of records.
\<close>

type_synonym rfile = "byte list option"

definition to_int :: "int \<Rightarrow> int" where "to_int x = signed_take_bit 31 x"

lemma to_int_id: "- (2 ^ 31) \<le> x \<Longrightarrow> x < 2 ^ 31 \<Longrightarrow> to_int x = x"
  by (simp add: to_int_def signed_take_bit_int_eq_self)

lemma to_int_nat: "n < 2 ^ 31 \<Longrightarrow> to_int (int n) = int n"
proof (intro to_int_id)
  assume "n < 2 ^ 31"
  then have "int n < int (2 ^ 31)" by (simp only: of_nat_less_iff)
  then show "int n < 2 ^ 31" by simp
qed simp

section \<open>System calls\<close>

text \<open>\<open>OpenCreate\<close>, \<open>write\<close> at an offset, \<open>read\<close>, \<open>lseek\<close> and \<open>ftruncate\<close>.\<close>

definition OpenCreate :: "rfile \<Rightarrow> byte list" where
  "OpenCreate fp = (case fp of None \<Rightarrow> [] | Some f \<Rightarrow> f)"

definition pwrite :: "byte list \<Rightarrow> nat \<Rightarrow> byte list \<Rightarrow> byte list" where
  "pwrite f off bs = take off (f @ replicate (off - length f) 0) @ bs @ drop (off + length bs) f"

definition pread :: "byte list \<Rightarrow> nat \<Rightarrow> nat \<Rightarrow> byte list" where
  "pread f off n = take n (drop off f)"

text \<open>A seek before the start fails and leaves the offset where it was.\<close>

definition lseek :: "nat \<Rightarrow> int \<Rightarrow> nat" where
  "lseek pos off = (if off < 0 then pos else nat off)"

definition ftruncate :: "byte list \<Rightarrow> int \<Rightarrow> byte list" where
  "ftruncate f n = (if n < 0 then f else take (nat n) (f @ replicate (nat n - length f) 0))"

section \<open>Operations\<close>

definition get_num_records :: "rfile \<Rightarrow> nat \<Rightarrow> nat" where
  "get_num_records fp sz = (case fp of None \<Rightarrow> 0 | Some f \<Rightarrow> length f div sz)"

text \<open>
  \<open>get_records_keep\<close>: the count, the bytes read, and the descriptor \<open>fd\<close>, which is the
  file it was opened on, \<^const>\<open>None\<close> for a negative one.
\<close>

definition get_records_keep :: "rfile \<Rightarrow> nat \<Rightarrow> int \<Rightarrow> nat \<Rightarrow> rfile \<Rightarrow> int \<times> byte list \<times> rfile" where
  "get_records_keep fp sz ent number fd =
     (if ent < 1 then (-1, [], fd)
      else
        case (if fd = None then fp else fd) of
          None \<Rightarrow> (-1, [], fd)
        | Some f \<Rightarrow>
            let bs = pread f (sz * nat (ent - 1)) (sz * number) in
            (int (length bs div sz), bs, Some f))"

definition get_records :: "rfile \<Rightarrow> nat \<Rightarrow> int \<Rightarrow> nat \<Rightarrow> int \<times> byte list" where
  "get_records fp sz ent number =
     (let (res, bs, fd) = get_records_keep fp sz ent number None in (res, bs))"

definition get_record :: "rfile \<Rightarrow> nat \<Rightarrow> int \<Rightarrow> int \<times> byte list" where
  "get_record fp sz ent = get_records fp sz ent 1"

definition substitute_record :: "rfile \<Rightarrow> byte list \<Rightarrow> int \<Rightarrow> int \<times> rfile" where
  "substitute_record fp r ent =
     (if ent < 1 then (-1, fp)
      else (0, Some (pwrite (OpenCreate fp) (length r * nat (ent - 1)) r)))"

definition append_record :: "rfile \<Rightarrow> byte list \<Rightarrow> int \<times> rfile" where
  "append_record fp r =
     (let f = OpenCreate fp; fsize = to_int (int (length f)) in
      if fsize < 0 then (-1, Some f)
      else
        let index = nat fsize div length r in
        (int index + 1, Some (pwrite f (index * length r) r)))"

text \<open>
  The callback decides whether the record now at \<open>ent\<close> is still \<open>src\<close>.  A missing
  file is created even when nothing is written.
\<close>

definition substitute_record2 ::
  "rfile \<Rightarrow> byte list \<Rightarrow> byte list \<Rightarrow> int \<Rightarrow> (byte list \<Rightarrow> byte list \<Rightarrow> bool) option \<Rightarrow> int \<times> rfile" where
  "substitute_record2 fp src dest ent cb =
     (if ent < 1 then (-1, fp)
      else
        let f = OpenCreate fp; off = length dest * nat (ent - 1);
            p = pread f off (length dest);
            err = (case cb of
                     None \<Rightarrow> 0
                   | Some can \<Rightarrow> if length p = length dest \<and> can p src then 0 else (-1 :: int)) in
        if err = 0 then (0, Some (pwrite f off dest)) else (-1, Some f))"

text \<open>
  The loop that copies the rest of the file down: \<open>ri\<close> and \<open>wi\<close> are the offsets of the
  two descriptors, \<open>d\<close> counts the bytes moved.
\<close>

definition BUFSIZE :: nat where "BUFSIZE = 512"

function copy_down :: "byte list \<Rightarrow> nat \<Rightarrow> nat \<Rightarrow> int \<Rightarrow> int \<Rightarrow> byte list" where
  "copy_down f ri wi d readsize =
     (let buf = pread f ri BUFSIZE in
      if d < readsize \<and> buf \<noteq> [] then
        copy_down (pwrite f wi buf) (ri + length buf) (wi + length buf) (d + int (length buf)) readsize
      else f)"
  by pat_completeness auto
termination by (relation "measure (\<lambda>(f, ri, wi, d, readsize). nat (readsize - d))") auto

declare copy_down.simps [simp del]

definition delete_record2 ::
  "rfile \<Rightarrow> byte list \<Rightarrow> nat \<Rightarrow> int \<Rightarrow> (byte list \<Rightarrow> byte list \<Rightarrow> bool) option \<Rightarrow> int \<times> rfile" where
  "delete_record2 fp r sz ent cb =
     (if ent < 1 then (-1, fp)
      else case fp of
        None \<Rightarrow> (-1, fp)
      | Some f \<Rightarrow>
          let off = sz * nat (ent - 1); locksize = to_int (int (length f) - int off) in
          if locksize < 0 then (-1, fp)
          else
            let readsize = to_int (locksize - int sz);
                p = pread f off sz;
                err = (case cb of
                         Some can \<Rightarrow> if length p = sz \<and> can p r then 0 else -1
                       | None \<Rightarrow> if off + sz \<noteq> off then -1 else (0 :: int)) in
            if err = 0 then (0, Some (ftruncate (copy_down f (off + sz) off 0 readsize) (int (length f) - int sz)))
            else (-1, fp))"

definition delete_records :: "rfile \<Rightarrow> nat \<Rightarrow> int \<Rightarrow> nat \<Rightarrow> int \<times> rfile" where
  "delete_records fp sz ent num =
     (case fp of
        None \<Rightarrow> (-1, fp)
      | Some f \<Rightarrow>
          let off = int sz * (ent - 1);
              locksize = to_int (int (length f) - off);
              readsize = to_int (locksize - int (sz * num)) in
          if locksize < 0 then (-1, fp)
          else
            let f' = (if readsize > 0
                      then copy_down f (lseek 0 (off + int (sz * num))) (lseek 0 off) 0 readsize else f) in
            (0, Some (ftruncate f' (int (length f) - int (sz * num)))))"

definition delete_record :: "rfile \<Rightarrow> nat \<Rightarrow> int \<Rightarrow> int \<times> rfile" where
  "delete_record fp sz ent = delete_records fp sz ent 1"

text \<open>
  \<open>apply_record\<close>: the callback changes a state of its own, and a result other than 0
  ends the loop; \<^const>\<open>None\<close> is the failed assertion on the size.
\<close>

function apply_loop :: "(byte list \<Rightarrow> 's \<Rightarrow> int \<times> 's) \<Rightarrow> nat \<Rightarrow> byte list \<Rightarrow> 's \<Rightarrow> int \<times> 's" where
  "apply_loop fptr sz f arg =
     (if sz = 0 \<or> length f < sz then (0, arg)
      else
        let (ret, arg') = fptr (take sz f) arg in
        if ret \<noteq> 0 then (ret, arg') else apply_loop fptr sz (drop sz f) arg')"
  by pat_completeness auto
termination by (relation "measure (\<lambda>(fptr, sz, f, arg). length f)") auto

declare apply_loop.simps [simp del]

definition apply_record :: "rfile \<Rightarrow> (byte list \<Rightarrow> 's \<Rightarrow> int \<times> 's) \<Rightarrow> nat \<Rightarrow> 's \<Rightarrow> (int \<times> 's) option" where
  "apply_record fp fptr sz arg =
     (if sz > BUFSIZE then None
      else case fp of None \<Rightarrow> Some (-1, arg) | Some f \<Rightarrow> Some (apply_loop fptr sz f arg))"

text \<open>The record at index \<open>i\<close>, and \<open>bsearch\<close> of the C library on the records.\<close>

definition rec_at :: "nat \<Rightarrow> byte list \<Rightarrow> nat \<Rightarrow> byte list" where
  "rec_at sz f i = take sz (drop (i * sz) f)"

function bsearch_loop :: "('k \<Rightarrow> 'r \<Rightarrow> int) \<Rightarrow> 'k \<Rightarrow> (nat \<Rightarrow> 'r) \<Rightarrow> nat \<Rightarrow> nat \<Rightarrow> nat option" where
  "bsearch_loop compar key at l u =
     (if l < u then
        let i = (l + u) div 2; c = compar key (at i) in
        if c < 0 then bsearch_loop compar key at l i
        else if c > 0 then bsearch_loop compar key at (i + 1) u
        else Some i
      else None)"
  by pat_completeness auto
termination by (relation "measure (\<lambda>(compar, key, at, l, u). u - l)") auto

declare bsearch_loop.simps [simp del]

definition bsearch_record ::
  "rfile \<Rightarrow> 'k \<Rightarrow> ('k \<Rightarrow> byte list \<Rightarrow> int) \<Rightarrow> nat \<Rightarrow> int \<times> byte list option" where
  "bsearch_record fp key compar sz =
     (case fp of
        None \<Rightarrow> (-1, None)
      | Some f \<Rightarrow>
          case bsearch_loop compar key (rec_at sz f) 0 (length f div sz) of
            None \<Rightarrow> (-1, None)
          | Some i \<Rightarrow> (int i, Some (rec_at sz f i)))"

text \<open>\<open>upper_bound_record\<close>: the index, the number of records and the record copied.\<close>

function upper_bound_loop :: "('k \<Rightarrow> 'r \<Rightarrow> int) \<Rightarrow> 'k \<Rightarrow> (nat \<Rightarrow> 'r) \<Rightarrow> nat \<Rightarrow> nat \<Rightarrow> nat" where
  "upper_bound_loop compar key at left n =
     (if n > 0 then
        let i = n div 2 in
        if compar key (at (left + i)) < 0 then upper_bound_loop compar key at left i
        else upper_bound_loop compar key at (left + i + 1) (n - (i + 1))
      else left)"
  by pat_completeness auto
termination by (relation "measure (\<lambda>(compar, key, at, left, n). n)") auto

declare upper_bound_loop.simps [simp del]

definition upper_bound_record ::
  "rfile \<Rightarrow> 'k \<Rightarrow> ('k \<Rightarrow> byte list \<Rightarrow> int) \<Rightarrow> nat \<Rightarrow> (int \<times> nat \<times> byte list option) option" where
  "upper_bound_record fp key compar sz =
     (case fp of
        None \<Rightarrow> None
      | Some f \<Rightarrow>
          let i = upper_bound_loop compar key (rec_at sz f) 0 (length f div sz) in
          Some (int i, length f div sz, if i * sz < length f then Some (rec_at sz f i) else None))"

section \<open>Lemmas on files\<close>

lemma OpenCreate_simps [simp]: "OpenCreate None = []" "OpenCreate (Some f) = f"
  by (simp_all add: OpenCreate_def)

lemma pwrite_write_at: "off \<le> length f \<Longrightarrow> pwrite f off bs = write_at f off bs"
  by (simp add: pwrite_def write_at_def)

lemma length_pread [simp]: "length (pread f off n) = min n (length f - off)"
  by (simp add: pread_def)

lemma copy_down_shift:
  "wi \<le> ri \<Longrightarrow> ri \<le> length f \<Longrightarrow> readsize = d + int (length f - ri) \<Longrightarrow>
     copy_down f ri wi d readsize = take wi f @ drop ri f @ drop (wi + (length f - ri)) f"
proof (induction f ri wi d readsize rule: copy_down.induct)
  case (1 f ri wi d readsize)
  let ?buf = "pread f ri BUFSIZE"
  show ?case
  proof (cases "ri = length f")
    case True
    then show ?thesis using 1 by (subst copy_down.simps) (simp add: pread_def)
  next
    case False
    let ?f = "pwrite f wi ?buf" and ?c = "length ?buf"
    have c: "0 < ?c" "ri + ?c \<le> length f" using False 1(3) by (auto simp: BUFSIZE_def)
    have f: "?f = write_at f wi ?buf" using 1(2,3) by (simp add: pwrite_write_at)
    have len: "length ?f = length f" unfolding f using c 1(2) by simp
    have buf: "?buf = take ?c (drop ri f)" by (simp add: pread_def min_def)
    have go: "d < readsize \<and> ?buf \<noteq> []" using c(1) 1 False by (metis add_increasing2 length_greater_0_conv
        less_add_same_cancel1 of_nat_0_less_iff order_le_neq_trans zero_less_diff)
    then have "copy_down f ri wi d readsize = copy_down ?f (ri + ?c) (wi + ?c) (d + int ?c) readsize"
      by (subst copy_down.simps) (simp only: Let_def if_True simp_thms)
    also have "\<dots> = take (wi + ?c) ?f @ drop (ri + ?c) ?f @ drop (wi + ?c + (length ?f - (ri + ?c))) ?f"
      using 1(2-4) c len go by (intro "1.IH" [OF refl go]) (auto simp del: length_pread)
    also have "take (wi + ?c) ?f = take wi f @ ?buf" unfolding f using 1 c by (simp add: write_at_def)
    also have "drop (ri + ?c) ?f = drop (ri + ?c) f" unfolding f using 1 c by simp
    also have "drop (wi + ?c + (length ?f - (ri + ?c))) ?f = drop (wi + (length f - ri)) f"
      unfolding len unfolding f using 1 c by simp
    also have "(take wi f @ ?buf) @ drop (ri + ?c) f @ drop (wi + (length f - ri)) f =
        take wi f @ drop ri f @ drop (wi + (length f - ri)) f"
      using append_take_drop_id [of ?c "drop ri f"] by (subst buf) (simp add: add.commute)
    finally show ?thesis .
  qed
qed

text \<open>Moving the tail down and cutting the file removes a segment.\<close>

lemma copy_down_truncate:
  assumes "wi \<le> ri" "ri \<le> length f"
  shows "ftruncate (copy_down f ri wi 0 (int (length f - ri))) (int (length f) - int (ri - wi)) = take wi f @ drop ri f"
proof -
  have "length (take wi f @ drop ri f) = length f - (ri - wi)" using assms by simp
  moreover have "int (length f) - int (ri - wi) = int (length f - (ri - wi))" using assms by simp
  ultimately show ?thesis using copy_down_shift [of wi ri f _ 0] assms
    by (simp add: ftruncate_def)
qed

section \<open>Whole records\<close>

text \<open>A file of the records \<open>rs\<close>, each of \<open>sz\<close> bytes, whose size an \<open>int\<close> can hold.\<close>

definition rec_file :: "nat \<Rightarrow> rfile \<Rightarrow> byte list list \<Rightarrow> bool" where
  "rec_file sz fp rs \<longleftrightarrow> 0 < sz \<and> OpenCreate fp = concat rs \<and> (fp = None \<longrightarrow> rs = []) \<and>
     list_all (\<lambda>r. length r = sz) rs \<and> sz * length rs < 2 ^ 31"

lemma length_concat_recs: "list_all (\<lambda>r. length r = sz) rs \<Longrightarrow> length (concat rs) = sz * length rs"
  by (induction rs) auto

lemma take_concat_recs:
  "list_all (\<lambda>r. length r = sz) rs \<Longrightarrow> take (sz * k) (concat rs) = concat (take k rs)"
proof (induction rs arbitrary: k)
  case (Cons r rs)
  then show ?case by (cases k) auto
qed simp

lemma drop_concat_recs:
  "list_all (\<lambda>r. length r = sz) rs \<Longrightarrow> drop (sz * k) (concat rs) = concat (drop k rs)"
proof (induction rs arbitrary: k)
  case (Cons r rs)
  then show ?case by (cases k) auto
qed simp

lemma list_all_recs_take_drop [simp]:
  "list_all P rs \<Longrightarrow> list_all P (take k rs)" "list_all P rs \<Longrightarrow> list_all P (drop k rs)"
  by (auto simp: list_all_iff dest: in_set_takeD in_set_dropD)

lemmas recs_simps = length_concat_recs take_concat_recs drop_concat_recs

text \<open>The records \<open>rs\<close> without the \<open>num\<close> records from \<open>ent\<close> on.\<close>

definition del_seg :: "'r list \<Rightarrow> nat \<Rightarrow> nat \<Rightarrow> 'r list" where
  "del_seg rs i num = take i rs @ drop (i + num) rs"

lemma rec_fileE:
  assumes "rec_file sz fp rs"
  obtains "0 < sz" "OpenCreate fp = concat rs" "length (concat rs) = sz * length rs"
    "list_all (\<lambda>r. length r = sz) rs" "sz * length rs < 2 ^ 31" "rs \<noteq> [] \<Longrightarrow> fp = Some (concat rs)"
  using assms by (auto simp: rec_file_def length_concat_recs OpenCreate_def split: option.splits)

lemma append_record_list:
  assumes "rec_file sz fp rs" "length r = sz" "sz * (length rs + 1) < 2 ^ 31"
  shows "\<exists>fp'. append_record fp r = (int (length rs) + 1, fp') \<and> rec_file sz fp' (rs @ [r])"
proof (rule rec_fileE [OF assms(1)])
  assume r: "0 < sz" "OpenCreate fp = concat rs" "length (concat rs) = sz * length rs"
    "list_all (\<lambda>r. length r = sz) rs" "sz * length rs < 2 ^ 31"
  have "to_int (int (sz * length rs)) = int (sz * length rs)" using r(5) by (rule to_int_nat)
  moreover have "pwrite (concat rs) (length rs * sz) r = concat rs @ r"
    using r(3) by (simp add: pwrite_def mult.commute)
  ultimately have "append_record fp r = (int (length rs) + 1, Some (concat (rs @ [r])))"
    using r assms(2) by (simp add: append_record_def Let_def del: of_nat_mult)
  moreover have "rec_file sz (Some (concat (rs @ [r]))) (rs @ [r])"
    using r assms(2,3) by (simp add: rec_file_def OpenCreate_def)
  ultimately show ?thesis by blast
qed

lemma substitute_record_list:
  assumes "rec_file sz fp rs" "length r = sz" "i < length rs"
  shows "\<exists>fp'. substitute_record fp r (int i + 1) = (0, fp') \<and> rec_file sz fp' (rs[i := r])"
proof (rule rec_fileE [OF assms(1)])
  assume r: "0 < sz" "OpenCreate fp = concat rs" "length (concat rs) = sz * length rs"
    "list_all (\<lambda>r. length r = sz) rs" "sz * length rs < 2 ^ 31"
  have le: "sz * i \<le> length (concat rs)" using r(3) assms(3) by simp
  have "concat (rs[i := r]) = concat (take i rs) @ r @ concat (drop (Suc i) rs)"
    using assms(3) by (simp add: upd_conv_take_nth_drop)
  also have "\<dots> = pwrite (concat rs) (sz * i) r"
    using le r(4) assms(2) drop_concat_recs [of sz rs "Suc i"]
    by (simp add: pwrite_write_at write_at_def take_concat_recs add.commute)
  finally have "substitute_record fp r (int i + 1) = (0, Some (concat (rs[i := r])))"
    using r(2) assms(2) by (simp add: substitute_record_def)
  moreover have "list_all (\<lambda>r. length r = sz) (rs[i := r])"
    using r(4) assms(2) by (auto simp: list_all_iff dest!: set_update_subset_insert [THEN subsetD])
  ultimately show ?thesis using r by (auto simp: rec_file_def OpenCreate_def)
qed

lemma delete_records_list:
  assumes "rec_file sz fp rs" "i + num \<le> length rs" "rs \<noteq> []"
  shows "\<exists>fp'. delete_records fp sz (int i + 1) num = (0, fp') \<and> rec_file sz fp' (del_seg rs i num)"
proof (rule rec_fileE [OF assms(1)])
  assume r: "0 < sz" "OpenCreate fp = concat rs" "length (concat rs) = sz * length rs"
    "list_all (\<lambda>r. length r = sz) rs" "sz * length rs < 2 ^ 31" "rs \<noteq> [] \<Longrightarrow> fp = Some (concat rs)"
  let ?f = "concat rs" and ?wi = "sz * i" and ?ri = "sz * (i + num)"
  have ri: "?wi \<le> ?ri" "?ri \<le> length ?f" using assms(2) r(3) by simp_all
  have b: "sz * i \<le> sz * length rs" "sz * num \<le> sz * length rs" using assms(2) by simp_all
  have off: "int sz * (int i + 1 - 1) = int ?wi" by simp
  have lock: "to_int (int (length ?f) - int ?wi) = int (length ?f) - int ?wi"
    using to_int_nat [of "length ?f - ?wi"] r(3,5) b(1) by (simp add: of_nat_diff)
  have rd: "to_int (int (length ?f) - int ?wi - int (sz * num)) = int (length ?f - ?ri)"
  proof -
    have "int (length ?f) - int ?wi - int (sz * num) = int (length ?f - ?ri)"
      using ri(2) by (simp add: of_nat_diff algebra_simps)
    moreover have "length ?f - ?ri < 2 ^ 31" using r(3,5) by linarith
    ultimately show ?thesis by (simp only: to_int_nat)
  qed
  have cut: "ftruncate (copy_down ?f ?ri ?wi 0 (int (length ?f - ?ri))) (int (length ?f) - int (sz * num)) =
      take ?wi ?f @ drop ?ri ?f"
    using copy_down_truncate [OF ri] by (simp add: algebra_simps)
  have nn: "(int (length ?f) - int ?wi < 0) = False" using le_trans [OF ri] by (simp del: of_nat_mult)
  have seek: "lseek 0 (int ?wi) = ?wi" "lseek 0 (int ?wi + int (sz * num)) = ?ri"
    by (simp_all add: lseek_def algebra_simps flip: of_nat_add of_nat_mult)
  have noop: "copy_down ?f ?ri ?wi 0 (int (length ?f - ?ri)) = ?f" if "\<not> int (length ?f - ?ri) > 0"
    using that ri by (subst copy_down.simps) (simp add: Let_def)
  have "delete_records fp sz (int i + 1) num = (0, Some (take ?wi ?f @ drop ?ri ?f))"
    unfolding r(6) [OF assms(3)] delete_records_def option.case Let_def off lock rd seek
    using cut noop by (cases "int (length ?f - ?ri) > 0") (simp_all only: nn if_False if_True not_False_eq_True)
  also have "take ?wi ?f @ drop ?ri ?f = concat (del_seg rs i num)"
    using r(4) by (simp only: take_concat_recs drop_concat_recs del_seg_def concat_append)
  finally have "delete_records fp sz (int i + 1) num = (0, Some (concat (del_seg rs i num)))" .
  moreover have "sz * length (del_seg rs i num) < 2 ^ 31"
    using le_less_trans [OF mult_le_mono2 r(5), of "length (del_seg rs i num)"] by (simp add: del_seg_def)
  ultimately show ?thesis using r by (auto simp: rec_file_def OpenCreate_def del_seg_def)
qed

lemma get_records_list:
  assumes "rec_file sz fp rs" "rs \<noteq> []"
  shows "get_records fp sz (int i + 1) num =
    (int (min num (length rs - i)), concat (take num (drop i rs)))"
proof (rule rec_fileE [OF assms(1)])
  assume r: "0 < sz" "OpenCreate fp = concat rs" "length (concat rs) = sz * length rs"
    "list_all (\<lambda>r. length r = sz) rs" "sz * length rs < 2 ^ 31" "rs \<noteq> [] \<Longrightarrow> fp = Some (concat rs)"
  have "pread (concat rs) (sz * i) (sz * num) = concat (take num (drop i rs))"
    using r(4) by (simp add: pread_def recs_simps)
  moreover have "length (concat (take num (drop i rs))) div sz = min num (length rs - i)"
    using r(1,4) length_concat_recs [of sz "take num (drop i rs)"] by (simp add: min.commute)
  ultimately show ?thesis
    using r(6) [OF assms(2)] by (simp add: get_records_def get_records_keep_def Let_def)
qed

lemma copy_down_done: "readsize \<le> d \<Longrightarrow> copy_down f ri wi d readsize = f"
  by (subst copy_down.simps) (simp add: Let_def)

text \<open>
  \<open>delete_record2\<close> with a callback deletes like \<open>delete_records\<close>, but only a record that
  is there and that the callback accepts.
\<close>

lemma delete_record2_eq:
  "delete_record2 fp r sz ent (Some can) =
     (if 1 \<le> ent \<and> (\<exists>f. fp = Some f \<and> length (pread f (sz * nat (ent - 1)) sz) = sz \<and>
           can (pread f (sz * nat (ent - 1)) sz) r)
      then delete_records fp sz ent 1 else (-1, fp))"
proof (cases "1 \<le> ent")
  case True
  then have off: "int sz * (ent - 1) = int (sz * nat (ent - 1))" by simp
  have "lseek 0 (int (sz * nat (ent - 1)) + int sz) = sz * nat (ent - 1) + sz"
    "lseek 0 (int (sz * nat (ent - 1))) = sz * nat (ent - 1)"
    by (simp_all add: lseek_def nat_add_distrib del: of_nat_mult)
  then show ?thesis using True
    by (cases fp) (auto simp: delete_record2_def delete_records_def Let_def off copy_down_done
        simp del: of_nat_mult length_pread)
qed (simp add: delete_record2_def)

lemma pread_rec:
  assumes "list_all (\<lambda>r. length r = sz) rs" "i < length rs"
  shows "pread (concat rs) (sz * i) sz = rs ! i"
proof -
  have "drop i rs = rs ! i # drop (Suc i) rs" using assms(2) by (simp add: Cons_nth_drop_Suc)
  moreover have "length (rs ! i) = sz" using assms by (simp add: list_all_length)
  ultimately show ?thesis using assms(1) by (simp add: pread_def drop_concat_recs)
qed

lemma delete_record2_list:
  assumes "rec_file sz fp rs" "i < length rs" "can (rs ! i) r"
  shows "\<exists>fp'. delete_record2 fp r sz (int i + 1) (Some can) = (0, fp') \<and> rec_file sz fp' (del_seg rs i 1)"
proof (rule rec_fileE [OF assms(1)])
  assume r: "list_all (\<lambda>r. length r = sz) rs" "rs \<noteq> [] \<Longrightarrow> fp = Some (concat rs)"
  have "rs \<noteq> []" using assms(2) by auto
  then have "fp = Some (concat rs)" "length (rs ! i) = sz" using r assms(2) by (simp_all add: list_all_length)
  then have "delete_record2 fp r sz (int i + 1) (Some can) = delete_records fp sz (int i + 1) 1"
    using pread_rec [OF r(1) assms(2)] assms(3) by (simp add: delete_record2_eq del: length_pread)
  then show ?thesis using delete_records_list [of sz fp rs i 1] assms(1,2) by force
qed

lemma substitute_record2_list:
  assumes "rec_file sz fp rs" "i < length rs" "length dest = sz"
  shows "\<exists>fp'. substitute_record2 fp src dest (int i + 1) (Some can) = (if can (rs ! i) src then 0 else -1, fp') \<and>
    rec_file sz fp' (if can (rs ! i) src then rs[i := dest] else rs)"
proof (rule rec_fileE [OF assms(1)])
  assume r: "OpenCreate fp = concat rs" "list_all (\<lambda>r. length r = sz) rs" "rs \<noteq> [] \<Longrightarrow> fp = Some (concat rs)"
  have "rs \<noteq> []" using assms(2) by auto
  then have fp: "fp = Some (concat rs)" "length (rs ! i) = sz" using assms(2) r by (simp_all add: list_all_length)
  show ?thesis
  proof (cases "can (rs ! i) src")
    case True
    then have "substitute_record2 fp src dest (int i + 1) (Some can) = substitute_record fp dest (int i + 1)"
      using pread_rec [OF r(2) assms(2)] fp assms(3)
      by (simp add: substitute_record2_def substitute_record_def Let_def del: length_pread)
    then show ?thesis using substitute_record_list [OF assms(1,3,2)] True by simp
  next
    case False
    then show ?thesis using pread_rec [OF r(2) assms(2)] fp assms(1,3)
      by (simp add: substitute_record2_def Let_def)
  qed
qed

section \<open>The interface of a record file\<close>

text \<open>Operations on a list of records, numbered from 0, and their results.\<close>

datatype 'r rec_op =
    RAppend 'r
  | RSubst nat 'r
  | RSubst2 nat 'r 'r
  | RDelete nat nat
  | RDelete2 nat 'r
  | RGet nat nat

text \<open>\<open>ok rs\<close> bounds the list; \<open>same\<close> compares the record on file with the caller's.\<close>

fun op_ok :: "('r list \<Rightarrow> bool) \<Rightarrow> 'r list \<Rightarrow> 'r rec_op \<Rightarrow> bool" where
  "op_ok ok rs (RAppend r) = ok (rs @ [r])"
| "op_ok ok rs (RSubst i r) = (i < length rs \<and> ok (rs[i := r]))"
| "op_ok ok rs (RSubst2 i src r) = (i < length rs \<and> ok (rs[i := r]))"
| "op_ok ok rs (RDelete i n) = (rs \<noteq> [] \<and> i + n \<le> length rs)"
| "op_ok ok rs (RDelete2 i r) = (i < length rs)"
| "op_ok ok rs (RGet i n) = (rs \<noteq> [])"

fun list_step :: "('r \<Rightarrow> 'r \<Rightarrow> bool) \<Rightarrow> 'r list \<Rightarrow> 'r rec_op \<Rightarrow> (int \<times> 'r list) \<times> 'r list" where
  "list_step same rs (RAppend r) = ((int (length rs) + 1, []), rs @ [r])"
| "list_step same rs (RSubst i r) = ((0, []), rs[i := r])"
| "list_step same rs (RSubst2 i src r) =
     (if same (rs ! i) src then ((0, []), rs[i := r]) else ((-1, []), rs))"
| "list_step same rs (RDelete i n) = ((0, []), del_seg rs i n)"
| "list_step same rs (RDelete2 i r) = (if same (rs ! i) r then ((0, []), del_seg rs i 1) else ((-1, []), rs))"
| "list_step same rs (RGet i n) = ((int (min n (length rs - i)), take n (drop i rs)), rs)"

primrec run_ops :: "('f \<Rightarrow> 'op \<Rightarrow> 'o \<times> 'f) \<Rightarrow> 'f \<Rightarrow> 'op list \<Rightarrow> 'o list \<times> 'f" where
  "run_ops step f [] = ([], f)"
| "run_ops step f (x # xs) =
     (let (o1, f1) = step f x; (os, f2) = run_ops step f1 xs in (o1 # os, f2))"

primrec ops_ok :: "('r list \<Rightarrow> bool) \<Rightarrow> ('r \<Rightarrow> 'r \<Rightarrow> bool) \<Rightarrow> 'r list \<Rightarrow> 'r rec_op list \<Rightarrow> bool" where
  "ops_ok ok same rs [] = True"
| "ops_ok ok same rs (x # xs) = (op_ok ok rs x \<and> ops_ok ok same (snd (list_step same rs x)) xs)"

text \<open>
  What a client of a record file relies on: \<open>rel f rs\<close> says that \<open>f\<close> holds the records
  \<open>rs\<close>, and every operation within range has the result and the effect it has on the list,
  the records read being seen through \<open>cat\<close>.
\<close>

locale record_store =
  fixes rel :: "'f \<Rightarrow> 'r list \<Rightarrow> bool"
    and ok :: "'r list \<Rightarrow> bool"
    and same :: "'r \<Rightarrow> 'r \<Rightarrow> bool"
    and cat :: "'r list \<Rightarrow> 'b"
    and step :: "'f \<Rightarrow> 'r rec_op \<Rightarrow> (int \<times> 'b) \<times> 'f"
  assumes step_refines: "rel f rs \<Longrightarrow> op_ok ok rs x \<Longrightarrow> list_step same rs x = ((c, out), rs') \<Longrightarrow>
      \<exists>f'. step f x = ((c, cat out), f') \<and> rel f' rs'"
begin

lemma run_refines:
  "rel f rs \<Longrightarrow> ops_ok ok same rs xs \<Longrightarrow> run_ops (list_step same) rs xs = (os, rs') \<Longrightarrow>
     \<exists>f'. run_ops step f xs = (map (apsnd cat) os, f') \<and> rel f' rs'"
proof (induction xs arbitrary: f rs os)
  case (Cons x xs)
  obtain c out rs1 where 1: "list_step same rs x = ((c, out), rs1)" by (metis surj_pair)
  obtain os2 where 2: "run_ops (list_step same) rs1 xs = (os2, rs')" "os = (c, out) # os2"
    using Cons.prems(3) 1 by (cases "run_ops (list_step same) rs1 xs") simp
  obtain f1 where f1: "step f x = ((c, cat out), f1)" "rel f1 rs1"
    using step_refines [of f rs x c out rs1] Cons.prems 1 by auto
  then obtain f2 where "run_ops step f1 xs = (map (apsnd cat) os2, f2)" "rel f2 rs'"
    using Cons.IH [of f1 rs1 os2] Cons.prems(2) 1 2(1) by auto
  then show ?case using f1 2(2) by simp
qed simp

end

text \<open>The operations of the code on records of \<open>sz\<close> bytes.\<close>

fun file_step :: "nat \<Rightarrow> (byte list \<Rightarrow> byte list \<Rightarrow> bool) \<Rightarrow> rfile \<Rightarrow> byte list rec_op \<Rightarrow> (int \<times> byte list) \<times> rfile" where
  "file_step sz same fp (RAppend r) = (let (c, fp') = append_record fp r in ((c, []), fp'))"
| "file_step sz same fp (RSubst i r) = (let (c, fp') = substitute_record fp r (int i + 1) in ((c, []), fp'))"
| "file_step sz same fp (RSubst2 i src r) =
     (let (c, fp') = substitute_record2 fp src r (int i + 1) (Some same) in ((c, []), fp'))"
| "file_step sz same fp (RDelete i n) = (let (c, fp') = delete_records fp sz (int i + 1) n in ((c, []), fp'))"
| "file_step sz same fp (RDelete2 i r) =
     (let (c, fp') = delete_record2 fp r sz (int i + 1) (Some same) in ((c, []), fp'))"
| "file_step sz same fp (RGet i n) = (get_records fp sz (int i + 1) n, fp)"

definition recs_ok :: "nat \<Rightarrow> byte list list \<Rightarrow> bool" where
  "recs_ok sz rs \<longleftrightarrow> list_all (\<lambda>r. length r = sz) rs \<and> sz * length rs < 2 ^ 31"

lemma file_step_refines:
  assumes "0 < sz" "rec_file sz fp rs" "op_ok (recs_ok sz) rs x" "list_step same rs x = ((c, out), rs')"
  shows "\<exists>fp'. file_step sz same fp x = ((c, concat out), fp') \<and> rec_file sz fp' rs'"
proof (cases x)
  case (RAppend r)
  then show ?thesis using append_record_list [OF assms(2), of r] assms(3,4) by (auto simp: recs_ok_def)
next
  case (RSubst i r)
  then have "r \<in> set (rs[i := r])" "recs_ok sz (rs[i := r])" using assms(3) by (simp_all add: set_update_memI)
  then have "length r = sz" by (simp add: recs_ok_def list_all_iff)
  then show ?thesis using substitute_record_list [OF assms(2), of r i] assms(3,4) RSubst by auto
next
  case (RSubst2 i src r)
  then have "r \<in> set (rs[i := r])" "recs_ok sz (rs[i := r])" using assms(3) by (simp_all add: set_update_memI)
  then have "length r = sz" by (simp add: recs_ok_def list_all_iff)
  then show ?thesis using substitute_record2_list [OF assms(2), of i r src same] assms(3,4) RSubst2
    by (auto split: if_splits)
next
  case (RDelete i n)
  then show ?thesis using delete_records_list [OF assms(2), of i n] assms(3,4) by auto
next
  case (RDelete2 i r)
  have i: "i < length rs" using assms(3) RDelete2 by simp
  show ?thesis
  proof (cases "same (rs ! i) r")
    case True
    then show ?thesis using delete_record2_list [OF assms(2) i, of same r] assms(4) RDelete2 by auto
  next
    case False
    have "rs \<noteq> []" using i by auto
    then have "fp = Some (concat rs)" "list_all (\<lambda>r. length r = sz) rs"
      using assms(2) by (auto simp: rec_file_def OpenCreate_def split: option.splits)
    then have "delete_record2 fp r sz (int i + 1) (Some same) = (-1, fp)"
      using False pread_rec [of sz rs i] i by (simp add: delete_record2_eq)
    then show ?thesis using False assms(2,4) RDelete2 by simp
  qed
next
  case (RGet i n)
  then show ?thesis using get_records_list [OF assms(2), of i n] assms(2,3,4) by auto
qed

interpretation rf: record_store "\<lambda>fp rs. 0 < sz \<and> rec_file sz fp rs" "recs_ok sz" same concat "file_step sz same"
  for sz same
  by unfold_locales (use file_step_refines in blast)

section \<open>Searching\<close>

text \<open>\<open>key\<close> is less than every record after one it is less than.\<close>

definition ascending :: "('k \<Rightarrow> 'r \<Rightarrow> int) \<Rightarrow> 'k \<Rightarrow> (nat \<Rightarrow> 'r) \<Rightarrow> nat \<Rightarrow> bool" where
  "ascending compar key at n \<longleftrightarrow> (\<forall>i j. i \<le> j \<and> j < n \<longrightarrow>
     (compar key (at i) < 0 \<longrightarrow> compar key (at j) < 0) \<and> (compar key (at j) > 0 \<longrightarrow> compar key (at i) > 0))"

lemma upper_bound_loop_correct:
  assumes asc: "ascending compar key at N"
  shows "left + n \<le> N \<Longrightarrow> (\<forall>j<left. \<not> compar key (at j) < 0) \<Longrightarrow>
    (\<forall>j. left + n \<le> j \<and> j < N \<longrightarrow> compar key (at j) < 0) \<Longrightarrow>
    upper_bound_loop compar key at left n \<le> N \<and>
    (\<forall>j<N. compar key (at j) < 0 \<longleftrightarrow> upper_bound_loop compar key at left n \<le> j)"
proof (induction n arbitrary: left rule: less_induct)
  case (less n)
  note u = upper_bound_loop.simps [of compar key at left n]
  show ?case
  proof (cases "n = 0")
    case True
    then have "upper_bound_loop compar key at left n = left" using u by simp
    then show ?thesis using less.prems True by (metis add.right_neutral not_le)
  next
    case n: False
    let ?i = "n div 2"
    have i: "left + ?i < N" "?i < n" using less.prems(1) n by linarith+
    show ?thesis
    proof (cases "compar key (at (left + ?i)) < 0")
      case True
      then have "\<forall>j. left + ?i \<le> j \<and> j < N \<longrightarrow> compar key (at j) < 0"
        using asc unfolding ascending_def by blast
      moreover have "upper_bound_loop compar key at left n = upper_bound_loop compar key at left ?i"
        using u n True by (simp only: Let_def if_True neq0_conv)
      moreover have "left + ?i \<le> N" using i(1) by linarith
      ultimately show ?thesis using less.IH [OF i(2) _ less.prems(2)] by simp
    next
      case False
      then have lo: "\<forall>j<left + ?i + 1. \<not> compar key (at j) < 0"
        using asc i(1) unfolding ascending_def by (metis Suc_eq_plus1 less_Suc_eq_le)
      have m: "left + ?i + 1 + (n - (?i + 1)) = left + n" "n - (?i + 1) < n" using i(2) by linarith+
      have eq: "upper_bound_loop compar key at left n = upper_bound_loop compar key at (left + ?i + 1) (n - (?i + 1))"
        using u n False by (simp only: Let_def if_True if_False neq0_conv)
      show ?thesis unfolding eq by (rule less.IH) (use m lo less.prems in \<open>simp_all only:\<close>)
    qed
  qed
qed

lemma bsearch_loop_correct:
  assumes asc: "ascending compar key at N"
  shows "u \<le> N \<Longrightarrow>
    (case bsearch_loop compar key at l u of
       Some i \<Rightarrow> l \<le> i \<and> i < u \<and> compar key (at i) = 0
     | None \<Rightarrow> \<forall>i. l \<le> i \<and> i < u \<longrightarrow> compar key (at i) \<noteq> 0)"
proof (induction "u - l" arbitrary: l u rule: less_induct)
  case less
  note step = bsearch_loop.simps [of compar key at l u]
  let ?i = "(l + u) div 2"
  have i: "l \<le> ?i" "?i < u" if "l < u" using that by linarith+
  consider "\<not> l < u" | "l < u" "compar key (at ?i) < 0" | "l < u" "compar key (at ?i) > 0"
    | "l < u" "compar key (at ?i) = 0" by linarith
  then show ?case
  proof cases
    case 2
    have hi: "compar key (at j) \<noteq> 0" if "?i \<le> j" "j < u" for j
      using asc 2(2) less.prems that unfolding ascending_def by (metis less_irrefl order_less_le_trans)
    have "bsearch_loop compar key at l u = bsearch_loop compar key at l ?i" using step 2 by (simp add: Let_def)
    moreover have "case bsearch_loop compar key at l ?i of Some j \<Rightarrow> l \<le> j \<and> j < ?i \<and> compar key (at j) = 0
        | None \<Rightarrow> \<forall>j. l \<le> j \<and> j < ?i \<longrightarrow> compar key (at j) \<noteq> 0"
      using less.hyps [of ?i l] less.prems i [OF 2(1)] by linarith
    ultimately show ?thesis using hi i(2) [OF 2(1)]
      by (simp split: option.splits) (meson not_le less_trans)+
  next
    case 3
    have lo: "compar key (at j) \<noteq> 0" if "j \<le> ?i" for j
      using asc 3 less.prems that i(2) [OF 3(1)] unfolding ascending_def by (metis less_irrefl order_less_le_trans)
    have "bsearch_loop compar key at l u = bsearch_loop compar key at (?i + 1) u" using step 3 by (simp add: Let_def)
    moreover have "case bsearch_loop compar key at (?i + 1) u of Some j \<Rightarrow> ?i + 1 \<le> j \<and> j < u \<and> compar key (at j) = 0
        | None \<Rightarrow> \<forall>j. ?i + 1 \<le> j \<and> j < u \<longrightarrow> compar key (at j) \<noteq> 0"
      using less.hyps [of u "?i + 1"] less.prems i [OF 3(1)] by linarith
    ultimately show ?thesis using lo i(1) [OF 3(1)]
      by (simp split: option.splits) (meson not_less_eq_eq Suc_leD le_trans)+
  next
    case 4
    then show ?thesis using step i by (simp add: Let_def)
  qed (use step in simp)
qed

section \<open>Properties\<close>

text \<open>C5.
  A file of fixed-size records behaves as a list of records under every sequence of
  appends, substitutions, deletions and reads within range, with or without the check
  of the record on file: the results are those of the list, and the file holds the
  list afterwards.
\<close>

theorem record_file_refines:
  assumes "0 < sz" "rec_file sz fp rs" "ops_ok (recs_ok sz) same rs xs"
    "run_ops (list_step same) rs xs = (os, rs')"
  shows "\<exists>fp'. run_ops (file_step sz same) fp xs = (map (apsnd concat) os, fp') \<and> rec_file sz fp' rs'"
  using rf.run_refines [of sz fp rs same xs os rs'] assms by blast

theorem record_file_refines_witness:
  "\<exists>fp'. run_ops (file_step 2 (=)) None
       [RAppend [1, 2], RAppend [3, 4], RDelete 0 1, RDelete2 0 [9, 9], RSubst2 0 [3, 4] [5, 6], RGet 0 9] =
     (map (apsnd concat) [(1, []), (2, []), (0, []), (-1, []), (0, []), (1, [[5, 6]])], fp') \<and>
     rec_file 2 fp' [[5, 6]]"
  by (rule record_file_refines [where rs = "[]"])
    (simp_all add: rec_file_def recs_ok_def del_seg_def)

text \<open>  On records in ascending order \<open>upper_bound_record\<close> returns the first record above
  the key and \<open>bsearch_record\<close> finds a record equal to the key iff there is one.
\<close>

lemma record_search_correct:
  assumes "ascending compar key (rec_at sz f) (length f div sz)"
  shows "\<exists>i r. upper_bound_record (Some f) key compar sz = Some (int i, length f div sz, r) \<and>
    i \<le> length f div sz \<and> (\<forall>j < length f div sz. compar key (rec_at sz f j) < 0 \<longleftrightarrow> i \<le> j) \<and>
    (if \<exists>j < length f div sz. compar key (rec_at sz f j) = 0
     then \<exists>j. bsearch_record (Some f) key compar sz = (int j, Some (rec_at sz f j)) \<and>
       j < length f div sz \<and> compar key (rec_at sz f j) = 0
     else bsearch_record (Some f) key compar sz = (-1, None))"
proof -
  let ?n = "length f div sz"
  have u: "upper_bound_loop compar key (rec_at sz f) 0 ?n \<le> ?n \<and>
      (\<forall>j<?n. compar key (rec_at sz f j) < 0 \<longleftrightarrow> upper_bound_loop compar key (rec_at sz f) 0 ?n \<le> j)"
    using upper_bound_loop_correct [OF assms, of 0 ?n] by simp
  have b: "if \<exists>j<?n. compar key (rec_at sz f j) = 0
     then \<exists>j. bsearch_record (Some f) key compar sz = (int j, Some (rec_at sz f j)) \<and>
       j < ?n \<and> compar key (rec_at sz f j) = 0
     else bsearch_record (Some f) key compar sz = (-1, None)"
    using bsearch_loop_correct [OF assms order_refl, of 0]
    by (auto simp: bsearch_record_def split: option.splits)
  show ?thesis using u b unfolding upper_bound_record_def option.case Let_def by blast
qed

text \<open>  \<open>delete_records\<close> does not check the record number: for the number after the last
  record, and for 0, it reports success and drops the last record of the file.
\<close>

lemma delete_records_out_of_range:
  assumes "rec_file sz fp rs" "rs \<noteq> []" "ent = 0 \<or> ent = int (length rs) + 1" "sz * (length rs + 1) < 2 ^ 31"
  shows "delete_records fp sz ent 1 = (0, Some (concat (butlast rs)))"
proof (rule rec_fileE [OF assms(1)])
  assume r: "0 < sz" "length (concat rs) = sz * length rs" "list_all (\<lambda>r. length r = sz) rs"
    "rs \<noteq> [] \<Longrightarrow> fp = Some (concat rs)"
  let ?f = "concat rs"
  have len: "int (length ?f) - int sz = int (sz * (length rs - 1))"
    using r(2) assms(2) by (cases rs) auto
  have "ftruncate ?f (int (length ?f) - int sz) = take (sz * (length rs - 1)) ?f"
    unfolding len ftruncate_def using r(2) by (simp del: of_nat_mult)
  also have "\<dots> = concat (butlast rs)" using r(3) by (simp only: take_concat_recs butlast_conv_take)
  finally have cut: "ftruncate ?f (int (length ?f) - int sz) = concat (butlast rs)" .
  have id: "copy_down ?f 0 0 0 (int (length ?f)) = ?f"
    using copy_down_shift [of 0 0 ?f "int (length ?f)" 0] by simp
  have int: "to_int (int (sz * (length rs + 1))) = int (sz * (length rs + 1))"
    "to_int (int (sz * length rs)) = int (sz * length rs)"
    using assms(4) by (intro to_int_nat; simp)+
  from assms(3) show ?thesis
  proof
    assume e: "ent = 0"
    have off: "int (length ?f) - int sz * (ent - 1) = int (sz * (length rs + 1))"
      "int (sz * (length rs + 1)) - int sz = int (length ?f)"
      using r(2) e by (simp_all add: algebra_simps)
    have seek: "lseek 0 (int sz * (ent - 1)) = 0" "lseek 0 (int sz * (ent - 1) + int sz) = 0"
      using e r(1) by (auto simp: lseek_def mult_less_0_iff)
    have rd: "to_int (int (length ?f)) = int (length ?f)" "(int (sz * (length rs + 1)) < 0) = False"
      using int(2) r(2) by (simp_all del: of_nat_mult)
    show ?thesis unfolding r(4) [OF assms(2)] delete_records_def option.case Let_def mult_1_right off int(1) seek rd
      using id cut by (auto simp del: of_nat_mult)
  next
    assume e: "ent = int (length rs) + 1"
    have "int (length ?f) - int sz * (ent - 1) = 0" using r(2) e by simp
    moreover have "\<not> to_int (0 - int sz) > 0"
    proof -
      have "sz \<le> sz * (length rs + 1)" by simp
      then have "sz < 2 ^ 31" using assms(4) by linarith
      then have "int sz < 2 ^ 31" by simp
      then show ?thesis by (simp add: to_int_id)
    qed
    ultimately show ?thesis unfolding r(4) [OF assms(2)] delete_records_def option.case Let_def
      using cut by (simp add: to_int_def del: of_nat_mult)
  qed
qed

text \<open>Without a callback \<open>delete_record2\<close> compares the result of a seek with the wrong offset, and deletes nothing.\<close>

lemma delete_record2_no_callback: "0 < sz \<Longrightarrow> delete_record2 fp r sz ent None = (-1, fp)"
  by (simp add: delete_record2_def Let_def split: option.split)

end
