(* ===== verification/Aids.thy ===== *)
theory Aids
  imports RecFile Time4
begin

text \<open>
  Article ids, \<open>src/common/bbs/aids.c\<close> and the inline functions of
  \<open>src/include/pttstruct.h\<close>: a 64-bit \<open>aidu_t\<close> packs an index hint, the type, the time
  stamp and the 12-bit suffix of a file name.  The theory has the conversions between
  a file name, an \<open>aidu_t\<close> and its printed form of eight characters, and the search of a
  directory file for the article, which tries the hint, a window around it, a binary
  search by time and a scan in blocks.  The directory is the list of its
  \<open>fileheader_t\<close> records, numbered from 1; the answer of the search service is an
  argument.

  It shows that the printed form and the file name identify an article, that the
  staged search finds a record iff a linear scan does, that a wrong answer of the
  service never yields a wrong record, and exactly what the bounded search needs
  to be complete.
\<close>

section \<open>The 64-bit id\<close>

type_synonym aidu = u64

definition AIDU_TYPE_G :: aidu where "AIDU_TYPE_G = 0x100000000000"
definition AIDU_RAW_MASK :: aidu where "AIDU_RAW_MASK = 0x00001FFFFFFFFFFF"
definition AIDU_IDX_MASK :: u32 where "AIDU_IDX_MASK = 0x7FFFF"

definition aidu_type :: "aidu \<Rightarrow> bool" where "aidu_type a \<longleftrightarrow> a AND AIDU_TYPE_G \<noteq> 0"

definition aidu_stamp :: "aidu \<Rightarrow> u32" where "aidu_stamp a = ucast (drop_bit 12 a AND 0xFFFFFFFF)"

definition aidu_hex :: "aidu \<Rightarrow> nat" where "aidu_hex a = unat (a AND 0xFFF)"

definition aidu_idx :: "aidu \<Rightarrow> nat" where "aidu_idx a = unat (drop_bit 45 a AND 0x7FFFF)"

definition aidu_raw :: "aidu \<Rightarrow> aidu" where "aidu_raw a = a AND AIDU_RAW_MASK"

definition safe_idx :: "int \<Rightarrow> u32" where
  "safe_idx idx = (if idx > 0 \<and> word_of_int idx \<le> AIDU_IDX_MASK then word_of_int idx else 0)"

definition aidu_pack :: "int \<Rightarrow> u32 \<Rightarrow> nat \<Rightarrow> aidu" where
  "aidu_pack idx stamp hex =
     push_bit 45 (ucast (safe_idx idx)) OR push_bit 12 (ucast stamp) OR (word_of_nat hex AND 0xFFF)"

section \<open>Names\<close>

definition fn2aidu :: "cstr \<Rightarrow> aidu" where
  "fn2aidu fn =
     (if hd0 fn \<noteq> 77 \<and> hd0 fn \<noteq> 71 \<or> nth0 fn 1 \<noteq> 46 then 0
      else
        let ts = get_fhdr_stamp_ts fn in
        if sint ts \<le> 0 then 0
        else case strstr (drop 2 fn) [46, 65] of
          None \<Rightarrow> 0
        | Some i \<Rightarrow>
            if nth0 (drop (2 + i) fn) 2 \<noteq> 0 \<and> nth0 (drop (2 + i) fn) 2 \<noteq> 46 then 0
            else
              let raw = aidu_pack 0 ts (get_fhdr_stamp_hex fn) in
              if hd0 fn = 71 then raw OR AIDU_TYPE_G else raw)"

text \<open>\<open>"0123456789ABC...xyz-_"\<close>, the digits of the printed form.\<close>

definition aidc_chr :: "nat \<Rightarrow> byte" where
  "aidc_chr v =
     (if v < 10 then 48 + word_of_nat v
      else if v < 36 then 55 + word_of_nat v
      else if v < 62 then 61 + word_of_nat v
      else if v = 62 then 45 else 95)"

text \<open>The buffer is filled from its end: \<open>n\<close> characters are still to be written before \<open>s\<close>.\<close>

primrec aidc_loop :: "nat \<Rightarrow> aidu \<Rightarrow> cstr \<Rightarrow> cstr" where
  "aidc_loop 0 a s = s"
| "aidc_loop (Suc n) a s = aidc_loop n (a div 64) (aidc_chr (unat (a mod 64)) # s)"

definition aidu2aidc :: "aidu \<Rightarrow> cstr" where "aidu2aidc a = aidc_loop 8 (aidu_raw a) []"

definition FNLEN :: nat where "FNLEN = 28"

definition aidu2fn :: "aidu \<Rightarrow> cstr" where
  "aidu2fn a =
     strlcpy FNLEN
       ((if \<not> aidu_type a then 77 else 71) # 46 # fmt_d (ucast (drop_bit 12 a AND 0xffffffff)) @
        [46, 65, 46] @ fmt_03X (unat (a AND 0xfff)))"

definition aidc_val :: "byte \<Rightarrow> nat option" where
  "aidc_val c =
     (if 48 \<le> c \<and> c \<le> 57 then Some (unat c - 48)
      else if 65 \<le> c \<and> c \<le> 90 then Some (unat c - 55)
      else if 97 \<le> c \<and> c \<le> 122 then Some (unat c - 61)
      else if c = 45 then Some 62
      else if c = 95 then Some 63
      else None)"

fun aidc_parse :: "cstr \<Rightarrow> aidu \<Rightarrow> aidu" where
  "aidc_parse [] a = a"
| "aidc_parse (c # s) a =
     (if c = 32 then a
      else case aidc_val c of
        None \<Rightarrow> 0
      | Some v \<Rightarrow> aidc_parse s (push_bit 6 a OR (word_of_nat v AND 0x3f)))"

definition aidc2aidu :: "cstr \<Rightarrow> aidu" where "aidc2aidu s = aidc_parse s 0"

section \<open>Matching a header\<close>

record fileheader =
  filename :: cstr
  modified :: u32
  score :: u16
  owner :: cstr
  date :: cstr
  title :: cstr
  multi :: u32
  filemode :: u16
  comments :: u16

definition FILE_BOTTOM :: u16 where "FILE_BOTTOM = 0x0008"

text \<open>\<open>strrchr(s, '.')\<close> without the dot.\<close>

fun after_last_dot :: "cstr \<Rightarrow> cstr option" where
  "after_last_dot [] = None"
| "after_last_dot (c # s) =
     (case after_last_dot s of Some d \<Rightarrow> Some d | None \<Rightarrow> if c = 46 then Some s else None)"

definition match_fhdr_stamp_hex ::
  "byte \<Rightarrow> u32 \<Rightarrow> nat \<Rightarrow> bool \<Rightarrow> u16 \<Rightarrow> fileheader \<Rightarrow> bool" where
  "match_fhdr_stamp_hex prefix_ch target_ts target_hex allow_prefix required_mode fh =
     (if hd0 (filename fh) = 0 \<or> hd0 (filename fh) = 46 then False
      else if prefix_ch \<noteq> 0 \<and> hd0 (filename fh) \<noteq> prefix_ch \<and>
          \<not> (prefix_ch = 77 \<and> hd0 (filename fh) = 76 \<and> required_mode AND FILE_BOTTOM \<noteq> 0) then False
      else if required_mode \<noteq> 0 \<and> (hd0 (owner fh) = 45 \<or> filemode fh AND required_mode \<noteq> required_mode) then False
      else if get_fhdr_stamp_ts (filename fh) \<noteq> target_ts then False
      else if get_fhdr_stamp_hex (filename fh) = target_hex then
        if target_hex \<noteq> 0 \<or> allow_prefix then True
        else case after_last_dot (filename fh) of
          None \<Rightarrow> False
        | Some d \<Rightarrow> hd0 d = 48 \<or> hd0 d = 65 \<and> nth0 d 1 = 0
      else False)"

section \<open>Searching a directory\<close>

text \<open>The records \<open>start\<close> to \<open>start + cnt - 1\<close> that a \<open>pread\<close> finds.\<close>

definition pread_recs :: "'r list \<Rightarrow> int \<Rightarrow> int \<Rightarrow> 'r list" where
  "pread_recs recs start cnt = take (nat cnt) (drop (nat (start - 1)) recs)"

text \<open>\<open>for (i = cnt - 1; i >= 0; i--)\<close> over the records read.\<close>

primrec scan_down :: "('r \<Rightarrow> bool) \<Rightarrow> 'r list \<Rightarrow> nat \<Rightarrow> nat option" where
  "scan_down P buf 0 = None"
| "scan_down P buf (Suc i) = (if P (buf ! i) then Some i else scan_down P buf i)"

text \<open>The scan from \<open>last_rec\<close> down to \<open>lo\<close> in blocks of 256 records.\<close>

function chunk_loop :: "('r \<Rightarrow> bool) \<Rightarrow> 'r list \<Rightarrow> int \<Rightarrow> int \<Rightarrow> int option" where
  "chunk_loop P recs lo last_rec =
     (if last_rec < lo then None
      else
        let cstart = (if last_rec - 256 + 1 < lo then lo else last_rec - 256 + 1);
            buf = pread_recs recs cstart (last_rec - cstart + 1) in
        if buf = [] then None
        else case scan_down P buf (length buf) of
          Some i \<Rightarrow> Some (cstart + int i)
        | None \<Rightarrow> chunk_loop P recs lo (last_rec - 256))"
  by pat_completeness auto
termination by (relation "measure (\<lambda>(P, recs, lo, last_rec). nat (last_rec - lo + 1))") auto

declare chunk_loop.simps [simp del]

definition search_hint :: "('r \<Rightarrow> bool) \<Rightarrow> 'r list \<Rightarrow> int \<Rightarrow> int \<Rightarrow> int option" where
  "search_hint P recs tot hint =
     (if 1 \<le> hint \<and> hint \<le> tot then
        case pread_recs recs hint 1 of
          [fh] \<Rightarrow> if P fh then Some hint else None
        | _ \<Rightarrow> None
      else None)"

definition search_window :: "('r \<Rightarrow> bool) \<Rightarrow> 'r list \<Rightarrow> int \<Rightarrow> int \<Rightarrow> int option" where
  "search_window P recs tot hint =
     (if 1 \<le> hint then
        let start = (if hint - 32 < 1 then 1 else hint - 32);
            last_rec = (if hint + 4 > tot then tot else hint + 4) in
        if start \<le> last_rec then
          let buf = pread_recs recs start (last_rec - start + 1) in
          map_option (\<lambda>i. start + int i) (scan_down P buf (length buf))
        else None
      else None)"

text \<open>The binary search by time: the last \<open>mid\<close>.\<close>

function stamp_bsearch :: "('r \<Rightarrow> int) \<Rightarrow> 'r list \<Rightarrow> int \<Rightarrow> int \<Rightarrow> int \<Rightarrow> int \<Rightarrow> int" where
  "stamp_bsearch ts recs target low high mid =
     (if low \<le> high then
        let mid' = low + (high - low) div 2 in
        case pread_recs recs mid' 1 of
          [fh] \<Rightarrow>
            if ts fh = target then mid'
            else if ts fh < target then stamp_bsearch ts recs target (mid' + 1) high mid'
            else stamp_bsearch ts recs target low (mid' - 1) mid'
        | _ \<Rightarrow> mid'
      else mid)"
  by pat_completeness auto
termination by (relation "measure (\<lambda>(ts, recs, target, low, high, mid). nat (high - low + 1))") auto

declare stamp_bsearch.simps [simp del]

definition BSEARCH_WIN :: int where "BSEARCH_WIN = 256"

text \<open>The window of records scanned around \<open>mid\<close>: its first record and its size.\<close>

definition win_bounds :: "int \<Rightarrow> int \<Rightarrow> int \<Rightarrow> int \<times> int" where
  "win_bounds tot mid max_backtrack =
     (let w0 = (if max_backtrack \<ge> 0 then to_int (max_backtrack * 2 + BSEARCH_WIN) else BSEARCH_WIN);
          win_size = (if w0 > tot then tot else w0);
          s0 = mid - (if win_size < 0 then - (- win_size div 2) else win_size div 2);
          s1 = (if s0 < 1 then 1 else s0);
          s2 = (if s1 + win_size - 1 > tot then tot - win_size + 1 else s1) in
      (if s2 < 1 then 1 else s2, win_size))"

definition search_dir_by_stamp_fd_bounded ::
  "fileheader list \<Rightarrow> int \<Rightarrow> int \<Rightarrow> byte \<Rightarrow> u32 \<Rightarrow> nat \<Rightarrow> bool \<Rightarrow> u16 \<Rightarrow> int \<Rightarrow> int" where
  "search_dir_by_stamp_fd_bounded recs tot hint prefix_ch target_ts target_hex allow_prefix required_mode
       max_backtrack =
     (let P = match_fhdr_stamp_hex prefix_ch target_ts target_hex allow_prefix required_mode in
      if tot \<le> 0 then 0
      else case search_hint P recs tot hint of
        Some i \<Rightarrow> i
      | None \<Rightarrow>
        (case search_window P recs tot hint of
          Some i \<Rightarrow> i
        | None \<Rightarrow>
            let linear = (case chunk_loop P recs 1 tot of Some i \<Rightarrow> i | None \<Rightarrow> 0) in
            if tot > BSEARCH_WIN then
              let mid = stamp_bsearch (\<lambda>fh. sint (get_fhdr_stamp_ts (filename fh))) recs (sint target_ts) 1 tot 1;
                  (wstart, win_size) = win_bounds tot mid max_backtrack in
              (case chunk_loop P recs wstart (wstart + win_size - 1) of
                 Some i \<Rightarrow> i
               | None \<Rightarrow> if max_backtrack \<ge> 0 then 0 else linear)
            else linear))"

definition search_dir_by_stamp_fd ::
  "fileheader list \<Rightarrow> int \<Rightarrow> int \<Rightarrow> byte \<Rightarrow> u32 \<Rightarrow> nat \<Rightarrow> bool \<Rightarrow> u16 \<Rightarrow> int" where
  "search_dir_by_stamp_fd recs tot hint prefix_ch target_ts target_hex allow_prefix required_mode =
     search_dir_by_stamp_fd_bounded recs tot hint prefix_ch target_ts target_hex allow_prefix required_mode (-1)"

text \<open>What an id asks for: the prefix, and whether a suffix of 0 may stand for any name.\<close>

definition aidu_match :: "aidu \<Rightarrow> u16 \<Rightarrow> fileheader \<Rightarrow> bool" where
  "aidu_match a required_mode =
     match_fhdr_stamp_hex (if aidu_type a then 71 else 77) (aidu_stamp a) (aidu_hex a)
       (aidu_hex a = 0 \<and> required_mode AND FILE_BOTTOM = 0) required_mode"

definition search_dir_by_aidu_fd_bounded :: "fileheader list \<Rightarrow> int \<Rightarrow> aidu \<Rightarrow> u16 \<Rightarrow> int \<Rightarrow> int" where
  "search_dir_by_aidu_fd_bounded recs tot a required_mode max_backtrack =
     (if aidu_raw a = 0 then 0
      else search_dir_by_stamp_fd_bounded recs tot (int (aidu_idx a)) (if aidu_type a then 71 else 77)
        (aidu_stamp a) (aidu_hex a) (aidu_hex a = 0 \<and> required_mode AND FILE_BOTTOM = 0) required_mode max_backtrack)"

definition search_dir_by_aidu_fd :: "fileheader list \<Rightarrow> int \<Rightarrow> aidu \<Rightarrow> u16 \<Rightarrow> int" where
  "search_dir_by_aidu_fd recs tot a required_mode = search_dir_by_aidu_fd_bounded recs tot a required_mode (-1)"

text \<open>
  \<open>search_dir_by_aidu\<close> on the path \<open>direct\<close> whose records are \<open>dir\<close>; \<open>svc\<close> is what
  \<open>search_aidu_via_svc\<close> answers.
\<close>

definition search_dir_by_aidu :: "int \<Rightarrow> cstr \<Rightarrow> fileheader list option \<Rightarrow> aidu \<Rightarrow> u16 \<Rightarrow> int" where
  "search_dir_by_aidu svc direct dir a required_mode =
     (if aidu_raw a = 0 then 0
      else if aidu_type a \<and> strstr direct [46, 68, 73, 82] \<noteq> None then 0
      else if \<not> aidu_type a \<and> (strstr direct [46, 78, 97, 109, 101, 115] \<noteq> None \<or>
          strstr direct [109, 97, 110, 100, 101, 120] \<noteq> None) then 0
      else case dir of
        None \<Rightarrow> 0
      | Some recs \<Rightarrow>
          if recs = [] then 0
          else
            let tot = int (length recs); found = search_dir_by_aidu_fd recs tot a required_mode in
            if aidu_idx a = 0 then
              if svc = 0 then 0
              else if svc > 0 \<and> svc \<le> tot \<and> aidu_match a required_mode (recs ! nat (svc - 1)) then svc
              else found
            else found)"

definition search_aidu :: "int \<Rightarrow> cstr \<Rightarrow> fileheader list option \<Rightarrow> aidu \<Rightarrow> int" where
  "search_aidu svc bfile dir a =
     (let idx = search_dir_by_aidu svc bfile dir a 0 in if idx > 0 then idx - 1 else -1)"

section \<open>The staged search\<close>

text \<open>Record number \<open>i\<close> satisfies \<open>P\<close>.\<close>

definition hit :: "('r \<Rightarrow> bool) \<Rightarrow> 'r list \<Rightarrow> int \<Rightarrow> bool" where
  "hit P recs i \<longleftrightarrow> 1 \<le> i \<and> i \<le> int (length recs) \<and> P (recs ! nat (i - 1))"

text \<open>A result of a search between \<open>lo\<close> and \<open>hi\<close>.\<close>

definition found_in :: "('r \<Rightarrow> bool) \<Rightarrow> 'r list \<Rightarrow> int \<Rightarrow> int \<Rightarrow> int option \<Rightarrow> bool" where
  "found_in P recs lo hi r \<longleftrightarrow>
     (case r of Some i \<Rightarrow> lo \<le> i \<and> i \<le> hi \<and> hit P recs i | None \<Rightarrow> (\<forall>i. lo \<le> i \<and> i \<le> hi \<longrightarrow> \<not> hit P recs i))"

lemma scan_down_spec:
  "case scan_down P buf n of
     Some i \<Rightarrow> i < n \<and> P (buf ! i)
   | None \<Rightarrow> \<forall>i<n. \<not> P (buf ! i)"
  by (induction n) (auto simp: less_Suc_eq split: option.splits)

lemma scan_pread_spec:
  assumes "1 \<le> s" "s \<le> e" "e \<le> int (length recs)"
  shows "length (pread_recs recs s (e - s + 1)) = nat (e - s + 1)"
    "found_in P recs s e (map_option (\<lambda>i. s + int i)
       (scan_down P (pread_recs recs s (e - s + 1)) (length (pread_recs recs s (e - s + 1)))))"
proof -
  let ?buf = "pread_recs recs s (e - s + 1)"
  show len: "length ?buf = nat (e - s + 1)" using assms by (simp add: pread_recs_def)
  have nth: "?buf ! j = recs ! nat (s + int j - 1)" if "j < length ?buf" for j
  proof -
    have "nat (s - 1) + j = nat (s + int j - 1)" using assms(1) by linarith
    moreover have "nat (s - 1) \<le> length recs" using assms by linarith
    ultimately show ?thesis using that by (simp add: pread_recs_def)
  qed
  show "found_in P recs s e (map_option (\<lambda>i. s + int i) (scan_down P ?buf (length ?buf)))"
  proof (cases "scan_down P ?buf (length ?buf)")
    case None
    have "\<not> hit P recs i" if "s \<le> i" "i \<le> e" for i
    proof -
      have "nat (i - s) < length ?buf" "s + int (nat (i - s)) = i" using that len by linarith+
      then show ?thesis using nth [of "nat (i - s)"] scan_down_spec [where P = P and buf = ?buf and n = "length ?buf"] None by (auto simp: hit_def)
    qed
    then show ?thesis using None by (simp add: found_in_def)
  next
    case (Some j)
    then have "j < length ?buf" "P (?buf ! j)" using scan_down_spec [where P = P and buf = ?buf and n = "length ?buf"] by auto
    moreover from this have "s + int j \<le> e" using len assms by linarith
    ultimately show ?thesis using Some nth [of j] assms by (auto simp: found_in_def hit_def)
  qed
qed

lemma found_in_extend:
  "found_in P recs lo (s - 1) r \<Longrightarrow> found_in P recs s hi None \<Longrightarrow> s \<le> hi + 1 \<Longrightarrow> lo \<le> s \<Longrightarrow> found_in P recs lo hi r"
  by (cases r) (auto simp: found_in_def, meson linorder_not_less zle_diff1_eq)

lemma chunk_loop_spec:
  "1 \<le> lo \<Longrightarrow> hi \<le> int (length recs) \<Longrightarrow> found_in P recs lo hi (chunk_loop P recs lo hi)"
proof (induction P recs lo hi rule: chunk_loop.induct)
  case (1 P recs lo hi)
  note u = chunk_loop.simps [of P recs lo hi]
  show ?case
  proof (cases "hi < lo")
    case True
    then show ?thesis using u by (auto simp: found_in_def)
  next
    case False
    let ?s = "if hi - 256 + 1 < lo then lo else hi - 256 + 1"
    let ?buf = "pread_recs recs ?s (hi - ?s + 1)"
    have s: "1 \<le> ?s" "?s \<le> hi" "lo \<le> ?s" using 1(2) False by auto
    note sp = scan_pread_spec [OF s(1,2) 1(3)]
    have "0 < length ?buf" unfolding sp(1) using s(2) by simp
    then have ne: "?buf \<noteq> []" by (rule length_greater_0_conv [THEN iffD1])
    show ?thesis
    proof (cases "scan_down P ?buf (length ?buf)")
      case (Some i)
      then have "chunk_loop P recs lo hi = Some (?s + int i)"
        using False ne unfolding u Let_def by (simp only: if_False option.case)
      then show ?thesis using sp(2) [of P] Some s(3) by (auto simp: found_in_def)
    next
      case None
      then have eq: "chunk_loop P recs lo hi = chunk_loop P recs lo (hi - 256)"
        using False ne unfolding u Let_def by (simp only: if_False option.case)
      have IH: "found_in P recs lo (hi - 256) (chunk_loop P recs lo (hi - 256))"
        using "1.IH" [OF False refl refl ne None 1(2)] 1(3) by simp
      have "found_in P recs ?s hi None" using sp(2) [of P] None by simp
      moreover have "found_in P recs lo (?s - 1) (chunk_loop P recs lo (hi - 256))"
        using IH by (cases "hi - 256 + 1 < lo") (auto simp: found_in_def chunk_loop.simps)
      ultimately show ?thesis unfolding eq using found_in_extend s by (metis add_increasing2 zero_le_one)
    qed
  qed
qed

lemma pread_one: "1 \<le> i \<Longrightarrow> i \<le> int (length recs) \<Longrightarrow> pread_recs recs i 1 = [recs ! nat (i - 1)]"
proof -
  assume "1 \<le> i" "i \<le> int (length recs)"
  then have "nat (i - 1) < length recs" by linarith
  then show ?thesis by (simp add: pread_recs_def Cons_nth_drop_Suc [symmetric])
qed

text \<open>
  Times go back over at most \<open>B\<close> records, and records of the time \<open>T\<close> are at most \<open>D\<close>
  records apart.
\<close>

definition backtrack :: "('r \<Rightarrow> int) \<Rightarrow> 'r list \<Rightarrow> int \<Rightarrow> bool" where
  "backtrack ts recs B \<longleftrightarrow> (\<forall>i j. 1 \<le> i \<and> i < j \<and> j \<le> int (length recs) \<and>
     ts (recs ! nat (j - 1)) < ts (recs ! nat (i - 1)) \<longrightarrow> j - i \<le> B)"

definition same_time_near :: "('r \<Rightarrow> int) \<Rightarrow> 'r list \<Rightarrow> int \<Rightarrow> int \<Rightarrow> bool" where
  "same_time_near ts recs T D \<longleftrightarrow>
     (\<forall>i j. hit (\<lambda>r. ts r = T) recs i \<and> hit (\<lambda>r. ts r = T) recs j \<longrightarrow> j - i \<le> D)"

lemma stamp_bsearch_near:
  assumes bt: "backtrack ts recs B" and near: "same_time_near ts recs T D" and D: "0 \<le> B" "B + 1 \<le> D"
    and k: "hit (\<lambda>r. ts r = T) recs k"
  shows "1 \<le> low \<Longrightarrow> high \<le> int (length recs) \<Longrightarrow> low \<le> high + 1 \<Longrightarrow> low \<le> k + B + 1 \<Longrightarrow> k \<le> high + B + 1 \<Longrightarrow>
    (low \<le> high \<or> mid = low \<or> mid = high) \<Longrightarrow> \<bar>k - stamp_bsearch ts recs T low high mid\<bar> \<le> D"
proof (induction "nat (high - low + 1)" arbitrary: low high mid rule: less_induct)
  case less
  note prems = less.prems and u = stamp_bsearch.simps [of ts recs T low high mid]
  show ?case
  proof (cases "low \<le> high")
    case False
    then have "stamp_bsearch ts recs T low high mid = mid" using u by simp
    then show ?thesis using prems False D by linarith
  next
    case lh: True
    define m where m_def: "m = low + (high - low) div 2"
    let ?r = "recs ! nat (m - 1)"
    have m: "low \<le> m" "m \<le> high" unfolding m_def using lh by linarith+
    have rd: "pread_recs recs m 1 = [?r]" using m prems by (intro pread_one) linarith+
    consider "ts ?r = T" | "ts ?r < T" | "ts ?r > T" by linarith
    then show ?thesis
    proof cases
      case 1
      then have "stamp_bsearch ts recs T low high mid = m" using u lh rd by (simp add: Let_def flip: m_def)
      moreover have "hit (\<lambda>r. ts r = T) recs m" using 1 m prems by (simp add: hit_def)
      then have "k - m \<le> D \<and> m - k \<le> D" using near k unfolding same_time_near_def by blast
      ultimately show ?thesis by linarith
    next
      case 2
      then have eq: "stamp_bsearch ts recs T low high mid = stamp_bsearch ts recs T (m + 1) high m"
        using u lh rd by (simp add: Let_def flip: m_def)
      have "m - k \<le> B" if "k < m"
        using bt k that m prems 2 unfolding backtrack_def hit_def by auto
      then have "m + 1 \<le> k + B + 1" using D by linarith
      then show ?thesis unfolding eq using less.hyps [of high "m + 1" m] m prems by linarith
    next
      case 3
      then have eq: "stamp_bsearch ts recs T low high mid = stamp_bsearch ts recs T low (m - 1) m"
        using u lh rd by (simp add: Let_def flip: m_def)
      have "k - m \<le> B" if "m < k"
        using bt k that m prems 3 unfolding backtrack_def hit_def by auto
      then have "k \<le> m - 1 + B + 1" using D by linarith
      then show ?thesis unfolding eq using less.hyps [of "m - 1" low m] m prems by linarith
    qed
  qed
qed

lemma win_bounds_cover:
  assumes "win_bounds n mid B = (s, w)" "1 \<le> mid" "mid \<le> n" "0 \<le> B" "B < 2 ^ 29"
  shows "1 \<le> s \<and> s + w - 1 \<le> n \<and> (\<forall>k. 1 \<le> k \<and> k \<le> n \<and> \<bar>k - mid\<bar> \<le> B + 127 \<longrightarrow> s \<le> k \<and> k \<le> s + w - 1)"
proof -
  have "to_int (B * 2 + 256) = B * 2 + 256" using assms(4,5) by (intro to_int_id) simp_all
  then show ?thesis using assms by (auto simp: win_bounds_def BSEARCH_WIN_def Let_def split: if_splits)
qed

lemma win_bounds_range:
  assumes "win_bounds n mid B = (s, w)" "1 \<le> n" "B < 0 \<or> B < 2 ^ 29"
  shows "1 \<le> s \<and> s + w - 1 \<le> n"
proof -
  have "0 \<le> B \<Longrightarrow> to_int (B * 2 + 256) = B * 2 + 256" using assms(3) by (intro to_int_id) simp_all
  then show ?thesis using assms by (auto simp: win_bounds_def BSEARCH_WIN_def Let_def split: if_splits)
qed

text \<open>A search is right if it returns a record that matches, and 0 only if there is none.\<close>

definition search_ok :: "('r \<Rightarrow> bool) \<Rightarrow> 'r list \<Rightarrow> int \<Rightarrow> bool" where
  "search_ok P recs r \<longleftrightarrow> (if \<exists>i. hit P recs i then hit P recs r else r = 0)"

lemma hit_range: "hit P recs i \<Longrightarrow> 1 \<le> i \<and> i \<le> int (length recs)"
  by (simp add: hit_def)

lemma search_hint_hit: "search_hint P recs (int (length recs)) hint = Some i \<Longrightarrow> hit P recs i"
  by (auto simp: search_hint_def pread_one hit_def split: if_splits)

lemma search_window_hit:
  assumes "search_window P recs (int (length recs)) hint = Some i"
  shows "hit P recs i"
proof -
  define s where "s = (if hint - 32 < 1 then 1 else hint - 32)"
  define e where "e = (if hint + 4 > int (length recs) then int (length recs) else hint + 4)"
  have "search_window P recs (int (length recs)) hint =
     (if 1 \<le> hint then
        if s \<le> e then map_option (\<lambda>i. s + int i)
          (scan_down P (pread_recs recs s (e - s + 1)) (length (pread_recs recs s (e - s + 1))))
        else None
      else None)"
    unfolding search_window_def Let_def s_def e_def by (rule refl)
  then have r: "s \<le> e" "map_option (\<lambda>i. s + int i)
      (scan_down P (pread_recs recs s (e - s + 1)) (length (pread_recs recs s (e - s + 1)))) = Some i"
    using assms by (metis option.distinct(1))+
  moreover have "1 \<le> s" "e \<le> int (length recs)" by (simp_all add: s_def e_def)
  ultimately show ?thesis using scan_pread_spec(2) [of s e recs P] by (auto simp: found_in_def)
qed

lemma search_ok_found:
  assumes "found_in P recs s e r" "\<And>i. r = None \<Longrightarrow> hit P recs i \<Longrightarrow> s \<le> i \<and> i \<le> e"
  shows "search_ok P recs (case r of Some i \<Rightarrow> i | None \<Rightarrow> 0)"
proof (cases r)
  case None
  then have "\<forall>i. s \<le> i \<and> i \<le> e \<longrightarrow> \<not> hit P recs i" using assms(1) by (simp add: found_in_def)
  then have "\<not> hit P recs i" for i using assms(2) [OF None] by blast
  then show ?thesis using None by (simp add: search_ok_def)
next
  case (Some i)
  then have "hit P recs i" using assms(1) by (simp add: found_in_def)
  then show ?thesis using Some by (auto simp: search_ok_def)
qed

lemma linear_ok: "search_ok P recs (case chunk_loop P recs 1 (int (length recs)) of Some i \<Rightarrow> i | None \<Rightarrow> 0)"
  by (rule search_ok_found [OF chunk_loop_spec]) (use hit_range in auto)

lemma search_ok_hit: "hit P recs i \<Longrightarrow> search_ok P recs i"
  by (auto simp: search_ok_def)

lemma stamp_bsearch_range:
  "1 \<le> low \<Longrightarrow> high \<le> N \<Longrightarrow> 1 \<le> mid \<and> mid \<le> N \<Longrightarrow>
     1 \<le> stamp_bsearch ts recs T low high mid \<and> stamp_bsearch ts recs T low high mid \<le> N"
proof (induction "nat (high - low + 1)" arbitrary: low high mid rule: less_induct)
  case less
  note u = stamp_bsearch.simps [of ts recs T low high mid]
  show ?case
  proof (cases "low \<le> high")
    case False
    then show ?thesis using u less.prems by simp
  next
    case True
    define m where m_def: "m = low + (high - low) div 2"
    have m: "low \<le> m" "m \<le> high" unfolding m_def using True by linarith+
    have "1 \<le> stamp_bsearch ts recs T (m + 1) high m \<and> stamp_bsearch ts recs T (m + 1) high m \<le> N"
      "1 \<le> stamp_bsearch ts recs T low (m - 1) m \<and> stamp_bsearch ts recs T low (m - 1) m \<le> N"
      using m less.prems by (intro less.hyps; linarith)+
    moreover have "1 \<le> m \<and> m \<le> N" using m less.prems by linarith
    ultimately show ?thesis using True unfolding u Let_def m_def [symmetric] by (auto split: list.split)
  qed
qed

lemma bounded_cases:
  assumes stage3: "256 < int (length recs) \<Longrightarrow>
      search_ok P recs
        (let mid = stamp_bsearch (\<lambda>fh. sint (get_fhdr_stamp_ts (filename fh))) recs (sint ts) 1 (int (length recs)) 1;
             (s, w) = win_bounds (int (length recs)) mid mb in
         case chunk_loop P recs s (s + w - 1) of
           Some i \<Rightarrow> i
         | None \<Rightarrow> if mb \<ge> 0 then 0
             else case chunk_loop P recs 1 (int (length recs)) of Some i \<Rightarrow> i | None \<Rightarrow> 0)"
    and P: "P = match_fhdr_stamp_hex prefix_ch ts hex allow required_mode"
  shows "search_ok P recs
    (search_dir_by_stamp_fd_bounded recs (int (length recs)) hint prefix_ch ts hex allow required_mode mb)"
proof (cases "search_hint P recs (int (length recs)) hint")
  case (Some i)
  then show ?thesis using search_ok_hit [OF search_hint_hit] hit_range [OF search_hint_hit [OF Some]]
    unfolding search_dir_by_stamp_fd_bounded_def Let_def P [symmetric] by auto
next
  case h: None
  show ?thesis
  proof (cases "search_window P recs (int (length recs)) hint")
    case (Some i)
    then show ?thesis using search_ok_hit [OF search_window_hit] hit_range [OF search_window_hit [OF Some]] h
      unfolding search_dir_by_stamp_fd_bounded_def Let_def P [symmetric] by auto
  next
    case w: None
    show ?thesis
    proof (cases "recs = []")
      case True
      then show ?thesis by (simp add: search_dir_by_stamp_fd_bounded_def search_ok_def hit_def)
    next
      case False
      then have ne: "(int (length recs) \<le> 0) = False" by simp
      show ?thesis
        using stage3 linear_ok [of P recs]
        unfolding search_dir_by_stamp_fd_bounded_def P [symmetric] Let_def ne h w option.case if_False BSEARCH_WIN_def
        by simp
    qed
  qed
qed

lemma search_unbounded_ok:
  "search_ok (match_fhdr_stamp_hex prefix_ch ts hex allow required_mode) recs
    (search_dir_by_stamp_fd recs (int (length recs)) hint prefix_ch ts hex allow required_mode)"
  unfolding search_dir_by_stamp_fd_def
proof (rule bounded_cases [OF _ refl], goal_cases)
  case 1
  let ?P = "match_fhdr_stamp_hex prefix_ch ts hex allow required_mode"
  let ?mid = "stamp_bsearch (\<lambda>fh. sint (get_fhdr_stamp_ts (filename fh))) recs (sint ts) 1 (int (length recs)) 1"
  obtain s w where sw: "win_bounds (int (length recs)) ?mid (- 1) = (s, w)" by fastforce
  have "found_in ?P recs s (s + w - 1) (chunk_loop ?P recs s (s + w - 1))"
    using win_bounds_range [OF sw] 1 by (intro chunk_loop_spec) auto
  then show ?case using linear_ok [of ?P recs] search_ok_hit [of ?P recs]
    by (cases "chunk_loop ?P recs s (s + w - 1)") (simp_all add: sw Let_def found_in_def)
qed

lemma search_bounded_ok:
  assumes "backtrack (\<lambda>fh. sint (get_fhdr_stamp_ts (filename fh))) recs B"
    "same_time_near (\<lambda>fh. sint (get_fhdr_stamp_ts (filename fh))) recs (sint ts) (B + 127)"
    "0 \<le> B" "B < 2 ^ 29"
  shows "search_ok (match_fhdr_stamp_hex prefix_ch ts hex allow required_mode) recs
    (search_dir_by_stamp_fd_bounded recs (int (length recs)) hint prefix_ch ts hex allow required_mode B)"
proof (rule bounded_cases [OF _ refl], goal_cases)
  case 1
  let ?P = "match_fhdr_stamp_hex prefix_ch ts hex allow required_mode"
  let ?ts = "\<lambda>fh. sint (get_fhdr_stamp_ts (filename fh))"
  let ?mid = "stamp_bsearch ?ts recs (sint ts) 1 (int (length recs)) 1"
  obtain s w where sw: "win_bounds (int (length recs)) ?mid B = (s, w)" by fastforce
  have mid: "1 \<le> ?mid" "?mid \<le> int (length recs)"
    using stamp_bsearch_range [of 1 "int (length recs)" "int (length recs)" 1] 1 by auto
  note win = win_bounds_cover [OF sw mid assms(3,4)]
  have f: "found_in ?P recs s (s + w - 1) (chunk_loop ?P recs s (s + w - 1))"
    using win by (intro chunk_loop_spec) auto
  have in_win: "s \<le> k \<and> k \<le> s + w - 1" if "hit ?P recs k" for k
  proof -
    have "hit (\<lambda>r. ?ts r = sint ts) recs k"
      using that by (auto simp: hit_def match_fhdr_stamp_hex_def split: if_splits)
    then have "\<bar>k - ?mid\<bar> \<le> B + 127"
      using stamp_bsearch_near [OF assms(1,2,3), of k 1 "int (length recs)" 1] hit_range [OF that] assms(3) by auto
    then show ?thesis using win hit_range [OF that] by blast
  qed
  have "search_ok ?P recs (case chunk_loop ?P recs s (s + w - 1) of Some i \<Rightarrow> i | None \<Rightarrow> 0)"
    by (rule search_ok_found [OF f in_win])
  then show ?case using assms(3) by (simp add: sw Let_def)
qed

section \<open>Conversions\<close>

lemma shift6_or: "v < 64 \<Longrightarrow> push_bit 6 (a :: aidu) OR (word_of_nat v AND 0x3f) = a * 64 + word_of_nat v"
proof -
  assume v: "v < 64"
  have m: "(0x3f :: aidu) = mask 6" by (simp add: mask_eq_exp_minus_1)
  have "word_of_nat v AND (0x3f :: aidu) = word_of_nat v"
    unfolding m using v by (simp add: take_bit_of_nat take_bit_nat_eq_self flip: take_bit_eq_mask)
  moreover have "push_bit 6 a AND (word_of_nat v AND 0x3f) = 0"
    unfolding m by (rule bit_word_eqI) (auto simp: bit_simps)
  then have "push_bit 6 a OR (word_of_nat v AND 0x3f) = push_bit 6 a + (word_of_nat v AND 0x3f)"
    by (rule disjunctive_add_eq_or [symmetric])
  ultimately show ?thesis by (simp add: push_bit_eq_mult)
qed

lemma aidc_val_chr: "v < 64 \<Longrightarrow> aidc_val (aidc_chr v) = Some v \<and> aidc_chr v \<noteq> 32"
proof -
  have "list_all (\<lambda>v. aidc_val (aidc_chr v) = Some v \<and> aidc_chr v \<noteq> 32) [0..<64]" by code_simp
  then show "v < 64 \<Longrightarrow> ?thesis" by (simp add: list_all_iff)
qed

lemma aidc_parse_loop:
  "aidc_parse (aidc_loop n a s) b = aidc_parse s (b * 64 ^ n + word_of_nat (unat a mod 64 ^ n))"
proof (induction n arbitrary: a s b)
  case (Suc n)
  let ?d = "unat a mod 64"
  have d: "unat (a mod 64) = ?d" "unat (a div 64) = unat a div 64"
    by (simp_all add: unat_mod unat_div)
  have "aidc_parse (aidc_loop (Suc n) a s) b =
      aidc_parse (aidc_chr ?d # s) (b * 64 ^ n + word_of_nat (unat a div 64 mod 64 ^ n))"
    using Suc [of "a div 64" "aidc_chr ?d # s" b] by (simp add: d)
  also have "\<dots> = aidc_parse s ((b * 64 ^ n + word_of_nat (unat a div 64 mod 64 ^ n)) * 64 + word_of_nat ?d)"
    using aidc_val_chr [of ?d] by (simp add: shift6_or)
  also have "(b * 64 ^ n + word_of_nat (unat a div 64 mod 64 ^ n)) * 64 + word_of_nat ?d =
      b * 64 ^ Suc n + word_of_nat (64 * (unat a div 64 mod 64 ^ n) + ?d)"
    by (simp add: algebra_simps)
  also have "64 * (unat a div 64 mod 64 ^ n) + ?d = unat a mod 64 ^ Suc n"
    by (simp add: mod_mult2_eq)
  finally show ?case .
qed simp

lemma aidu_masks:
  "AIDU_RAW_MASK = mask 45" "AIDU_TYPE_G = push_bit 44 1" "(0xFFF :: aidu) = mask 12" "(0xFFFFFFFF :: aidu) = mask 32"
  by (simp_all add: AIDU_RAW_MASK_def AIDU_TYPE_G_def mask_eq_exp_minus_1 push_bit_eq_mult)

lemma unat_raw_less: "unat (aidu_raw a) < 2 ^ 45"
proof -
  have "aidu_raw a = take_bit 45 a" by (simp add: aidu_raw_def aidu_masks take_bit_eq_mask)
  then have "unat (aidu_raw a) = take_bit 45 (unat a)" by (simp add: unsigned_take_bit_eq)
  then show ?thesis using take_bit_nat_less_exp [of 45 "unat a"] by simp
qed

lemma aidc_roundtrip: "aidc2aidu (aidu2aidc a) = aidu_raw a"
proof -
  have "unat (aidu_raw a) < 64 ^ 8" using unat_raw_less [of a] by (rule less_le_trans) simp
  then show ?thesis by (simp add: aidc2aidu_def aidu2aidc_def aidc_parse_loop)
qed

text \<open>The name of an article: its type, time and suffix.\<close>

definition std_name :: "bool \<Rightarrow> u32 \<Rightarrow> nat \<Rightarrow> cstr" where
  "std_name g ts h = (if g then 71 else 77) # 46 # fmt_u ts @ [46, 65, 46] @ fmt_03X h"

lemma digit_val_dot: "digit_val 46 = 255"
  by (simp add: digit_val_def is_digit_def is_lower_def is_upper_def)

lemma std_name_ts: "get_fhdr_stamp_ts (std_name g ts h) = ts"
  using fmt_u_value [of "46 # 65 # 46 # fmt_03X h" ts]
  by (simp add: get_fhdr_stamp_ts_def std_name_def digit_val_dot)

lemma strstr_skip: "hd pat \<notin> set pre \<Longrightarrow> pat \<noteq> [] \<Longrightarrow> strstr (pre @ pat @ rest) pat = Some (length pre)"
proof (induction pre)
  case Nil
  then show ?case by (cases pat) auto
next
  case (Cons c pre)
  then have "take (length pat) (c # pre @ pat @ rest) \<noteq> pat" by (cases pat) auto
  then show ?case using Cons by simp
qed

lemma fmt_u_ne [simp]: "fmt_u w \<noteq> []"
  by (simp add: fmt_u_def)

lemma std_name_hex: "h < 4096 \<Longrightarrow> get_fhdr_stamp_hex (std_name g ts h) = h"
proof -
  assume h: "h < 4096"
  let ?tail = "fmt_u ts @ [46, 65, 46] @ fmt_03X h"
  have "46 \<notin> set (fmt_u ts)" using fmt_u_chars by blast
  then have s: "strstr ?tail [46, 65, 46] = Some (length (fmt_u ts))"
    using strstr_skip [of "[46, 65, 46]" "fmt_u ts" "fmt_03X h"] by simp
  have "take (Suc (Suc (Suc 0))) (46 # ?tail) \<noteq> [46, 65, 46]"
    using fmt_u_chars [of "hd (fmt_u ts)" ts] fmt_u_ne [of ts] by (cases "fmt_u ts") auto
  then have "strstr (std_name g ts h) [46, 65, 46] = Some (Suc (Suc (length (fmt_u ts))))"
    using s by (simp add: std_name_def)
  moreover have "drop (Suc (Suc (length (fmt_u ts))) + 3) (std_name g ts h) = fmt_03X h"
  proof -
    let ?pre = "(if g then 71 else 77) # 46 # fmt_u ts @ [46, 65, 46]"
    have "std_name g ts h = ?pre @ fmt_03X h" "length ?pre = Suc (Suc (length (fmt_u ts))) + 3"
      by (simp_all add: std_name_def)
    then show ?thesis by (metis append_eq_conv_conj)
  qed
  moreover have "unat (word_of_nat h AND mask 12 :: aidu) = h"
    using h by (simp add: take_bit_of_nat take_bit_nat_eq_self unat_of_nat flip: take_bit_eq_mask)
  ultimately show ?thesis using fmt_03X_value [OF h] by (simp add: get_fhdr_stamp_hex_def aidu_masks(3))
qed

text \<open>The fields of an id without a hint.\<close>

definition aidu_of :: "bool \<Rightarrow> u32 \<Rightarrow> nat \<Rightarrow> aidu" where
  "aidu_of g ts h = (if g then aidu_pack 0 ts h OR AIDU_TYPE_G else aidu_pack 0 ts h)"

lemma aidu_pack0: "h < 4096 \<Longrightarrow> aidu_pack 0 ts h = push_bit 12 (ucast ts) OR word_of_nat h"
  by (simp add: aidu_pack_def safe_idx_def aidu_masks take_bit_of_nat take_bit_nat_eq_self flip: take_bit_eq_mask)

lemma bit_small_nat: "(h :: nat) < 4096 \<Longrightarrow> bit h n \<Longrightarrow> n < 12"
proof (rule ccontr)
  assume "h < 4096" "bit h n" "\<not> n < 12"
  then have "h < 2 ^ n" using power_increasing [of 12 n "2 :: nat"] by simp
  then show False using \<open>bit h n\<close> by (simp add: bit_iff_odd)
qed

lemma bit_type_G: "bit AIDU_TYPE_G n \<longleftrightarrow> n = 44"
proof -
  have g: "AIDU_TYPE_G = 2 ^ 44" by (simp add: AIDU_TYPE_G_def)
  show ?thesis unfolding g bit_exp_iff by auto
qed

lemma aidu_type_iff: "aidu_type a \<longleftrightarrow> bit a 44"
proof -
  have "AIDU_TYPE_G = 2 ^ 44" by (simp add: AIDU_TYPE_G_def)
  then show ?thesis using and_exp_eq_0_iff_not_bit [of a 44] by (simp only: aidu_type_def) simp
qed

lemma aidu_hex_less: "aidu_hex a < 4096"
proof -
  have "aidu_hex a = take_bit 12 (unat a)"
    by (simp add: aidu_hex_def aidu_masks(3) unsigned_take_bit_eq flip: take_bit_eq_mask)
  then show ?thesis using take_bit_nat_less_exp [of 12 "unat a"] by simp
qed

lemma aidu_of_fields:
  assumes "h < 4096"
  shows "aidu_type (aidu_of g ts h) = g" "aidu_stamp (aidu_of g ts h) = ts" "aidu_hex (aidu_of g ts h) = h"
    "aidu_raw (aidu_of g ts h) = aidu_of g ts h" "aidu_idx (aidu_of g ts h) = 0"
proof -
  note b = aidu_of_def aidu_pack0 [OF assms] aidu_masks(1,3,4) bit_simps bit_type_G
  have t: "bit (aidu_of g ts h) 44 = g" using bit_small_nat [OF assms, of 44] by (auto simp: b dest: bit_imp_le_length)
  show "aidu_type (aidu_of g ts h) = g" using t by (simp add: aidu_type_iff)
  show "aidu_stamp (aidu_of g ts h) = ts"
    unfolding aidu_stamp_def by (rule bit_word_eqI) (auto simp: b dest: bit_small_nat [OF assms])
  have "aidu_of g ts h AND mask 12 = word_of_nat h"
    by (rule bit_word_eqI) (auto simp: b dest: bit_small_nat [OF assms])
  then show "aidu_hex (aidu_of g ts h) = h" using assms
    by (simp add: aidu_hex_def aidu_masks(3) unat_of_nat)
  show "aidu_raw (aidu_of g ts h) = aidu_of g ts h"
    unfolding aidu_raw_def by (rule bit_word_eqI) (auto simp: b dest: bit_small_nat [OF assms] bit_imp_le_length)
  have "drop_bit 45 (aidu_of g ts h) = 0"
    by (rule bit_word_eqI) (auto simp: b dest: bit_small_nat [OF assms] bit_imp_le_length)
  then show "aidu_idx (aidu_of g ts h) = 0" by (simp add: aidu_idx_def)
qed

lemma aidu_of_raw: "aidu_of (aidu_type a) (aidu_stamp a) (aidu_hex a) = aidu_raw a"
proof (rule bit_word_eqI)
  fix n assume "n < LENGTH(64)"
  have h: "word_of_nat (aidu_hex a) = a AND mask 12" by (simp add: aidu_hex_def aidu_masks(3))
  show "bit (aidu_of (aidu_type a) (aidu_stamp a) (aidu_hex a)) n \<longleftrightarrow> bit (aidu_raw a) n"
    unfolding aidu_of_def aidu_pack0 [OF aidu_hex_less] h aidu_type_iff aidu_raw_def aidu_stamp_def aidu_masks(1,3,4)
    using \<open>n < LENGTH(64)\<close>
    by (cases "n < 12"; cases "n < 44"; cases "n = 44") (auto simp: bit_simps bit_type_G)
qed

lemma fn2aidu_std: "h < 4096 \<Longrightarrow> 0 < sint ts \<Longrightarrow> fn2aidu (std_name g ts h) = aidu_of g ts h"
proof -
  assume h: "h < 4096" "0 < sint ts"
  have "46 \<notin> set (fmt_u ts)" using fmt_u_chars by blast
  then have "strstr (fmt_u ts @ [46, 65] @ 46 # fmt_03X h) [46, 65] = Some (length (fmt_u ts))"
    by (intro strstr_skip) auto
  then have s: "strstr (drop 2 (std_name g ts h)) [46, 65] = Some (length (fmt_u ts))" by (simp add: std_name_def)
  have "drop (2 + length (fmt_u ts)) (std_name g ts h) = [46, 65, 46] @ fmt_03X h" by (simp add: std_name_def)
  then have d: "nth0 (drop (2 + length (fmt_u ts)) (std_name g ts h)) 2 = 46" by (simp add: nth0_def)
  have n: "nth0 (std_name g ts h) 1 = 46" "hd0 (std_name g ts h) = (if g then 71 else 77)"
    by (simp_all add: std_name_def)
  show ?thesis unfolding fn2aidu_def Let_def std_name_ts std_name_hex [OF h(1)] s option.case d n
    using h(2) by (simp add: aidu_of_def)
qed

lemma aidu2fn_std: "0 \<le> sint (aidu_stamp a) \<Longrightarrow> aidu2fn a = std_name (aidu_type a) (aidu_stamp a) (aidu_hex a)"
proof -
  assume "0 \<le> sint (aidu_stamp a)"
  then have d: "fmt_d (ucast (drop_bit 12 a AND 0xffffffff)) = fmt_u (aidu_stamp a)"
    by (simp add: fmt_d_pos flip: aidu_stamp_def)
  have "length (std_name (aidu_type a) (aidu_stamp a) (aidu_hex a)) \<le> FNLEN - 1"
    using fmt_u_length [of "aidu_stamp a"] fmt_03X_length [OF aidu_hex_less [of a]]
    by (simp add: std_name_def FNLEN_def)
  then show ?thesis by (simp add: aidu2fn_def strlcpy_def d std_name_def flip: aidu_hex_def)
qed

section \<open>Properties\<close>

text \<open>C34.
  The eight characters of the printed form give back the id without its hint, the file
  name of an article gives back its id, and the id without its hint names the same
  file, for every time stamp below \<open>2 ^ 31\<close>.
\<close>

theorem aid_roundtrip:
  assumes "0 < sint (aidu_stamp a)"
  shows "aidc2aidu (aidu2aidc a) = aidu_raw a \<and> fn2aidu (aidu2fn a) = aidu_raw a \<and>
    aidu2fn (aidu_raw a) = aidu2fn a"
proof -
  note f = aidu_of_fields [OF aidu_hex_less, of "aidu_type a" "aidu_stamp a" a, unfolded aidu_of_raw]
  have "fn2aidu (aidu2fn a) = aidu_raw a"
    using fn2aidu_std [OF aidu_hex_less assms] aidu2fn_std [of a] assms by (simp add: aidu_of_raw)
  moreover have "aidu2fn (aidu_raw a) = aidu2fn a"
    using aidu2fn_std [of a] aidu2fn_std [of "aidu_raw a"] assms by (simp add: f)
  ultimately show ?thesis using aidc_roundtrip by blast
qed

theorem aid_roundtrip_witness:
  "aidc2aidu (aidu2aidc 0x45F3C1A01EA) = aidu_raw 0x45F3C1A01EA \<and> fn2aidu (aidu2fn 0x45F3C1A01EA) = aidu_raw 0x45F3C1A01EA \<and>
    aidu2fn (aidu_raw 0x45F3C1A01EA) = aidu2fn 0x45F3C1A01EA"
  by (rule aid_roundtrip) (simp add: aidu_stamp_def sint_uint signed_take_bit_def drop_bit_eq_div)

text \<open>C23.
  Looking an article up by its id returns a record that matches the id, and 0 only if
  no record of the directory does, whatever the index hint is and whatever the search service
  answers, unless it says itself that there is none.
\<close>

theorem search_dir_by_aidu_correct:
  assumes "aidu_raw a \<noteq> 0" "svc \<noteq> 0 \<or> aidu_idx a \<noteq> 0"
    "if aidu_type a then strstr direct [46, 68, 73, 82] = None
     else strstr direct [46, 78, 97, 109, 101, 115] = None \<and> strstr direct [109, 97, 110, 100, 101, 120] = None"
  shows "search_ok (aidu_match a required_mode) recs (search_dir_by_aidu svc direct (Some recs) a required_mode)"
proof (cases "recs = []")
  case True
  then show ?thesis by (simp add: search_dir_by_aidu_def search_ok_def hit_def)
next
  case False
  let ?found = "search_dir_by_aidu_fd recs (int (length recs)) a required_mode"
  have "search_ok (aidu_match a required_mode) recs ?found"
    using assms(1) search_unbounded_ok
    unfolding search_dir_by_aidu_fd_def search_dir_by_aidu_fd_bounded_def aidu_match_def search_dir_by_stamp_fd_def
    by simp
  moreover have "search_ok (aidu_match a required_mode) recs svc"
    if "svc > 0" "svc \<le> int (length recs)" "aidu_match a required_mode (recs ! nat (svc - 1))"
    using that by (intro search_ok_hit) (simp add: hit_def)
  ultimately show ?thesis using assms False
    by (auto simp: search_dir_by_aidu_def Let_def split: if_splits)
qed

theorem search_dir_by_aidu_correct_witness:
  "search_ok (aidu_match 0x1001 0) [] (search_dir_by_aidu (-1) [100] (Some []) 0x1001 0)"
  by (rule search_dir_by_aidu_correct)
    (simp_all add: aidu_raw_def AIDU_RAW_MASK_def aidu_type_def AIDU_TYPE_G_def)

text \<open>
  The bounded search, which never scans the whole directory, is complete when the time
  stamps go back over at most \<open>B\<close> records and the records with the time looked for are
  at most \<open>B + 127\<close> records apart.
\<close>

lemma search_dir_bounded_correct:
  assumes "backtrack (\<lambda>fh. sint (get_fhdr_stamp_ts (filename fh))) recs B"
    "same_time_near (\<lambda>fh. sint (get_fhdr_stamp_ts (filename fh))) recs (sint ts) (B + 127)"
    "0 \<le> B" "B < 2 ^ 29"
  shows "search_ok (match_fhdr_stamp_hex prefix_ch ts hex allow_prefix required_mode) recs
    (search_dir_by_stamp_fd_bounded recs (int (length recs)) hint prefix_ch ts hex allow_prefix required_mode B)"
  using assms by (rule search_bounded_ok)

text \<open>A directory of \<open>n + 1\<close> articles of one second, the first with another suffix.\<close>

definition named :: "nat \<Rightarrow> fileheader" where
  "named h = \<lparr>filename = std_name False 1 h, modified = 0, score = 0, owner = [], date = [], title = [], multi = 0,
     filemode = 0, comments = 0\<rparr>"

definition demo_dir :: "nat \<Rightarrow> fileheader list" where "demo_dir n = named 1 # replicate n (named 2)"

lemma named_ts: "get_fhdr_stamp_ts (filename (named h)) = 1"
  by (simp add: named_def std_name_ts)

lemma named_hex: "h < 4096 \<Longrightarrow> get_fhdr_stamp_hex (filename (named h)) = h"
  by (simp add: named_def std_name_hex)

lemma demo_dir_ts: "r \<in> set (demo_dir n) \<Longrightarrow> sint (get_fhdr_stamp_ts (filename r)) = 1"
  by (auto simp: demo_dir_def named_ts)

lemma hit_set: "1 \<le> i \<Longrightarrow> i \<le> int (length recs) \<Longrightarrow> recs ! nat (i - 1) \<in> set recs"
  by (intro nth_mem) linarith

lemma demo_dir_backtrack: "backtrack (\<lambda>fh. sint (get_fhdr_stamp_ts (filename fh))) (demo_dir n) 0"
  unfolding backtrack_def
proof (intro allI impI, goal_cases)
  case (1 i j)
  then have "demo_dir n ! nat (j - 1) \<in> set (demo_dir n)" "demo_dir n ! nat (i - 1) \<in> set (demo_dir n)"
    by (auto intro!: hit_set)
  from demo_dir_ts [OF this(1)] demo_dir_ts [OF this(2)] show ?case using 1 by simp
qed

text \<open>
  The bounded search can miss an article that is there: in a directory without any
  step back in time, where more articles than the window holds have the same second, it
  looks at the records around the middle only.
\<close>

lemma search_dir_bounded_misses:
  "\<exists>recs. backtrack (\<lambda>fh. sint (get_fhdr_stamp_ts (filename fh))) recs 0 \<and>
    hit (match_fhdr_stamp_hex 77 1 1 False 0) recs 1 \<and>
    search_dir_by_stamp_fd_bounded recs (int (length recs)) 0 77 1 1 False 0 0 = 0"
proof -
  let ?P = "match_fhdr_stamp_hex 77 1 1 False 0" and ?r = "demo_dir 599"
  let ?ts = "\<lambda>fh. sint (get_fhdr_stamp_ts (filename fh))"
  have n: "hd0 (filename (named h)) = 77" for h by (simp add: named_def std_name_def)
  have P: "?P (named 1)" "\<not> ?P (named 2)" by (simp_all add: match_fhdr_stamp_hex_def n named_ts named_hex)
  have len: "int (length ?r) = 600" by (simp add: demo_dir_def)
  have at: "?r ! i = named 2" if "1 \<le> i" "i < 600" for i
    using that by (auto simp: demo_dir_def nth_Cons' )
  have "pread_recs ?r 300 1 = [named 2]" using pread_one [of 300 ?r] len at [of 299] by simp
  then have mid: "stamp_bsearch ?ts ?r (sint (1 :: u32)) 1 600 1 = 300"
    by (subst stamp_bsearch.simps) (simp add: Let_def named_ts)
  have win: "win_bounds 600 300 0 = (172, 256)"
    by (simp add: win_bounds_def BSEARCH_WIN_def to_int_def signed_take_bit_def Let_def)
  have "chunk_loop ?P ?r 172 (172 + 256 - 1) = None"
  proof (cases "chunk_loop ?P ?r 172 (172 + 256 - 1)")
    case (Some i)
    then have "172 \<le> i" "i \<le> 427" "hit ?P ?r i"
      using chunk_loop_spec [of 172 427 ?r ?P] len by (auto simp: found_in_def)
    moreover from this have "?r ! nat (i - 1) = named 2" by (intro at) linarith+
    ultimately show ?thesis using P(2) by (simp add: hit_def)
  qed
  then have "search_dir_by_stamp_fd_bounded ?r (int (length ?r)) 0 77 1 1 False 0 0 = 0"
    unfolding search_dir_by_stamp_fd_bounded_def len Let_def mid win
    by (simp add: search_hint_def search_window_def BSEARCH_WIN_def)
  moreover have "hit ?P ?r 1" using P(1) by (simp add: hit_def demo_dir_def)
  ultimately show ?thesis using demo_dir_backtrack by blast
qed

end
