(* ===== verification/Fav.thy ===== *)
theory Fav
  imports Clib "HOL-Library.Multiset"
begin

text \<open>
  The favourites of a user, \<open>src/mbbsd/fav.c\<close> and \<open>src/include/fav.h\<close>: a tree of folders
  that hold boards, lines and folders.  An entry is removed by clearing its \<open>FAVH_FAV\<close>
  flag; \<open>rebuild_fav\<close> drops such entries later.

  A \<open>fav_t\<close> is a node of the tree with its address, so that the stack of open folders
  can be the list of the addresses it holds; the array \<open>favh\<close> is the list of its
  first \<open>DataTail\<close> entries, fewer than $2^{15}$ of them.  Counters keep the width they have in C.  The file and the sessions are
  in the theory \<open>FavFile\<close>.  The board cache and the terminal are not part of the model.

  The theory shows that the counters of every folder agree with its entries after every
  operation, that a board is entered once per folder, and what \<open>rebuild_fav\<close> and a move keep.
\<close>

section \<open>Data\<close>

definition FAVH_FAV :: byte where "FAVH_FAV = 1"
definition FAVH_TAG :: byte where "FAVH_TAG = 2"
definition FAVH_ADM_TAG :: byte where "FAVH_ADM_TAG = 8"

definition FAV_PRE_ALLOC :: int where "FAV_PRE_ALLOC = 8"
definition FAV_MAXDEPTH :: nat where "FAV_MAXDEPTH = 5"
definition MAX_FAV :: int where "MAX_FAV = 1024"
definition MAX_LINE :: int where "MAX_LINE = 64"
definition MAX_FOLDER :: int where "MAX_FOLDER = 64"
definition FAV_VERSION :: nat where "FAV_VERSION = 3363"
definition TITLE_SIZE :: nat where "TITLE_SIZE = 49"

datatype fav_item =
    FBoard (fb_attr: byte) (fb_bid: u32) (fb_lastvisit: u32) (fb_battr: byte) (fb_pad: "byte list")
  | FLine (fl_attr: byte) (fl_lid: byte)
  | FFolder (ff_attr: byte) (ff_fid: byte) (ff_title: "byte list") (ff_this: fav)
and fav =
    Fav (fv_addr: nat) (nAllocs: u16) (nBoards: u16) (nLines: byte) (nFolders: byte)
      (lineID: byte) (folderID: byte) (favh: "fav_item list")

datatype fav_kind = FAVT_BOARD | FAVT_FOLDER | FAVT_LINE

fun get_item_type :: "fav_item \<Rightarrow> fav_kind" where
  "get_item_type (FBoard _ _ _ _ _) = FAVT_BOARD"
| "get_item_type (FLine _ _) = FAVT_LINE"
| "get_item_type (FFolder _ _ _ _) = FAVT_FOLDER"

fun attr_of :: "fav_item \<Rightarrow> byte" where
  "attr_of (FBoard a _ _ _ _) = a"
| "attr_of (FLine a _) = a"
| "attr_of (FFolder a _ _ _) = a"

fun put_attr :: "byte \<Rightarrow> fav_item \<Rightarrow> fav_item" where
  "put_attr a (FBoard _ b v ba p) = FBoard a b v ba p"
| "put_attr a (FLine _ l) = FLine a l"
| "put_attr a (FFolder _ f t s) = FFolder a f t s"

datatype attr_cmd = FALSE | TRUE | EXCH

definition set_attr :: "byte \<Rightarrow> attr_cmd \<Rightarrow> fav_item \<Rightarrow> fav_item" where
  "set_attr bits cmd ft =
     put_attr (case cmd of
         EXCH \<Rightarrow> attr_of ft XOR bits
       | TRUE \<Rightarrow> attr_of ft OR bits
       | FALSE \<Rightarrow> attr_of ft AND NOT bits) ft"

definition is_set_attr :: "fav_item \<Rightarrow> byte \<Rightarrow> bool" where
  "is_set_attr ft bits \<longleftrightarrow> attr_of ft AND bits \<noteq> 0"

definition valid_item :: "fav_item \<Rightarrow> bool" where "valid_item ft \<longleftrightarrow> is_set_attr ft FAVH_FAV"

text \<open>\<open>get_data_number\<close>, and \<open>DataTail\<close>.\<close>

definition get_data_number :: "fav \<Rightarrow> int" where
  "get_data_number fp = sint (nBoards fp) + sint (nLines fp) + sint (nFolders fp)"

definition DataTail :: "fav \<Rightarrow> nat" where "DataTail fp = length (favh fp)"

fun fav_getid :: "fav_item \<Rightarrow> int" where
  "fav_getid (FFolder _ f _ _) = sint f"
| "fav_getid (FLine _ l) = sint l"
| "fav_getid (FBoard _ b _ _ _) = sint b"

text \<open>
  The global variables: \<open>fav_stack[0]\<close> is the root, \<open>fav_stack\<close> the addresses from
  the bottom up; \<open>fs_next\<close> is the next address \<open>malloc\<close> returns.
\<close>

record fav_state =
  fs_root :: "fav option"
  fav_stack :: "nat list"
  fav_number :: int
  fs_dirty :: bool
  fs_next :: nat

section \<open>Finding and updating a folder\<close>

fun find_fav :: "nat \<Rightarrow> fav \<Rightarrow> fav option" and find_items :: "nat \<Rightarrow> fav_item list \<Rightarrow> fav option" where
  "find_fav a (Fav b al nb nl nf li fi its) =
     (if a = b then Some (Fav b al nb nl nf li fi its) else find_items a its)"
| "find_items a [] = None"
| "find_items a (it # its) =
     (case it of
        FFolder _ _ _ s \<Rightarrow> (case find_fav a s of Some f \<Rightarrow> Some f | None \<Rightarrow> find_items a its)
      | _ \<Rightarrow> find_items a its)"

fun upd_fav :: "nat \<Rightarrow> (fav \<Rightarrow> fav) \<Rightarrow> fav \<Rightarrow> fav" and upd_items :: "nat \<Rightarrow> (fav \<Rightarrow> fav) \<Rightarrow> fav_item list \<Rightarrow> fav_item list" where
  "upd_fav a g (Fav b al nb nl nf li fi its) =
     (if a = b then g (Fav b al nb nl nf li fi its) else Fav b al nb nl nf li fi (upd_items a g its))"
| "upd_items a g [] = []"
| "upd_items a g (it # its) =
     (case it of FFolder x f t s \<Rightarrow> FFolder x f t (upd_fav a g s) | _ \<Rightarrow> it) # upd_items a g its"

definition get_fav_root :: "fav_state \<Rightarrow> fav option" where "get_fav_root s = fs_root s"

definition get_current_fav :: "fav_state \<Rightarrow> fav option" where
  "get_current_fav s =
     (if fav_stack s = [] then None else Option.bind (fs_root s) (find_fav (last (fav_stack s))))"

definition upd_current :: "(fav \<Rightarrow> fav) \<Rightarrow> fav_state \<Rightarrow> fav_state" where
  "upd_current g s = s\<lparr>fs_root := map_option (upd_fav (last (fav_stack s)) g) (fs_root s)\<rparr>"

section \<open>Counting\<close>

definition fav_decrease :: "fav_item \<Rightarrow> fav \<Rightarrow> fav" where
  "fav_decrease ft fp =
     (case get_item_type ft of
        FAVT_BOARD \<Rightarrow> Fav (fv_addr fp) (nAllocs fp) (nBoards fp - 1) (nLines fp) (nFolders fp) (lineID fp) (folderID fp) (favh fp)
      | FAVT_LINE \<Rightarrow> Fav (fv_addr fp) (nAllocs fp) (nBoards fp) (nLines fp - 1) (nFolders fp) (lineID fp) (folderID fp) (favh fp)
      | FAVT_FOLDER \<Rightarrow> Fav (fv_addr fp) (nAllocs fp) (nBoards fp) (nLines fp) (nFolders fp - 1) (lineID fp) (folderID fp) (favh fp))"

text \<open>
  \<open>fav_increase\<close> for the entry that is stored at \<open>favh[DataTail]\<close>, which the model appends:
  a line or folder gets the next id.
\<close>

definition fav_increase :: "fav_item \<Rightarrow> fav \<Rightarrow> fav" where
  "fav_increase ft fp =
     (case ft of
        FLine a _ \<Rightarrow> Fav (fv_addr fp) (nAllocs fp) (nBoards fp) (nLines fp + 1) (nFolders fp) (lineID fp + 1) (folderID fp)
          (favh fp @ [FLine a (lineID fp + 1)])
      | FFolder a _ t s \<Rightarrow> Fav (fv_addr fp) (nAllocs fp) (nBoards fp) (nLines fp) (nFolders fp + 1) (lineID fp) (folderID fp + 1)
          (favh fp @ [FFolder a (folderID fp + 1) t s])
      | FBoard a b v ba p \<Rightarrow> Fav (fv_addr fp) (nAllocs fp) (nBoards fp + 1) (nLines fp) (nFolders fp) (lineID fp) (folderID fp)
          (favh fp @ [ft]))"

section \<open>Dropping removed entries\<close>

fun is_need_rebuild_fav :: "fav \<Rightarrow> bool" and need_rebuild_items :: "fav_item list \<Rightarrow> bool" where
  "is_need_rebuild_fav (Fav b al nb nl nf li fi its) = need_rebuild_items its"
| "need_rebuild_items [] = False"
| "need_rebuild_items (it # its) =
     (if \<not> valid_item it then True
      else (case it of FFolder _ _ _ s \<Rightarrow> is_need_rebuild_fav s | _ \<Rightarrow> False) \<or> need_rebuild_items its)"

text \<open>
  \<open>rebuild_fav\<close>: the folder afterwards and the change of \<open>fav_number\<close>.  The counters start
  again at 0, and \<open>fav_increase\<close> counts the entries that stay; \<open>DataTail\<close> is set from them in the end.
\<close>

definition put_items :: "fav_item list \<Rightarrow> fav \<Rightarrow> fav" where
  "put_items its fp = Fav (fv_addr fp) (nAllocs fp) (nBoards fp) (nLines fp) (nFolders fp) (lineID fp) (folderID fp) its"

definition cut_tail :: "fav \<Rightarrow> fav" where
  "cut_tail fp = put_items (take (nat (get_data_number fp)) (favh fp)) fp"

fun rebuild_fav :: "fav \<Rightarrow> fav \<times> int" and rebuild_items :: "fav_item list \<Rightarrow> fav \<Rightarrow> int \<Rightarrow> fav \<times> int" where
  "rebuild_fav (Fav b al nb nl nf li fi its) =
     apfst cut_tail (rebuild_items its (Fav b al 0 0 0 0 0 []) (- get_data_number (Fav b al nb nl nf li fi its)))"
| "rebuild_items [] fp n = (fp, n)"
| "rebuild_items (it # its) fp n =
     (if \<not> valid_item it then rebuild_items its fp n
      else case it of
        FFolder a f t s \<Rightarrow>
          (case rebuild_fav s of (s', d) \<Rightarrow> rebuild_items its (fav_increase (FFolder a f t s') fp) (n + d + 1))
      | _ \<Rightarrow> rebuild_items its (fav_increase it fp) (n + 1))"

text \<open>\<open>fav_cleanup\<close>, called when there is a root.\<close>

definition fav_cleanup :: "fav_state \<Rightarrow> fav_state" where
  "fav_cleanup s =
     (case fs_root s of
        None \<Rightarrow> s
      | Some r \<Rightarrow>
          if is_need_rebuild_fav r
          then s\<lparr>fs_root := Some (fst (rebuild_fav r)), fav_number := fav_number s + snd (rebuild_fav r),
            fs_dirty := (fs_dirty s \<or> favh (fst (rebuild_fav r)) \<noteq> [])\<rparr>
          else s)"

section \<open>The stack\<close>

definition fav_stack_full :: "fav_state \<Rightarrow> bool" where "fav_stack_full s \<longleftrightarrow> length (fav_stack s) \<ge> FAV_MAXDEPTH"

definition fav_stack_push_fav :: "fav \<Rightarrow> fav_state \<Rightarrow> int \<times> fav_state" where
  "fav_stack_push_fav fp s =
     (if fav_stack_full s then (-1, s) else (0, s\<lparr>fav_stack := fav_stack s @ [fv_addr fp]\<rparr>))"

text \<open>The root is \<open>fav_stack[0]\<close>: once it is popped, there is none.\<close>

definition fav_stack_pop :: "fav_state \<Rightarrow> fav_state" where
  "fav_stack_pop s =
     s\<lparr>fav_stack := butlast (fav_stack s), fs_root := (if length (fav_stack s) \<le> 1 then None else fs_root s)\<rparr>"

text \<open>\<open>get_fav_item\<close>: the index of the first entry of the type with the id.\<close>

fun item_index :: "fav_kind \<Rightarrow> int \<Rightarrow> fav_item list \<Rightarrow> nat option" where
  "item_index k i [] = None"
| "item_index k i (ft # its) =
     (if valid_item ft \<and> get_item_type ft = k \<and> fav_getid ft = i then Some 0
      else map_option Suc (item_index k i its))"

definition get_fav_item :: "int \<Rightarrow> fav_kind \<Rightarrow> fav_state \<Rightarrow> nat option" where
  "get_fav_item i k s = Option.bind (get_current_fav s) (\<lambda>fp. item_index k i (favh fp))"

definition fav_folder_in :: "int \<Rightarrow> fav_state \<Rightarrow> int \<times> fav_state" where
  "fav_folder_in fid s =
     (case get_current_fav s of
        None \<Rightarrow> (-1, s)
      | Some fp \<Rightarrow>
          (case item_index FAVT_FOLDER fid (favh fp) of
             None \<Rightarrow> (-1, s)
           | Some i \<Rightarrow> (case favh fp ! i of FFolder _ _ _ sub \<Rightarrow> fav_stack_push_fav sub s | _ \<Rightarrow> (-1, s))))"

definition fav_folder_out :: "fav_state \<Rightarrow> fav_state" where "fav_folder_out s = fav_stack_pop s"

section \<open>Removing\<close>

text \<open>\<open>fav_remove(fp, &fp->favh[i])\<close>; every flag is cleared.\<close>

definition fav_remove_at :: "nat \<Rightarrow> fav \<Rightarrow> fav" where
  "fav_remove_at i fp =
     fav_decrease (favh fp ! i) (put_items ((favh fp)[i := put_attr 0 (favh fp ! i)]) fp)"

definition fav_remove_item :: "int \<Rightarrow> fav_kind \<Rightarrow> fav_state \<Rightarrow> fav_state" where
  "fav_remove_item i k s =
     (case get_fav_item i k s of
        None \<Rightarrow> s
      | Some j \<Rightarrow> (upd_current (fav_remove_at j) s)\<lparr>fav_number := fav_number s - 1, fs_dirty := True\<rparr>)"

section \<open>Adding\<close>

definition is_maxsize :: "fav_state \<Rightarrow> bool" where "is_maxsize s \<longleftrightarrow> fav_number s \<ge> MAX_FAV"

definition enlarge_if_full :: "fav \<Rightarrow> fav" where
  "enlarge_if_full fp =
     (if int (DataTail fp) < sint (nAllocs fp) then fp
      else Fav (fv_addr fp) (nAllocs fp + word_of_int FAV_PRE_ALLOC) (nBoards fp) (nLines fp) (nFolders fp)
        (lineID fp) (folderID fp) (favh fp))"

definition needs_realloc :: "fav_state \<Rightarrow> bool" where
  "needs_realloc s = (case get_current_fav s of None \<Rightarrow> False | Some fp \<Rightarrow> \<not> int (DataTail fp) < sint (nAllocs fp))"

text \<open>
  \<open>fav_preappend\<close> of an entry with the flag \<open>FAVH_FAV\<close> to the current folder; \<open>False\<close> is \<open>NULL\<close>.  Whether
  \<open>realloc\<close> succeeds, should it be called, is \<open>mem\<close>.
\<close>

definition fav_preappend :: "bool \<Rightarrow> fav_item \<Rightarrow> fav_state \<Rightarrow> bool \<times> fav_state" where
  "fav_preappend mem item s =
     (if is_maxsize s \<or> needs_realloc s \<and> \<not> mem then (False, s)
      else (True, (upd_current (fav_increase item \<circ> enlarge_if_full) s)
        \<lparr>fav_number := fav_number s + 1, fs_dirty := True\<rparr>))"

definition alloc_folder_item :: "nat \<Rightarrow> fav" where
  "alloc_folder_item a = Fav a (word_of_int FAV_PRE_ALLOC) 0 0 0 0 0 []"

definition fav_add_line :: "bool \<Rightarrow> fav_state \<Rightarrow> bool \<times> fav_state" where
  "fav_add_line mem s =
     (case get_current_fav s of
        None \<Rightarrow> (False, s)
      | Some fp \<Rightarrow>
          if is_maxsize s \<or> sint (nLines fp) \<ge> MAX_LINE then (False, s)
          else fav_preappend mem (FLine FAVH_FAV 0) s)"

definition fav_add_folder :: "bool \<Rightarrow> fav_state \<Rightarrow> bool \<times> fav_state" where
  "fav_add_folder mem s =
     (case get_current_fav s of
        None \<Rightarrow> (False, s)
      | Some fp \<Rightarrow>
          if is_maxsize s \<or> fav_stack_full s \<or> sint (nFolders fp) \<ge> MAX_FOLDER then (False, s)
          else fav_preappend mem (FFolder FAVH_FAV 0 (replicate TITLE_SIZE 0) (alloc_folder_item (fs_next s)))
            (s\<lparr>fs_next := fs_next s + 1\<rparr>))"

text \<open>\<open>fav_add_board\<close>; \<^const>\<open>None\<close> is the failed assertion on the board number.\<close>

definition fav_add_board :: "bool \<Rightarrow> int \<Rightarrow> fav_state \<Rightarrow> (bool \<times> fav_state) option" where
  "fav_add_board mem bid s =
     (if \<not> (0 \<le> bid - 1 \<and> bid - 1 < MAX_BOARD) then None
      else case get_current_fav s of
        None \<Rightarrow> Some (False, s)
      | Some fp \<Rightarrow>
          if item_index FAVT_BOARD bid (favh fp) \<noteq> None then Some (True, s)
          else if is_maxsize s then Some (False, s)
          else Some (fav_preappend mem (FBoard FAVH_FAV (word_of_int bid) 0 0 [0, 0, 0]) s))"

text \<open>
  \<open>fav_add_admtag\<close>: an entry of the root that is counted and then loses \<open>FAVH_FAV\<close>; \<^const>\<open>None\<close> is the
  access through a null pointer, without a root or when \<open>realloc\<close> is called and fails.
\<close>

definition fav_add_admtag :: "bool \<Rightarrow> int \<Rightarrow> fav_state \<Rightarrow> (bool \<times> fav_state) option" where
  "fav_add_admtag mem bid s =
     (if is_maxsize s then Some (False, s)
      else case fs_root s of
        None \<Rightarrow> None
      | Some r \<Rightarrow>
          if \<not> mem \<and> \<not> int (DataTail r) < sint (nAllocs r) then None
          else Some (True, s\<lparr>fs_root := Some (fav_increase (FBoard FAVH_ADM_TAG (word_of_int bid) 0 0 [0, 0, 0]) (enlarge_if_full r)),
             fav_number := fav_number s + 1, fs_dirty := True\<rparr>))"

section \<open>Sorting\<close>

text \<open>The titles and classes of boards come from the board cache: \<open>name\<close> and \<open>class\<close> by number.\<close>

definition cache_str :: "(int \<Rightarrow> cstr) \<Rightarrow> u32 \<Rightarrow> cstr" where
  "cache_str strs b = (if sint b < 1 \<or> sint b > MAX_BOARD then [] else strs (sint b))"

fun get_item_title :: "(int \<Rightarrow> cstr) \<Rightarrow> fav_item \<Rightarrow> cstr" where
  "get_item_title name (FBoard _ b _ _ _) = cache_str name b"
| "get_item_title name (FFolder _ _ t _) = takeWhile (\<lambda>c. c \<noteq> 0) t"
| "get_item_title name (FLine _ _) = [45, 45, 45, 45]"

fun get_item_class :: "(int \<Rightarrow> cstr) \<Rightarrow> fav_item \<Rightarrow> cstr" where
  "get_item_class cls (FBoard _ b _ _ _) = cache_str cls b"
| "get_item_class cls (FFolder _ _ _ _) = [0xA5, 0xD8, 0xBF, 0xFD]"
| "get_item_class cls (FLine _ _) = [45, 45, 45, 45]"

definition favcmp_by_name :: "(int \<Rightarrow> cstr) \<Rightarrow> fav_item \<Rightarrow> fav_item \<Rightarrow> int" where
  "favcmp_by_name name a b = strcasecmp (get_item_title name a) (get_item_title name b)"

definition favcmp_by_class :: "(int \<Rightarrow> cstr) \<Rightarrow> (int \<Rightarrow> cstr) \<Rightarrow> fav_item \<Rightarrow> fav_item \<Rightarrow> int" where
  "favcmp_by_class name cls f1 f2 =
     (if get_item_type f1 = FAVT_FOLDER then -1
      else if get_item_type f2 = FAVT_FOLDER then 1
      else if get_item_type f1 = FAVT_LINE then 1
      else if get_item_type f2 = FAVT_LINE then -1
      else let cmp = strcasecmp (get_item_class cls f1) (get_item_class cls f2) in
        if cmp \<noteq> 0 then cmp else strcasecmp (get_item_title name f1) (get_item_title name f2))"

text \<open>What both sorts do with the current folder; \<open>qs\<close> is \<open>qsort\<close> with the comparison.\<close>

definition sort_current :: "(fav_item list \<Rightarrow> fav_item list) \<Rightarrow> fav_state \<Rightarrow> fav_state" where
  "sort_current qs s =
     (case get_current_fav s of
        None \<Rightarrow> s
      | Some fp \<Rightarrow>
          (upd_current (\<lambda>fp. put_items (qs (favh (fst (rebuild_fav fp)))) (fst (rebuild_fav fp))) s)
            \<lparr>fav_number := fav_number s + snd (rebuild_fav fp), fs_dirty := True\<rparr>)"

definition fav_sort_by_name ::
    "((fav_item \<Rightarrow> fav_item \<Rightarrow> int) \<Rightarrow> fav_item list \<Rightarrow> fav_item list) \<Rightarrow> (int \<Rightarrow> cstr) \<Rightarrow> fav_state \<Rightarrow> fav_state" where
  "fav_sort_by_name qsort name = sort_current (qsort (favcmp_by_name name))"

definition fav_sort_by_class ::
    "((fav_item \<Rightarrow> fav_item \<Rightarrow> int) \<Rightarrow> fav_item list \<Rightarrow> fav_item list) \<Rightarrow> (int \<Rightarrow> cstr) \<Rightarrow> (int \<Rightarrow> cstr) \<Rightarrow> fav_state \<Rightarrow> fav_state" where
  "fav_sort_by_class qsort name cls = sort_current (qsort (favcmp_by_class name cls))"

section \<open>Moving an entry\<close>

text \<open>The index of the visible entry number \<open>n\<close>, counting valid entries from 0.\<close>

fun visible_index :: "nat \<Rightarrow> fav_item list \<Rightarrow> nat option" where
  "visible_index n [] = None"
| "visible_index n (it # its) =
     (if valid_item it then if n = 0 then Some 0 else map_option Suc (visible_index (n - 1) its)
      else map_option Suc (visible_index n its))"

text \<open>The shift of the entries between \<open>src\<close> and \<open>dst\<close>.\<close>

definition move_items :: "nat \<Rightarrow> nat \<Rightarrow> 'a list \<Rightarrow> 'a list" where
  "move_items src dst xs =
     (if src < dst then take src xs @ drop (Suc src) (take (Suc dst) xs) @ [xs ! src] @ drop (Suc dst) xs
      else take dst xs @ [xs ! src] @ drop dst (take src xs) @ drop (Suc src) xs)"

definition move_pos :: "nat \<Rightarrow> fav \<Rightarrow> nat" where
  "move_pos n fp = (if n \<ge> DataTail fp then nat (get_data_number fp) else n)"

definition move_in_folder :: "nat \<Rightarrow> nat \<Rightarrow> fav \<Rightarrow> fav" where
  "move_in_folder from to fp =
     (if move_pos from fp = move_pos to fp then fp
      else case (visible_index (move_pos from fp) (favh fp), visible_index (move_pos to fp) (favh fp)) of
        (Some i, Some j) \<Rightarrow> put_items (move_items i j (favh fp)) fp
      | _ \<Rightarrow> fp)"

definition move_in_current_folder :: "nat \<Rightarrow> nat \<Rightarrow> fav_state \<Rightarrow> fav_state" where
  "move_in_current_folder from to s =
     (case get_current_fav s of
        None \<Rightarrow> s
      | Some fp \<Rightarrow>
          (upd_current (move_in_folder from to) s)\<lparr>fs_dirty := (fs_dirty s \<or> move_pos from fp \<noteq> move_pos to fp)\<rparr>)"

section \<open>Tags and titles\<close>

definition fav_tag :: "int \<Rightarrow> fav_kind \<Rightarrow> attr_cmd \<Rightarrow> fav_state \<Rightarrow> fav_state" where
  "fav_tag i k cmd s =
     (case get_fav_item i k s of
        None \<Rightarrow> s
      | Some j \<Rightarrow>
          (upd_current (\<lambda>fp. put_items ((favh fp)[j := set_attr FAVH_TAG cmd (favh fp ! j)]) fp) s)\<lparr>fs_dirty := True\<rparr>)"

text \<open>\<open>fav_set_folder_title\<close> of a folder entry of the current folder.\<close>

definition fav_set_folder_title :: "nat \<Rightarrow> cstr \<Rightarrow> fav_state \<Rightarrow> fav_state" where
  "fav_set_folder_title j str s =
     (case get_current_fav s of
        None \<Rightarrow> s
      | Some fp \<Rightarrow>
          if j < DataTail fp then
            case favh fp ! j of
              FFolder a f t sub \<Rightarrow>
                (upd_current (\<lambda>fp. put_items ((favh fp)
                     [j := FFolder a f (write_at t 0 (strlcpy TITLE_SIZE str @ [0])) sub]) fp) s)\<lparr>fs_dirty := True\<rparr>
            | _ \<Rightarrow> s
          else s)"

text \<open>A valid entry that carries the tag, and whether any does.\<close>

definition tagged :: "fav_item \<Rightarrow> bool" where "tagged ft \<longleftrightarrow> valid_item ft \<and> is_set_attr ft FAVH_TAG"

fun any_tagged :: "fav \<Rightarrow> bool" and any_tagged_items :: "fav_item list \<Rightarrow> bool" where
  "any_tagged (Fav b al nb nl nf li fi its) = any_tagged_items its"
| "any_tagged_items [] = False"
| "any_tagged_items (it # its) =
     (tagged it \<or> valid_item it \<and> (case it of FFolder _ _ _ s \<Rightarrow> any_tagged s | _ \<Rightarrow> False) \<or> any_tagged_items its)"

fun untag_fav :: "fav \<Rightarrow> fav" and untag_items :: "fav_item list \<Rightarrow> fav_item list" where
  "untag_fav (Fav b al nb nl nf li fi its) = Fav b al nb nl nf li fi (untag_items its)"
| "untag_items [] = []"
| "untag_items (it # its) =
     (let it1 = (if valid_item it then case it of FFolder a f t s \<Rightarrow> FFolder a f t (untag_fav s) | _ \<Rightarrow> it else it) in
      (if tagged it then set_attr FAVH_TAG FALSE it1 else it1) # untag_items its)"

definition fav_remove_all_tag :: "fav_state \<Rightarrow> fav_state" where
  "fav_remove_all_tag s =
     (case fs_root s of
        None \<Rightarrow> s
      | Some r \<Rightarrow> s\<lparr>fs_root := Some (untag_fav r), fs_dirty := (fs_dirty s \<or> any_tagged r)\<rparr>)"

text \<open>
  \<open>fav_remove_all_tagged_item\<close>: the entries of the folders below are removed first; a folder on the stack
  only loses its tag.  The entries seen so far are in \<open>fp\<close>, \<open>n\<close> counts the removed ones.
\<close>

fun remove_tagged_fav :: "nat list \<Rightarrow> fav \<Rightarrow> fav \<times> nat"
  and remove_tagged_items :: "nat list \<Rightarrow> fav_item list \<Rightarrow> fav \<Rightarrow> nat \<Rightarrow> fav \<times> nat" where
  "remove_tagged_fav st (Fav b al nb nl nf li fi its) = remove_tagged_items st its (Fav b al nb nl nf li fi []) 0"
| "remove_tagged_items st [] fp n = (fp, n)"
| "remove_tagged_items st (it # its) fp n =
     (let (it1, m) = (case it of
            FFolder a f t s \<Rightarrow>
              if valid_item it then (case remove_tagged_fav st s of (s', m) \<Rightarrow> (FFolder a f t s', m)) else (it, 0)
          | _ \<Rightarrow> (it, 0)) in
      if tagged it then
        if (case it of FFolder _ _ _ s \<Rightarrow> fv_addr s \<in> set st | _ \<Rightarrow> False)
        then remove_tagged_items st its (put_items (favh fp @ [set_attr FAVH_TAG FALSE it1]) fp) (n + m)
        else remove_tagged_items st its (fav_decrease it (put_items (favh fp @ [put_attr 0 it1]) fp)) (n + m + 1)
      else remove_tagged_items st its (put_items (favh fp @ [it1]) fp) (n + m))"

definition fav_remove_all_tagged_item :: "fav_state \<Rightarrow> fav_state" where
  "fav_remove_all_tagged_item s =
     (case fs_root s of
        None \<Rightarrow> s
      | Some r \<Rightarrow>
          (case remove_tagged_fav (fav_stack s) r of
             (r', n) \<Rightarrow> s\<lparr>fs_root := Some r', fav_number := fav_number s - int n, fs_dirty := (fs_dirty s \<or> any_tagged r)\<rparr>))"

section \<open>The invariant\<close>

text \<open>What the counters of a folder depend on: whether an entry is valid, its type and board.\<close>

definition fav_head :: "fav_item \<Rightarrow> bool \<times> fav_kind \<times> u32" where
  "fav_head it = (valid_item it, get_item_type it, case it of FBoard _ b _ _ _ \<Rightarrow> b | _ \<Rightarrow> 0)"

definition cnt :: "fav_kind \<Rightarrow> fav_item list \<Rightarrow> nat" where
  "cnt k its = length (filter (\<lambda>(v, k', _). v \<and> k' = k) (map fav_head its))"

definition board_ids :: "fav_item list \<Rightarrow> u32 list" where
  "board_ids its = map (snd \<circ> snd) (filter (\<lambda>(v, k', _). v \<and> k' = FAVT_BOARD) (map fav_head its))"

definition node_ok :: "fav \<Rightarrow> bool" where
  "node_ok fp \<longleftrightarrow> sint (nBoards fp) = int (cnt FAVT_BOARD (favh fp)) \<and> sint (nLines fp) = int (cnt FAVT_LINE (favh fp)) \<and>
     sint (nFolders fp) = int (cnt FAVT_FOLDER (favh fp)) \<and> distinct (board_ids (favh fp))"

fun tree_ok :: "fav \<Rightarrow> bool" and tree_ok_items :: "fav_item list \<Rightarrow> bool" where
  "tree_ok (Fav b al nb nl nf li fi its) = (node_ok (Fav b al nb nl nf li fi its) \<and> tree_ok_items its)"
| "tree_ok_items [] = True"
| "tree_ok_items (it # its) =
     ((case it of
         FFolder _ _ t s \<Rightarrow> length t = TITLE_SIZE \<and> tree_ok s
       | FBoard _ _ _ _ p \<Rightarrow> length p = 3
       | FLine _ _ \<Rightarrow> True) \<and> tree_ok_items its)"

fun addrs :: "fav \<Rightarrow> nat list" and addrs_items :: "fav_item list \<Rightarrow> nat list" where
  "addrs (Fav b al nb nl nf li fi its) = b # addrs_items its"
| "addrs_items [] = []"
| "addrs_items (it # its) = (case it of FFolder _ _ _ s \<Rightarrow> addrs s | _ \<Rightarrow> []) @ addrs_items its"

text \<open>The number of valid entries in the folder and in all folders below it.\<close>

fun vtotal :: "fav \<Rightarrow> nat" and vtotal_items :: "fav_item list \<Rightarrow> nat" where
  "vtotal (Fav b al nb nl nf li fi its) = vtotal_items its"
| "vtotal_items [] = 0"
| "vtotal_items (it # its) =
     (if valid_item it then 1 else 0) + (case it of FFolder _ _ _ s \<Rightarrow> vtotal s | _ \<Rightarrow> 0) + vtotal_items its"

text \<open>The stack is a path of valid folder entries from the root.\<close>

fun path_ok :: "nat list \<Rightarrow> fav \<Rightarrow> bool" where
  "path_ok [] fp = False"
| "path_ok [a] fp = (fv_addr fp = a)"
| "path_ok (a # b # st) fp =
     (fv_addr fp = a \<and>
      list_ex (\<lambda>it. valid_item it \<and> (case it of FFolder _ _ _ s \<Rightarrow> path_ok (b # st) s | _ \<Rightarrow> False)) (favh fp))"

definition fav_inv :: "fav_state \<Rightarrow> bool" where
  "fav_inv s \<longleftrightarrow>
     (case fs_root s of
        None \<Rightarrow> fav_stack s = []
      | Some r \<Rightarrow> tree_ok r \<and> int (vtotal r) \<le> fav_number s \<and> fav_number s \<le> MAX_FAV \<and>
          distinct (addrs r) \<and> list_all (\<lambda>a. a < fs_next s) (addrs r) \<and>
          path_ok (fav_stack s) r \<and> length (fav_stack s) \<le> FAV_MAXDEPTH)"

section \<open>Lemmas on the tree\<close>

lemma fav_heads_cong:
  "map fav_head its = map fav_head its' \<Longrightarrow> cnt k its = cnt k its' \<and> board_ids its = board_ids its'"
  by (simp add: cnt_def board_ids_def)

lemma upd_items_heads [simp]: "map fav_head (upd_items a g its) = map fav_head its"
  by (induction its) (auto simp: fav_head_def valid_item_def is_set_attr_def split: fav_item.split)

lemma fav_eta: "Fav (fv_addr fp) (nAllocs fp) (nBoards fp) (nLines fp) (nFolders fp) (lineID fp) (folderID fp) (favh fp) = fp"
  by (cases fp) simp

lemma upd_fav_notin:
  "a \<notin> set (addrs r) \<Longrightarrow> upd_fav a g r = r"
  "a \<notin> set (addrs_items its) \<Longrightarrow> upd_items a g its = its"
proof (induction r and its rule: addrs_addrs_items.induct)
  case (3 it its)
  then show ?case by (cases it) auto
qed auto

lemma find_fav_notin:
  "a \<notin> set (addrs r) \<Longrightarrow> find_fav a r = None"
  "a \<notin> set (addrs_items its) \<Longrightarrow> find_items a its = None"
proof (induction r and its rule: addrs_addrs_items.induct)
  case (3 it its)
  then show ?case by (cases it) auto
qed auto

lemma find_fav_in:
  "a \<in> set (addrs r) \<Longrightarrow> \<exists>fp. find_fav a r = Some fp \<and> fv_addr fp = a"
  "a \<in> set (addrs_items its) \<Longrightarrow> \<exists>fp. find_items a its = Some fp \<and> fv_addr fp = a"
proof (induction r and its rule: addrs_addrs_items.induct)
  case (3 it its)
  then show ?case using find_fav_notin by (cases it) (auto split: option.split, fastforce)
qed auto

lemma find_fav_Some:
  "find_fav a r = Some fp \<Longrightarrow> a \<in> set (addrs r) \<and> fv_addr fp = a"
  using find_fav_in(1) [of a r] find_fav_notin(1) [of a r] by fastforce

text \<open>Changing the folder at an address changes the tree there and nowhere else.\<close>

lemma upd_fav_total:
  "distinct (addrs r) \<Longrightarrow> find_fav a r = Some fp \<Longrightarrow>
     int (vtotal (upd_fav a g r)) = int (vtotal r) + int (vtotal (g fp)) - int (vtotal fp)"
  "distinct (addrs_items its) \<Longrightarrow> find_items a its = Some fp \<Longrightarrow>
     int (vtotal_items (upd_items a g its)) = int (vtotal_items its) + int (vtotal (g fp)) - int (vtotal fp)"
proof (induction r and its rule: addrs_addrs_items.induct)
  case (1 b al nb nl nf li fi its)
  then show ?case by (auto split: if_splits)
next
  case (3 it its)
  show ?case
  proof (cases it)
    case (FFolder x f t s)
    show ?thesis
    proof (cases "find_fav a s")
      case None
      then have "a \<notin> set (addrs s)" using find_fav_in(1) [of a s] by force
      then show ?thesis using 3 FFolder None upd_fav_notin(1) [of a s g] by (auto simp: valid_item_def is_set_attr_def)
    next
      case (Some fq)
      then have "a \<notin> set (addrs_items its)" using 3(3) FFolder find_fav_Some [OF Some] by auto
      then show ?thesis using 3 FFolder Some upd_fav_notin(2) [of a its g] by (auto simp: valid_item_def is_set_attr_def)
    qed
  qed (use 3 in auto)
qed simp

lemma upd_fav_addrs:
  "distinct (addrs r) \<Longrightarrow> find_fav a r = Some fp \<Longrightarrow> mset (addrs (g fp)) = mset (addrs fp) + mset xs \<Longrightarrow>
     mset (addrs (upd_fav a g r)) = mset (addrs r) + mset xs"
  "distinct (addrs_items its) \<Longrightarrow> find_items a its = Some fp \<Longrightarrow> mset (addrs (g fp)) = mset (addrs fp) + mset xs \<Longrightarrow>
     mset (addrs_items (upd_items a g its)) = mset (addrs_items its) + mset xs"
proof (induction r and its rule: addrs_addrs_items.induct)
  case (1 b al nb nl nf li fi its)
  then show ?case by (auto split: if_splits)
next
  case (3 it its)
  show ?case
  proof (cases it)
    case (FFolder x f t s)
    show ?thesis
    proof (cases "find_fav a s")
      case None
      then have "a \<notin> set (addrs s)" using find_fav_in(1) [of a s] by force
      then show ?thesis using 3 FFolder None upd_fav_notin(1) [of a s g] by auto
    next
      case (Some fq)
      then have "a \<notin> set (addrs_items its)" using 3(3) FFolder find_fav_Some [OF Some] by auto
      then show ?thesis using 3 FFolder Some upd_fav_notin(2) [of a its g] by auto
    qed
  qed (use 3 in auto)
qed simp

lemma upd_fav_ok:
  assumes "\<And>fp. tree_ok fp \<Longrightarrow> fv_addr fp = a \<Longrightarrow> find_fav a r0 = Some fp \<Longrightarrow> tree_ok (g fp)"
  shows "tree_ok r \<Longrightarrow> distinct (addrs r) \<Longrightarrow> (\<And>fp. find_fav a r = Some fp \<Longrightarrow> find_fav a r0 = Some fp) \<Longrightarrow>
      tree_ok (upd_fav a g r)"
    "tree_ok_items its \<Longrightarrow> distinct (addrs_items its) \<Longrightarrow>
      (\<And>fp. find_items a its = Some fp \<Longrightarrow> find_fav a r0 = Some fp) \<Longrightarrow> tree_ok_items (upd_items a g its)"
proof (induction r and its rule: addrs_addrs_items.induct)
  case (1 b al nb nl nf li fi its)
  have "node_ok (Fav b al nb nl nf li fi its) \<Longrightarrow> node_ok (Fav b al nb nl nf li fi (upd_items a g its))"
    using fav_heads_cong [OF upd_items_heads] by (simp add: node_ok_def)
  then show ?case using 1 assms by auto
next
  case (3 it its)
  show ?case
  proof (cases it)
    case (FFolder x f t s)
    show ?thesis
    proof (cases "find_fav a s")
      case None
      then have "a \<notin> set (addrs s)" using find_fav_in(1) [of a s] by force
      then show ?thesis using 3 FFolder None upd_fav_notin(1) [of a s g] by auto
    next
      case (Some fq)
      then have "a \<notin> set (addrs_items its)" using 3(4) FFolder find_fav_Some [OF Some] by auto
      then show ?thesis using 3 FFolder Some upd_fav_notin(2) [of a its g] by auto
    qed
  qed (use 3 in auto)
qed simp

section \<open>The stack as a path\<close>

lemma addrs_item_subset:
  "FFolder x f t s \<in> set its \<Longrightarrow> mset (addrs s) \<subseteq># mset (addrs_items its)"
  by (induction its) (auto intro: subset_mset.add_increasing subset_mset.add_increasing2)

lemma addrs_item_in: "FFolder x f t s \<in> set its \<Longrightarrow> a \<in> set (addrs s) \<Longrightarrow> a \<in> set (addrs_items its)"
  using addrs_item_subset [of x f t s its] by (meson mset_subset_eqD set_mset_mset in_multiset_in_set)

lemma addrs_item_distinct:
  "FFolder x f t s \<in> set its \<Longrightarrow> distinct (addrs_items its) \<Longrightarrow> distinct (addrs s)"
  by (induction its) auto

lemma find_items_folder:
  "FFolder x f t s \<in> set its \<Longrightarrow> distinct (addrs_items its) \<Longrightarrow> a \<in> set (addrs s) \<Longrightarrow> find_items a its = find_fav a s"
proof (induction its)
  case (Cons it its)
  show ?case
  proof (cases "it = FFolder x f t s")
    case True
    then show ?thesis using Cons(4) find_fav_in(1) [of a s] by auto
  next
    case False
    then have m: "FFolder x f t s \<in> set its" using Cons(2) by auto
    show ?thesis
    proof (cases it)
      case (FFolder x' f' t' s')
      then have "a \<notin> set (addrs s')" using Cons(3) addrs_item_in [OF m Cons(4)] by auto
      then show ?thesis using Cons m FFolder find_fav_notin(1) [of a s'] by auto
    qed (use Cons m in auto)
  qed
qed simp

lemma addr_in_addrs: "fv_addr fp \<in> set (addrs fp)"
  by (cases fp) simp

lemma path_ok_ConsE:
  assumes "path_ok (a # b # st) fp"
  obtains al nb nl nf li fi its x f t s where "fp = Fav a al nb nl nf li fi its" "FFolder x f t s \<in> set its"
    "valid_item (FFolder x f t s)" "path_ok (b # st) s"
proof -
  obtain it where it: "it \<in> set (favh fp)" "valid_item it" "case it of FFolder _ _ _ s \<Rightarrow> path_ok (b # st) s | _ \<Rightarrow> False"
    and a: "fv_addr fp = a"
    using assms by (auto simp: list_ex_iff)
  obtain x f t s where "it = FFolder x f t s" using it(3) by (cases rule: fav_item.exhaust [of it]) auto
  then show thesis using that [OF fav_eta [of fp, unfolded a, symmetric]] it by auto
qed

lemma path_last_in: "path_ok st r \<Longrightarrow> last st \<in> set (addrs r)"
proof (induction st r rule: path_ok.induct)
  case (3 a b st fp)
  then obtain al nb nl nf li fi its x f t s where fp: "fp = Fav a al nb nl nf li fi its" "FFolder x f t s \<in> set its"
    "valid_item (FFolder x f t s)" "path_ok (b # st) s" by (rule_tac path_ok_ConsE) auto
  then have "last (b # st) \<in> set (addrs s)" using 3(1) [of "FFolder x f t s"] by (simp add: fp(1))
  then show ?case using fp addrs_item_in by auto
qed (auto simp: addr_in_addrs)

text \<open>A folder below an entry is not the folder of the entry.\<close>

lemma path_last_neq:
  "path_ok (a # b # st) r \<Longrightarrow> distinct (addrs r) \<Longrightarrow> last (b # st) \<noteq> fv_addr r"
  by (erule path_ok_ConsE) (metis addrs.simps(1) addrs_item_in distinct.simps(2) fav.sel(1) path_last_in)

lemma path_upd:
  "path_ok st r \<Longrightarrow> distinct (addrs r) \<Longrightarrow> find_fav (last st) r = Some fp \<Longrightarrow> fv_addr (g fp) = fv_addr fp \<Longrightarrow>
     path_ok st (upd_fav (last st) g r)"
proof (induction st arbitrary: r rule: induct_list012)
  case (2 a)
  then show ?case by (cases r) auto
next
  case (3 a b st)
  obtain al nb nl nf li fi its x f t s where r: "r = Fav a al nb nl nf li fi its" "FFolder x f t s \<in> set its"
    "valid_item (FFolder x f t s)" "path_ok (b # st) s" using 3(3) by (rule path_ok_ConsE)
  have l: "last (b # st) \<noteq> a" using path_last_neq [OF 3(3,4)] r(1) by simp
  have s: "last (b # st) \<in> set (addrs s)" "distinct (addrs s)"
    using path_last_in [OF r(4)] addrs_item_distinct [OF r(2)] 3(4) r(1) by auto
  then have "find_fav (last (b # st)) s = Some fp"
    using 3(5) r(1) l find_items_folder [OF r(2) _ s(1)] 3(4) by (simp split: if_splits)
  then have "path_ok (b # st) (upd_fav (last (b # st)) g s)" using 3(2) [OF r(4) s(2)] 3(6) by blast
  moreover have "FFolder x f t (upd_fav (last (b # st)) g s) \<in> set (upd_items (last (b # st)) g its)"
    using r(2) by (induction its) auto
  moreover have "valid_item (FFolder x f t (upd_fav (last (b # st)) g s))"
    using r(3) by (simp add: valid_item_def is_set_attr_def)
  ultimately have "list_ex (\<lambda>it. valid_item it \<and> (case it of FFolder _ _ _ s \<Rightarrow> path_ok (b # st) s | _ \<Rightarrow> False))
      (upd_items (last (b # st)) g its)" by (force simp: list_ex_iff)
  then show ?case using r(1) l by simp
qed simp

lemma path_snoc:
  "path_ok st r \<Longrightarrow> distinct (addrs r) \<Longrightarrow> find_fav (last st) r = Some fp \<Longrightarrow>
     FFolder x f t sub \<in> set (favh fp) \<Longrightarrow> valid_item (FFolder x f t sub) \<Longrightarrow> path_ok (st @ [fv_addr sub]) r"
proof (induction st arbitrary: r rule: induct_list012)
  case (2 a)
  then show ?case by (cases r) (force simp: list_ex_iff)
next
  case (3 a b st)
  obtain al nb nl nf li fi its x' f' t' s where r: "r = Fav a al nb nl nf li fi its" "FFolder x' f' t' s \<in> set its"
    "valid_item (FFolder x' f' t' s)" "path_ok (b # st) s" using 3(3) by (rule path_ok_ConsE)
  have l: "last (b # st) \<noteq> a" using path_last_neq [OF 3(3,4)] r(1) by simp
  have s: "last (b # st) \<in> set (addrs s)" "distinct (addrs s)"
    using path_last_in [OF r(4)] addrs_item_distinct [OF r(2)] 3(4) r(1) by auto
  then have "find_fav (last (b # st)) s = Some fp"
    using 3(5) r(1) l find_items_folder [OF r(2) _ s(1)] 3(4) by (simp split: if_splits)
  then have "path_ok (b # (st @ [fv_addr sub])) s" using 3(2) [OF r(4) s(2)] 3(6,7) by simp
  then show ?case using r(1-3) by (force simp: list_ex_iff)
qed simp

lemma path_butlast: "path_ok st r \<Longrightarrow> length st > 1 \<Longrightarrow> path_ok (butlast st) r"
proof (induction st r rule: path_ok.induct)
  case (3 a b st fp)
  obtain al nb nl nf li fi its x f t s where r: "fp = Fav a al nb nl nf li fi its" "FFolder x f t s \<in> set its"
    "valid_item (FFolder x f t s)" "path_ok (b # st) s" using 3(2) by (rule path_ok_ConsE)
  show ?case
  proof (cases st)
    case Nil
    then show ?thesis using r by simp
  next
    case (Cons c st')
    then have "path_ok (butlast (b # st)) s" using 3(1) [of "FFolder x f t s"] r by simp
    then show ?thesis using r Cons by (force simp: list_ex_iff)
  qed
qed auto

section \<open>Entries and counters\<close>

lemma sint_eq_int_iff:
  "sint (w :: 'a::len word) = int m \<longleftrightarrow> w = word_of_nat m \<and> m < 2 ^ (LENGTH('a) - 1)"
proof
  assume *: "sint w = int m"
  then have "int m < int (2 ^ (LENGTH('a) - 1))" using sint_lt [of w] by simp
  moreover have "w = word_of_nat m" using of_int_sint [of w, where 'a = "'a word"] by (simp only: * of_int_of_nat_eq scast_id)
  ultimately show "w = word_of_nat m \<and> m < 2 ^ (LENGTH('a) - 1)" by (simp only: of_nat_less_iff simp_thms)
next
  assume *: "w = word_of_nat m \<and> m < 2 ^ (LENGTH('a) - 1)"
  then have "int m < 2 ^ (LENGTH('a) - 1)" by (metis of_nat_less_iff of_nat_numeral of_nat_power)
  then have "signed_take_bit (LENGTH('a) - Suc 0) (int m) = int m"
    by (simp add: signed_take_bit_int_eq_self_iff order_trans [of _ "0 :: int"])
  then show "sint w = int m" using * by (simp add: signed_of_nat)
qed

text \<open>The counters as words, and their bounds.\<close>

definition counters_are :: "fav \<Rightarrow> fav_item list \<Rightarrow> bool" where
  "counters_are fp its \<longleftrightarrow> nBoards fp = word_of_nat (cnt FAVT_BOARD its) \<and> nLines fp = word_of_nat (cnt FAVT_LINE its) \<and>
     nFolders fp = word_of_nat (cnt FAVT_FOLDER its)"

definition counts_small :: "fav_item list \<Rightarrow> bool" where
  "counts_small its \<longleftrightarrow> cnt FAVT_BOARD its < 2 ^ 15 \<and> cnt FAVT_LINE its < 2 ^ 7 \<and> cnt FAVT_FOLDER its < 2 ^ 7"

lemma node_ok_iff:
  "node_ok fp \<longleftrightarrow> counters_are fp (favh fp) \<and> counts_small (favh fp) \<and> distinct (board_ids (favh fp))"
  by (auto simp: node_ok_def counters_are_def counts_small_def sint_eq_int_iff)

lemma cnt_append [simp]: "cnt k (xs @ ys) = cnt k xs + cnt k ys"
  by (simp add: cnt_def)

lemma cnt_Nil [simp]: "cnt k [] = 0"
  by (simp add: cnt_def)

lemma cnt_Cons [simp]: "cnt k (it # its) = (if valid_item it \<and> get_item_type it = k then 1 else 0) + cnt k its"
  by (simp add: cnt_def fav_head_def)

lemma board_ids_append [simp]: "board_ids (xs @ ys) = board_ids xs @ board_ids ys"
  by (simp add: board_ids_def)

lemma board_ids_Nil [simp]: "board_ids [] = []"
  by (simp add: board_ids_def)

lemma board_ids_Cons [simp]:
  "board_ids (it # its) =
     (if valid_item it then case it of FBoard _ b _ _ _ \<Rightarrow> [b] | _ \<Rightarrow> [] else []) @ board_ids its"
  by (cases it) (simp_all add: board_ids_def fav_head_def)

lemma vtotal_items_append [simp]: "vtotal_items (xs @ ys) = vtotal_items xs + vtotal_items ys"
  by (induction xs) auto

lemma addrs_items_append [simp]: "addrs_items (xs @ ys) = addrs_items xs @ addrs_items ys"
  by (induction xs) auto

lemma tree_ok_items_append [simp]: "tree_ok_items (xs @ ys) \<longleftrightarrow> tree_ok_items xs \<and> tree_ok_items ys"
  by (induction xs) auto

lemma tree_sel:
  "vtotal fp = vtotal_items (favh fp)" "addrs fp = fv_addr fp # addrs_items (favh fp)"
  "tree_ok fp \<longleftrightarrow> node_ok fp \<and> tree_ok_items (favh fp)"
  by (cases fp; simp)+

lemma cnt_le_vtotal: "cnt FAVT_BOARD its + cnt FAVT_LINE its + cnt FAVT_FOLDER its \<le> vtotal_items its"
  by (induction its) (auto split: fav_item.split)

lemma put_items_sel [simp]:
  "fv_addr (put_items its fp) = fv_addr fp" "favh (put_items its fp) = its" "nAllocs (put_items its fp) = nAllocs fp"
  "nBoards (put_items its fp) = nBoards fp" "nLines (put_items its fp) = nLines fp" "nFolders (put_items its fp) = nFolders fp"
  "lineID (put_items its fp) = lineID fp" "folderID (put_items its fp) = folderID fp"
  by (simp_all add: put_items_def)

lemma counters_are_put [simp]: "counters_are (put_items its fp) its' = counters_are fp its'"
  by (simp add: counters_are_def)

lemma counts_small_mono:
  "counts_small its \<Longrightarrow> (\<And>k. cnt k its' \<le> cnt k its) \<Longrightarrow> counts_small its'"
  by (meson counts_small_def order_le_less_trans)

lemma valid_put_attr [simp]: "valid_item (put_attr a it) \<longleftrightarrow> a AND FAVH_FAV \<noteq> 0"
  by (cases it) (simp_all add: valid_item_def is_set_attr_def)

lemma get_item_type_put [simp]: "get_item_type (put_attr a it) = get_item_type it"
  by (cases it) simp_all

lemma put_attr_cases:
  "(case put_attr a it of FBoard _ b _ _ p \<Rightarrow> F b p | FLine _ _ \<Rightarrow> G | FFolder _ _ t s \<Rightarrow> H t s) =
     (case it of FBoard _ b _ _ p \<Rightarrow> F b p | FLine _ _ \<Rightarrow> G | FFolder _ _ t s \<Rightarrow> H t s)"
  by (cases it) simp_all

lemma set_tag_valid [simp]: "valid_item (set_attr FAVH_TAG cmd it) = valid_item it"
proof -
  have "bit FAVH_FAV n \<Longrightarrow> \<not> bit FAVH_TAG n" for n by (auto simp: FAVH_FAV_def FAVH_TAG_def bit_1_iff)
  then have "(attr_of it XOR FAVH_TAG) AND FAVH_FAV = attr_of it AND FAVH_FAV"
    "(attr_of it OR FAVH_TAG) AND FAVH_FAV = attr_of it AND FAVH_FAV"
    "(attr_of it AND NOT FAVH_TAG) AND FAVH_FAV = attr_of it AND FAVH_FAV"
    by (auto intro!: bit_eqI simp: bit_simps)
  then show ?thesis by (cases cmd) (simp_all add: set_attr_def, simp_all add: valid_item_def is_set_attr_def)
qed

text \<open>Replacing one entry.\<close>

lemma list_update_split:
  assumes "j < length its"
  obtains xs ys where "its = xs @ (its ! j) # ys" "\<And>v. its[j := v] = xs @ v # ys"
  using assms by (metis id_take_nth_drop upd_conv_take_nth_drop)

lemma item_index_Some:
  "item_index k i its = Some j \<Longrightarrow> j < length its \<and> valid_item (its ! j) \<and> get_item_type (its ! j) = k \<and> fav_getid (its ! j) = i"
  by (induction its arbitrary: j) (auto split: if_splits)

lemma item_index_None:
  "item_index k i its = None \<Longrightarrow> it \<in> set its \<Longrightarrow> valid_item it \<Longrightarrow> get_item_type it = k \<Longrightarrow> fav_getid it \<noteq> i"
  by (induction its) (auto split: if_splits)

text \<open>An entry that only gets other flags or another title.\<close>

fun same_content :: "fav_item \<Rightarrow> fav_item \<Rightarrow> bool" where
  "same_content (FBoard _ b _ _ p) (FBoard _ b' _ _ p') \<longleftrightarrow> b = b' \<and> length p = length p'"
| "same_content (FLine _ _) (FLine _ _) \<longleftrightarrow> True"
| "same_content (FFolder _ _ t s) (FFolder _ _ t' s') \<longleftrightarrow> length t = length t' \<and> s = s'"
| "same_content _ _ \<longleftrightarrow> False"

lemma same_content_refl [simp]: "same_content it it"
  by (cases it) simp_all

lemma same_content_put_attr [simp]: "same_content (put_attr a it) it" "same_content (set_attr b c it) it"
  by (cases it; simp add: set_attr_def)+

lemma same_content_Cons:
  assumes "same_content v u" "valid_item v = valid_item u"
  shows "cnt k (v # ys) = cnt k (u # ys)" "board_ids (v # ys) = board_ids (u # ys)"
    "vtotal_items (v # ys) = vtotal_items (u # ys)" "addrs_items (v # ys) = addrs_items (u # ys)"
    "tree_ok_items (v # ys) = tree_ok_items (u # ys)"
  using assms by (cases v; cases u; simp)+

lemma put_same_ok:
  assumes "j < length its" "same_content v (its ! j)" "valid_item v = valid_item (its ! j)"
  shows "cnt k (its[j := v]) = cnt k its" "board_ids (its[j := v]) = board_ids its"
    "vtotal_items (its[j := v]) = vtotal_items its" "addrs_items (its[j := v]) = addrs_items its"
    "tree_ok_items (its[j := v]) = tree_ok_items its"
proof -
  obtain xs ys where x: "its = xs @ (its ! j) # ys" "\<And>v. its[j := v] = xs @ v # ys"
    using list_update_split [OF assms(1)] by metis
  note c = same_content_Cons [OF assms(2,3)]
  show "cnt k (its[j := v]) = cnt k its" by (subst (2) x(1)) (simp only: x(2) cnt_append c)
  show "board_ids (its[j := v]) = board_ids its" by (subst (2) x(1)) (simp only: x(2) board_ids_append c)
  show "vtotal_items (its[j := v]) = vtotal_items its" by (subst (2) x(1)) (simp only: x(2) vtotal_items_append c)
  show "addrs_items (its[j := v]) = addrs_items its" by (subst (2) x(1)) (simp only: x(2) addrs_items_append c)
  show "tree_ok_items (its[j := v]) = tree_ok_items its" by (subst (2) x(1)) (simp only: x(2) tree_ok_items_append c)
qed

section \<open>Every operation keeps the invariant\<close>

lemma find_fav_sub:
  "find_fav a r = Some fp \<Longrightarrow> (tree_ok r \<longrightarrow> tree_ok fp) \<and> vtotal fp \<le> vtotal r"
  "find_items a its = Some fp \<Longrightarrow> (tree_ok_items its \<longrightarrow> tree_ok fp) \<and> vtotal fp \<le> vtotal_items its"
proof (induction r and its rule: addrs_addrs_items.induct)
  case (3 it its)
  then show ?case by (cases it) (auto split: option.splits)
qed (auto split: if_splits)

lemma fav_inv_root:
  "fs_root s = Some r \<Longrightarrow> fav_inv s \<longleftrightarrow> tree_ok r \<and> int (vtotal r) \<le> fav_number s \<and> fav_number s \<le> MAX_FAV \<and>
     distinct (addrs r) \<and> list_all (\<lambda>a. a < fs_next s) (addrs r) \<and> path_ok (fav_stack s) r \<and>
     length (fav_stack s) \<le> FAV_MAXDEPTH"
  by (simp add: fav_inv_def)

lemma current_cases:
  assumes "fav_inv s" "get_current_fav s = Some fp"
  obtains r where "fs_root s = Some r" "find_fav (last (fav_stack s)) r = Some fp" "tree_ok fp"
    "int (vtotal fp) \<le> fav_number s"
proof -
  obtain r where r: "fs_root s = Some r" "find_fav (last (fav_stack s)) r = Some fp"
    using assms(2) by (auto simp: get_current_fav_def split: if_splits bind_splits)
  then have i: "tree_ok r" "int (vtotal r) \<le> fav_number s" using assms(1) by (auto simp: fav_inv_root)
  then show thesis using that [OF r] find_fav_sub(1) [OF r(2)] by auto
qed

lemma upd_current_inv:
  assumes inv: "fav_inv s" and cur: "get_current_fav s = Some fp"
    and g: "tree_ok (g fp)" "fv_addr (g fp) = fv_addr fp" "mset (addrs (g fp)) = mset (addrs fp) + mset xs"
    and s': "fs_root s' = fs_root (upd_current g s)" "fav_stack s' = fav_stack s" "fs_next s \<le> fs_next s'"
    and n: "int (vtotal (g fp)) - int (vtotal fp) \<le> fav_number s' - fav_number s" "fav_number s' \<le> MAX_FAV"
    and xs: "distinct xs" "list_all (\<lambda>x. fs_next s \<le> x \<and> x < fs_next s') xs"
  shows "fav_inv s'"
proof -
  obtain r where r: "fs_root s = Some r" "find_fav (last (fav_stack s)) r = Some fp" using current_cases [OF inv cur] by metis
  let ?r = "upd_fav (last (fav_stack s)) g r"
  have i: "tree_ok r" "int (vtotal r) \<le> fav_number s" "distinct (addrs r)" "list_all (\<lambda>a. a < fs_next s) (addrs r)"
    "path_ok (fav_stack s) r" "length (fav_stack s) \<le> FAV_MAXDEPTH"
    using inv by (auto simp: fav_inv_root [OF r(1)])
  have m: "mset (addrs ?r) = mset (addrs r @ xs)" using upd_fav_addrs(1) [where g = g, OF i(3) r(2) g(3)] by simp
  have "tree_ok ?r" by (rule upd_fav_ok(1) [where ?r0.0 = r]) (use i r g in auto)
  moreover have "int (vtotal ?r) \<le> fav_number s'" using upd_fav_total(1) [OF i(3) r(2), of g] i(2) n by linarith
  moreover have "distinct (addrs ?r)"
    using mset_eq_imp_distinct_iff [OF m] i(3,4) xs by (force simp: list_all_iff)
  moreover have "list_all (\<lambda>a. a < fs_next s') (addrs ?r)"
    using mset_eq_setD [OF m] i(4) xs s'(3) by (auto simp: list_all_iff dest: order_less_le_trans)
  moreover have "path_ok (fav_stack s) ?r" using path_upd [where g = g, OF i(5,3) r(2) g(2)] .
  moreover have "fs_root s' = Some ?r" using s'(1) r(1) by (simp add: upd_current_def)
  ultimately show ?thesis using i(6) n(2) s'(2) by (simp add: fav_inv_root)
qed

text \<open>The common case: the folder keeps its addresses and the total does not grow.\<close>

lemma upd_current_inv_same:
  assumes "fav_inv s" "get_current_fav s = Some fp" "tree_ok (g fp)" "fv_addr (g fp) = fv_addr fp"
    "mset (addrs_items (favh (g fp))) = mset (addrs_items (favh fp))"
    "fs_root s' = fs_root (upd_current g s)" "fav_stack s' = fav_stack s" "fs_next s' = fs_next s"
    "int (vtotal_items (favh (g fp))) - int (vtotal_items (favh fp)) \<le> fav_number s' - fav_number s"
    "fav_number s' \<le> fav_number s"
  shows "fav_inv s'"
proof -
  have "fav_number s \<le> MAX_FAV" using current_cases [OF assms(1,2)] assms(1) by (metis fav_inv_root)
  then show ?thesis using assms by (intro upd_current_inv [where xs = "[]" and g = g, OF assms(1-4)]) (auto simp: tree_sel(1,2))
qed

lemma upd_current_sel [simp]:
  "fav_stack (upd_current g s) = fav_stack s" "fav_number (upd_current g s) = fav_number s"
  "fs_next (upd_current g s) = fs_next s" "fs_dirty (upd_current g s) = fs_dirty s"
  by (simp_all add: upd_current_def)

lemma put_same_tree:
  assumes "tree_ok fp" "j < length (favh fp)" "same_content v (favh fp ! j)" "valid_item v = valid_item (favh fp ! j)"
  shows "tree_ok (put_items ((favh fp)[j := v]) fp)"
  using assms(1) put_same_ok [OF assms(2-4)]
  by (simp add: tree_sel node_ok_iff counters_are_def counts_small_def)

lemma fav_tag_inv: "fav_inv s \<Longrightarrow> fav_inv (fav_tag i k cmd s)"
proof (cases "get_fav_item i k s")
  case (Some j)
  assume s: "fav_inv s"
  obtain fp where fp: "get_current_fav s = Some fp" "item_index k i (favh fp) = Some j"
    using Some by (auto simp: get_fav_item_def bind_eq_Some_conv)
  then have j: "j < length (favh fp)" by (blast dest: item_index_Some)
  have tr: "tree_ok fp" using current_cases [OF s fp(1)] by blast
  note sc = same_content_put_attr(2) [of FAVH_TAG cmd "favh fp ! j"] set_tag_valid [of cmd "favh fp ! j"]
  show ?thesis
    by (rule upd_current_inv_same [where g = "\<lambda>fp. put_items ((favh fp)[j := set_attr FAVH_TAG cmd (favh fp ! j)]) fp", OF s fp(1)])
      (use Some put_same_tree [OF tr j sc] put_same_ok(3,4) [OF j sc] in \<open>simp_all add: fav_tag_def\<close>)
qed (simp add: fav_tag_def)

lemma fav_set_folder_title_inv: "fav_inv s \<Longrightarrow> fav_inv (fav_set_folder_title j str s)"
proof (cases "get_current_fav s")
  case (Some fp)
  assume s: "fav_inv s"
  show ?thesis
  proof (cases "j < length (favh fp) \<and> get_item_type (favh fp ! j) = FAVT_FOLDER")
    case True
    then obtain a f t sub where it: "favh fp ! j = FFolder a f t sub" by (cases "favh fp ! j") auto
    let ?v = "FFolder a f (write_at t 0 (strlcpy TITLE_SIZE str @ [0])) sub"
    have tr: "tree_ok fp" using current_cases [OF s Some] by blast
    have j: "j < length (favh fp)" using True by simp
    have "tree_ok_items [favh fp ! j]"
      using tr j by (metis tree_sel(3) tree_ok_items_append tree_ok_items.simps list_update_split)
    then have "length t = TITLE_SIZE" using it by simp
    then have "length (write_at t 0 (strlcpy TITLE_SIZE str @ [0])) = length t"
      by (simp add: write_at_def strlcpy_def TITLE_SIZE_def)
    then have sc: "same_content ?v (favh fp ! j)" "valid_item ?v = valid_item (favh fp ! j)"
      using it by (simp_all add: valid_item_def is_set_attr_def)
    show ?thesis
      by (rule upd_current_inv_same [where g = "\<lambda>fp. put_items ((favh fp)[j := ?v]) fp", OF s Some])
        (use Some j it put_same_tree [OF tr j sc] put_same_ok(3,4) [OF j sc] in \<open>auto simp: fav_set_folder_title_def DataTail_def\<close>)
  next
    case False
    then show ?thesis using s Some by (cases "favh fp ! j") (auto simp: fav_set_folder_title_def DataTail_def)
  qed
qed (simp add: fav_set_folder_title_def)

text \<open>Removing: the counter of the entry's type goes down with the entry.\<close>

lemma fav_decrease_sel [simp]:
  "fv_addr (fav_decrease it fp) = fv_addr fp" "favh (fav_decrease it fp) = favh fp"
  by (cases "get_item_type it"; simp add: fav_decrease_def)+

lemma counters_are_decrease:
  assumes "counters_are fp its" "\<And>k. cnt k its = cnt k its' + (if get_item_type it = k then 1 else 0)"
  shows "counters_are (fav_decrease it fp) its'"
  using assms(1) assms(2) [of FAVT_BOARD] assms(2) [of FAVT_LINE] assms(2) [of FAVT_FOLDER]
  by (cases "get_item_type it") (simp_all add: fav_decrease_def counters_are_def)

lemma remove_items:
  assumes "j < length its" "valid_item (its ! j)"
  defines "its' \<equiv> its[j := put_attr 0 (its ! j)]"
  shows "cnt k its = cnt k its' + (if get_item_type (its ! j) = k then 1 else 0)"
    "distinct (board_ids its) \<Longrightarrow> distinct (board_ids its')" "vtotal_items its = Suc (vtotal_items its')"
    "addrs_items its' = addrs_items its" "tree_ok_items its' = tree_ok_items its"
proof -
  obtain it xs ys where x: "its = xs @ it # ys" "\<And>v. its[j := v] = xs @ v # ys" and it: "it = its ! j"
    using list_update_split [OF assms(1)] by metis
  have i: "its' = xs @ put_attr 0 it # ys" by (simp only: its'_def x(2) it)
  have v: "valid_item it" using assms(2) it by simp
  show "cnt k its = cnt k its' + (if get_item_type (its ! j) = k then 1 else 0)"
    unfolding i x(1) it [symmetric, unfolded x(1)] using v by (simp add: x(1) flip: it)
  show "distinct (board_ids its) \<Longrightarrow> distinct (board_ids its')"
    unfolding i x(1) using v by (auto split: fav_item.splits)
  show "vtotal_items its = Suc (vtotal_items its')"
    unfolding i x(1) using v by (cases it) (auto simp: valid_item_def is_set_attr_def)
  show "addrs_items its' = addrs_items its"
    unfolding i x(1) by (cases it) auto
  show "tree_ok_items its' = tree_ok_items its"
    unfolding i x(1) by (cases it) auto
qed

lemma fav_remove_at_tree:
  assumes "tree_ok fp" "j < length (favh fp)" "valid_item (favh fp ! j)"
  shows "tree_ok (fav_remove_at j fp)"
proof -
  note r = remove_items [OF assms(2,3)]
  have n: "counters_are fp (favh fp)" "counts_small (favh fp)" "distinct (board_ids (favh fp))" "tree_ok_items (favh fp)"
    using assms(1) by (simp_all add: tree_sel node_ok_iff)
  have "counters_are (fav_remove_at j fp) ((favh fp)[j := put_attr 0 (favh fp ! j)])"
    unfolding fav_remove_at_def by (rule counters_are_decrease [where its = "favh fp"]) (use n r(1) in auto)
  moreover have "counts_small ((favh fp)[j := put_attr 0 (favh fp ! j)])"
    by (rule counts_small_mono [OF n(2)]) (simp add: r(1))
  ultimately show ?thesis using n r(2,5) by (simp add: tree_sel node_ok_iff fav_remove_at_def)
qed

lemma fav_remove_item_inv: "fav_inv s \<Longrightarrow> fav_inv (fav_remove_item i k s)"
proof (cases "get_fav_item i k s")
  case (Some j)
  assume s: "fav_inv s"
  obtain fp where fp: "get_current_fav s = Some fp" "item_index k i (favh fp) = Some j"
    using Some by (auto simp: get_fav_item_def bind_eq_Some_conv)
  then have j: "j < length (favh fp)" "valid_item (favh fp ! j)" by (blast dest: item_index_Some)+
  have tr: "tree_ok fp" using current_cases [OF s fp(1)] by blast
  show ?thesis
    by (rule upd_current_inv_same [where g = "fav_remove_at j", OF s fp(1)])
      (use Some fav_remove_at_tree [OF tr j] remove_items(3,4) [OF j] in \<open>simp_all add: fav_remove_item_def fav_remove_at_def\<close>)
qed (simp add: fav_remove_item_def)

text \<open>Adding: the total bounds the number of boards, the limits the number of lines and folders.\<close>

lemma fav_increase_sel [simp]: "fv_addr (fav_increase it fp) = fv_addr fp"
  by (cases it; simp add: fav_increase_def)

fun with_id :: "fav_item \<Rightarrow> fav \<Rightarrow> fav_item" where
  "with_id (FLine a _) fp = FLine a (lineID fp + 1)"
| "with_id (FFolder a _ t s) fp = FFolder a (folderID fp + 1) t s"
| "with_id it fp = it"

lemma fav_increase_items [simp]: "favh (fav_increase it fp) = favh fp @ [with_id it fp]"
  by (cases it; simp add: fav_increase_def)

lemma with_id_same [simp]:
  "same_content (with_id it fp) it" "valid_item (with_id it fp) = valid_item it" "get_item_type (with_id it fp) = get_item_type it"
  by (cases it; simp add: valid_item_def is_set_attr_def)+

lemma counters_are_increase:
  assumes "counters_are fp its" "valid_item it"
  shows "counters_are (fav_increase it fp) (its @ [with_id it fp])"
  using assms by (cases it) (simp_all add: fav_increase_def counters_are_def valid_item_def is_set_attr_def)

lemma enlarge_sel [simp]:
  "fv_addr (enlarge_if_full fp) = fv_addr fp" "favh (enlarge_if_full fp) = favh fp"
  "counters_are (enlarge_if_full fp) its = counters_are fp its"
  by (simp_all add: enlarge_if_full_def counters_are_def)

lemma fav_increase_tree:
  assumes "tree_ok fp" "valid_item it" "tree_ok_items [it]" "counts_small (favh fp @ [it])" "distinct (board_ids (favh fp @ [it]))"
  shows "tree_ok ((fav_increase it \<circ> enlarge_if_full) fp)"
proof -
  let ?fp = "enlarge_if_full fp"
  have n: "counters_are ?fp (favh fp)" "tree_ok_items (favh fp)"
    using assms(1) by (simp_all add: tree_sel node_ok_iff)
  note c = same_content_Cons [OF with_id_same(1,2) [of it ?fp], where ys = "[]"]
  have "counts_small (favh fp @ [with_id it ?fp])" "distinct (board_ids (favh fp @ [with_id it ?fp]))"
    using assms(4,5) by (simp_all only: counts_small_def cnt_append board_ids_append c)
  moreover have "tree_ok_items [with_id it ?fp]" using assms(3) by (simp only: c)
  ultimately show ?thesis using counters_are_increase [OF n(1) assms(2)] n(2)
    by (simp only: o_apply tree_sel(3) node_ok_iff fav_increase_items enlarge_sel tree_ok_items_append simp_thms)
qed

lemma needs_realloc_next [simp]: "needs_realloc (s\<lparr>fs_next := m\<rparr>) = needs_realloc s"
  by (simp add: needs_realloc_def get_current_fav_def)

lemma fav_preappend_inv:
  assumes inv: "fav_inv s" and cur: "get_current_fav s = Some fp"
    and it: "valid_item it" "tree_ok_items [it]" "addrs_items [it] = xs" "vtotal_items [it] = 1"
    and nd: "counts_small (favh fp @ [it])" "distinct (board_ids (favh fp @ [it]))"
    and m: "distinct xs" "list_all (\<lambda>x. fs_next s \<le> x \<and> x < m) xs" "fs_next s \<le> m"
  shows "fav_inv (snd (fav_preappend mem it (s\<lparr>fs_next := m\<rparr>)))"
proof (cases "is_maxsize s \<or> needs_realloc s \<and> \<not> mem")
  case True
  obtain r where r: "fs_root s = Some r" using current_cases [OF inv cur] by metis
  then have "fav_inv (s\<lparr>fs_next := m\<rparr>)"
    using inv m(3) by (auto simp: fav_inv_root [OF r] fav_inv_def list_all_iff dest: order_less_le_trans)
  then show ?thesis using True by (simp add: fav_preappend_def is_maxsize_def)
next
  case False
  have tr: "tree_ok fp" using current_cases [OF inv cur] by blast
  let ?fp = "enlarge_if_full fp"
  note c = same_content_Cons [OF with_id_same(1,2) [of it ?fp], where ys = "[]"]
  show ?thesis
  proof (rule upd_current_inv [where xs = xs and g = "fav_increase it \<circ> enlarge_if_full", OF inv cur])
    show "tree_ok ((fav_increase it \<circ> enlarge_if_full) fp)" by (rule fav_increase_tree [OF tr it(1,2) nd])
    show "mset (addrs ((fav_increase it \<circ> enlarge_if_full) fp)) = mset (addrs fp) + mset xs"
      using it(3) c(4) by (simp only: tree_sel o_apply fav_increase_sel fav_increase_items enlarge_sel addrs_items_append) simp
    have "vtotal ((fav_increase it \<circ> enlarge_if_full) fp) = vtotal fp + 1"
      using it(4) c(3) by (simp only: tree_sel o_apply fav_increase_items enlarge_sel vtotal_items_append)
    then show "int (vtotal ((fav_increase it \<circ> enlarge_if_full) fp)) - int (vtotal fp)
        \<le> fav_number (snd (fav_preappend mem it (s\<lparr>fs_next := m\<rparr>))) - fav_number s"
      using False by (simp add: fav_preappend_def is_maxsize_def)
  qed (use False m in \<open>auto simp: fav_preappend_def is_maxsize_def upd_current_def\<close>)
qed

lemma valid_new [simp]:
  "valid_item (FLine FAVH_FAV l)" "valid_item (FFolder FAVH_FAV f t s)" "valid_item (FBoard FAVH_FAV b v ba p)"
  by (simp_all add: valid_item_def is_set_attr_def FAVH_FAV_def)

lemma current_counts:
  assumes "fav_inv s" "get_current_fav s = Some fp" "\<not> is_maxsize s"
  shows "counts_small (favh fp)" "distinct (board_ids (favh fp))" "cnt FAVT_BOARD (favh fp) < 1024"
    "sint (nLines fp) = int (cnt FAVT_LINE (favh fp))" "sint (nFolders fp) = int (cnt FAVT_FOLDER (favh fp))"
proof -
  have "tree_ok fp" "int (vtotal fp) \<le> fav_number s" using current_cases [OF assms(1,2)] by metis+
  then have "node_ok fp" "vtotal_items (favh fp) < 1024" using assms(3) by (simp_all add: tree_sel is_maxsize_def MAX_FAV_def)
  then show "counts_small (favh fp)" "distinct (board_ids (favh fp))" "cnt FAVT_BOARD (favh fp) < 1024"
    "sint (nLines fp) = int (cnt FAVT_LINE (favh fp))" "sint (nFolders fp) = int (cnt FAVT_FOLDER (favh fp))"
    using cnt_le_vtotal [of "favh fp"] by (simp_all add: node_ok_iff) (simp_all add: counters_are_def counts_small_def sint_eq_int_iff)
qed

lemma fav_add_line_inv:
  assumes inv: "fav_inv s"
  shows "fav_inv (snd (fav_add_line mem s))"
proof (cases "get_current_fav s")
  case (Some fp)
  show ?thesis
  proof (cases "is_maxsize s \<or> sint (nLines fp) \<ge> MAX_LINE")
    case False
    then have c: "counts_small (favh fp)" "distinct (board_ids (favh fp))" "cnt FAVT_LINE (favh fp) < 64"
      using current_counts [OF inv Some] by (auto simp: MAX_LINE_def)
    have "fav_inv (snd (fav_preappend mem (FLine FAVH_FAV 0) (s\<lparr>fs_next := fs_next s\<rparr>)))"
      by (rule fav_preappend_inv [OF inv Some, where xs = "[]"]) (use c in \<open>auto simp: counts_small_def\<close>)
    then show ?thesis using False Some by (simp add: fav_add_line_def)
  qed (use inv Some in \<open>auto simp: fav_add_line_def\<close>)
qed (use inv in \<open>simp add: fav_add_line_def\<close>)

lemma alloc_folder_ok [simp]:
  "tree_ok (alloc_folder_item a)" "addrs (alloc_folder_item a) = [a]" "vtotal (alloc_folder_item a) = 0"
  by (simp_all add: alloc_folder_item_def node_ok_def)

lemma fav_add_folder_inv:
  assumes inv: "fav_inv s"
  shows "fav_inv (snd (fav_add_folder mem s))"
proof (cases "get_current_fav s")
  case (Some fp)
  show ?thesis
  proof (cases "is_maxsize s \<or> fav_stack_full s \<or> sint (nFolders fp) \<ge> MAX_FOLDER")
    case False
    then have c: "counts_small (favh fp)" "distinct (board_ids (favh fp))" "cnt FAVT_FOLDER (favh fp) < 64"
      using current_counts [OF inv Some] by (auto simp: MAX_FOLDER_def)
    have "fav_inv (snd (fav_preappend mem (FFolder FAVH_FAV 0 (replicate TITLE_SIZE 0) (alloc_folder_item (fs_next s)))
        (s\<lparr>fs_next := fs_next s + 1\<rparr>)))"
      by (rule fav_preappend_inv [OF inv Some, where xs = "[fs_next s]"]) (use c in \<open>auto simp: counts_small_def\<close>)
    then show ?thesis using False Some by (simp add: fav_add_folder_def)
  qed (use inv Some in \<open>auto simp: fav_add_folder_def\<close>)
qed (use inv in \<open>simp add: fav_add_folder_def\<close>)

lemma board_ids_in: "b \<in> set (board_ids its) \<Longrightarrow> \<exists>it \<in> set its. valid_item it \<and> get_item_type it = FAVT_BOARD \<and> fav_getid it = sint b"
  by (auto simp: board_ids_def fav_head_def split: fav_item.split_asm)

lemma fav_add_board_inv:
  assumes inv: "fav_inv s" and r: "fav_add_board mem bid s = Some (ok, s')"
  shows "fav_inv s'"
proof (cases "get_current_fav s")
  case (Some fp)
  have b: "0 < bid" "bid \<le> 8192" using r by (auto simp: fav_add_board_def MAX_BOARD_def split: if_splits)
  show ?thesis
  proof (cases "item_index FAVT_BOARD bid (favh fp) \<noteq> None \<or> is_maxsize s")
    case False
    have c: "counts_small (favh fp)" "distinct (board_ids (favh fp))" "cnt FAVT_BOARD (favh fp) < 1024"
      using current_counts [OF inv Some] False by auto
    have "sint (word_of_int bid :: u32) = bid" using b by (simp add: signed_of_int signed_take_bit_int_eq_self)
    then have "word_of_int bid \<notin> set (board_ids (favh fp))"
      using False item_index_None [of FAVT_BOARD bid "favh fp"] board_ids_in [of "word_of_int bid" "favh fp"] by auto
    then have "fav_inv (snd (fav_preappend mem (FBoard FAVH_FAV (word_of_int bid) 0 0 [0, 0, 0]) (s\<lparr>fs_next := fs_next s\<rparr>)))"
      by (intro fav_preappend_inv [OF inv Some, where xs = "[]"]) (use c in \<open>auto simp: counts_small_def\<close>)
    moreover have "s' = snd (fav_preappend mem (FBoard FAVH_FAV (word_of_int bid) 0 0 [0, 0, 0]) s)"
      using r False Some b by (simp add: fav_add_board_def MAX_BOARD_def)
    ultimately show ?thesis by simp
  next
    case True
    then have "s' = s" using r Some b by (simp add: fav_add_board_def MAX_BOARD_def split: if_split_asm)
    then show ?thesis using inv by simp
  qed
next
  case None
  then have "s' = s" using r by (simp add: fav_add_board_def split: if_split_asm)
  then show ?thesis using inv by simp
qed

text \<open>Moving: the entries are permuted.\<close>

lemma cnt_mset: "cnt k its = size (filter_mset (\<lambda>it. valid_item it \<and> get_item_type it = k) (mset its))"
  by (induction its) auto

lemma board_ids_mset: "mset (board_ids its) = mset (concat (map (\<lambda>it. board_ids [it]) its))"
proof (induction its)
  case (Cons it its)
  then show ?case using board_ids_append [of "[it]" its] by (simp del: board_ids_append board_ids_Cons)
qed simp

lemma items_mset:
  "mset (addrs_items its) = (\<Sum>it\<in>#mset its. mset (addrs_items [it]))"
  "vtotal_items its = (\<Sum>it\<in>#mset its. vtotal_items [it])"
  "mset (board_ids its) = (\<Sum>it\<in>#mset its. mset (board_ids [it]))"
  "tree_ok_items its \<longleftrightarrow> (\<forall>it\<in>#mset its. tree_ok_items [it])"
  by (induction its) auto

lemma perm_items:
  assumes "mset its' = mset its"
  shows "cnt k its' = cnt k its" "mset (addrs_items its') = mset (addrs_items its)" "vtotal_items its' = vtotal_items its"
    "distinct (board_ids its') = distinct (board_ids its)" "tree_ok_items its' = tree_ok_items its"
  using items_mset(1,2,4) [of its] items_mset(1,2,4) [of its'] mset_eq_imp_distinct_iff [of "board_ids its'" "board_ids its"]
    items_mset(3) [of its] items_mset(3) [of its'] by (simp_all only: cnt_mset assms)

lemma move_items_mset:
  assumes "i < length xs" "j < length xs"
  shows "mset (move_items i j xs) = mset xs"
proof (cases "i < j")
  case True
  have d: "drop (Suc i) (take (Suc j) xs) @ drop (Suc j) xs = drop (Suc i) xs"
    using True append_take_drop_id [of "j - i" "drop (Suc i) xs"] by (simp add: drop_take)
  have "mset xs = mset (take i xs @ xs ! i # drop (Suc i) (take (Suc j) xs) @ drop (Suc j) xs)"
    by (simp only: d id_take_nth_drop [OF assms(1), symmetric])
  then show ?thesis using True by (simp add: move_items_def)
next
  case False
  have d: "take j xs @ drop j (take i xs) = take i xs"
    using False append_take_drop_id [of j "take i xs"] by (simp add: min_def)
  have "mset xs = mset ((take j xs @ drop j (take i xs)) @ xs ! i # drop (Suc i) xs)"
    by (simp only: d id_take_nth_drop [OF assms(1), symmetric])
  then show ?thesis using False by (simp add: move_items_def)
qed

lemma visible_index_Some: "visible_index n its = Some i \<Longrightarrow> i < length its \<and> valid_item (its ! i)"
  by (induction its arbitrary: n i) (auto split: if_splits)

lemma move_in_folder_items:
  "fv_addr (move_in_folder i j fp) = fv_addr fp \<and> mset (favh (move_in_folder i j fp)) = mset (favh fp) \<and>
   (counters_are (move_in_folder i j fp) its \<longleftrightarrow> counters_are fp its)"
  by (auto simp: move_in_folder_def split: option.split) (metis move_items_mset visible_index_Some)

lemma move_in_current_folder_inv: "fav_inv s \<Longrightarrow> fav_inv (move_in_current_folder i j s)"
proof (cases "get_current_fav s")
  case (Some fp)
  assume s: "fav_inv s"
  have tr: "tree_ok fp" using current_cases [OF s Some] by blast
  note m = move_in_folder_items [of i j fp]
  note pm = perm_items [of "favh (move_in_folder i j fp)" "favh fp"]
  have "tree_ok (move_in_folder i j fp)" using tr m pm by (simp add: tree_sel node_ok_iff counts_small_def) (simp add: counters_are_def)
  then show ?thesis
    by (intro upd_current_inv_same [where g = "move_in_folder i j", OF s Some]) (use Some m pm in \<open>simp_all add: move_in_current_folder_def\<close>)
qed (simp add: move_in_current_folder_def)

lemma fav_folder_in_inv: "fav_inv s \<Longrightarrow> fav_inv (snd (fav_folder_in fid s))"
proof (cases "get_current_fav s")
  case (Some fp)
  assume s: "fav_inv s"
  obtain r where r: "fs_root s = Some r" "find_fav (last (fav_stack s)) r = Some fp" using current_cases [OF s Some] by metis
  show ?thesis
  proof (cases "item_index FAVT_FOLDER fid (favh fp)")
    case (Some i)
    note i = item_index_Some [OF Some]
    then obtain a f t sub where it: "favh fp ! i = FFolder a f t sub" by (cases "favh fp ! i") auto
    have p: "path_ok (fav_stack s @ [fv_addr sub]) r"
      using s r i it by (intro path_snoc [where fp = fp]) (auto simp: fav_inv_root intro: nth_mem elim: subst)
    show ?thesis using s r Some \<open>get_current_fav s = Some fp\<close> it p
      by (simp add: fav_folder_in_def fav_stack_push_fav_def fav_stack_full_def fav_inv_root)
  qed (use s Some in \<open>simp add: fav_folder_in_def\<close>)
qed (simp add: fav_folder_in_def)

lemma fav_folder_out_inv: "fav_inv s \<Longrightarrow> fav_inv (fav_folder_out s)"
proof (cases "fs_root s = None \<or> length (fav_stack s) \<le> 1")
  case True
  assume "fav_inv s"
  have "butlast (fav_stack s) = []" if "length (fav_stack s) \<le> 1" using that by (cases "fav_stack s") auto
  then show ?thesis using True \<open>fav_inv s\<close> by (auto simp: fav_folder_out_def fav_stack_pop_def fav_inv_def)
next
  case False
  assume "fav_inv s"
  then show ?thesis using False path_butlast [of "fav_stack s"] by (auto simp: fav_folder_out_def fav_stack_pop_def fav_inv_def)
qed

text \<open>The whole tree is changed at once by \<open>fav_cleanup\<close> and the tag operations.\<close>

lemma distinct_subset_mset: "distinct ys \<Longrightarrow> mset xs \<subseteq># mset ys \<Longrightarrow> distinct xs"
  by (metis distinct_append ex_mset mset_append mset_eq_imp_distinct_iff subset_mset.le_iff_add)

lemma fav_inv_root_upd:
  assumes "fav_inv s" "fs_root s = Some r" "tree_ok r'" "int (vtotal r') - int (vtotal r) \<le> fav_number s' - fav_number s"
    "fav_number s' \<le> fav_number s" "mset (addrs r') \<subseteq># mset (addrs r)" "path_ok (fav_stack s) r \<Longrightarrow> path_ok (fav_stack s) r'"
    "fs_root s' = Some r'" "fav_stack s' = fav_stack s" "fs_next s' = fs_next s"
  shows "fav_inv s'"
proof -
  have "distinct (addrs r')" if "distinct (addrs r)" using distinct_subset_mset [OF that assms(6)] .
  moreover have "set (addrs r') \<subseteq> set (addrs r)" using assms(6) by (metis set_mset_mono set_mset_mset)
  ultimately show ?thesis using assms by (auto simp: fav_inv_root list_all_iff)
qed

text \<open>An open folder stays open when the tree is rewritten by \<open>F\<close> and its entry stays.\<close>

lemma tree_ok_folder: "FFolder a f t s \<in> set its \<Longrightarrow> tree_ok_items its \<Longrightarrow> tree_ok s"
  by (induction its) auto

lemma path_rewrite:
  assumes "\<And>fp. fv_addr (F fp) = fv_addr fp"
    and "\<And>fp a f t s. tree_ok fp \<Longrightarrow> FFolder a f t s \<in> set (favh fp) \<Longrightarrow> valid_item (FFolder a f t s) \<Longrightarrow> fv_addr s \<in> set st0 \<Longrightarrow>
      \<exists>a' f' t'. FFolder a' f' t' (F s) \<in> set (favh (F fp)) \<and> valid_item (FFolder a' f' t' (F s))"
  shows "path_ok st fp \<Longrightarrow> tree_ok fp \<Longrightarrow> set st \<subseteq> set st0 \<Longrightarrow> path_ok st (F fp)"
proof (induction st arbitrary: fp rule: induct_list012)
  case (2 a)
  then show ?case using assms(1) by simp
next
  case (3 a b st)
  obtain al nb nl nf li fi its x f t s where r: "fp = Fav a al nb nl nf li fi its" "FFolder x f t s \<in> set its"
    "valid_item (FFolder x f t s)" "path_ok (b # st) s" using 3(3) by (rule path_ok_ConsE)
  have s: "tree_ok s" using 3(4) r(1,2) tree_ok_folder by auto
  have "fv_addr s = b" using r(4) by (cases st) simp_all
  then obtain a' f' t' where "FFolder a' f' t' (F s) \<in> set (favh (F fp))" "valid_item (FFolder a' f' t' (F s))"
    using assms(2) [OF 3(4), of x f t s] r 3(5) by auto
  moreover have "path_ok (b # st) (F s)" using 3(2) [OF r(4) s] 3(5) by simp
  ultimately show ?case using assms(1) [of fp] r(1) by (force simp: list_ex_iff)
qed simp

lemma untag_bits: "((a :: byte) AND NOT FAVH_TAG) AND FAVH_FAV = a AND FAVH_FAV"
  by (rule bit_eqI) (auto simp: FAVH_FAV_def FAVH_TAG_def bit_simps)

lemma untag_facts:
  "addrs (untag_fav r) = addrs r \<and> vtotal (untag_fav r) = vtotal r \<and> (tree_ok r \<longrightarrow> tree_ok (untag_fav r))"
  "addrs_items (untag_items its) = addrs_items its \<and> vtotal_items (untag_items its) = vtotal_items its \<and>
   map fav_head (untag_items its) = map fav_head its \<and> (tree_ok_items its \<longrightarrow> tree_ok_items (untag_items its))"
proof (induction r and its rule: untag_fav_untag_items.induct)
  case (1 b al nb nl nf li fi its)
  then show ?case using fav_heads_cong [of "untag_items its" its] by (simp add: node_ok_def)
next
  case (3 it its)
  show ?case
  proof (cases it)
    case (FFolder a f t s)
    show ?thesis using 3 FFolder by (auto simp: Let_def fav_head_def set_attr_def valid_item_def is_set_attr_def untag_bits)
  qed (use 3 in \<open>auto simp: Let_def fav_head_def set_attr_def valid_item_def is_set_attr_def untag_bits\<close>)
qed simp

lemma untag_addr [simp]: "fv_addr (untag_fav fp) = fv_addr fp"
  by (cases fp) simp

lemma untag_folder:
  "FFolder a f t s \<in> set its \<Longrightarrow> valid_item (FFolder a f t s) \<Longrightarrow>
     \<exists>a'. FFolder a' f t (untag_fav s) \<in> set (untag_items its) \<and> valid_item (FFolder a' f t (untag_fav s))"
proof (induction its)
  case (Cons it its)
  have v: "valid_item (FFolder a f t (untag_fav s))" using Cons(3) by (simp add: valid_item_def is_set_attr_def)
  then have "\<exists>a'. set_attr FAVH_TAG FALSE (FFolder a f t (untag_fav s)) = FFolder a' f t (untag_fav s) \<and>
      valid_item (FFolder a' f t (untag_fav s))"
    using set_tag_valid [of FALSE "FFolder a f t (untag_fav s)"] by (simp add: set_attr_def)
  then show ?case using Cons v by (fastforce simp: Let_def)
qed simp

lemma fav_remove_all_tag_inv:
  assumes "fav_inv s"
  shows "fav_inv (fav_remove_all_tag s)"
proof (cases "fs_root s")
  case (Some r)
  have p: "path_ok (fav_stack s) (untag_fav r)"
  proof (rule path_rewrite [where F = untag_fav and ?st0.0 = "fav_stack s"])
    show "\<exists>a' f' t'. FFolder a' f' t' (untag_fav sa) \<in> set (favh (untag_fav fp)) \<and> valid_item (FFolder a' f' t' (untag_fav sa))"
      if "tree_ok fp" "FFolder a f t sa \<in> set (favh fp)" "valid_item (FFolder a f t sa)" "fv_addr sa \<in> set (fav_stack s)" for fp a f t sa
      using untag_folder [OF that(2,3)] by (cases fp) auto
  qed (use assms Some in \<open>auto simp: fav_inv_root\<close>)
  show ?thesis
    by (rule fav_inv_root_upd [OF assms Some, where r' = "untag_fav r"])
      (use assms Some untag_facts(1) [of r] p in \<open>auto simp: fav_remove_all_tag_def fav_inv_root\<close>)
qed (use assms in \<open>simp add: fav_remove_all_tag_def\<close>)

section \<open>What \<open>rebuild_fav\<close> keeps\<close>

text \<open>What the user sees of a folder: the valid entries, without the ids and addresses.\<close>

datatype fav_view =
    VBoard byte u32 u32 byte "byte list"
  | VLine byte
  | VFolder byte "byte list" "fav_view list"

fun view :: "fav \<Rightarrow> fav_view list" and view_items :: "fav_item list \<Rightarrow> fav_view list" where
  "view (Fav b al nb nl nf li fi its) = view_items its"
| "view_items [] = []"
| "view_items (it # its) =
     (if valid_item it
      then [case it of FBoard a b v ba p \<Rightarrow> VBoard a b v ba p | FLine a _ \<Rightarrow> VLine a | FFolder a _ t s \<Rightarrow> VFolder a t (view s)]
      else []) @ view_items its"

lemma view_items_append [simp]: "view_items (xs @ ys) = view_items xs @ view_items ys"
  by (induction xs) auto

lemma need_rebuild_append: "need_rebuild_items (xs @ ys) \<longleftrightarrow> need_rebuild_items xs \<or> need_rebuild_items ys"
  by (induction xs) auto

lemma view_sel: "view fp = view_items (favh fp)"
  by (cases fp) simp

text \<open>The loop of \<open>rebuild_fav\<close> appends the valid entries, each folder rebuilt.\<close>

definition live_item :: "fav_item \<Rightarrow> fav_item" where
  "live_item it = (case it of FFolder a f t s \<Rightarrow> FFolder a f t (fst (rebuild_fav s)) | _ \<Rightarrow> it)"

definition live_items :: "fav_item list \<Rightarrow> fav_item list" where "live_items its = map live_item (filter valid_item its)"

definition live_delta :: "fav_item list \<Rightarrow> int" where
  "live_delta its =
     (\<Sum>it\<leftarrow>filter valid_item its. 1 + (case it of FFolder a f t s \<Rightarrow> snd (rebuild_fav s) | _ \<Rightarrow> 0))"

lemma rebuild_items_fold:
  "rebuild_items its fp n = (foldl (\<lambda>fp it. fav_increase it fp) fp (live_items its), n + live_delta its)"
proof (induction its arbitrary: fp n)
  case (Cons it its)
  then show ?case by (cases it) (auto simp: live_items_def live_item_def live_delta_def split: prod.split)
qed (simp add: live_items_def live_delta_def)

text \<open>Entries that differ only in the id.\<close>

definition same_but_id :: "fav_item \<Rightarrow> fav_item \<Rightarrow> bool" where "same_but_id y x \<longleftrightarrow> (\<exists>fp. y = with_id x fp)"

lemma same_but_id_items:
  assumes "list_all2 same_but_id ys xs"
  shows "map fav_head ys = map fav_head xs" "addrs_items ys = addrs_items xs" "vtotal_items ys = vtotal_items xs"
    "tree_ok_items ys = tree_ok_items xs" "view_items ys = view_items xs" "need_rebuild_items ys = need_rebuild_items xs"
proof -
  have c: "fav_head y = fav_head x \<and> addrs_items [y] = addrs_items [x] \<and> vtotal_items [y] = vtotal_items [x] \<and>
      tree_ok_items [y] = tree_ok_items [x] \<and> view_items [y] = view_items [x] \<and> need_rebuild_items [y] = need_rebuild_items [x]"
    if "same_but_id y x" for x y
    using that by (cases x) (auto simp: same_but_id_def fav_head_def valid_item_def is_set_attr_def)
  show "map fav_head ys = map fav_head xs" using assms c by (induction rule: list_all2_induct) simp_all
  show "addrs_items ys = addrs_items xs" using assms c by (induction rule: list_all2_induct) simp_all
  show "vtotal_items ys = vtotal_items xs" using assms c by (induction rule: list_all2_induct) simp_all
  show "tree_ok_items ys = tree_ok_items xs" using assms c by (induction rule: list_all2_induct) simp_all
  show "view_items ys = view_items xs" using assms
  proof (induction rule: list_all2_induct)
    case (Cons y ys x xs)
    then show ?case using view_items_append [of "[y]" ys] view_items_append [of "[x]" xs] c [OF Cons(1)] by (simp only: append_Cons append_Nil)
  qed simp
  show "need_rebuild_items ys = need_rebuild_items xs" using assms
  proof (induction rule: list_all2_induct)
    case (Cons y ys x xs)
    then show ?case using need_rebuild_append [of "[y]" ys] need_rebuild_append [of "[x]" xs] c [OF Cons(1)] by (simp only: append_Cons append_Nil)
  qed simp
qed

lemma fold_increase:
  assumes "list_all valid_item xs"
  shows "\<exists>ys. list_all2 same_but_id ys xs \<and> favh (foldl (\<lambda>fp it. fav_increase it fp) fp xs) = favh fp @ ys \<and>
    fv_addr (foldl (\<lambda>fp it. fav_increase it fp) fp xs) = fv_addr fp \<and>
    (\<forall>its. counters_are fp its \<longrightarrow> counters_are (foldl (\<lambda>fp it. fav_increase it fp) fp xs) (its @ ys))"
  using assms
proof (induction xs arbitrary: fp)
  case (Cons x xs)
  obtain ys where ys: "list_all2 same_but_id ys xs"
    "favh (foldl (\<lambda>fp it. fav_increase it fp) (fav_increase x fp) xs) = favh (fav_increase x fp) @ ys"
    "fv_addr (foldl (\<lambda>fp it. fav_increase it fp) (fav_increase x fp) xs) = fv_addr (fav_increase x fp)"
    "\<And>its. counters_are (fav_increase x fp) its \<Longrightarrow> counters_are (foldl (\<lambda>fp it. fav_increase it fp) (fav_increase x fp) xs) (its @ ys)"
    using Cons by fastforce
  have "list_all2 same_but_id (with_id x fp # ys) (x # xs)" using ys(1) by (auto simp: same_but_id_def)
  moreover have "counters_are (foldl (\<lambda>fp it. fav_increase it fp) fp (x # xs)) (its @ with_id x fp # ys)" if "counters_are fp its" for its
    using ys(4) [OF counters_are_increase [OF that]] Cons(2) by simp
  ultimately show ?case using ys(2,3) by (intro exI [of _ "with_id x fp # ys"]) simp
qed simp

lemma live_valid: "list_all valid_item (live_items its)"
proof -
  have "valid_item (live_item it) = valid_item it" for it by (cases it) (simp_all add: live_item_def valid_item_def is_set_attr_def)
  then show ?thesis by (simp add: live_items_def list_all_iff)
qed

lemma live_heads: "map fav_head (live_items its) = filter fst (map fav_head its)"
proof -
  have "fav_head (live_item it) = fav_head it" for it
    by (cases it) (simp_all add: live_item_def fav_head_def valid_item_def is_set_attr_def)
  then show ?thesis by (induction its) (auto simp: live_items_def fav_head_def)
qed

lemma filter_heads:
  "map fav_head its' = filter fst (map fav_head its) \<Longrightarrow> cnt k its' = cnt k its \<and> board_ids its' = board_ids its"
proof -
  have "filter (\<lambda>(v, k', _). v \<and> k' = k) (filter fst hs) = filter (\<lambda>(v, k', _). v \<and> k' = k) hs" for k and hs :: "(bool \<times> fav_kind \<times> u32) list"
    by (induction hs) auto
  moreover assume "map fav_head its' = filter fst (map fav_head its)"
  ultimately show ?thesis by (simp only: cnt_def board_ids_def)
qed

lemma length_valid: "list_all valid_item its \<Longrightarrow> length its = cnt FAVT_BOARD its + cnt FAVT_LINE its + cnt FAVT_FOLDER its"
proof (induction its)
  case (Cons it its)
  then show ?case by (cases it) auto
qed simp

lemma valid_heads: "map fav_head its' = map fav_head its \<Longrightarrow> list_all valid_item its' = list_all valid_item its"
proof -
  have "list_all valid_item xs = list_all fst (map fav_head xs)" for xs by (induction xs) (simp_all add: fav_head_def)
  then show "map fav_head its' = map fav_head its \<Longrightarrow> ?thesis" by simp
qed

lemma cut_tail_eq: "int (length (favh fp)) = get_data_number fp \<Longrightarrow> cut_tail fp = fp"
  by (cases fp) (simp add: cut_tail_def put_items_def)

text \<open>\<open>rebuild_fav\<close> on a folder whose counters are right: they do not change.\<close>

lemma rebuild_node:
  assumes ok: "node_ok r"
  obtains ys where "list_all2 same_but_id ys (live_items (favh r))" "favh (fst (rebuild_fav r)) = ys"
    "fv_addr (fst (rebuild_fav r)) = fv_addr r" "node_ok (fst (rebuild_fav r))"
    "snd (rebuild_fav r) = live_delta (favh r) - get_data_number r"
proof -
  obtain b al nb nl nf li fi its where r: "r = Fav b al nb nl nf li fi its" by (cases r)
  let ?fp = "foldl (\<lambda>fp it. fav_increase it fp) (Fav b al 0 0 0 0 0 []) (live_items its)"
  obtain ys where ys: "list_all2 same_but_id ys (live_items its)" "favh ?fp = ys" "fv_addr ?fp = b"
    and c': "\<And>its. counters_are (Fav b al 0 0 0 0 0 []) its \<Longrightarrow> counters_are ?fp (its @ ys)"
    using fold_increase [OF live_valid, of its "Fav b al 0 0 0 0 0 []"] by (elim exE conjE) simp
  have c: "counters_are ?fp ys" using c' [of "[]"] by (simp add: counters_are_def)
  have h: "map fav_head ys = filter fst (map fav_head its)" using same_but_id_items(1) [OF ys(1)] live_heads by simp
  have n: "node_ok ?fp" using ok c filter_heads [OF h] by (simp add: node_ok_iff r ys(2) counts_small_def)
  have "int (length ys) = get_data_number ?fp"
    using n length_valid [of ys] live_valid valid_heads [OF same_but_id_items(1) [OF ys(1)]]
    by (simp add: get_data_number_def node_ok_def ys(2))
  then have "cut_tail ?fp = ?fp" by (intro cut_tail_eq) (simp only: ys(2))
  then show thesis using that ys n by (simp add: r rebuild_items_fold)
qed

lemma rebuild_facts:
  "tree_ok r \<Longrightarrow> tree_ok (fst (rebuild_fav r)) \<and> snd (rebuild_fav r) = 0 \<and> mset (addrs (fst (rebuild_fav r))) \<subseteq># mset (addrs r) \<and>
     vtotal (fst (rebuild_fav r)) \<le> vtotal r \<and> view (fst (rebuild_fav r)) = view r \<and> \<not> is_need_rebuild_fav (fst (rebuild_fav r))"
  "tree_ok_items its \<Longrightarrow> tree_ok_items (live_items its) \<and> live_delta its = int (cnt FAVT_BOARD its + cnt FAVT_LINE its + cnt FAVT_FOLDER its) \<and>
     mset (addrs_items (live_items its)) \<subseteq># mset (addrs_items its) \<and> vtotal_items (live_items its) \<le> vtotal_items its \<and>
     view_items (live_items its) = view_items its \<and> \<not> need_rebuild_items (live_items its)"
proof (induction r and its rule: addrs_addrs_items.induct)
  case (1 b al nb nl nf li fi its)
  let ?r = "Fav b al nb nl nf li fi its"
  have ok: "node_ok ?r" "tree_ok_items its" using 1(2) by simp_all
  obtain ys where ys: "list_all2 same_but_id ys (live_items its)" "favh (fst (rebuild_fav ?r)) = ys"
    "fv_addr (fst (rebuild_fav ?r)) = b" "node_ok (fst (rebuild_fav ?r))"
    "snd (rebuild_fav ?r) = live_delta its - get_data_number ?r"
    using rebuild_node [OF ok(1)] by auto
  have "is_need_rebuild_fav fp = need_rebuild_items (favh fp)" for fp by (cases fp) simp
  then show ?case using 1(1) [OF ok(2)] ys(2-5) ok(1) same_but_id_items [OF ys(1)]
    by (simp add: tree_sel view_sel get_data_number_def node_ok_def del: rebuild_fav.simps)
next
  case (3 it its)
  show ?case
  proof (cases "valid_item it")
    case False
    then show ?thesis using 3 by (cases it) (auto simp: live_items_def live_delta_def intro: subset_mset.order_trans)
  next
    case True
    then show ?thesis using 3
      by (cases it) (auto simp: live_items_def live_delta_def live_item_def valid_item_def is_set_attr_def intro!: subset_mset.add_mono)
  qed
qed (simp add: live_items_def live_delta_def)

lemma rebuild_addr [simp]: "fv_addr (fst (rebuild_fav fp)) = fv_addr fp"
proof (cases fp)
  case (Fav b al nb nl nf li fi its)
  then show ?thesis using fold_increase [OF live_valid, of its "Fav b al 0 0 0 0 0 []"]
    by (auto simp: rebuild_items_fold cut_tail_def)
qed

lemma rebuild_folder:
  assumes "tree_ok fp" "FFolder a f t s \<in> set (favh fp)" "valid_item (FFolder a f t s)"
  shows "\<exists>f'. FFolder a f' t (fst (rebuild_fav s)) \<in> set (favh (fst (rebuild_fav fp)))"
proof -
  obtain ys where ys: "list_all2 same_but_id ys (live_items (favh fp))" "favh (fst (rebuild_fav fp)) = ys"
    using rebuild_node assms(1) by (metis tree_sel(3))
  have "FFolder a f t (fst (rebuild_fav s)) \<in> set (live_items (favh fp))"
    using assms(2,3) by (force simp: live_items_def live_item_def)
  then obtain y where "y \<in> set ys" "same_but_id y (FFolder a f t (fst (rebuild_fav s)))"
    using ys(1) by (metis in_set_conv_nth list_all2_conv_all_nth)
  then show ?thesis using ys(2) by (auto simp: same_but_id_def)
qed

lemma rebuild_path:
  assumes "tree_ok r" "path_ok st r"
  shows "path_ok st (fst (rebuild_fav r))"
proof (rule path_rewrite [where F = "\<lambda>r. fst (rebuild_fav r)" and ?st0.0 = st, OF _ _ assms(2,1)])
  show "\<exists>a' f' t'. FFolder a' f' t' (fst (rebuild_fav s)) \<in> set (favh (fst (rebuild_fav fp))) \<and>
      valid_item (FFolder a' f' t' (fst (rebuild_fav s)))"
    if "tree_ok fp" "FFolder a f t s \<in> set (favh fp)" "valid_item (FFolder a f t s)" "fv_addr s \<in> set st" for fp a f t s
    using rebuild_folder [OF that(1-3)] that(3) by (auto simp: valid_item_def is_set_attr_def)
qed simp_all

lemma fav_cleanup_inv: "fav_inv s \<Longrightarrow> fav_inv (fav_cleanup s)"
proof (cases "fs_root s")
  case (Some r)
  assume s: "fav_inv s"
  show ?thesis
  proof (cases "is_need_rebuild_fav r")
    case True
    have tr: "tree_ok r" "path_ok (fav_stack s) r" using s Some by (simp_all add: fav_inv_root)
    show ?thesis
      by (rule fav_inv_root_upd [OF s Some, where r' = "fst (rebuild_fav r)"])
        (use True Some rebuild_facts(1) [OF tr(1)] rebuild_path [OF tr] in \<open>auto simp: fav_cleanup_def\<close>)
  qed (use s Some in \<open>simp add: fav_cleanup_def\<close>)
qed (simp add: fav_cleanup_def)

lemma upd_fav_addrs_sub:
  "distinct (addrs r) \<Longrightarrow> find_fav a r = Some fp \<Longrightarrow> mset (addrs (g fp)) \<subseteq># mset (addrs fp) \<Longrightarrow>
     mset (addrs (upd_fav a g r)) \<subseteq># mset (addrs r)"
  "distinct (addrs_items its) \<Longrightarrow> find_items a its = Some fp \<Longrightarrow> mset (addrs (g fp)) \<subseteq># mset (addrs fp) \<Longrightarrow>
     mset (addrs_items (upd_items a g its)) \<subseteq># mset (addrs_items its)"
proof (induction r and its rule: addrs_addrs_items.induct)
  case (1 b al nb nl nf li fi its)
  then show ?case by (auto split: if_splits)
next
  case (3 it its)
  show ?case
  proof (cases it)
    case (FFolder x f t s)
    show ?thesis
    proof (cases "find_fav a s")
      case None
      then have "a \<notin> set (addrs s)" using find_fav_in(1) [of a s] by force
      then show ?thesis using 3 FFolder None upd_fav_notin(1) [of a s g] by auto
    next
      case (Some fq)
      then have "a \<notin> set (addrs_items its)" using 3(3) FFolder find_fav_Some [OF Some] by auto
      then show ?thesis using 3 FFolder Some upd_fav_notin(2) [of a its g] by auto
    qed
  qed (use 3 in auto)
qed simp

text \<open>Any permutation keeps the invariant.\<close>

lemma sort_current_inv:
  assumes inv: "fav_inv s" and qs: "\<And>its. mset (qs its) = mset its"
  shows "fav_inv (sort_current qs s)"
proof (cases "get_current_fav s")
  case (Some fp)
  obtain r where r: "fs_root s = Some r" "find_fav (last (fav_stack s)) r = Some fp" "tree_ok fp"
    using current_cases [OF inv Some] by metis
  let ?g = "\<lambda>fp. put_items (qs (favh (fst (rebuild_fav fp)))) (fst (rebuild_fav fp))" and ?f = "fst (rebuild_fav fp)"
  have i: "tree_ok r" "distinct (addrs r)" "path_ok (fav_stack s) r" using inv by (auto simp: fav_inv_root [OF r(1)])
  note f = rebuild_facts(1) [OF r(3)] and pm = perm_items [OF qs [of "favh ?f"]]
  have g: "tree_ok (?g fp)" using f pm by (simp add: tree_sel node_ok_iff counts_small_def) (simp add: counters_are_def)
  have a: "mset (addrs (?g fp)) \<subseteq># mset (addrs fp)" "vtotal (?g fp) \<le> vtotal fp" using f pm by (simp_all add: tree_sel)
  show ?thesis
  proof (rule fav_inv_root_upd [OF inv r(1), where r' = "upd_fav (last (fav_stack s)) ?g r"])
    show "tree_ok (upd_fav (last (fav_stack s)) ?g r)" by (rule upd_fav_ok(1) [where ?r0.0 = r]) (use i r g in auto)
    show "mset (addrs (upd_fav (last (fav_stack s)) ?g r)) \<subseteq># mset (addrs r)"
      by (rule upd_fav_addrs_sub(1) [where g = ?g, OF i(2) r(2) a(1)])
    show "path_ok (fav_stack s) (upd_fav (last (fav_stack s)) ?g r)"
      by (rule path_upd [where g = ?g, OF i(3,2) r(2)]) simp
    show "int (vtotal (upd_fav (last (fav_stack s)) ?g r)) - int (vtotal r) \<le> fav_number (sort_current qs s) - fav_number s"
      using upd_fav_total(1) [OF i(2) r(2), of ?g] a(2) f Some by (simp add: sort_current_def)
  qed (use Some f r in \<open>simp_all add: sort_current_def upd_current_def\<close>)
qed (simp add: sort_current_def inv)

text \<open>
  The entry that \<open>fav_add_admtag\<close> leaves in the root is counted as a board although it is not one of the
  favourites: the counters do not agree until \<open>rebuild_fav\<close> runs.
\<close>

lemma fav_add_admtag_miscounts:
  assumes "fav_inv s" "fs_root s = Some r" "\<not> is_maxsize s"
  shows "\<exists>s'. fav_add_admtag True bid s = Some (True, s') \<and> \<not> fav_inv s'"
proof -
  let ?it = "FBoard FAVH_ADM_TAG (word_of_int bid) 0 0 [0, 0, 0]"
  let ?r = "fav_increase ?it (enlarge_if_full r)"
  have t: "tree_ok r" "int (vtotal r) \<le> fav_number s" "fav_number s < 1024"
    using assms by (auto simp: fav_inv_root is_maxsize_def MAX_FAV_def)
  have v: "\<not> valid_item ?it" by (simp add: valid_item_def is_set_attr_def FAVH_ADM_TAG_def FAVH_FAV_def)
  have nb: "sint (nBoards r) = int (cnt FAVT_BOARD (favh r))" "cnt FAVT_BOARD (favh r) < 1024"
    using t cnt_le_vtotal [of "favh r"] by (auto simp: tree_sel node_ok_def)
  have c: "cnt FAVT_BOARD (favh ?r) = cnt FAVT_BOARD (favh r)" using v by simp
  have "nBoards ?r \<noteq> nBoards r" by (simp add: fav_increase_def enlarge_if_full_def)
  then have n: "sint (nBoards ?r) \<noteq> sint (nBoards r)" by (metis signed_word_eqI)
  have "\<not> tree_ok ?r"
  proof
    assume "tree_ok ?r"
    then have "sint (nBoards ?r) = int (cnt FAVT_BOARD (favh ?r))" unfolding tree_sel(3) node_ok_def by blast
    then show False using n nb(1) unfolding c by simp
  qed
  then show ?thesis using assms(2,3) by (simp add: fav_add_admtag_def fav_inv_root)
qed

section \<open>Removing the tagged entries\<close>

text \<open>What the loop does to one entry: the entry afterwards, whether it is removed, and the removals below.\<close>

definition strip_item :: "nat list \<Rightarrow> fav_item \<Rightarrow> fav_item \<times> nat" where
  "strip_item st it =
     (case it of
        FFolder a f t s \<Rightarrow> if valid_item it then (FFolder a f t (fst (remove_tagged_fav st s)), snd (remove_tagged_fav st s)) else (it, 0)
      | _ \<Rightarrow> (it, 0))"

definition goes :: "nat list \<Rightarrow> fav_item \<Rightarrow> bool" where
  "goes st it \<longleftrightarrow> tagged it \<and> \<not> (case it of FFolder _ _ _ s \<Rightarrow> fv_addr s \<in> set st | _ \<Rightarrow> False)"

definition removed_item :: "nat list \<Rightarrow> fav_item \<Rightarrow> fav_item" where
  "removed_item st it =
     (if goes st it then put_attr 0 (fst (strip_item st it))
      else if tagged it then set_attr FAVH_TAG FALSE (fst (strip_item st it)) else fst (strip_item st it))"

lemma remove_tagged_Cons:
  "remove_tagged_items st (it # its) fp n =
     remove_tagged_items st its
       ((if goes st it then fav_decrease it else (\<lambda>fp. fp)) (put_items (favh fp @ [removed_item st it]) fp))
       (n + snd (strip_item st it) + (if goes st it then 1 else 0))"
  by (cases it) (auto simp: goes_def removed_item_def strip_item_def Let_def split: prod.split)

text \<open>The effect on one entry, given the effect on its folder.\<close>

definition strip_ok :: "nat list \<Rightarrow> fav \<Rightarrow> bool" where
  "strip_ok st r \<longleftrightarrow> (tree_ok r \<longrightarrow> tree_ok (fst (remove_tagged_fav st r))) \<and> addrs (fst (remove_tagged_fav st r)) = addrs r \<and>
     vtotal (fst (remove_tagged_fav st r)) + snd (remove_tagged_fav st r) = vtotal r"

lemma removed_item_head: "fav_head (removed_item st it) = (if goes st it then (False, snd (fav_head it)) else fav_head it)"
  by (cases it) (auto simp: removed_item_def strip_item_def fav_head_def set_attr_def goes_def tagged_def valid_item_def is_set_attr_def untag_bits)

lemma removed_item_facts:
  assumes "\<And>a f t s. it = FFolder a f t s \<Longrightarrow> valid_item it \<Longrightarrow> strip_ok st s"
  shows "addrs_items [removed_item st it] = addrs_items [it]"
    "vtotal_items [removed_item st it] + snd (strip_item st it) + (if goes st it then 1 else 0) = vtotal_items [it]"
    "tree_ok_items [it] \<Longrightarrow> tree_ok_items [removed_item st it]"
  using assms
  by (cases it; auto simp: removed_item_def strip_item_def strip_ok_def set_attr_def goes_def tagged_def valid_item_def is_set_attr_def untag_bits)+

lemma removed_item_cnt:
  "cnt k [it] = cnt k [removed_item st it] + (if goes st it \<and> get_item_type it = k then 1 else 0)"
  "board_ids [removed_item st it] = (if goes st it then [] else board_ids [it])"
proof -
  have "goes st it \<Longrightarrow> valid_item it" by (simp add: goes_def tagged_def)
  then show "cnt k [it] = cnt k [removed_item st it] + (if goes st it \<and> get_item_type it = k then 1 else 0)"
    using removed_item_head [of st it] by (auto simp: fav_head_def)
  show "board_ids [removed_item st it] = (if goes st it then [] else board_ids [it])"
    by (simp add: board_ids_def removed_item_head)
qed

lemma remove_tagged_items_facts:
  assumes "\<And>a f t s. FFolder a f t s \<in> set its \<Longrightarrow> valid_item (FFolder a f t s) \<Longrightarrow> strip_ok st s"
  shows "case remove_tagged_items st its fp n of (fp', n') \<Rightarrow>
     fv_addr fp' = fv_addr fp \<and> favh fp' = favh fp @ map (removed_item st) its \<and>
     (counters_are fp (favh fp @ its) \<longrightarrow> counters_are fp' (favh fp')) \<and>
     vtotal_items (favh fp') + n' = vtotal_items (favh fp @ its) + n"
  using assms
proof (induction its arbitrary: fp n)
  case (Cons it its)
  let ?fp = "(if goes st it then fav_decrease it else (\<lambda>fp. fp)) (put_items (favh fp @ [removed_item st it]) fp)"
  let ?n = "n + snd (strip_item st it) + (if goes st it then 1 else 0)"
  have IH: "case remove_tagged_items st its ?fp ?n of (fp', n') \<Rightarrow>
     fv_addr fp' = fv_addr ?fp \<and> favh fp' = favh ?fp @ map (removed_item st) its \<and>
     (counters_are ?fp (favh ?fp @ its) \<longrightarrow> counters_are fp' (favh fp')) \<and>
     vtotal_items (favh fp') + n' = vtotal_items (favh ?fp @ its) + ?n"
    by (rule Cons.IH) (meson Cons.prems list.set_intros(2))
  have f: "favh ?fp = favh fp @ [removed_item st it]" "fv_addr ?fp = fv_addr fp" by simp_all
  have "counters_are ?fp (favh ?fp @ its)" if c: "counters_are fp (favh fp @ it # its)"
  proof -
    have k: "cnt k (favh fp @ it # its) = cnt k (favh ?fp @ its) + (if goes st it \<and> get_item_type it = k then 1 else 0)" for k
      using removed_item_cnt(1) [of k it st] by (simp only: f cnt_append) simp
    show ?thesis
    proof (cases "goes st it")
      case True
      have "counters_are (put_items (favh fp @ [removed_item st it]) fp) (favh fp @ it # its)" using c by simp
      then have "counters_are (fav_decrease it (put_items (favh fp @ [removed_item st it]) fp)) (favh ?fp @ its)"
        by (rule counters_are_decrease) (use k True in presburger)
      then show ?thesis using True by simp
    next
      case False
      then show ?thesis using c k by (simp add: counters_are_def)
    qed
  qed
  moreover have "vtotal_items (favh ?fp @ its) + ?n = vtotal_items (favh fp @ it # its) + n"
  proof -
    have "vtotal_items [removed_item st it] + snd (strip_item st it) + (if goes st it then 1 else 0) = vtotal_items [it]"
      by (rule removed_item_facts(2)) (use Cons.prems in auto)
    moreover have "vtotal_items (favh fp @ it # its) = vtotal_items (favh fp) + vtotal_items [it] + vtotal_items its" by simp
    moreover have "vtotal_items (favh ?fp @ its) = vtotal_items (favh fp) + vtotal_items [removed_item st it] + vtotal_items its"
      by (simp only: f vtotal_items_append)
    ultimately show ?thesis by linarith
  qed
  ultimately show ?case using IH f by (simp only: remove_tagged_Cons) (auto split: prod.splits)
qed simp

lemma removed_items_tree:
  assumes "\<And>a f t s. FFolder a f t s \<in> set its \<Longrightarrow> strip_ok st s"
  shows "addrs_items (map (removed_item st) its) = addrs_items its \<and>
    (tree_ok_items its \<longrightarrow> tree_ok_items (map (removed_item st) its))"
  using assms
proof (induction its)
  case (Cons it its)
  have "addrs_items (map (removed_item st) its) = addrs_items its \<and> (tree_ok_items its \<longrightarrow> tree_ok_items (map (removed_item st) its))"
    by (rule Cons.IH) (meson Cons.prems list.set_intros(2))
  moreover have "addrs_items [removed_item st it] = addrs_items [it]" "tree_ok_items [it] \<Longrightarrow> tree_ok_items [removed_item st it]"
    by (rule removed_item_facts; use Cons.prems in auto)+
  ultimately show ?case by simp
qed simp

lemma removed_items_cnt:
  "cnt k (map (removed_item st) its) \<le> cnt k its"
  "distinct (board_ids its) \<Longrightarrow> distinct (board_ids (map (removed_item st) its))"
proof -
  show "cnt k (map (removed_item st) its) \<le> cnt k its"
  proof (induction its)
    case (Cons it its)
    then show ?case using removed_item_cnt(1) [of k it st] by simp
  qed simp
  have c: "board_ids (x # xs) = board_ids [x] @ board_ids xs" for x xs by simp
  have "board_ids (map (removed_item st) its) = board_ids (filter (\<lambda>it. \<not> goes st it) its)"
  proof (induction its)
    case (Cons it its)
    then show ?case
      using c [of "removed_item st it" "map (removed_item st) its"] c [of it "filter (\<lambda>it. \<not> goes st it) its"] removed_item_cnt(2) [of st it]
      by (cases "goes st it") (simp_all del: board_ids_Cons)
  qed simp
  moreover have "mset (board_ids (filter P its)) \<subseteq># mset (board_ids its)" for P
    by (induction its) (auto intro: subset_mset.add_increasing)
  ultimately show "distinct (board_ids its) \<Longrightarrow> distinct (board_ids (map (removed_item st) its))"
    using distinct_subset_mset by metis
qed

lemma strip_ok_all: "strip_ok st r"
proof (induction r rule: measure_induct_rule [where f = size])
  case (less r)
  obtain b al nb nl nf li fi its where r: "r = Fav b al nb nl nf li fi its" by (cases r)
  have sub: "strip_ok st s" if "FFolder a f t s \<in> set its" for a f t s
  proof (rule less)
    have "size (FFolder a f t s) < size r" using that size_list_estimation' [of "FFolder a f t s" its "size (FFolder a f t s)" size] r by simp
    then show "size s < size r" by simp
  qed
  let ?its = "map (removed_item st) its" and ?fp = "Fav b al nb nl nf li fi []"
  obtain fp' n' where e: "remove_tagged_items st its ?fp 0 = (fp', n')" by fastforce
  have f: "fv_addr fp' = b" "favh fp' = ?its" "counters_are r its \<Longrightarrow> counters_are fp' ?its" "vtotal_items ?its + n' = vtotal_items its"
    using remove_tagged_items_facts [of its st ?fp 0] sub e r by (auto simp: counters_are_def)
  note t = removed_items_tree [OF sub]
  have "tree_ok r \<Longrightarrow> tree_ok fp'"
    using f t removed_items_cnt counts_small_mono [of its ?its] r by (simp add: tree_sel node_ok_iff)
  then show ?case using f t r e by (simp add: strip_ok_def tree_sel)
qed

lemma remove_tagged_addr [simp]: "fv_addr (fst (remove_tagged_fav st fp)) = fv_addr fp"
  using strip_ok_all [of st fp] by (simp add: strip_ok_def tree_sel)

lemma remove_tagged_items_eq: "favh (fst (remove_tagged_fav st fp)) = map (removed_item st) (favh fp)"
proof (cases fp)
  case (Fav b al nb nl nf li fi its)
  then show ?thesis using remove_tagged_items_facts [of its st "Fav b al nb nl nf li fi []" 0] strip_ok_all by (auto split: prod.splits)
qed

lemma fav_remove_all_tagged_item_inv:
  assumes "fav_inv s"
  shows "fav_inv (fav_remove_all_tagged_item s)"
proof (cases "fs_root s")
  case (Some r)
  let ?F = "\<lambda>r. fst (remove_tagged_fav (fav_stack s) r)"
  have p: "path_ok (fav_stack s) (?F r)"
  proof (rule path_rewrite [where F = ?F and ?st0.0 = "fav_stack s"])
    show "\<exists>a' f' t'. FFolder a' f' t' (?F sa) \<in> set (favh (?F fp)) \<and> valid_item (FFolder a' f' t' (?F sa))"
      if "tree_ok fp" "FFolder a f t sa \<in> set (favh fp)" "valid_item (FFolder a f t sa)" "fv_addr sa \<in> set (fav_stack s)" for fp a f t sa
    proof -
      let ?it = "FFolder a f t sa"
      have g: "\<not> goes (fav_stack s) ?it" using that(4) by (simp add: goes_def)
      then have "\<exists>a'. removed_item (fav_stack s) ?it = FFolder a' f t (?F sa)"
        using that(3) by (auto simp: removed_item_def strip_item_def set_attr_def)
      then obtain a' where a': "removed_item (fav_stack s) ?it = FFolder a' f t (?F sa)" ..
      moreover have "valid_item (removed_item (fav_stack s) ?it)"
        using removed_item_head [of "fav_stack s" ?it] g that(3) by (simp add: fav_head_def)
      ultimately show ?thesis using imageI [OF that(2), of "removed_item (fav_stack s)"] by (auto simp: remove_tagged_items_eq)
    qed
  qed (use assms Some in \<open>auto simp: fav_inv_root\<close>)
  show ?thesis
    by (rule fav_inv_root_upd [OF assms Some, where r' = "?F r"])
      (use assms Some strip_ok_all [of "fav_stack s" r] p in
        \<open>auto simp: fav_remove_all_tagged_item_def fav_inv_root strip_ok_def split: prod.splits\<close>)
qed (use assms in \<open>simp add: fav_remove_all_tagged_item_def\<close>)

section \<open>Moving an entry\<close>

lemma view_items_map:
  "view_items its = map (\<lambda>it. case it of FBoard a b v ba p \<Rightarrow> VBoard a b v ba p | FLine a _ \<Rightarrow> VLine a | FFolder a _ t s \<Rightarrow> VFolder a t (view s))
     (filter valid_item its)"
  by (induction its) auto

lemma visible_index_iff:
  "visible_index n its = Some i \<longleftrightarrow> i < length its \<and> valid_item (its ! i) \<and> n = length (filter valid_item (take i its))"
proof (induction its arbitrary: n i)
  case (Cons it its)
  show ?case by (cases n; cases i) (auto simp: Cons.IH)
qed simp

lemma visible_index_None: "visible_index n its = None \<longleftrightarrow> length (filter valid_item its) \<le> n"
proof (induction its arbitrary: n)
  case (Cons it its)
  show ?case by (cases n) (auto simp: Cons.IH)
qed simp

text \<open>The entry \<open>i\<close> taken out, and put back so that it is the entry \<open>j\<close>.\<close>

definition move_spec :: "nat \<Rightarrow> nat \<Rightarrow> 'a list \<Rightarrow> 'a list" where
  "move_spec i j xs = (let ys = take i xs @ drop (Suc i) xs in take j ys @ [xs ! i] @ drop j ys)"

lemma move_forward:
  "move_spec (length as) (length as + Suc (length bs)) (as @ x # bs @ y # cs) = as @ bs @ y # x # cs"
  "move_items (length as) (length as + Suc (length bs)) (as @ x # bs @ y # cs) = as @ bs @ y # x # cs"
  by (simp_all add: move_spec_def move_items_def)

lemma move_back:
  "move_spec (length as + Suc (length bs)) (length as) (as @ y # bs @ x # cs) = as @ x # y # bs @ cs"
  "move_items (length as + Suc (length bs)) (length as) (as @ y # bs @ x # cs) = as @ x # y # bs @ cs"
  by (simp_all add: move_spec_def move_items_def nth_append)

lemma map_move_spec: "i < length xs \<Longrightarrow> map f (move_spec i j xs) = move_spec i j (map f xs)"
  by (simp add: move_spec_def take_map drop_map Let_def)

lemma two_split:
  assumes "i < j" "j < length xs"
  obtains as bs cs where "xs = as @ xs ! i # bs @ xs ! j # cs" "length as = i" "j = length as + Suc (length bs)"
proof
  have "drop (Suc i) xs = take (j - Suc i) (drop (Suc i) xs) @ xs ! j # drop (Suc j) xs"
    using assms id_take_nth_drop [of "j - Suc i" "drop (Suc i) xs"] by simp
  then show "xs = take i xs @ xs ! i # take (j - Suc i) (drop (Suc i) xs) @ xs ! j # drop (Suc j) xs"
    using assms id_take_nth_drop [of i xs] by simp
qed (use assms in simp_all)

lemma filter_move_items:
  assumes "visible_index n its = Some i" "visible_index m its = Some j" "i \<noteq> j"
  shows "filter valid_item (move_items i j its) = move_spec n m (filter valid_item its)"
proof -
  let ?F = "filter valid_item"
  note v = assms(1,2) [unfolded visible_index_iff]
  show ?thesis
  proof (cases "i < j")
    case True
    obtain as bs cs x y where s: "its = as @ x # bs @ y # cs" "length as = i" "j = length as + Suc (length bs)" "x = its ! i" "y = its ! j"
      using two_split [of i j its] True v by metis
    have "take i its = as" "take j its = as @ x # bs" using s(1-3) by simp_all
    then have "n = length (?F as)" "m = length (?F as) + Suc (length (?F bs))" "valid_item x" "valid_item y" using v s(4,5) by simp_all
    then show ?thesis using move_forward(1) [of "?F as" "?F bs" x y "?F cs"] move_forward(2) [of as bs x y cs] s(1-3) by simp
  next
    case False
    then obtain as bs cs x y where s: "its = as @ y # bs @ x # cs" "length as = j" "i = length as + Suc (length bs)" "x = its ! i" "y = its ! j"
      using two_split [of j i its] assms(3) v by (metis linorder_neqE_nat)
    have "take j its = as" "take i its = as @ y # bs" using s(1-3) by simp_all
    then have "m = length (?F as)" "n = length (?F as) + Suc (length (?F bs))" "valid_item x" "valid_item y" using v s(4,5) by simp_all
    then show ?thesis using move_back(1) [of "?F as" "?F bs" y x "?F cs"] move_back(2) [of as bs y x cs] s(1-3) by simp
  qed
qed

lemma move_spec_same: "i < length xs \<Longrightarrow> move_spec i i xs = xs"
  using id_take_nth_drop [of i xs] by (simp add: move_spec_def)

section \<open>The properties\<close>

text \<open>
  \<open>rebuild_fav\<close> drops exactly the removed entries, at every depth: what the user sees does not change, no
  removed entry is left, the counters are right and \<open>fav_number\<close> does not change.
\<close>

lemma rebuild_fav_keeps:
  assumes "tree_ok r"
  shows "view (fst (rebuild_fav r)) = view r \<and> tree_ok (fst (rebuild_fav r)) \<and> \<not> is_need_rebuild_fav (fst (rebuild_fav r)) \<and>
    snd (rebuild_fav r) = 0"
  using rebuild_facts(1) [OF assms] by simp

text \<open>
  \<open>move_in_folder\<close> moves the entry the user sees at \<open>i\<close> to \<open>j\<close> and keeps the order of the others, wherever removed
  entries lie between them; positions past the end change nothing.
\<close>

lemma move_in_folder_view:
  assumes "tree_ok fp"
  shows "view (move_in_folder i j fp) =
    (if i < length (view fp) \<and> j < length (view fp) then move_spec i j (view fp) else view fp)"
proof -
  let ?F = "filter valid_item (favh fp)"
  have l: "length (view fp) = length ?F" by (simp add: view_sel view_items_map)
  have c: "get_data_number fp = int (length ?F)"
    using assms length_valid [of ?F] by (simp add: tree_sel node_ok_def get_data_number_def list_all_iff cnt_def fav_head_def filter_map comp_def)
  have p: "move_pos n fp = n" if "n < length ?F" for n
    using order_less_le_trans [OF that length_filter_le] by (simp add: move_pos_def DataTail_def)
  have q: "visible_index (move_pos n fp) (favh fp) = None" if "\<not> n < length ?F" for n
    using that c by (simp add: move_pos_def visible_index_None)
  show ?thesis
  proof (cases "i < length ?F \<and> j < length ?F")
    case False
    then show ?thesis using q l by (auto simp: move_in_folder_def split: option.split)
  next
    case True
    then obtain i' j' where v: "visible_index i (favh fp) = Some i'" "visible_index j (favh fp) = Some j'"
      by (meson linorder_not_le option.exhaust visible_index_None)
    show ?thesis
    proof (cases "i = j")
      case True
      then show ?thesis using l by (simp add: move_in_folder_def move_spec_same)
    next
      case False
      then have "i' \<noteq> j'" using v by (auto simp: visible_index_iff)
      then have "filter valid_item (move_items i' j' (favh fp)) = move_spec i j ?F" by (rule filter_move_items [OF v])
      then show ?thesis using True False p v l by (simp add: move_in_folder_def view_sel view_items_map map_move_spec)
    qed
  qed
qed

end
