(* ===== verification/FavFile.thy ===== *)
theory FavFile
  imports Fav
begin

text \<open>
  The file \<open>.fav\<close> of the favourites, \<open>src/mbbsd/fav.c\<close>: \<open>write_favrec\<close>, \<open>read_favrec\<close>, \<open>fav_load\<close> and
  \<open>fav_save\<close> on a file that is its list of bytes, and the life of the favourites over many logins.
  The format is the one of the Big5 build, where no text is converted.
  The theory shows that reading a written tree gives the same entries, and that the
  invariant of the theory \<open>Fav\<close> holds after any sequence of operations, saves and logins.
\<close>

section \<open>The file\<close>

text \<open>\<open>fread\<close> into memory that is 0: what the file does not hold stays 0.\<close>

definition fread :: "nat \<Rightarrow> byte list \<Rightarrow> byte list \<times> byte list" where
  "fread n s = (take n (s @ replicate n 0), drop n s)"

text \<open>The bytes of an entry, and of the first \<open>n\<close>; \<^const>\<open>None\<close> when there are fewer.\<close>

fun item_bytes :: "fav_item \<Rightarrow> byte list" where
  "item_bytes (FBoard a b v ba p) = [1, a] @ to_le 4 (unat b) @ to_le 4 (unat v) @ [ba] @ p"
| "item_bytes (FFolder a f t s) = [2, a, f] @ t"
| "item_bytes (FLine a l) = [3, a, l]"

fun items_bytes :: "nat \<Rightarrow> fav_item list \<Rightarrow> byte list option" where
  "items_bytes 0 its = Some []"
| "items_bytes (Suc n) [] = None"
| "items_bytes (Suc n) (it # its) =
     map_option (\<lambda>bs. item_bytes it @ bs) (items_bytes n its)"

text \<open>\<open>write_favrec\<close>: the counters, the entries, and then the folders among them in order.\<close>

fun write_favrec :: "fav \<Rightarrow> byte list option" and write_subs :: "nat \<Rightarrow> fav_item list \<Rightarrow> byte list option" where
  "write_favrec (Fav b al nb nl nf li fi its) =
     (let n = nat (get_data_number (Fav b al nb nl nf li fi its)) in
      case items_bytes n its of
        None \<Rightarrow> None
      | Some bs \<Rightarrow> map_option (\<lambda>subs. to_le 2 (unat nb) @ [nl, nf] @ bs @ subs) (write_subs n its))"
| "write_subs 0 its = Some []"
| "write_subs (Suc n) [] = None"
| "write_subs (Suc n) (it # its) =
     (case it of
        FFolder _ _ _ s \<Rightarrow>
          (case write_favrec s of
             None \<Rightarrow> None
           | Some b \<Rightarrow> map_option (\<lambda>bs. b @ bs) (write_subs n its))
      | _ \<Rightarrow> write_subs n its)"

text \<open>\<open>write_favrec\<close> also cuts every folder it writes to the counted entries.\<close>

fun trunc_fav :: "fav \<Rightarrow> fav" and trunc_items :: "nat \<Rightarrow> fav_item list \<Rightarrow> fav_item list" where
  "trunc_fav (Fav b al nb nl nf li fi its) =
     Fav b al nb nl nf li fi (trunc_items (nat (get_data_number (Fav b al nb nl nf li fi its))) its)"
| "trunc_items 0 its = []"
| "trunc_items (Suc n) [] = []"
| "trunc_items (Suc n) (it # its) =
     (case it of FFolder a f t s \<Rightarrow> FFolder a f t (trunc_fav s) | _ \<Rightarrow> it) # trunc_items n its"

text \<open>The result of reading: a value, the \<open>-1\<close> of a bad entry type, a failed assertion in \<open>fav_malloc\<close>, or no fuel.\<close>

datatype 'a read_res = ROk 'a | RErr | RAssert | RFuel

text \<open>
  One entry, its folder still to be read.  The first loop of \<open>read_favrec\<close> reads
  \<open>n\<close> entries.
\<close>

definition empty_fav :: fav where "empty_fav = Fav 0 0 0 0 0 0 0 []"

definition read_item :: "byte list \<Rightarrow> (fav_item \<times> byte list) option" where
  "read_item s =
     (let (ty, s1) = fread 1 s; (at, s2) = fread 1 s1 in
      if hd ty = 2 then
        let (fid, s3) = fread 1 s2; (ti, s4) = fread TITLE_SIZE s3 in
        Some (FFolder (hd at) (hd fid) ti empty_fav, s4)
      else if hd ty = 1 then
        let (b, s3) = fread 12 s2 in
        Some (FBoard (hd at) (word_of_nat (from_le (take 4 b))) (word_of_nat (from_le (take 4 (drop 4 b)))) (b ! 8) (drop 9 b), s3)
      else if hd ty = 3 then let (l, s3) = fread 1 s2 in Some (FLine (hd at) (hd l), s3)
      else None)"

fun read_items :: "nat \<Rightarrow> byte list \<Rightarrow> (fav_item list \<times> byte list) option" where
  "read_items 0 s = Some ([], s)"
| "read_items (Suc n) s =
     (case read_item s of
        None \<Rightarrow> None
      | Some (it, s1) \<Rightarrow> map_option (\<lambda>(its, s2). (it # its, s2)) (read_items n s1))"

text \<open>
  \<open>read_favrec\<close> with a bound on the depth; \<open>next\<close> is the next address.  The second loop
  reads the folders and numbers lines and folders.
\<close>

fun read_favrec :: "nat \<Rightarrow> nat \<Rightarrow> byte list \<Rightarrow> (fav \<times> byte list \<times> nat) read_res"
  and read_subs :: "nat \<Rightarrow> nat \<Rightarrow> fav_item list \<Rightarrow> byte list \<Rightarrow> byte \<Rightarrow> byte \<Rightarrow>
    (fav_item list \<times> byte list \<times> nat \<times> byte \<times> byte) read_res" where
  "read_favrec 0 next s = RFuel"
| "read_favrec (Suc k) next s =
     (let (nbb, s1) = fread 2 s; (nlb, s2) = fread 1 s1; (nfb, s3) = fread 1 s2;
          nb = (word_of_nat (from_le nbb) :: u16); nl = hd nlb; nf = hd nfb;
          dt = (word_of_int (sint nb + sint nl + sint nf) :: u16);
          al = dt + word_of_int FAV_PRE_ALLOC in
      if sint al \<le> 0 then RAssert
      else case read_items (nat (sint dt)) s3 of
        None \<Rightarrow> RErr
      | Some (its, s4) \<Rightarrow>
          (case read_subs k (next + 1) its s4 0 0 of
             ROk (its', s5, next', li, fi) \<Rightarrow> ROk (Fav next al nb nl nf li fi its', s5, next')
           | RErr \<Rightarrow> RErr | RAssert \<Rightarrow> RAssert | RFuel \<Rightarrow> RFuel))"
| "read_subs k next [] s li fi = ROk ([], s, next, li, fi)"
| "read_subs k next (it # its) s li fi =
     (case it of
        FFolder a f t _ \<Rightarrow>
          (case read_favrec k next s of
             ROk (p, s1, next1) \<Rightarrow>
               (case read_subs k next1 its s1 li (fi + 1) of
                  ROk (its', r) \<Rightarrow> ROk (FFolder a (fi + 1) t p # its', r)
                | RErr \<Rightarrow> RErr | RAssert \<Rightarrow> RAssert | RFuel \<Rightarrow> RFuel)
           | RErr \<Rightarrow> RErr | RAssert \<Rightarrow> RAssert | RFuel \<Rightarrow> RFuel)
      | FLine a l \<Rightarrow>
          (case read_subs k next its s (li + 1) fi of
             ROk (its', r) \<Rightarrow> ROk (FLine a (li + 1) # its', r)
           | RErr \<Rightarrow> RErr | RAssert \<Rightarrow> RAssert | RFuel \<Rightarrow> RFuel)
      | _ \<Rightarrow>
          (case read_subs k next its s li fi of
             ROk (its', r) \<Rightarrow> ROk (it # its', r)
           | RErr \<Rightarrow> RErr | RAssert \<Rightarrow> RAssert | RFuel \<Rightarrow> RFuel))"

text \<open>All entries of a tree, the count \<open>fav_number\<close> keeps while a file is read.\<close>

fun data_total :: "fav \<Rightarrow> int" and data_total_items :: "fav_item list \<Rightarrow> int" where
  "data_total (Fav b al nb nl nf li fi its) = get_data_number (Fav b al nb nl nf li fi its) + data_total_items its"
| "data_total_items [] = 0"
| "data_total_items (it # its) = (case it of FFolder _ _ _ s \<Rightarrow> data_total s | _ \<Rightarrow> 0) + data_total_items its"

text \<open>
  \<open>fav_load\<close>: the file \<open>.fav\<close>, \<^const>\<open>None\<close> when there is none; a bad file gives an empty root.
  The result is \<^const>\<open>None\<close> on a failed assertion.  The old format \<open>.fav4\<close> is not modelled.
\<close>

definition fav_load :: "byte list option \<Rightarrow> fav_state \<Rightarrow> (int \<times> fav_state) option" where
  "fav_load file s =
     (if fav_stack s \<noteq> [] then Some (-1, s)
      else
        let a = fs_next s; new = (\<lambda>r nx d. snd (fav_stack_push_fav r (s\<lparr>fs_root := Some r,
              fav_number := data_total r, fs_next := nx, fs_dirty := d\<rparr>))) in
        case file of
          None \<Rightarrow> Some (0, new (Fav a 0 0 0 0 0 0 []) (a + 1) (fs_dirty s))
        | Some f \<Rightarrow>
            (case read_favrec (Suc (length f)) a (drop 2 f) of
               ROk (r, _, nx) \<Rightarrow> Some (0, new r nx False)
             | RErr \<Rightarrow> Some (0, new (Fav a 0 0 0 0 0 0 []) (a + 1) False)
             | _ \<Rightarrow> None))"

definition fav_save :: "byte list option \<Rightarrow> fav_state \<Rightarrow> (int \<times> byte list option \<times> fav_state) option" where
  "fav_save file s =
     (if fs_root s = None then Some (-1, file, s)
      else
        let s1 = fav_cleanup s in
        if \<not> fs_dirty s1 then Some (0, file, s1)
        else
          case Option.bind (fs_root s1) write_favrec of
            None \<Rightarrow> None
          | Some bs \<Rightarrow> Some (0, Some (to_le 2 FAV_VERSION @ bs), s1\<lparr>fs_root := map_option trunc_fav (fs_root s1)\<rparr>))"

section \<open>Writing\<close>

text \<open>A tree without removed entries: every entry is counted.\<close>

definition clean :: "fav \<Rightarrow> bool" where "clean r \<longleftrightarrow> tree_ok r \<and> \<not> is_need_rebuild_fav r"

lemma need_rebuild_valid: "\<not> need_rebuild_items its \<Longrightarrow> list_all valid_item its"
  by (induction its) (auto split: if_splits)

lemma clean_count:
  assumes "clean (Fav b al nb nl nf li fi its)"
  shows "get_data_number (Fav b al nb nl nf li fi its) = int (length its)"
  using assms length_valid [of its] need_rebuild_valid [of its] by (simp add: clean_def get_data_number_def node_ok_def)

lemma items_bytes_all: "items_bytes (length its) its = Some (concat (map item_bytes its))"
  by (induction its) auto

lemma trunc_clean:
  "clean r \<Longrightarrow> trunc_fav r = r"
  "tree_ok_items its \<Longrightarrow> \<not> need_rebuild_items its \<Longrightarrow> trunc_items (length its) its = its"
proof (induction r and its rule: addrs_addrs_items.induct)
  case (1 b al nb nl nf li fi its)
  then show ?case using clean_count [OF 1(2)] by (simp add: clean_def)
next
  case (3 it its)
  then show ?case by (cases it) (auto simp: clean_def split: if_splits)
qed simp

section \<open>Reading back\<close>

lemma fread_exact: "length bs = n \<Longrightarrow> fread n (bs @ rest) = (bs, rest)"
  by (simp add: fread_def)

text \<open>An entry as \<open>read_favrec\<close> holds it before its folder is read.\<close>

fun raw_item :: "fav_item \<Rightarrow> fav_item" where
  "raw_item (FFolder a f t s) = FFolder a f t empty_fav"
| "raw_item it = it"

lemma read_item_bytes:
  assumes "tree_ok_items [it]"
  shows "read_item (item_bytes it @ rest) = Some (raw_item it, rest)"
proof (cases it)
  case (FBoard a b v ba p)
  have "length p = 3" using assms FBoard by simp
  then have "fread 12 (to_le 4 (unat b) @ to_le 4 (unat v) @ ba # p @ rest) = (to_le 4 (unat b) @ to_le 4 (unat v) @ [ba] @ p, rest)"
    using fread_exact [of "to_le 4 (unat b) @ to_le 4 (unat v) @ [ba] @ p" 12 rest] by simp
  moreover have "unat b < 256 ^ 4" "unat v < 256 ^ 4" using unsigned_less [of b] unsigned_less [of v] by simp_all
  ultimately show ?thesis using FBoard
    by (simp add: read_item_def fread_exact [of "[x]" 1 for x, simplified] Let_def from_to_le_id nth_append)
next
  case (FLine a l)
  then show ?thesis by (simp add: read_item_def fread_exact [of "[x]" 1 for x, simplified])
next
  case (FFolder a f t s)
  then have "length t = TITLE_SIZE" using assms by simp
  then show ?thesis using FFolder by (simp add: read_item_def fread_exact [of "[x]" 1 for x, simplified] fread_exact)
qed

lemma read_items_bytes:
  "tree_ok_items its \<Longrightarrow> read_items (length its) (concat (map item_bytes its) @ rest) = Some (map raw_item its, rest)"
proof (induction its)
  case (Cons it its)
  then show ?case using read_item_bytes [of it "concat (map item_bytes its) @ rest"] by simp
qed simp

text \<open>What the tree that is read has in common with the one that was written.\<close>

definition same_tree :: "fav \<Rightarrow> fav \<Rightarrow> nat \<Rightarrow> nat \<Rightarrow> bool" where
  "same_tree r r' nx nx' \<longleftrightarrow> clean r' \<and> view r' = view r \<and> vtotal r' = vtotal r \<and> data_total r' = int (vtotal r) \<and> fv_addr r' = nx \<and>
     distinct (addrs r') \<and> (\<forall>a \<in> set (addrs r'). nx \<le> a \<and> a < nx') \<and> nx < nx'"

definition same_items :: "fav_item list \<Rightarrow> fav_item list \<Rightarrow> nat \<Rightarrow> nat \<Rightarrow> bool" where
  "same_items its its' nx nx' \<longleftrightarrow> tree_ok_items its' \<and> \<not> need_rebuild_items its' \<and> map fav_head its' = map fav_head its \<and>
     view_items its' = view_items its \<and> vtotal_items its' = vtotal_items its \<and>
     data_total_items its' + int (length its) = int (vtotal_items its) \<and>
     distinct (addrs_items its') \<and> (\<forall>a \<in> set (addrs_items its'). nx \<le> a \<and> a < nx') \<and> nx \<le> nx'"

text \<open>The counters that are read, and the space for the entries.\<close>

lemma read_counters:
  assumes "clean (Fav b al nb nl nf li fi its)" "length its \<le> 1024"
  shows "word_of_nat (from_le (to_le 2 (unat nb))) = nb"
    "sint (word_of_int (sint nb + sint nl + sint nf) :: u16) = int (length its)"
    "0 < sint (word_of_int (sint nb + sint nl + sint nf) + word_of_int FAV_PRE_ALLOC :: u16)"
proof -
  have "unat nb < 256 ^ 2" using unsigned_less [of nb] by simp
  then show "word_of_nat (from_le (to_le 2 (unat nb))) = nb" by (simp add: from_to_le_id)
  have n: "sint nb + sint nl + sint nf = int (length its)" using clean_count [OF assms(1)] by (simp add: get_data_number_def)
  have small: "sint (word_of_int i :: u16) = i" if "0 \<le> i" "i < 2 ^ 15" for i
    using that by (simp add: signed_of_int signed_take_bit_int_eq_self)
  show "sint (word_of_int (sint nb + sint nl + sint nf) :: u16) = int (length its)" 
    using small [of "int (length its)"] assms(2) by (simp add: n)
  have "word_of_int (int (length its)) + word_of_int FAV_PRE_ALLOC = (word_of_int (int (length its) + FAV_PRE_ALLOC) :: u16)" by simp
  then show "0 < sint (word_of_int (sint nb + sint nl + sint nf) + word_of_int FAV_PRE_ALLOC :: u16)"
    using small [of "int (length its) + FAV_PRE_ALLOC"] assms(2) by (simp only: n) (simp add: FAV_PRE_ALLOC_def)
qed

definition reads_back :: "fav \<Rightarrow> byte list \<Rightarrow> bool" where
  "reads_back r bs \<longleftrightarrow> length bs \<ge> 4 \<and>
     (\<forall>k nx rest. length bs < k \<longrightarrow> (\<exists>r' nx'. read_favrec k nx (bs @ rest) = ROk (r', rest, nx') \<and> same_tree r r' nx nx'))"

definition reads_subs :: "fav_item list \<Rightarrow> byte list \<Rightarrow> bool" where
  "reads_subs its bs \<longleftrightarrow>
     (\<forall>k nx rest li fi. length bs < k \<longrightarrow>
        (\<exists>its' nx' li' fi'. read_subs k nx (map raw_item its) (bs @ rest) li fi = ROk (its', rest, nx', li', fi') \<and> same_items its its' nx nx'))"

lemma reads_subsD:
  assumes "reads_subs its bs" "length bs < k"
  obtains its' nx' li' fi' where "read_subs k nx (map raw_item its) (bs @ rest) li fi = ROk (its', rest, nx', li', fi')" "same_items its its' nx nx'"
  using assms unfolding reads_subs_def by meson

lemma same_tree_node:
  assumes r: "clean (Fav b al nb nl nf li fi its)" and s: "same_items its its' (Suc nx) nx'"
  shows "same_tree (Fav b al nb nl nf li fi its) (Fav nx al' nb nl nf li' fi' its') nx nx'"
proof -
  have h: "map fav_head its' = map fav_head its" using s by (simp add: same_items_def)
  have "node_ok (Fav nx al' nb nl nf li' fi' its')" using r fav_heads_cong [OF h] by (simp add: clean_def node_ok_def)
  moreover have "get_data_number (Fav nx al' nb nl nf li' fi' its') = int (length its)"
    using clean_count [OF r] by (simp add: get_data_number_def)
  ultimately show ?thesis using s by (auto simp: same_tree_def same_items_def clean_def)
qed

lemma reads_back_node:
  assumes r: "clean (Fav b al nb nl nf li fi its)" and n: "length its \<le> 1024" and s: "reads_subs its sb"
  shows "reads_back (Fav b al nb nl nf li fi its) (to_le 2 (unat nb) @ [nl, nf] @ concat (map item_bytes its) @ sb)"
  unfolding reads_back_def
proof (intro conjI allI impI)
  let ?bs = "to_le 2 (unat nb) @ [nl, nf] @ concat (map item_bytes its) @ sb"
  fix k nx rest
  assume k: "length ?bs < k"
  then obtain k' where k': "k = Suc k'" "length sb < k'" by (cases k) auto
  obtain its' nx' li' fi' where it: "read_subs k' (Suc nx) (map raw_item its) (sb @ rest) 0 0 = ROk (its', rest, nx', li', fi')"
    "same_items its its' (Suc nx) nx'" using reads_subsD [OF s k'(2)] .
  have "fread 2 (to_le 2 (unat nb) @ x) = (to_le 2 (unat nb), x)" for x by (simp add: fread_exact)
  moreover have "fread 1 (x # y) = ([x], y)" for x :: byte and y using fread_exact [of "[x]" 1 y] by simp
  moreover have "tree_ok_items its" using r by (simp add: clean_def)
  ultimately have "read_favrec k nx (?bs @ rest) = ROk (Fav nx
      (word_of_int (sint nb + sint nl + sint nf) + word_of_int FAV_PRE_ALLOC) nb nl nf li' fi' its', rest, nx')"
    using it(1) k'(1) read_counters [OF r n] read_items_bytes [of its "sb @ rest"] by (simp add: Let_def not_le)
  then show "\<exists>r' nx'. read_favrec k nx (?bs @ rest) = ROk (r', rest, nx') \<and> same_tree (Fav b al nb nl nf li fi its) r' nx nx'"
    using same_tree_node [OF r it(2)] by blast
qed simp

lemma reads_subs_Nil: "reads_subs [] []"
  by (simp add: reads_subs_def same_items_def)

lemma reads_subs_Cons:
  assumes "reads_subs its bs" "valid_item it" "tree_ok_items [it]" "get_item_type it \<noteq> FAVT_FOLDER"
  shows "reads_subs (it # its) bs"
  unfolding reads_subs_def
proof (intro allI impI)
  fix k nx rest li fi
  assume k: "length bs < k"
  obtain its' nx' li' fi' where 1: "read_subs k nx (map raw_item its) (bs @ rest) li fi = ROk (its', rest, nx', li', fi')" "same_items its its' nx nx'"
    using reads_subsD [OF assms(1) k] .
  obtain its2 nx2 li2 fi2 where 2: "read_subs k nx (map raw_item its) (bs @ rest) (li + 1) fi = ROk (its2, rest, nx2, li2, fi2)" "same_items its its2 nx nx2"
    using reads_subsD [OF assms(1) k] .
  show "\<exists>its' nx' li' fi'. read_subs k nx (map raw_item (it # its)) (bs @ rest) li fi = ROk (its', rest, nx', li', fi') \<and> same_items (it # its) its' nx nx'"
    using assms(2-4) 1 2 by (cases it) (auto simp: same_items_def fav_head_def valid_item_def is_set_attr_def)
qed

lemma reads_subs_folder:
  assumes "reads_subs its bs" "reads_back s sb" "valid_item (FFolder a f t s)" "length t = TITLE_SIZE"
  shows "reads_subs (FFolder a f t s # its) (sb @ bs)"
  unfolding reads_subs_def
proof (intro allI impI)
  fix k nx rest li fi
  assume k: "length (sb @ bs) < k"
  then have kb: "length bs < k" by simp
  obtain s' nx1 where 1: "read_favrec k nx (sb @ bs @ rest) = ROk (s', bs @ rest, nx1)" "same_tree s s' nx nx1"
    using assms(2) k unfolding reads_back_def by (metis add_lessD1 length_append)
  obtain its2 nx2 li2 fi2 where 2: "read_subs k nx1 (map raw_item its) (bs @ rest) li (fi + 1) = ROk (its2, rest, nx2, li2, fi2)" "same_items its its2 nx1 nx2"
    using reads_subsD [OF assms(1) kb] .
  have "set (addrs s') \<inter> set (addrs_items its2) = {}"
    using 1(2) 2(2) by (fastforce simp: same_tree_def same_items_def)
  then have "same_items (FFolder a f t s # its) (FFolder a (fi + 1) t s' # its2) nx nx2"
    using assms(3,4) 1(2) 2(2) by (auto simp: same_tree_def same_items_def clean_def fav_head_def valid_item_def is_set_attr_def)
  then show "\<exists>its' nx' li' fi'. read_subs k nx (map raw_item (FFolder a f t s # its)) ((sb @ bs) @ rest) li fi = ROk (its', rest, nx', li', fi') \<and>
      same_items (FFolder a f t s # its) its' nx nx'" using 1(1) 2(1) by simp
qed

lemma write_reads:
  "clean r \<Longrightarrow> vtotal r \<le> 1024 \<Longrightarrow> \<exists>bs. write_favrec r = Some bs \<and> reads_back r bs"
  "tree_ok_items its \<Longrightarrow> \<not> need_rebuild_items its \<Longrightarrow> vtotal_items its \<le> 1024 \<Longrightarrow>
     \<exists>bs. write_subs (length its) its = Some bs \<and> reads_subs its bs"
proof (induction r and its rule: addrs_addrs_items.induct)
  case (1 b al nb nl nf li fi its)
  obtain sb where sb: "write_subs (length its) its = Some sb" "reads_subs its sb"
    using 1 by (auto simp: clean_def)
  have "length its \<le> 1024"
    using 1(2,3) length_valid [OF need_rebuild_valid, of its] cnt_le_vtotal [of its] by (simp add: clean_def)
  then show ?case using reads_back_node [OF 1(2) _ sb(2)] clean_count [OF 1(2)] sb(1) by (simp add: items_bytes_all)
next
  case 2
  then show ?case using reads_subs_Nil by simp
next
  case (3 it its)
  have v: "valid_item it" using 3(4) by (simp split: if_splits)
  obtain bs where bs: "write_subs (length its) its = Some bs" "reads_subs its bs"
    using 3(2-5) by (auto split: if_splits)
  show ?case
  proof (cases it)
    case (FFolder a f t s)
    have s: "clean s" "vtotal s \<le> 1024" "length t = TITLE_SIZE" using 3(3-5) v FFolder by (auto simp: clean_def)
    obtain sb where sb: "write_favrec s = Some sb" "reads_back s sb" using 3(1) [OF FFolder s(1,2)] by blast
    have "write_subs (length (it # its)) (it # its) = Some (sb @ bs)" using FFolder sb(1) bs(1) by simp
    moreover have "reads_subs (it # its) (sb @ bs)" using reads_subs_folder [OF bs(2) sb(2)] v s(3) FFolder by simp
    ultimately show ?thesis by blast
  qed (use 3(3) bs v reads_subs_Cons [OF bs(2) v] in auto)
qed

section \<open>Logins\<close>

text \<open>The state of a new process, and one operation of the user; the second component is the file.\<close>

definition fresh :: fav_state where
  "fresh = \<lparr>fs_root = None, fav_stack = [], fav_number = 0, fs_dirty = False, fs_next = 0\<rparr>"

inductive fav_step :: "fav_state \<times> byte list option \<Rightarrow> fav_state \<times> byte list option \<Rightarrow> bool" where
  logout: "fav_step (s, f) (fresh, f)"
| load: "fav_load f s = Some (r, s') \<Longrightarrow> fav_step (s, f) (s', f)"
| save: "fav_save f s = Some (r, f', s') \<Longrightarrow> fav_step (s, f) (s', f')"
| cleanup: "fav_step (s, f) (fav_cleanup s, f)"
| folder_in: "fav_step (s, f) (snd (fav_folder_in fid s), f)"
| folder_out: "fav_step (s, f) (fav_folder_out s, f)"
| remove_item: "fav_step (s, f) (fav_remove_item i k s, f)"
| add_line: "fav_step (s, f) (snd (fav_add_line mem s), f)"
| add_folder: "fav_step (s, f) (snd (fav_add_folder mem s), f)"
| add_board: "fav_add_board mem bid s = Some (ok, s') \<Longrightarrow> fav_step (s, f) (s', f)"
| sort_name: "(\<And>cmp its. mset (qs cmp its) = mset its) \<Longrightarrow> fav_step (s, f) (fav_sort_by_name qs name s, f)"
| sort_class: "(\<And>cmp its. mset (qs cmp its) = mset its) \<Longrightarrow> fav_step (s, f) (fav_sort_by_class qs name cls s, f)"
| move: "fav_step (s, f) (move_in_current_folder i j s, f)"
| tag: "fav_step (s, f) (fav_tag i k cmd s, f)"
| title: "fav_step (s, f) (fav_set_folder_title j str s, f)"
| untag: "fav_step (s, f) (fav_remove_all_tag s, f)"
| remove_tagged: "fav_step (s, f) (fav_remove_all_tagged_item s, f)"

inductive fav_reach :: "fav_state \<times> byte list option \<Rightarrow> bool" where
  start: "fav_reach (fresh, None)"
| step: "fav_reach c \<Longrightarrow> fav_step c c' \<Longrightarrow> fav_reach c'"

text \<open>The file holds a clean tree, and while \<open>dirty\<close> is 0 the user sees what the file holds.\<close>

definition file_view :: "byte list option \<Rightarrow> fav_view list" where
  "file_view f =
     (case f of
        None \<Rightarrow> []
      | Some bs \<Rightarrow> (case read_favrec (Suc (length bs)) 0 (drop 2 bs) of ROk (r, _) \<Rightarrow> view r | _ \<Rightarrow> []))"

definition file_ok :: "byte list option \<Rightarrow> bool" where
  "file_ok f \<longleftrightarrow> (\<forall>fl. f = Some fl \<longrightarrow> (\<exists>v bs r. fl = v @ bs \<and> length v = 2 \<and> reads_back r bs \<and> clean r \<and> vtotal r \<le> 1024))"

definition sess_ok :: "fav_state \<times> byte list option \<Rightarrow> bool" where
  "sess_ok c \<longleftrightarrow> fav_inv (fst c) \<and> file_ok (snd c) \<and>
     (\<forall>r. fs_root (fst c) = Some r \<longrightarrow> \<not> fs_dirty (fst c) \<longrightarrow> view r = file_view (snd c))"

lemma file_ok_reads:
  assumes "file_ok (Some fl)"
  shows "\<exists>r nx'. read_favrec (Suc (length fl)) nx (drop 2 fl) = ROk (r, [], nx') \<and> view r = file_view (Some fl) \<and>
    clean r \<and> vtotal r \<le> 1024 \<and> data_total r = int (vtotal r) \<and> fv_addr r = nx \<and> distinct (addrs r) \<and>
    (\<forall>a \<in> set (addrs r). a < nx')"
proof -
  obtain v bs r0 where f: "fl = v @ bs" "length v = 2" "reads_back r0 bs" "vtotal r0 \<le> 1024"
    using assms by (auto simp: file_ok_def)
  have l: "length bs < Suc (length fl)" using f by simp
  have 1: "\<exists>r' nx'. read_favrec (Suc (length fl)) nx (bs @ []) = ROk (r', [], nx') \<and> same_tree r0 r' nx nx'" for nx
    using f(3) l unfolding reads_back_def by blast
  obtain r1 nx1 where r1: "read_favrec (Suc (length fl)) 0 bs = ROk (r1, [], nx1)" "same_tree r0 r1 0 nx1"
    using 1 [of 0] by auto
  obtain r2 nx2 where r2: "read_favrec (Suc (length fl)) nx bs = ROk (r2, [], nx2)" "same_tree r0 r2 nx nx2"
    using 1 [of nx] by auto
  have d: "drop 2 fl = bs" using f by simp
  show ?thesis using r1 r2 f(4) by (auto simp: d file_view_def same_tree_def)
qed

text \<open>An operation that leaves \<open>dirty\<close> 0 leaves what the user sees.\<close>

definition keeps_view :: "fav_state \<Rightarrow> fav_state \<Rightarrow> bool" where
  "keeps_view s s' \<longleftrightarrow> (\<forall>r'. fs_root s' = Some r' \<longrightarrow> \<not> fs_dirty s' \<longrightarrow> (\<exists>r. fs_root s = Some r \<and> \<not> fs_dirty s \<and> view r = view r'))"

lemma keeps_view_refl [simp]: "keeps_view s s"
  by (simp add: keeps_view_def)

lemma sess_ok_keeps:
  "sess_ok (s, f) \<Longrightarrow> fav_inv s' \<Longrightarrow> keeps_view s s' \<Longrightarrow> sess_ok (s', f)"
  by (force simp: sess_ok_def keeps_view_def)

lemma preappend_keeps: "keeps_view s (snd (fav_preappend mem it (s\<lparr>fs_next := m\<rparr>)))"
  by (auto simp: keeps_view_def fav_preappend_def is_maxsize_def)

lemma preappend_keeps': "keeps_view s (snd (fav_preappend mem it s))"
  using preappend_keeps [of s mem it "fs_next s"] by simp

lemma untag_none:
  "\<not> any_tagged r \<Longrightarrow> untag_fav r = r"
  "\<not> any_tagged_items its \<Longrightarrow> untag_items its = its"
proof (induction r and its rule: untag_fav_untag_items.induct)
  case (3 it its)
  then show ?case by (cases it) auto
qed auto

lemma remove_tagged_none:
  "\<not> any_tagged r \<Longrightarrow> remove_tagged_fav st r = (r, 0)"
  "\<not> any_tagged_items its \<Longrightarrow> (\<And>n b al nb nl nf li fi xs. remove_tagged_items st its (Fav b al nb nl nf li fi xs) n = (Fav b al nb nl nf li fi (xs @ its), n))"
proof (induction r and its rule: untag_fav_untag_items.induct)
  case (3 it its)
  then show ?case by (cases it) (auto simp: put_items_def)
qed auto

lemma cleanup_keeps: "fav_inv s \<Longrightarrow> keeps_view s (fav_cleanup s)"
proof (cases "fs_root s")
  case (Some r)
  assume "fav_inv s"
  then have "tree_ok r" using Some by (simp add: fav_inv_root)
  then show ?thesis using Some rebuild_facts(1) [of r] by (auto simp: keeps_view_def fav_cleanup_def)
qed (simp add: keeps_view_def fav_cleanup_def)

lemma step_keeps_view:
  "keeps_view s (snd (fav_folder_in fid s))" "keeps_view s (fav_folder_out s)" "keeps_view s (fav_remove_item i k s)"
  "keeps_view s (snd (fav_add_line mem s))" "keeps_view s (snd (fav_add_folder mem s))"
  "fav_add_board mem bid s = Some (ok, s') \<Longrightarrow> keeps_view s s'" "keeps_view s (fav_tag i k cmd s)"
  "keeps_view s (fav_set_folder_title j str s)" "keeps_view s (fav_remove_all_tag s)" "keeps_view s (fav_remove_all_tagged_item s)"
proof -
  show "keeps_view s (snd (fav_folder_in fid s))"
    by (auto simp: fav_folder_in_def fav_stack_push_fav_def keeps_view_def split: option.splits fav_item.splits)
  show "keeps_view s (fav_folder_out s)" by (auto simp: fav_folder_out_def fav_stack_pop_def keeps_view_def split: if_splits)
  show "keeps_view s (fav_remove_item i k s)" by (auto simp: fav_remove_item_def keeps_view_def split: option.splits)
  show "keeps_view s (snd (fav_add_line mem s))" by (auto simp: fav_add_line_def preappend_keeps' split: option.split)
  show "keeps_view s (snd (fav_add_folder mem s))" by (auto simp: fav_add_folder_def preappend_keeps split: option.split)
  show "keeps_view s s'" if "fav_add_board mem bid s = Some (ok, s')"
    using that preappend_keeps' [of s mem "FBoard FAVH_FAV (word_of_int bid) 0 0 [0, 0, 0]"]
    by (auto simp: fav_add_board_def split: option.splits if_split_asm)
  show "keeps_view s (fav_tag i k cmd s)" by (auto simp: fav_tag_def keeps_view_def split: option.splits)
  show "keeps_view s (fav_set_folder_title j str s)"
    by (auto simp: fav_set_folder_title_def keeps_view_def split: option.splits fav_item.splits)
  show "keeps_view s (fav_remove_all_tag s)"
    using untag_none(1) by (auto simp: fav_remove_all_tag_def keeps_view_def split: option.splits)
  show "keeps_view s (fav_remove_all_tagged_item s)"
    using remove_tagged_none(1) by (fastforce simp: fav_remove_all_tagged_item_def keeps_view_def split: option.splits prod.splits)
qed

lemma upd_fav_fixed:
  "distinct (addrs r) \<Longrightarrow> find_fav a r = Some fp \<Longrightarrow> g fp = fp \<Longrightarrow> upd_fav a g r = r"
  "distinct (addrs_items its) \<Longrightarrow> find_items a its = Some fp \<Longrightarrow> g fp = fp \<Longrightarrow> upd_items a g its = its"
proof (induction r and its rule: addrs_addrs_items.induct)
  case (3 it its)
  show ?case
  proof (cases it)
    case (FFolder x f t s)
    show ?thesis
    proof (cases "find_fav a s")
      case None
      then have "a \<notin> set (addrs s)" using find_fav_in(1) [of a s] by force
      then show ?thesis using 3 FFolder None upd_fav_notin(1) [of a s g] by auto
    next
      case (Some fq)
      then have "a \<notin> set (addrs_items its)" using 3(3) FFolder find_fav_Some [OF Some] by auto
      then show ?thesis using 3 FFolder Some upd_fav_notin(2) [of a its g] by auto
    qed
  qed (use 3 in auto)
qed (auto split: if_splits)

lemma move_keeps:
  assumes "fav_inv s"
  shows "keeps_view s (move_in_current_folder i j s)"
proof (cases "get_current_fav s")
  case (Some fp)
  show ?thesis
  proof (cases "move_pos i fp = move_pos j fp")
    case True
    obtain r where r: "fs_root s = Some r" "find_fav (last (fav_stack s)) r = Some fp" using current_cases [OF assms Some] by metis
    have "upd_fav (last (fav_stack s)) (move_in_folder i j) r = r"
      by (rule upd_fav_fixed(1) [OF _ r(2)]) (use assms r(1) True in \<open>simp_all add: fav_inv_root move_in_folder_def\<close>)
    then show ?thesis using Some r True by (auto simp: move_in_current_folder_def upd_current_def keeps_view_def)
  qed (use Some in \<open>auto simp: move_in_current_folder_def keeps_view_def\<close>)
qed (simp add: move_in_current_folder_def)

text \<open>Loading and saving.\<close>

lemma empty_root_ok [simp]: "tree_ok (Fav a 0 0 0 0 0 0 [])"
  by (simp add: node_ok_def)

lemma fav_load_ok:
  assumes c: "sess_ok (s, f)"
  shows "\<exists>r s'. fav_load f s = Some (r, s') \<and> sess_ok (s', f) \<and> (fav_stack s = [] \<longrightarrow> r = 0 \<and> (\<exists>t. fs_root s' = Some t \<and> view t = file_view f))"
proof (cases "fav_stack s = []")
  case False
  then show ?thesis using c by (simp add: fav_load_def)
next
  case True
  show ?thesis
  proof (cases f)
    case None
    then show ?thesis using True
      by (auto simp: fav_load_def Let_def fav_stack_push_fav_def fav_stack_full_def sess_ok_def fav_inv_root file_ok_def file_view_def
          get_data_number_def node_ok_def MAX_FAV_def FAV_MAXDEPTH_def)
  next
    case (Some fl)
    have "file_ok (Some fl)" using c Some by (simp add: sess_ok_def)
    then obtain r nx' where r: "read_favrec (Suc (length fl)) (fs_next s) (drop 2 fl) = ROk (r, [], nx')" "view r = file_view (Some fl)"
      "clean r" "vtotal r \<le> 1024" "data_total r = int (vtotal r)" "distinct (addrs r)" "\<forall>a \<in> set (addrs r). a < nx'"
      using file_ok_reads [of fl "fs_next s"] by blast
    then show ?thesis using True Some c
      by (auto simp: fav_load_def Let_def fav_stack_push_fav_def fav_stack_full_def sess_ok_def fav_inv_root clean_def
          MAX_FAV_def FAV_MAXDEPTH_def list_all_iff)
  qed
qed

lemma cleanup_clean:
  assumes "fav_inv s" "fs_root s = Some r"
  shows "\<exists>r'. fs_root (fav_cleanup s) = Some r' \<and> clean r' \<and> vtotal r' \<le> 1024 \<and> view r' = view r"
proof -
  have "tree_ok r" "int (vtotal r) \<le> fav_number s" "fav_number s \<le> 1024" using assms by (auto simp: fav_inv_root MAX_FAV_def)
  then show ?thesis using assms(2) rebuild_facts(1) [of r] by (auto simp: fav_cleanup_def clean_def)
qed

lemma fav_save_ok:
  assumes c: "sess_ok (s, f)"
  shows "\<exists>n f' s'. fav_save f s = Some (n, f', s') \<and> sess_ok (s', f') \<and>
    (\<forall>r. fs_root s = Some r \<longrightarrow> n = 0 \<and> file_view f' = view r)"
proof (cases "fs_root s")
  case None
  then show ?thesis using c by (simp add: fav_save_def)
next
  case (Some r)
  have inv: "fav_inv s" using c by (simp add: sess_ok_def)
  have c1: "sess_ok (fav_cleanup s, f)" by (rule sess_ok_keeps [OF c fav_cleanup_inv [OF inv] cleanup_keeps [OF inv]])
  obtain r' where r': "fs_root (fav_cleanup s) = Some r'" "clean r'" "vtotal r' \<le> 1024" "view r' = view r"
    using cleanup_clean [OF inv Some] by blast
  show ?thesis
  proof (cases "fs_dirty (fav_cleanup s)")
    case False
    then show ?thesis using Some c1 r' by (auto simp: fav_save_def sess_ok_def)
  next
    case True
    obtain bs where bs: "write_favrec r' = Some bs" "reads_back r' bs" using write_reads(1) [OF r'(2,3)] by blast
    let ?f = "Some (to_le 2 FAV_VERSION @ bs)"
    have f: "file_ok ?f" using bs r'(2,3) by (force simp: file_ok_def)
    have "\<exists>r2 nx'. read_favrec (Suc (length (to_le 2 FAV_VERSION @ bs))) 0 (bs @ []) = ROk (r2, [], nx') \<and> same_tree r' r2 0 nx'"
      using bs(2) unfolding reads_back_def by (metis length_append less_Suc_eq_le le_add2)
    then have v: "file_view ?f = view r" using r'(4) by (auto simp: file_view_def same_tree_def)
    have e: "fav_save f s = Some (0, ?f, fav_cleanup s)"
      using Some True r'(1,2) bs(1) by (simp add: fav_save_def Let_def trunc_clean)
    then show ?thesis using f v True c1 Some by (auto simp: sess_ok_def)
  qed
qed

lemma fresh_ok: "file_ok f \<Longrightarrow> sess_ok (fresh, f)"
  by (simp add: sess_ok_def fresh_def fav_inv_def)

lemma sort_keeps: "keeps_view s (sort_current qs s)"
  by (auto simp: sort_current_def keeps_view_def split: option.splits)

lemma step_ok:
  assumes "fav_step c c'" "sess_ok c"
  shows "sess_ok c'"
  using assms
proof (induction rule: fav_step.induct)
  case (logout s f)
  then have "file_ok f" by (simp add: sess_ok_def)
  then show ?case by (rule fresh_ok)
next
  case (load f s r s')
  then show ?case using fav_load_ok by fastforce
next
  case (save f s r f' s')
  then show ?case using fav_save_ok by fastforce
next
  case (sort_name qs s f name)
  then show ?case using sort_current_inv [of s "qs (favcmp_by_name name)"]
    by (intro sess_ok_keeps [OF sort_name.prems]) (simp_all add: fav_sort_by_name_def sess_ok_def sort_keeps)
next
  case (sort_class qs s f name cls)
  then show ?case using sort_current_inv [of s "qs (favcmp_by_class name cls)"]
    by (intro sess_ok_keeps [OF sort_class.prems]) (simp_all add: fav_sort_by_class_def sess_ok_def sort_keeps)
next
  case (add_board mem bid s ok s' f)
  then have "fav_inv s'" using fav_add_board_inv [of s mem bid ok s'] by (simp add: sess_ok_def)
  then show ?case using add_board sess_ok_keeps step_keeps_view(6) by blast
qed (rule sess_ok_keeps, assumption, simp add: sess_ok_def fav_cleanup_inv fav_folder_in_inv fav_folder_out_inv fav_remove_item_inv fav_add_line_inv
    fav_add_folder_inv move_in_current_folder_inv fav_tag_inv fav_set_folder_title_inv fav_remove_all_tag_inv
    fav_remove_all_tagged_item_inv, simp add: sess_ok_def cleanup_keeps step_keeps_view move_keeps)+

lemma reach_ok: "fav_reach c \<Longrightarrow> sess_ok c"
proof (induction rule: fav_reach.induct)
  case start
  show ?case by (rule fresh_ok) (simp add: file_ok_def)
next
  case (step c c')
  then show ?case using step_ok by blast
qed

text \<open>A folder that is filled and removed: \<open>fav_number\<close> keeps the entry that was in it.\<close>

definition leak_state :: "nat \<Rightarrow> fav_state" where
  "leak_state n = \<lparr>fs_root = Some (Fav 0 8 0 0 0 0 0 []), fav_stack = [0], fav_number = int n, fs_dirty = True, fs_next = 1 + n\<rparr>"

lemma leak_step:
  assumes "n < 1023"
  defines "s1 \<equiv> snd (fav_add_folder True (leak_state n))"
  defines "s2 \<equiv> snd (fav_folder_in 1 s1)"
  defines "s3 \<equiv> snd (fav_add_line True s2)"
  defines "s4 \<equiv> fav_folder_out s3"
  defines "s5 \<equiv> fav_remove_item 1 FAVT_FOLDER s4"
  shows "fav_cleanup s5 = leak_state (Suc n)"
proof -
  have s1: "s1 = \<lparr>fs_root = Some (Fav 0 8 0 0 1 0 1 [FFolder FAVH_FAV 1 (replicate TITLE_SIZE 0) (Fav (1 + n) 8 0 0 0 0 0 [])]),
      fav_stack = [0], fav_number = int n + 1, fs_dirty = True, fs_next = 2 + n\<rparr>"
    using assms(1) by (simp add: s1_def leak_state_def fav_add_folder_def get_current_fav_def is_maxsize_def MAX_FAV_def fav_stack_full_def
        FAV_MAXDEPTH_def MAX_FOLDER_def fav_preappend_def upd_current_def fav_increase_def enlarge_if_full_def DataTail_def
        alloc_folder_item_def FAV_PRE_ALLOC_def)
  have s2: "s2 = s1\<lparr>fav_stack := [0, 1 + n]\<rparr>"
    by (simp add: s2_def s1 fav_folder_in_def get_current_fav_def fav_stack_push_fav_def fav_stack_full_def FAV_MAXDEPTH_def)
  have s3: "s3 = \<lparr>fs_root = Some (Fav 0 8 0 0 1 0 1 [FFolder FAVH_FAV 1 (replicate TITLE_SIZE 0) (Fav (1 + n) 8 0 1 0 1 0 [FLine FAVH_FAV 1])]),
      fav_stack = [0, 1 + n], fav_number = int n + 2, fs_dirty = True, fs_next = 2 + n\<rparr>"
    using assms(1) by (simp add: s3_def s2 s1 fav_add_line_def get_current_fav_def is_maxsize_def MAX_FAV_def MAX_LINE_def
        fav_preappend_def upd_current_def fav_increase_def enlarge_if_full_def DataTail_def)
  have s4: "s4 = s3\<lparr>fav_stack := [0]\<rparr>" by (simp add: s4_def s3 fav_folder_out_def fav_stack_pop_def)
  have s5: "s5 = \<lparr>fs_root = Some (Fav 0 8 0 0 0 0 1 [FFolder 0 1 (replicate TITLE_SIZE 0) (Fav (1 + n) 8 0 1 0 1 0 [FLine FAVH_FAV 1])]),
      fav_stack = [0], fav_number = int n + 1, fs_dirty = True, fs_next = 2 + n\<rparr>"
    by (simp add: s5_def s4 s3 fav_remove_item_def get_fav_item_def get_current_fav_def upd_current_def fav_remove_at_def put_items_def fav_decrease_def)
  show ?thesis
    by (simp add: s5 fav_cleanup_def leak_state_def cut_tail_def put_items_def get_data_number_def)
      (simp add: valid_item_def is_set_attr_def get_data_number_def)
qed

lemma reach_leak: "n < 1024 \<Longrightarrow> \<exists>f. fav_reach (leak_state n, f)"
proof (induction n)
  case 0
  let ?s1 = "\<lparr>fs_root = Some (Fav 0 0 0 0 0 0 0 []), fav_stack = [0], fav_number = 0, fs_dirty = False, fs_next = 1\<rparr>"
  have "fav_load None fresh = Some (0, ?s1)"
    by (simp add: fav_load_def fresh_def fav_stack_push_fav_def fav_stack_full_def FAV_MAXDEPTH_def get_data_number_def)
  then have "fav_reach (?s1, None)" by (rule step [OF start load])
  then have "fav_reach (snd (fav_add_line True ?s1), None)" by (rule step [OF _ add_line])
  then have "fav_reach (fav_remove_item 1 FAVT_LINE (snd (fav_add_line True ?s1)), None)" by (rule step [OF _ remove_item])
  then have "fav_reach (fav_cleanup (fav_remove_item 1 FAVT_LINE (snd (fav_add_line True ?s1))), None)" by (rule step [OF _ cleanup])
  moreover have "fav_cleanup (fav_remove_item 1 FAVT_LINE (snd (fav_add_line True ?s1))) = leak_state 0"
    by (simp add: fav_add_line_def get_current_fav_def is_maxsize_def MAX_FAV_def MAX_LINE_def fav_preappend_def upd_current_def
        fav_increase_def enlarge_if_full_def DataTail_def FAV_PRE_ALLOC_def fav_remove_item_def get_fav_item_def fav_remove_at_def put_items_def
        fav_decrease_def)
      (simp add: fav_cleanup_def leak_state_def cut_tail_def put_items_def get_data_number_def valid_item_def is_set_attr_def)
  ultimately show ?case by auto
next
  case (Suc n)
  then obtain f where "fav_reach (leak_state n, f)" by auto
  then have "fav_reach (snd (fav_add_folder True (leak_state n)), f)" by (rule step [OF _ add_folder])
  then have "fav_reach (snd (fav_folder_in 1 (snd (fav_add_folder True (leak_state n)))), f)" by (rule step [OF _ folder_in])
  then have "fav_reach (snd (fav_add_line True (snd (fav_folder_in 1 (snd (fav_add_folder True (leak_state n)))))), f)" by (rule step [OF _ add_line])
  from step [OF step [OF step [OF this folder_out] remove_item [where i = 1 and k = FAVT_FOLDER]] cleanup]
  have "fav_reach (leak_state (Suc n), f)" using leak_step [of n] Suc(2) by simp
  then show ?case by blast
qed

section \<open>The properties\<close>

text \<open>
  C10.
  After any sequence of logins, saves and the operations on one folder (opening and closing, adding and removing entries, moving, sorting,
  tagging, titles, removing what is tagged), with or without memory, the counters of every folder are the number of its
  valid entries of each type, no board is entered twice in a folder, the total count bounds the valid
  entries and stays within \<open>MAX_FAV\<close>, and the open folders are a path of valid folders from the root.  Two operations are not
  among these and do not keep this: the tags of administrators, whose entries are counted without being valid
  (\<open>fav_add_admtag_miscounts\<close>), and \<open>fav_add_all_tagged_item\<close>, which moves tagged entries between folders without looking for
  a board that is already there.
\<close>

theorem fav_reach_inv:
  assumes "fav_reach (s, f)"
  shows "fav_inv s"
  using reach_ok [OF assms] by (simp add: sess_ok_def)

theorem fav_reach_inv_witness: "fav_inv (snd (fav_add_folder True (leak_state 0)))"
proof -
  obtain f where "fav_reach (leak_state 0, f)" using reach_leak [of 0] by auto
  then have "fav_reach (snd (fav_add_folder True (leak_state 0)), f)" by (rule step [OF _ add_folder])
  then show ?thesis by (rule fav_reach_inv)
qed



text \<open>
  C36.
  The entries of a removed folder stay counted: for every \<open>n\<close> below \<open>MAX_FAV\<close> there is a run after which the
  favourites are empty and cleaned up and \<open>fav_number\<close> is \<open>n\<close>, so that only \<open>MAX_FAV - n\<close> entries can
  still be added.
\<close>

theorem fav_number_leak:
  assumes "n < 1024"
  shows "\<exists>s f r. fav_reach (s, f) \<and> fs_root s = Some r \<and> favh r = [] \<and> fav_number s = int n"
  using reach_leak [OF assms] by (force simp: leak_state_def)

theorem fav_number_leak_witness:
  "\<exists>s f r. fav_reach (s, f) \<and> fs_root s = Some r \<and> favh r = [] \<and> fav_number s = 1023"
  using fav_number_leak [of 1023] by simp

end
