(* ===== verification/Uhash.thy ===== *)
theory Uhash
  imports Strings "HOL-Library.Multiset"
begin

text \<open>
  The user cache in shared memory, \<open>src/common/bbs/cache.c\<close>: the hash table from user ids to
  user numbers (\<open>add_to_uhash\<close>, \<open>remove_from_uhash\<close>, \<open>dosearchuser\<close>, \<open>setuserid\<close>), its first fill by
  \<open>src/util/uhash_loader.c\<close>, and the money of a user (\<open>deumoney\<close>).

  The arrays of the segment are lists; \<open>MAX_USERS\<close> and \<open>1 << HASH_BITS\<close>, constants of the configuration,
  are their lengths.  Those who change the table hold \<open>passwd_lock\<close>, so an operation on it is one
  step, except in the last part, where a search runs while the table is changed.

  The theory shows that the table behaves as a list of users in the order in which they were entered, that
  no update of the money is lost when several processes update it, and that a search that
  runs during \<open>setuserid\<close> of another user can miss a user who is in the table all the time.
\<close>

section \<open>The segment\<close>

record ushm =
  userid :: "cstr list"
  next_in_hash :: "int list"
  hash_head :: "int list"

definition MAX_USERS :: "ushm \<Rightarrow> int" where "MAX_USERS s = int (length (userid s))"

definition uhash :: "ushm \<Rightarrow> cstr \<Rightarrow> nat" where
  "uhash s i = unat (StringHash i) mod length (hash_head s)"

definition set_userid :: "nat \<Rightarrow> cstr \<Rightarrow> ushm \<Rightarrow> ushm" where
  "set_userid n i s = s\<lparr>userid := (userid s)[n := strlcpy (IDLEN + 1) i]\<rparr>"

definition set_next :: "nat \<Rightarrow> int \<Rightarrow> ushm \<Rightarrow> ushm" where
  "set_next n v s = s\<lparr>next_in_hash := (next_in_hash s)[n := v]\<rparr>"

definition set_head :: "nat \<Rightarrow> int \<Rightarrow> ushm \<Rightarrow> ushm" where
  "set_head h v s = s\<lparr>hash_head := (hash_head s)[h := v]\<rparr>"

section \<open>Operations\<close>

definition add_to_uhash :: "int \<Rightarrow> cstr \<Rightarrow> ushm \<Rightarrow> ushm" where
  "add_to_uhash n i s =
     (if n < 0 \<or> n \<ge> MAX_USERS s then s
      else let h = uhash s i; s1 = set_userid (nat n) i s; s2 = set_next (nat n) (hash_head s1 ! h) s1 in
        set_head h n s2)"

text \<open>The loop of \<open>remove_from_uhash\<close> with \<open>k\<close> rounds left.\<close>

fun remove_loop :: "nat \<Rightarrow> int \<Rightarrow> int \<Rightarrow> ushm \<Rightarrow> ushm" where
  "remove_loop 0 n prev s = s"
| "remove_loop (Suc k) n prev s =
     (if prev < 0 \<or> prev \<ge> MAX_USERS s then s
      else let nx = next_in_hash s ! nat prev in
        if nx = n then set_next (nat prev) (next_in_hash s ! nat n) s else remove_loop k n nx s)"

definition remove_from_uhash :: "int \<Rightarrow> ushm \<Rightarrow> ushm" where
  "remove_from_uhash n s =
     (if n < 0 \<or> n \<ge> MAX_USERS s then s
      else let h = uhash s (userid s ! nat n); head = hash_head s ! h in
        if head < 0 \<or> head \<ge> MAX_USERS s then s
        else if head = n then set_head h (next_in_hash s ! nat n) s
        else remove_loop (length (userid s)) n head s)"

text \<open>\<open>dosearchuser\<close>: the user number (0 for none) and the id as it is written in the table.\<close>

fun usearch_loop :: "nat \<Rightarrow> cstr \<Rightarrow> int \<Rightarrow> ushm \<Rightarrow> int" where
  "usearch_loop 0 i p s = 0"
| "usearch_loop (Suc k) i p s =
     (if p < 0 \<or> p \<ge> MAX_USERS s then 0
      else if strcasecmp (userid s ! nat p) i = 0 then p + 1
      else usearch_loop k i (next_in_hash s ! nat p) s)"

definition dosearchuser :: "cstr \<Rightarrow> ushm \<Rightarrow> int \<times> cstr option" where
  "dosearchuser i s =
     (let p = usearch_loop (length (userid s)) i (hash_head s ! uhash s i) s in
      (p, if p \<noteq> 0 \<and> i \<noteq> [] then Some (strlcpy (IDLEN + 1) (userid s ! nat (p - 1))) else None))"

definition searchuser :: "cstr \<Rightarrow> ushm \<Rightarrow> int \<times> cstr option" where
  "searchuser i s = (if i = [] then (0, None) else dosearchuser i s)"

definition getuserid :: "int \<Rightarrow> ushm \<Rightarrow> cstr option" where
  "getuserid num s = (if num - 1 \<ge> 0 \<and> num - 1 < MAX_USERS s then Some (userid s ! nat (num - 1)) else None)"

definition setuserid :: "int \<Rightarrow> cstr \<Rightarrow> ushm \<Rightarrow> ushm" where
  "setuserid num i s =
     (if num > 0 \<and> num \<le> MAX_USERS s then add_to_uhash (num - 1) i (remove_from_uhash (num - 1) s) else s)"

section \<open>The loader\<close>

text \<open>
  \<open>userec_add_to_uhash\<close> when the segment is new (\<open>onfly\<close> is 0): the entry goes to the end of its chain;
  \<open>seen\<close> is the number of invalid ids seen, of which the first 1000 are kept as free slots.
\<close>

fun append_loop :: "nat \<Rightarrow> int \<Rightarrow> int \<Rightarrow> ushm \<Rightarrow> ushm option" where
  "append_loop 0 n p s = None"
| "append_loop (Suc k) n p s =
     (if next_in_hash s ! nat p = -1 then Some (set_next (nat p) n (set_next (nat n) (-1) s))
      else append_loop k n (next_in_hash s ! nat p) s)"

definition userec_add_to_uhash :: "nat \<Rightarrow> cstr \<Rightarrow> nat \<times> ushm \<Rightarrow> (nat \<times> ushm) option" where
  "userec_add_to_uhash n i cs =
     (case cs of (seen, s) \<Rightarrow>
        let seen1 = (if is_validuserid i then seen else seen + 1) in
        if \<not> is_validuserid i \<and> seen1 > 1000 then Some (seen1, s)
        else
          let h = uhash s i; s1 = set_userid n i s; head = hash_head s1 ! h in
          map_option (Pair seen1)
            (if head = -1 then Some (set_head h (int n) (set_next n (-1) s1))
             else append_loop (length (userid s)) (int n) head s1))"

fun fill_loop :: "nat \<Rightarrow> cstr list \<Rightarrow> nat \<times> ushm \<Rightarrow> (nat \<times> ushm) option" where
  "fill_loop n [] cs = Some cs"
| "fill_loop n (i # ids) cs = Option.bind (userec_add_to_uhash n i cs) (fill_loop (n + 1) ids)"

text \<open>\<open>fill_uhash(0)\<close> on the ids of the password file.\<close>

definition fill_uhash :: "cstr list \<Rightarrow> ushm \<Rightarrow> ushm option" where
  "fill_uhash ids s =
     map_option snd (fill_loop 0 (take (length (userid s)) ids) (0, s\<lparr>hash_head := replicate (length (hash_head s)) (-1)\<rparr>))"

section \<open>Money\<close>

text \<open>
  The new amount \<open>deumoney\<close> computes; \<^const>\<open>None\<close> is signed overflow, in the negation or in the sum.
\<close>

definition int_ok :: "int \<Rightarrow> bool" where "int_ok x \<longleftrightarrow> - (2 ^ 31) \<le> x \<and> x < 2 ^ 31"

definition new_money :: "int \<Rightarrow> int \<Rightarrow> int option" where
  "new_money old_m money =
     (if money < 0 \<and> \<not> int_ok (- money) then None
      else if money < 0 \<and> old_m < - money then Some 0
      else if int_ok (old_m + money) then Some (old_m + money)
      else None)"

text \<open>\<open>deumoney\<close> of one process alone: the result and the money of all users.\<close>

definition deumoney :: "int \<Rightarrow> int \<Rightarrow> int list \<Rightarrow> (int \<times> int list) option" where
  "deumoney uid m money =
     (if uid \<le> 0 \<or> uid > int (length money) then Some (-1, money)
      else map_option (\<lambda>n. (n, money[nat (uid - 1) := n])) (new_money (money ! nat (uid - 1)) m))"

definition setumoney :: "int \<Rightarrow> int \<Rightarrow> int list \<Rightarrow> int \<times> int list" where
  "setumoney uid m money =
     (if uid \<le> 0 \<or> uid > int (length money) then (-1, money) else (m, money[nat (uid - 1) := m]))"

text \<open>
  Several processes on the cell of one user: a call that has not read the cell, one that has computed the
  new amount, and one that has returned.  A failed compare-and-exchange starts the loop again.
\<close>

datatype money_call = DeMoney int | SetMoney int

datatype money_proc = MStart money_call | MLoaded int int int | MDone money_call int

inductive money_step :: "int \<times> money_proc list \<Rightarrow> int \<times> money_proc list \<Rightarrow> bool" where
  m_load: "\<lbrakk>j < length ps; ps ! j = MStart (DeMoney m); new_money c m = Some n\<rbrakk> \<Longrightarrow> money_step (c, ps) (c, ps[j := MLoaded m c n])"
| m_swap: "\<lbrakk>j < length ps; ps ! j = MLoaded m old n; c = old\<rbrakk> \<Longrightarrow> money_step (c, ps) (n, ps[j := MDone (DeMoney m) n])"
| m_fail: "\<lbrakk>j < length ps; ps ! j = MLoaded m old n; c \<noteq> old\<rbrakk> \<Longrightarrow> money_step (c, ps) (c, ps[j := MStart (DeMoney m)])"
| m_store: "\<lbrakk>j < length ps; ps ! j = MStart (SetMoney m)\<rbrakk> \<Longrightarrow> money_step (c, ps) (m, ps[j := MDone (SetMoney m) m])"

section \<open>A search during an update\<close>

text \<open>
  \<open>setuserid\<close> as the writes other processes can see: the removal (one exchange), the id, the link, and the head.
  \<open>dosearchuser\<close> as its reads: the head, the comparison of an entry, and the next index.
\<close>

datatype uwriter = WStart int cstr | WRemoved nat cstr | WNamed nat cstr | WLinked nat cstr | WDone

datatype ureader = RStart cstr | RAt cstr int nat | RNext cstr int nat | RDone int

inductive race_step :: "ushm \<times> uwriter \<times> ureader \<Rightarrow> ushm \<times> uwriter \<times> ureader \<Rightarrow> bool" where
  w_remove: "\<lbrakk>0 < num; num \<le> MAX_USERS s\<rbrakk> \<Longrightarrow>
     race_step (s, WStart num i, r) (remove_from_uhash (num - 1) s, WRemoved (nat (num - 1)) i, r)"
| w_name: "race_step (s, WRemoved n i, r) (set_userid n i s, WNamed n i, r)"
| w_link: "race_step (s, WNamed n i, r) (set_next n (hash_head s ! uhash s i) s, WLinked n i, r)"
| w_publish: "race_step (s, WLinked n i, r) (set_head (uhash s i) (int n) s, WDone, r)"
| r_start: "race_step (s, w, RStart i) (s, w, RAt i (hash_head s ! uhash s i) 0)"
| r_out: "int t \<ge> MAX_USERS s \<or> p < 0 \<or> p \<ge> MAX_USERS s \<Longrightarrow> race_step (s, w, RAt i p t) (s, w, RDone 0)"
| r_hit: "\<lbrakk>int t < MAX_USERS s; 0 \<le> p; p < MAX_USERS s; strcasecmp (userid s ! nat p) i = 0\<rbrakk> \<Longrightarrow>
     race_step (s, w, RAt i p t) (s, w, RDone (p + 1))"
| r_miss: "\<lbrakk>int t < MAX_USERS s; 0 \<le> p; p < MAX_USERS s; strcasecmp (userid s ! nat p) i \<noteq> 0\<rbrakk> \<Longrightarrow>
     race_step (s, w, RAt i p t) (s, w, RNext i p t)"
| r_next: "race_step (s, w, RNext i p t) (s, w, RAt i (next_in_hash s ! nat p) (t + 1))"

section \<open>The specification\<close>

text \<open>The users in the order in which a search meets them, with their slots.\<close>

type_synonym users = "(nat \<times> cstr) list"

definition same_id :: "cstr \<Rightarrow> cstr \<Rightarrow> bool" where "same_id i j \<longleftrightarrow> map to_lower i = map to_lower j"

definition spec_set :: "nat \<Rightarrow> cstr \<Rightarrow> users \<Rightarrow> users" where
  "spec_set n i us = (n, i) # filter (\<lambda>u. fst u \<noteq> n) us"

definition spec_search :: "cstr \<Rightarrow> users \<Rightarrow> int" where
  "spec_search i us = (case find (\<lambda>u. same_id (snd u) i) us of Some u \<Rightarrow> int (fst u) + 1 | None \<Rightarrow> 0)"

text \<open>The chain from the index \<open>p\<close>, and the users of one chain.\<close>

fun chain :: "int list \<Rightarrow> int \<Rightarrow> nat list \<Rightarrow> bool" where
  "chain nx p [] \<longleftrightarrow> p = -1"
| "chain nx p (x # xs) \<longleftrightarrow> p = int x \<and> x < length nx \<and> chain nx (nx ! x) xs"

definition bucket :: "nat \<Rightarrow> nat \<Rightarrow> users \<Rightarrow> users" where
  "bucket m h us = filter (\<lambda>u. unat (StringHash (snd u)) mod m = h) us"

definition id_ok :: "cstr \<Rightarrow> bool" where "id_ok i \<longleftrightarrow> length i \<le> IDLEN \<and> 0 \<notin> set i"

text \<open>The table holds the users; this is the invariant of the table.\<close>

definition holds_users :: "ushm \<Rightarrow> users \<Rightarrow> bool" where
  "holds_users s us \<longleftrightarrow> length (next_in_hash s) = length (userid s) \<and> hash_head s \<noteq> [] \<and> distinct (map fst us) \<and>
     list_all (\<lambda>u. fst u < length (userid s) \<and> userid s ! fst u = snd u \<and> id_ok (snd u)) us \<and>
     (\<forall>h < length (hash_head s). chain (next_in_hash s) (hash_head s ! h) (map fst (bucket (length (hash_head s)) h us)))"

section \<open>Chains\<close>

lemma chain_upd: "n \<notin> set xs \<Longrightarrow> chain (nx[n := v]) p xs = chain nx p xs"
  by (induction xs arbitrary: p) auto

lemma chain_cong: "(\<And>x. x \<in> set xs \<Longrightarrow> nx' ! x = nx ! x) \<Longrightarrow> length nx' = length nx \<Longrightarrow> chain nx' p xs = chain nx p xs"
  by (induction xs arbitrary: p) auto

lemma chain_length: "chain nx p xs \<Longrightarrow> distinct xs \<Longrightarrow> length xs \<le> length nx"
proof -
  have "chain nx p xs \<Longrightarrow> set xs \<subseteq> {..<length nx}" by (induction xs arbitrary: p) auto
  then show "chain nx p xs \<Longrightarrow> distinct xs \<Longrightarrow> ?thesis"
    by (metis card_lessThan card_mono distinct_card finite_lessThan)
qed

lemma strlcpy_id [simp]: "id_ok i \<Longrightarrow> strlcpy 13 i = i"
  by (simp add: strlcpy_def id_ok_def)

lemma same_id_hash: "same_id i j \<Longrightarrow> StringHash i = StringHash j"
proof -
  have "map to_lower i = map to_lower j \<Longrightarrow> fnv1a_32_strcase i h = fnv1a_32_strcase j h" for h
  proof (induction i arbitrary: j h)
    case (Cons c i)
    then obtain d t where t: "j = d # t" "to_lower c = to_lower d" "map to_lower i = map to_lower t" by (cases j) auto
    then have "to_upper c = to_upper d" by (metis to_upper_to_lower)
    then show ?case using Cons.IH [OF t(3)] t(1) by simp
  qed simp
  then show "same_id i j \<Longrightarrow> ?thesis" by (simp add: same_id_def StringHash_def)
qed

text \<open>Searching one chain is searching all users.\<close>

lemma find_bucket:
  "find (\<lambda>u. same_id (snd u) i) (bucket m (unat (StringHash i) mod m) us) = find (\<lambda>u. same_id (snd u) i) us"
  by (induction us) (auto simp: bucket_def same_id_hash)

lemma usearch_loop_chain:
  assumes "chain (next_in_hash s) p (map fst us)" "length (next_in_hash s) = length (userid s)" "length us \<le> k" "id_ok i"
    "list_all (\<lambda>u. userid s ! fst u = snd u \<and> id_ok (snd u)) us"
  shows "usearch_loop k i p s = spec_search i us"
  using assms
proof (induction us arbitrary: p k)
  case Nil
  then show ?case by (cases k) (simp_all add: spec_search_def)
next
  case (Cons u us)
  then obtain k' where "k = Suc k'" by (cases k) auto
  then show ?case using Cons by (auto simp: spec_search_def MAX_USERS_def strcasecmp_0 same_id_def id_ok_def)
qed

lemma dosearch_ok:
  assumes "holds_users s us" "id_ok i"
  shows "fst (dosearchuser i s) = spec_search i us"
proof -
  let ?m = "length (hash_head s)" let ?h = "uhash s i"
  have h: "?h < ?m" using assms(1) by (simp add: uhash_def holds_users_def)
  let ?b = "bucket ?m ?h us"
  have c: "chain (next_in_hash s) (hash_head s ! ?h) (map fst ?b)" using assms(1) h by (simp add: holds_users_def)
  have d: "distinct (map fst ?b)" using assms(1) by (simp add: holds_users_def bucket_def distinct_map inj_on_def)
  have "usearch_loop (length (userid s)) i (hash_head s ! ?h) s = spec_search i ?b"
    by (rule usearch_loop_chain) (use assms c chain_length [OF c d] in \<open>auto simp: holds_users_def bucket_def list_all_iff\<close>)
  moreover have "spec_search i ?b = spec_search i us" by (simp add: spec_search_def uhash_def find_bucket)
  ultimately show ?thesis by (simp add: dosearchuser_def Let_def)
qed

section \<open>Adding and removing\<close>

lemma set_sel [simp]:
  "userid (set_next n v s) = userid s" "hash_head (set_next n v s) = hash_head s" "next_in_hash (set_next n v s) = (next_in_hash s)[n := v]"
  "userid (set_head h v s) = userid s" "next_in_hash (set_head h v s) = next_in_hash s" "hash_head (set_head h v s) = (hash_head s)[h := v]"
  "hash_head (set_userid n i s) = hash_head s" "next_in_hash (set_userid n i s) = next_in_hash s"
  "userid (set_userid n i s) = (userid s)[n := strlcpy (IDLEN + 1) i]"
  by (simp_all add: set_next_def set_head_def set_userid_def)

lemma add_ok:
  assumes "holds_users s us" "n \<notin> fst ` set us" "n < length (userid s)" "id_ok i"
  shows "holds_users (add_to_uhash (int n) i s) ((n, i) # us)"
proof -
  let ?m = "length (hash_head s)" let ?h = "uhash s i"
  have h: "?h < ?m" using assms(1) by (simp add: uhash_def holds_users_def)
  have b: "bucket ?m k ((n, i) # us) = (if k = ?h then (n, i) # bucket ?m k us else bucket ?m k us)" for k
    by (simp add: bucket_def uhash_def)
  have u: "n \<notin> set (map fst (bucket ?m k us))" for k using assms(2) by (auto simp: bucket_def)
  have "chain ((next_in_hash s)[n := hash_head s ! ?h]) ((hash_head s)[?h := int n] ! k) (map fst (bucket ?m k ((n, i) # us)))"
    if "k < ?m" for k
    using that assms h u [of k] by (auto simp: b holds_users_def chain_upd nth_list_update)
  then show ?thesis using assms by (auto simp: holds_users_def add_to_uhash_def MAX_USERS_def Let_def uhash_def list_all_iff nth_list_update)
qed

lemma remove_loop_other: "hash_head (remove_loop k n p s) = hash_head s \<and> userid (remove_loop k n p s) = userid s"
  by (induction k n p s rule: remove_loop.induct) (simp_all add: Let_def)

text \<open>Removing the slot \<open>n\<close> from the chain that starts with \<open>p\<close>.\<close>

lemma remove_loop_chain:
  assumes "chain (next_in_hash s) (int p) (p # xs)" "distinct (p # xs)" "length (next_in_hash s) = length (userid s)" "length xs < k" "n \<noteq> p"
  defines "nx \<equiv> next_in_hash (remove_loop k (int n) (int p) s)"
  shows "chain nx (int p) (filter (\<lambda>x. x \<noteq> n) (p # xs)) \<and> (\<forall>q. q \<notin> set (p # xs) \<longrightarrow> nx ! q = next_in_hash s ! q) \<and>
    length nx = length (next_in_hash s)"
  using assms(1-5) unfolding nx_def
proof (induction xs arbitrary: p k)
  case Nil
  then obtain k' where k: "k = Suc k'" by (cases k) auto
  then show ?case using Nil by (cases k') (auto simp: MAX_USERS_def Let_def)
next
  case (Cons x xs)
  then obtain k' where k: "k = Suc k'" by (cases k) auto
  have p: "p < length (next_in_hash s)" "next_in_hash s ! p = int x" "chain (next_in_hash s) (int x) (x # xs)" using Cons(2) by auto
  show ?case
  proof (cases "x = n")
    case True
    have "filter (\<lambda>y. y \<noteq> n) xs = xs" using Cons(3) True by (auto simp: filter_id_conv)
    then show ?thesis using Cons(2-4,6) True k p by (auto simp: MAX_USERS_def chain_upd)
  next
    case False
    have r: "remove_loop k (int n) (int p) s = remove_loop k' (int n) (int x) s"
      using k p(1,2) False Cons(4) by (simp add: MAX_USERS_def)
    let ?nx = "next_in_hash (remove_loop k' (int n) (int x) s)"
    have "chain ?nx (int x) (filter (\<lambda>x. x \<noteq> n) (x # xs)) \<and> (\<forall>q. q \<notin> set (x # xs) \<longrightarrow> ?nx ! q = next_in_hash s ! q) \<and>
        length ?nx = length (next_in_hash s)"
      by (rule Cons.IH [OF p(3)]) (use Cons(3-6) False k in auto)
    then show ?thesis using r p Cons(3,6) False by auto
  qed
qed

lemma bucket_filter: "bucket m h (filter P us) = filter P (bucket m h us)"
  by (simp add: bucket_def conj_commute)

lemma remove_ok:
  assumes "holds_users s us" "n < length (userid s)"
  shows "holds_users (remove_from_uhash (int n) s) (filter (\<lambda>u. fst u \<noteq> n) us) \<and>
    length (userid (remove_from_uhash (int n) s)) = length (userid s)"
proof -
  let ?m = "length (hash_head s)" let ?h = "uhash s (userid s ! n)" let ?s = "remove_from_uhash (int n) s"
  let ?b = "\<lambda>k. map fst (bucket ?m k us)"
  have h: "?h < ?m" using assms(1) by (simp add: uhash_def holds_users_def)
  have w: "length (next_in_hash s) = length (userid s)" "distinct (map fst us)" using assms(1) by (simp_all add: holds_users_def)
  have c: "chain (next_in_hash s) (hash_head s ! k) (?b k)" if "k < ?m" for k using assms(1) that by (simp add: holds_users_def)
  have d: "distinct (?b k)" for k using w(2) by (simp add: bucket_def distinct_map inj_on_def)
  have o: "n \<notin> set (?b k)" if "k \<noteq> ?h" for k
    using assms(1) that by (auto simp: bucket_def holds_users_def list_all_iff uhash_def)
  have dj: "set (?b k) \<inter> set (?b ?h) = {}" if "k \<noteq> ?h" for k
    using that w(2) by (fastforce simp: bucket_def distinct_map inj_on_def)
  have f: "map fst (bucket ?m k (filter (\<lambda>u. fst u \<noteq> n) us)) = filter (\<lambda>x. x \<noteq> n) (?b k)" for k
    by (simp add: bucket_filter filter_map comp_def)
  have fo: "filter (\<lambda>x. x \<noteq> n) (?b k) = ?b k" if "k \<noteq> ?h" for k using o [OF that] by (auto simp: filter_id_conv)
  have "userid ?s = userid s \<and> length (hash_head ?s) = ?m \<and> length (next_in_hash ?s) = length (next_in_hash s) \<and>
      (\<forall>k < ?m. chain (next_in_hash ?s) (hash_head ?s ! k) (filter (\<lambda>x. x \<noteq> n) (?b k)))"
  proof (cases "?b ?h")
    case Nil
    then have "?s = s" using c [OF h] assms(2) by (simp add: remove_from_uhash_def MAX_USERS_def)
    then show ?thesis using Nil c fo by (metis filter.simps(1))
  next
    case (Cons p xs)
    have p: "hash_head s ! ?h = int p" "p < length (userid s)" "n \<noteq> p \<or> filter (\<lambda>x. x \<noteq> n) (p # xs) = xs"
      using c [OF h] d [of ?h] w(1) by (auto simp: Cons filter_id_conv)
    show ?thesis
    proof (cases "p = n")
      case True
      then have "?s = set_head ?h (next_in_hash s ! n) s" using p(1) assms(2) by (simp add: remove_from_uhash_def MAX_USERS_def)
      moreover have "chain (next_in_hash s) (next_in_hash s ! n) (filter (\<lambda>x. x \<noteq> n) (?b ?h))"
        using c [OF h] p(3) True by (simp add: Cons)
      ultimately show ?thesis using c fo h by (auto simp: nth_list_update)
    next
      case False
      let ?r = "remove_loop (length (userid s)) (int n) (int p) s"
      have s: "?s = ?r" using p(1,2) False assms(2) by (simp add: remove_from_uhash_def MAX_USERS_def)
      have "length (p # xs) \<le> length (userid s)" using chain_length [OF c [OF h] d] w(1) by (simp add: Cons)
      then have r: "chain (next_in_hash ?r) (int p) (filter (\<lambda>x. x \<noteq> n) (p # xs))" "length (next_in_hash ?r) = length (next_in_hash s)"
        "\<And>q. q \<notin> set (p # xs) \<Longrightarrow> next_in_hash ?r ! q = next_in_hash s ! q"
        using remove_loop_chain [of s p xs "length (userid s)" n] c [OF h] d [of ?h] False w(1) by (auto simp: Cons)
      have "chain (next_in_hash ?r) (hash_head s ! k) (?b k)" if "k < ?m" "k \<noteq> ?h" for k
      proof -
        have "q \<notin> set (p # xs)" if "q \<in> set (?b k)" for q using dj [OF \<open>k \<noteq> ?h\<close>] that unfolding Cons by blast
        then show ?thesis using chain_cong [of "?b k" "next_in_hash ?r" "next_in_hash s"] r(2,3) c [OF that(1)] by blast
      qed
      then show ?thesis using s r(1,2) fo remove_loop_other [of "length (userid s)" "int n" "int p" s] p(1) Cons by metis
    qed
  qed
  then show ?thesis using assms(1) by (auto simp: holds_users_def f list_all_iff distinct_map inj_on_def)
qed

lemma setuserid_ok:
  assumes "holds_users s us" "n < length (userid s)" "id_ok i"
  shows "holds_users (setuserid (int n + 1) i s) (spec_set n i us) \<and> length (userid (setuserid (int n + 1) i s)) = length (userid s)"
proof -
  let ?s = "remove_from_uhash (int n) s"
  have r: "holds_users ?s (filter (\<lambda>u. fst u \<noteq> n) us)" "length (userid ?s) = length (userid s)" using remove_ok [OF assms(1,2)] by auto
  have "holds_users (add_to_uhash (int n) i ?s) ((n, i) # filter (\<lambda>u. fst u \<noteq> n) us)"
    by (rule add_ok) (use r assms in auto)
  moreover have "length (userid (add_to_uhash (int n) i ?s)) = length (userid s)" using r(2) by (simp add: add_to_uhash_def Let_def)
  ultimately show ?thesis using assms(2) by (simp add: setuserid_def MAX_USERS_def spec_set_def)
qed

section \<open>Runs\<close>

datatype uop = USet int cstr | USearch cstr

fun run_ops :: "uop list \<Rightarrow> ushm \<Rightarrow> (int \<times> cstr option) list" where
  "run_ops [] s = []"
| "run_ops (USet num i # ops) s = run_ops ops (setuserid num i s)"
| "run_ops (USearch i # ops) s = dosearchuser i s # run_ops ops s"

text \<open>The same run on the list of \<open>m\<close> slots.\<close>

fun spec_ops :: "nat \<Rightarrow> uop list \<Rightarrow> users \<Rightarrow> (int \<times> cstr option) list" where
  "spec_ops m [] us = []"
| "spec_ops m (USet num i # ops) us = spec_ops m ops (if 0 < num \<and> num \<le> int m then spec_set (nat (num - 1)) i us else us)"
| "spec_ops m (USearch i # ops) us =
     (let p = spec_search i us in (p, if p \<noteq> 0 \<and> i \<noteq> [] then map_of us (nat (p - 1)) else None)) # spec_ops m ops us"

definition uop_ok :: "uop \<Rightarrow> bool" where "uop_ok op = (case op of USet num i \<Rightarrow> id_ok i | USearch i \<Rightarrow> id_ok i)"

lemma dosearchuser_spec:
  assumes "holds_users s us" "id_ok i"
  shows "dosearchuser i s = (let p = spec_search i us in (p, if p \<noteq> 0 \<and> i \<noteq> [] then map_of us (nat (p - 1)) else None))"
proof (cases "find (\<lambda>u. same_id (snd u) i) us")
  case None
  then show ?thesis using dosearch_ok [OF assms] by (simp add: dosearchuser_def spec_search_def Let_def)
next
  case (Some u)
  then have u: "u \<in> set us" by (metis find_Some_iff nth_mem)
  then have "map_of us (fst u) = Some (snd u)" "userid s ! fst u = snd u" "id_ok (snd u)"
    using assms(1) by (auto simp: holds_users_def list_all_iff)
  then show ?thesis using Some dosearch_ok [OF assms] by (simp add: dosearchuser_def spec_search_def Let_def)
qed

lemma run_ops_ok:
  "holds_users s us \<Longrightarrow> list_all uop_ok ops \<Longrightarrow> run_ops ops s = spec_ops (length (userid s)) ops us"
proof (induction ops arbitrary: s us)
  case (Cons op ops)
  show ?case
  proof (cases op)
    case (USearch i)
    then show ?thesis using Cons dosearchuser_spec [of s us i] by (simp add: uop_ok_def)
  next
    case (USet num i)
    show ?thesis
    proof (cases "0 < num \<and> num \<le> int (length (userid s))")
      case True
      then obtain n where n: "num = int n + 1" "n < length (userid s)" by (metis add_diff_cancel_right' diff_ge_0_iff_ge int_one_le_iff_zero_less
            less_iff_succ_less_eq nat_0_le of_nat_less_iff diff_add_cancel linorder_not_less zle_add1_eq_le)
      then show ?thesis using Cons setuserid_ok [of s us n i] USet by (auto simp: uop_ok_def)
    next
      case False
      then show ?thesis using Cons USet by (auto simp: setuserid_def MAX_USERS_def)
    qed
  qed
qed simp

section \<open>The first fill\<close>

lemma append_loop_ok:
  assumes "chain (next_in_hash s) (int p) (p # xs)" "distinct (p # xs)" "length xs < k" "n \<notin> set (p # xs)" "n < length (next_in_hash s)"
  shows "\<exists>s'. append_loop k (int n) (int p) s = Some s' \<and> chain (next_in_hash s') (int p) (p # xs @ [n]) \<and> userid s' = userid s \<and>
    hash_head s' = hash_head s \<and> length (next_in_hash s') = length (next_in_hash s) \<and> (\<forall>q. q \<notin> set (n # p # xs) \<longrightarrow> next_in_hash s' ! q = next_in_hash s ! q)"
  using assms
proof (induction xs arbitrary: p k)
  case Nil
  then obtain k' where "k = Suc k'" by (cases k) auto
  then show ?case using Nil by auto
next
  case (Cons x xs)
  then obtain k' where k: "k = Suc k'" by (cases k) auto
  have p: "p < length (next_in_hash s)" "next_in_hash s ! p = int x" "chain (next_in_hash s) (int x) (x # xs)" using Cons(2) by auto
  have "\<exists>s'. append_loop k' (int n) (int x) s = Some s' \<and> chain (next_in_hash s') (int x) (x # xs @ [n]) \<and> userid s' = userid s \<and>
    hash_head s' = hash_head s \<and> length (next_in_hash s') = length (next_in_hash s) \<and> (\<forall>q. q \<notin> set (n # x # xs) \<longrightarrow> next_in_hash s' ! q = next_in_hash s ! q)"
    by (rule Cons.IH [OF p(3)]) (use Cons(3-6) k in auto)
  then show ?case using k p Cons(3,5) by auto
qed

text \<open>Entering at the end of a chain.\<close>

lemma holds_snoc:
  assumes s: "holds_users s us" and n: "n \<notin> fst ` set us" "n < length (userid s)" and i: "id_ok i"
    and s': "userid s' = (userid s)[n := i]" "length (hash_head s') = length (hash_head s)" "length (next_in_hash s') = length (next_in_hash s)"
    and c: "chain (next_in_hash s') (hash_head s' ! uhash s i) (map fst (bucket (length (hash_head s)) (uhash s i) us) @ [n])"
    and o: "\<And>k. k \<noteq> uhash s i \<Longrightarrow> hash_head s' ! k = hash_head s ! k"
    and q: "\<And>q. q \<noteq> n \<Longrightarrow> q \<notin> set (map fst (bucket (length (hash_head s)) (uhash s i) us)) \<Longrightarrow> next_in_hash s' ! q = next_in_hash s ! q"
  shows "holds_users s' (us @ [(n, i)])"
proof -
  let ?m = "length (hash_head s)" let ?h = "uhash s i" let ?b = "\<lambda>k. map fst (bucket ?m k us)"
  have b: "map fst (bucket ?m k (us @ [(n, i)])) = (if k = ?h then ?b k @ [n] else ?b k)" for k
    by (simp add: bucket_def uhash_def)
  have "chain (next_in_hash s') (hash_head s' ! k) (?b k)" if "k < ?m" "k \<noteq> ?h" for k
  proof -
    have d: "distinct (map fst us)" using s by (simp add: holds_users_def)
    have "set (?b k) \<inter> set (?b ?h) = {}" using that(2) d by (fastforce simp: bucket_def distinct_map inj_on_def)
    then have "next_in_hash s' ! x = next_in_hash s ! x" if "x \<in> set (?b k)" for x
      using q [of x] that n(1) by (auto simp: bucket_def disjoint_iff image_iff)
    then show ?thesis using chain_cong [of "?b k" "next_in_hash s'" "next_in_hash s"] s'(3) s that o by (simp add: holds_users_def)
  qed
  then have "chain (next_in_hash s') (hash_head s' ! k) (map fst (bucket ?m k (us @ [(n, i)])))" if "k < ?m" for k
    using c that by (simp add: b)
  then show ?thesis using s n i s' by (auto simp: holds_users_def list_all_iff nth_list_update image_iff)
qed

lemma userec_add_ok:
  assumes s: "holds_users s us" and n: "n \<notin> fst ` set us" "n < length (userid s)" and i: "id_ok i"
    and k: "is_validuserid i \<or> seen < 1000"
  shows "\<exists>s'. userec_add_to_uhash n i (seen, s) = Some (if is_validuserid i then seen else seen + 1, s') \<and> holds_users s' (us @ [(n, i)]) \<and>
    length (userid s') = length (userid s)"
proof -
  let ?m = "length (hash_head s)" let ?h = "uhash s i" let ?b = "map fst (bucket ?m ?h us)" let ?s1 = "set_userid n i s"
  have h: "?h < ?m" using s by (simp add: uhash_def holds_users_def)
  have w: "length (next_in_hash s) = length (userid s)" "chain (next_in_hash s) (hash_head s ! ?h) ?b" "distinct ?b" "n \<notin> set ?b"
    using s h n(1) by (auto simp: holds_users_def bucket_def distinct_map inj_on_def)
  then have c1: "chain (next_in_hash ?s1) (hash_head s ! ?h) ?b" by simp
  show ?thesis
  proof (cases ?b)
    case Nil
    then have hd: "hash_head s ! ?h = -1" using w(2) by simp
    have "holds_users (set_head ?h (int n) (set_next n (-1) ?s1)) (us @ [(n, i)])"
      by (rule holds_snoc [OF s n i]) (use n(2) w(1) i Nil h in \<open>auto simp: nth_list_update\<close>)
    then show ?thesis using hd k by (auto simp: userec_add_to_uhash_def Let_def)
  next
    case (Cons p xs)
    then have hd: "hash_head s ! ?h = int p" using w(2) by simp
    have "length (p # xs) \<le> length (userid s)" using chain_length [OF w(2,3)] w(1) unfolding Cons by simp
    then obtain s' where a: "append_loop (length (userid s)) (int n) (int p) ?s1 = Some s'" "chain (next_in_hash s') (int p) (p # xs @ [n])"
      "userid s' = userid ?s1" "hash_head s' = hash_head ?s1" "length (next_in_hash s') = length (next_in_hash ?s1)"
      "\<And>q. q \<notin> set (n # p # xs) \<Longrightarrow> next_in_hash s' ! q = next_in_hash ?s1 ! q"
      using append_loop_ok [of ?s1 p xs "length (userid s)" n] c1 w n(2) unfolding Cons hd by auto
    have "holds_users s' (us @ [(n, i)])"
      by (rule holds_snoc [OF s n i]) (use a i n(2) hd in \<open>auto simp: Cons\<close>)
    then show ?thesis using hd k a by (auto simp: userec_add_to_uhash_def Let_def)
  qed
qed

fun spec_fill :: "nat \<Rightarrow> nat \<Rightarrow> cstr list \<Rightarrow> users" where
  "spec_fill n seen [] = []"
| "spec_fill n seen (i # ids) =
     (if is_validuserid i then (n, i) # spec_fill (n + 1) seen ids
      else if seen < 1000 then (n, i) # spec_fill (n + 1) (seen + 1) ids
      else spec_fill (n + 1) (seen + 1) ids)"

lemma fill_loop_ok:
  assumes "holds_users s us" "\<forall>u \<in> set us. fst u < n" "list_all id_ok ids" "n + length ids \<le> length (userid s)"
  shows "\<exists>seen' s'. fill_loop n ids (seen, s) = Some (seen', s') \<and> holds_users s' (us @ spec_fill n seen ids) \<and>
    length (userid s') = length (userid s)"
  using assms
proof (induction ids arbitrary: n seen s us)
  case (Cons i ids)
  show ?case
  proof (cases "is_validuserid i \<or> seen < 1000")
    case True
    let ?c = "if is_validuserid i then seen else seen + 1"
    obtain s' where s': "userec_add_to_uhash n i (seen, s) = Some (?c, s')" "holds_users s' (us @ [(n, i)])"
      "length (userid s') = length (userid s)"
      using userec_add_ok [OF Cons(2) _ _ _ True, of n] Cons(3-5) by fastforce
    have "\<exists>seen' s2. fill_loop (n + 1) ids (?c, s') = Some (seen', s2) \<and> holds_users s2 ((us @ [(n, i)]) @ spec_fill (n + 1) ?c ids) \<and>
        length (userid s2) = length (userid s')"
      by (rule Cons.IH [OF s'(2)]) (use Cons(3-5) s'(3) in auto)
    then show ?thesis using s' True by (auto split: if_splits)
  next
    case False
    then have "userec_add_to_uhash n i (seen, s) = Some (seen + 1, s)" by (simp add: userec_add_to_uhash_def)
    moreover have "\<exists>seen' s2. fill_loop (n + 1) ids (seen + 1, s) = Some (seen', s2) \<and> holds_users s2 (us @ spec_fill (n + 1) (seen + 1) ids) \<and>
        length (userid s2) = length (userid s)"
      by (rule Cons.IH [OF Cons(2)]) (use Cons(3-5) in auto)
    ultimately show ?thesis using False by auto
  qed
qed auto

lemma fill_uhash_ok:
  assumes "length (next_in_hash s) = length (userid s)" "hash_head s \<noteq> []" "list_all id_ok ids"
  shows "\<exists>s'. fill_uhash ids s = Some s' \<and> holds_users s' (spec_fill 0 0 (take (length (userid s)) ids)) \<and> length (userid s') = length (userid s)"
proof -
  let ?s = "s\<lparr>hash_head := replicate (length (hash_head s)) (-1)\<rparr>"
  have "holds_users ?s []" using assms(1,2) by (simp add: holds_users_def bucket_def)
  moreover have "list_all id_ok (take (length (userid s)) ids)" using assms(3) by (auto simp: list_all_iff dest: in_set_takeD)
  ultimately show ?thesis using fill_loop_ok [of ?s "[]" 0 "take (length (userid s)) ids" 0] by (auto simp: fill_uhash_def)
qed

section \<open>Runs of several processes\<close>

text \<open>Calls in the order in which they took effect, with their results.\<close>

fun money_effect :: "int \<Rightarrow> money_call \<Rightarrow> int option" where
  "money_effect c (DeMoney m) = new_money c m"
| "money_effect c (SetMoney m) = Some m"

fun replays :: "int \<Rightarrow> (money_call \<times> int) list \<Rightarrow> int \<Rightarrow> bool" where
  "replays v [] c \<longleftrightarrow> v = c"
| "replays v ((call, r) # log) c \<longleftrightarrow> money_effect v call = Some r \<and> replays r log c"

fun returned :: "money_proc list \<Rightarrow> (money_call \<times> int) list" where
  "returned [] = []"
| "returned (MDone call r # ps) = (call, r) # returned ps"
| "returned (_ # ps) = returned ps"

lemma returned_append [simp]: "returned (ps @ qs) = returned ps @ returned qs"
  by (induction ps rule: returned.induct) auto

lemma replays_snoc: "replays v log c \<Longrightarrow> money_effect c call = Some r \<Longrightarrow> replays v (log @ [(call, r)]) r"
  by (induction v log c rule: replays.induct) auto

lemma returned_upd:
  assumes "j < length ps" "returned [ps ! j] = []"
  shows "mset (returned (ps[j := p])) = mset (returned ps) + mset (returned [p])"
proof -
  have "ps[j := p] = take j ps @ [p] @ drop (Suc j) ps" using assms(1) by (simp add: upd_conv_take_nth_drop)
  then have 1: "returned (ps[j := p]) = returned (take j ps) @ returned [p] @ returned (drop (Suc j) ps)" by (simp only: returned_append)
  have "ps = take j ps @ [ps ! j] @ drop (Suc j) ps" using assms(1) by (simp add: id_take_nth_drop)
  then have "returned ps = returned (take j ps @ [ps ! j] @ drop (Suc j) ps)" by (rule arg_cong)
  then have "returned ps = returned (take j ps) @ returned (drop (Suc j) ps)" by (simp only: returned_append assms(2) append_Nil)
  then show ?thesis by (simp only: 1) simp
qed

definition money_inv :: "int \<Rightarrow> int \<times> money_proc list \<Rightarrow> bool" where
  "money_inv v cfg \<longleftrightarrow> (\<exists>log. mset log = mset (returned (snd cfg)) \<and> replays v log (fst cfg)) \<and>
     (\<forall>m old n. MLoaded m old n \<in> set (snd cfg) \<longrightarrow> new_money old m = Some n)"

lemma money_step_inv:
  assumes "money_step c c'" "money_inv v c"
  shows "money_inv v c'"
  using assms
proof (induction rule: money_step.induct)
  case (m_load j ps m c n)
  then show ?case using returned_upd [of j ps "MLoaded m c n"] set_update_subset_insert [of ps j]
    by (fastforce simp: money_inv_def)
next
  case (m_swap j ps m old n c)
  obtain log where l: "mset log = mset (returned ps)" "replays v log c" using m_swap by (auto simp: money_inv_def)
  have "new_money c m = Some n" using m_swap by (metis money_inv_def nth_mem snd_conv)
  then have "replays v (log @ [(DeMoney m, n)]) n" using replays_snoc [OF l(2), of "DeMoney m"] by simp
  moreover have "mset (log @ [(DeMoney m, n)]) = mset (returned (ps[j := MDone (DeMoney m) n]))"
    using returned_upd [of j ps "MDone (DeMoney m) n"] m_swap l(1) by simp
  moreover have "\<forall>m' old n'. MLoaded m' old n' \<in> set (ps[j := MDone (DeMoney m) n]) \<longrightarrow> new_money old m' = Some n'"
    using m_swap(4) set_update_subset_insert [of ps j "MDone (DeMoney m) n"] by (fastforce simp: money_inv_def)
  ultimately show ?case unfolding money_inv_def fst_conv snd_conv by blast
next
  case (m_fail j ps m old n c)
  then show ?case using returned_upd [of j ps "MStart (DeMoney m)"] set_update_subset_insert [of ps j]
    by (fastforce simp: money_inv_def)
next
  case (m_store j ps m c)
  obtain log where l: "mset log = mset (returned ps)" "replays v log c" using m_store by (auto simp: money_inv_def)
  have "replays v (log @ [(SetMoney m, m)]) m" using replays_snoc [OF l(2), of "SetMoney m"] by simp
  moreover have "mset (log @ [(SetMoney m, m)]) = mset (returned (ps[j := MDone (SetMoney m) m]))"
    using returned_upd [of j ps "MDone (SetMoney m) m"] m_store l(1) by simp
  moreover have "\<forall>m' old n'. MLoaded m' old n' \<in> set (ps[j := MDone (SetMoney m) m]) \<longrightarrow> new_money old m' = Some n'"
    using m_store(3) set_update_subset_insert [of ps j "MDone (SetMoney m) m"] by (fastforce simp: money_inv_def)
  ultimately show ?case unfolding money_inv_def fst_conv snd_conv by blast
qed

lemma money_steps_inv:
  assumes "money_step\<^sup>*\<^sup>* c c'" "money_inv v c"
  shows "money_inv v c'"
  using assms by (induction rule: rtranclp_induct) (auto intro: money_step_inv)

lemma money_start: "list_all (\<lambda>p. \<exists>call. p = MStart call) ps \<Longrightarrow> money_inv v (v, ps)"
proof -
  assume a: "list_all (\<lambda>p. \<exists>call. p = MStart call) ps"
  then have "returned ps = []" by (induction ps) auto
  moreover have "MLoaded m old n \<notin> set ps" for m old n using a by (auto simp: list_all_iff)
  ultimately show ?thesis unfolding money_inv_def by (intro conjI exI [of _ "[]"]) auto
qed

text \<open>The table of the example: two users in one chain of a table of \<open>2 ^ 16\<close> chains, and the id of another chain.\<close>

definition id_fe :: cstr where "id_fe = [102, 101]"
definition id_rcz :: cstr where "id_rcz = [114, 99, 122]"
definition id_ab :: cstr where "id_ab = [97, 98]"

definition race_shm :: ushm where
  "race_shm = \<lparr>userid = [id_fe, id_rcz], next_in_hash = [1, -1], hash_head = (replicate 65536 (-1))[57038 := 0]\<rparr>"

lemma race_hashes:
  "unat (StringHash id_fe) mod 65536 = 57038" "unat (StringHash id_rcz) mod 65536 = 57038" "unat (StringHash id_ab) mod 65536 = 29772"
proof -
  have "int (unat w mod 65536) = uint w mod 65536" for w :: u32 by (simp add: of_nat_mod)
  then have m: "unat w mod 65536 = n \<longleftrightarrow> uint w mod 65536 = int n" for w :: u32 and n by (metis of_nat_eq_iff)
  have "uint (StringHash id_fe) mod 65536 = 57038" "uint (StringHash id_rcz) mod 65536 = 57038" "uint (StringHash id_ab) mod 65536 = 29772"
    by code_simp+
  then show "unat (StringHash id_fe) mod 65536 = 57038" "unat (StringHash id_rcz) mod 65536 = 57038" "unat (StringHash id_ab) mod 65536 = 29772"
    by (simp_all only: m of_nat_numeral)
qed

lemma race_uhash [simp]:
  "length (hash_head s) = 65536 \<Longrightarrow> uhash s id_fe = 57038" "length (hash_head s) = 65536 \<Longrightarrow> uhash s id_rcz = 57038"
  "length (hash_head s) = 65536 \<Longrightarrow> uhash s id_ab = 29772"
  by (simp_all add: uhash_def race_hashes)

lemma race_ids: "id_ok id_fe" "id_ok id_rcz"
  by code_simp+

lemma race_differ: "strcasecmp id_fe id_rcz \<noteq> 0" "strcasecmp id_rcz id_rcz = 0" "strlcpy 13 id_ab = id_ab"
  by code_simp+

lemma race_run:
  "\<exists>s'. race_step\<^sup>*\<^sup>* (race_shm, WStart 1 id_ab, RStart id_rcz) (s', WDone, RDone 0) \<and> fst (dosearchuser id_rcz s') = 2"
proof -
  define s1 where "s1 = remove_from_uhash 0 race_shm"
  define s2 where "s2 = set_userid 0 id_ab s1"
  define s3 where "s3 = set_next 0 (hash_head s2 ! uhash s2 id_ab) s2"
  define s4 where "s4 = set_head (uhash s3 id_ab) (int 0) s3"
  have s1: "s1 = \<lparr>userid = [id_fe, id_rcz], next_in_hash = [1, -1], hash_head = (replicate 65536 (-1))[57038 := 1]\<rparr>"
    by (simp add: s1_def remove_from_uhash_def race_shm_def MAX_USERS_def Let_def set_head_def)
  have s2: "s2 = s1\<lparr>userid := [id_ab, id_rcz]\<rparr>" by (simp add: s2_def s1 set_userid_def race_differ)
  have s3: "s3 = s2\<lparr>next_in_hash := [-1, -1]\<rparr>" by (simp add: s3_def s2 s1 set_next_def)
  have s4: "s4 = s3\<lparr>hash_head := (replicate 65536 (-1))[57038 := 1, 29772 := 0]\<rparr>" by (simp add: s4_def s3 s2 s1 set_head_def)
  have "race_step (race_shm, WStart 1 id_ab, RStart id_rcz) (race_shm, WStart 1 id_ab, RAt id_rcz 0 0)"
    using r_start [of race_shm "WStart 1 id_ab" id_rcz] by (simp add: race_shm_def)
  moreover have "race_step (race_shm, WStart 1 id_ab, RAt id_rcz 0 0) (race_shm, WStart 1 id_ab, RNext id_rcz 0 0)"
    by (rule r_miss) (simp_all add: race_shm_def MAX_USERS_def race_differ)
  moreover have "race_step (race_shm, WStart 1 id_ab, RNext id_rcz 0 0) (s1, WRemoved 0 id_ab, RNext id_rcz 0 0)"
    using w_remove [of 1 race_shm id_ab "RNext id_rcz 0 0"] by (simp add: race_shm_def MAX_USERS_def s1_def)
  moreover have "race_step (s1, WRemoved 0 id_ab, RNext id_rcz 0 0) (s2, WNamed 0 id_ab, RNext id_rcz 0 0)"
    unfolding s2_def by (rule w_name)
  moreover have "race_step (s2, WNamed 0 id_ab, RNext id_rcz 0 0) (s3, WLinked 0 id_ab, RNext id_rcz 0 0)"
    unfolding s3_def by (rule w_link)
  moreover have "race_step (s3, WLinked 0 id_ab, RNext id_rcz 0 0) (s4, WDone, RNext id_rcz 0 0)"
    unfolding s4_def by (rule w_publish)
  moreover have "race_step (s4, WDone, RNext id_rcz 0 0) (s4, WDone, RAt id_rcz (-1) 1)"
  proof -
    have "next_in_hash s4 ! nat 0 = -1" by (simp add: s4 s3)
    then show ?thesis using r_next [of s4 WDone id_rcz 0 0] by simp
  qed
  moreover have "race_step (s4, WDone, RAt id_rcz (-1) 1) (s4, WDone, RDone 0)" by (rule r_out) simp
  ultimately have "race_step\<^sup>*\<^sup>* (race_shm, WStart 1 id_ab, RStart id_rcz) (s4, WDone, RDone 0)"
    by (meson converse_rtranclp_into_rtranclp rtranclp.rtrancl_refl)
  moreover have "fst (dosearchuser id_rcz s4) = 2"
    by (simp add: s4 s3 s2 s1 dosearchuser_def MAX_USERS_def race_differ numeral_2_eq_2)
  ultimately show ?thesis by blast
qed

section \<open>The properties\<close>

text \<open>
  C7.
  The hash table of users, once filled from the password file, behaves as the list of the users: a search returns the first user whose id is
  equal up to case, \<open>setuserid\<close> takes the slot out of its old chain and enters it in front, and a chain never loses
  or repeats a user, whatever collides.
\<close>

theorem uhash_refines:
  assumes "length (next_in_hash s) = length (userid s)" "hash_head s \<noteq> []" "list_all id_ok ids" "list_all uop_ok ops"
  shows "\<exists>s'. fill_uhash ids s = Some s' \<and>
    run_ops ops s' = spec_ops (length (userid s)) ops (spec_fill 0 0 (take (length (userid s)) ids))"
proof -
  obtain s' where "fill_uhash ids s = Some s'" "holds_users s' (spec_fill 0 0 (take (length (userid s)) ids))" "length (userid s') = length (userid s)"
    using fill_uhash_ok [OF assms(1-3)] by auto
  then show ?thesis using run_ops_ok [OF _ assms(4), of s'] by auto
qed

theorem uhash_refines_witness:
  "\<exists>s'. fill_uhash [[102, 101], [114, 99, 122]] \<lparr>userid = [[], []], next_in_hash = [0, 0], hash_head = [7]\<rparr> = Some s' \<and>
     run_ops [USearch [82, 67, 90], USet 2 [97, 98], USearch [82, 67, 90], USearch [65, 66]] s' = [(2, Some [114, 99, 122]), (0, None), (2, Some [97, 98])]"
proof -
  let ?s = "\<lparr>userid = [[], []], next_in_hash = [0, 0], hash_head = [7]\<rparr>" and ?ids = "[[102, 101], [114, 99, 122]]"
    and ?ops = "[USearch [82, 67, 90], USet 2 [97, 98], USearch [82, 67, 90], USearch [65, 66]]"
  have e: "spec_ops (length (userid ?s)) ?ops (spec_fill 0 0 (take (length (userid ?s)) ?ids)) =
      [(2, Some [114, 99, 122]), (0, None), (2, Some [97, 98])]" by code_simp
  have "\<exists>s'. fill_uhash ?ids ?s = Some s' \<and>
      run_ops ?ops s' = spec_ops (length (userid ?s)) ?ops (spec_fill 0 0 (take (length (userid ?s)) ?ids))"
    by (rule uhash_refines; code_simp)
  then show ?thesis unfolding e .
qed

text \<open>
  C20.
  When several processes change the money of a user at once, no change is lost: the calls that have returned can be put in an order in which
  each takes effect on the amount the one before left, returns what it returned, and the last leaves the amount that is stored.
\<close>

theorem money_linearizable:
  assumes "list_all (\<lambda>p. \<exists>call. p = MStart call) ps" "money_step\<^sup>*\<^sup>* (v, ps) (c, ps')"
  shows "\<exists>log. mset log = mset (returned ps') \<and> replays v log c"
  using money_steps_inv [OF assms(2) money_start [OF assms(1)]] by (auto simp: money_inv_def)

theorem money_linearizable_witness:
  "\<exists>log. mset log = {#(DeMoney (-3), 4)#} \<and> replays 7 log 4"
proof -
  have "money_step (7, [MStart (DeMoney (-3)), MStart (DeMoney 5)]) (7, [MLoaded (-3) 7 4, MStart (DeMoney 5)])"
    using m_load [of 0 "[MStart (DeMoney (-3)), MStart (DeMoney 5)]" "-3" 7 4] by (simp add: new_money_def int_ok_def)
  moreover have "money_step (7, [MLoaded (-3) 7 4, MStart (DeMoney 5)]) (4, [MDone (DeMoney (-3)) 4, MStart (DeMoney 5)])"
    using m_swap [of 0 "[MLoaded (-3) 7 4, MStart (DeMoney 5)]" "-3" 7 4 7] by simp
  ultimately have "money_step\<^sup>*\<^sup>* (7, [MStart (DeMoney (-3)), MStart (DeMoney 5)]) (4, [MDone (DeMoney (-3)) 4, MStart (DeMoney 5)])"
    by (meson converse_rtranclp_into_rtranclp rtranclp.rtrancl_refl)
  from money_linearizable [OF _ this] show ?thesis by simp
qed

text \<open>
  C37.
  A search that runs during \<open>setuserid\<close> of another user can miss a user: the table holds \<open>rcz\<close> as user 2 before and after, and the
  search of \<open>rcz\<close> still returns 0, because the entry it stands on is moved to another chain.
\<close>

theorem searchuser_misses_during_setuserid:
  "\<exists>s s' us. holds_users s us \<and> fst (dosearchuser id_rcz s) = 2 \<and>
     race_step\<^sup>*\<^sup>* (s, WStart 1 id_ab, RStart id_rcz) (s', WDone, RDone 0) \<and> fst (dosearchuser id_rcz s') = 2"
proof -
  have "holds_users race_shm [(0, id_fe), (1, id_rcz)]"
    by (auto simp: holds_users_def race_shm_def bucket_def race_hashes nth_list_update race_ids)
  moreover have "fst (dosearchuser id_rcz race_shm) = 2"
    by (simp add: race_shm_def dosearchuser_def MAX_USERS_def race_differ numeral_2_eq_2)
  ultimately show ?thesis using race_run by blast
qed

end
