(* ===== verification/Convert.thy ===== *)
theory Convert
  imports Multibyte Vbuf
begin

text \<open>
  The conversion between the character set of the user's terminal and the one of the system, \<open>src/mbbsd/convert.c\<close>.
  Each of the four functions takes bytes one at a time, keeps a partial character in a \<open>static\<close> variable and appends
  to a buffer.  \<open>convert_read_utf8\<close> and \<open>convert_write_big5\<close> go from UTF-8 to Big5, \<open>convert_write_utf8\<close> and
  \<open>convert_read_big5\<close> from Big5 to UTF-8; the two of each pair do the same with a byte.  The
  tables are parameters.

  The theory shows that what is converted does not depend on how the input is cut, that reading yields at most one byte more than it is
  given, so that a buffer with that much room loses nothing, and that reading what was written gives it back.
\<close>

section \<open>One byte\<close>

text \<open>The bytes for a code point, \<open>?\<close> when the table has none.\<close>

definition put_big5 :: "mb_table \<Rightarrow> utf8_ctx \<Rightarrow> utf8_ctx \<times> byte list" where
  "put_big5 u2b ctx = (case utf8_get_ucs ctx of (ucs, ctx') \<Rightarrow> (ctx', u2b_bytes u2b ucs))"

definition to_big5_step :: "mb_table \<Rightarrow> utf8_ctx \<Rightarrow> byte \<Rightarrow> (utf8_ctx \<times> byte list) option" where
  "to_big5_step u2b ctx c =
     Some (if c < 0x80 then (utf8_init ctx, (if utf8_pending ctx > 0 then [63] else []) @ [c])
       else
         let was_pending = utf8_pending ctx > 0; (r, k) = utf8_add_byte ctx c in
         if r then put_big5 u2b k
         else if utf8_is_error k then
           if was_pending then
             (case utf8_add_byte (utf8_init k) c of
                (True, k') \<Rightarrow> (case put_big5 u2b k' of (k'', out) \<Rightarrow> (k'', 63 # out))
              | (False, k') \<Rightarrow> (k', [63]))
           else (k, [63])
         else (k, []))"

text \<open>The state is the lead byte, 0 for none.\<close>

definition to_utf8_step :: "mb_table \<Rightarrow> byte \<Rightarrow> byte \<Rightarrow> (byte \<times> byte list) option" where
  "to_utf8_step b2u lead c =
     Some (if lead \<noteq> 0 then
         if \<not> big5_is_valid_trail c then if c < 0x80 then (0, [63, c]) else (c, [63])
         else
           let ucs0 = b2u (push_bit 8 (ucast lead) OR ucast c); ucs = (if ucs0 = 0 then 63 else ucs0);
               (ulen, ctx) = utf8_from_ucs utf8_fresh (uint ucs) in
           (0, take ulen (u_buf ctx))
       else if c < 0x80 then (0, [c])
       else (c, []))"

section \<open>The functions\<close>

text \<open>\<open>vbuf_add\<close> of each byte; one that does not fit is lost.\<close>

definition vbuf_adds :: "vbuf \<Rightarrow> byte list \<Rightarrow> vbuf" where
  "vbuf_adds v bs = foldl (\<lambda>v b. snd (vbuf_add v b)) v bs"

definition convert_with :: "('s \<Rightarrow> byte \<Rightarrow> ('s \<times> byte list) option) \<Rightarrow> vbuf \<Rightarrow> byte list \<Rightarrow> 's \<Rightarrow> (int \<times> vbuf \<times> 's) option" where
  "convert_with step v buf s =
     map_option (\<lambda>(s', out). (int (length out), vbuf_adds v out, s')) (run_machine step s buf)"

definition convert_read_utf8 :: "mb_table \<Rightarrow> utf8_ctx vbuf_sink" where
  "convert_read_utf8 u2b = convert_with (to_big5_step u2b)"

definition convert_read_big5 :: "mb_table \<Rightarrow> byte vbuf_sink" where
  "convert_read_big5 b2u = convert_with (to_utf8_step b2u)"

text \<open>Writing one byte; the result is 1 when the byte completed something.\<close>

definition convert_write_utf8 :: "mb_table \<Rightarrow> vbuf \<Rightarrow> byte \<Rightarrow> byte \<Rightarrow> (int \<times> vbuf \<times> byte) option" where
  "convert_write_utf8 b2u v c lead =
     map_option (\<lambda>(lead', out). (if lead' = 0 then 1 else 0, vbuf_adds v out, lead')) (to_utf8_step b2u lead c)"

definition convert_write_big5 :: "mb_table \<Rightarrow> vbuf \<Rightarrow> byte \<Rightarrow> utf8_ctx \<Rightarrow> (int \<times> vbuf \<times> utf8_ctx) option" where
  "convert_write_big5 u2b v c ctx =
     map_option (\<lambda>(ctx', out). (if c < 0x80 \<or> fst (utf8_add_byte ctx c) then 1 else 0, vbuf_adds v out, ctx')) (to_big5_step u2b ctx c)"

text \<open>
  \<open>set_converting_type\<close> chooses the functions behind \<open>convert_read\<close> and \<open>convert_write\<close>.  \<open>u8\<close> is \<open>MB_IS_UTF8\<close>, whether the system
  itself keeps UTF-8; where terminal and system agree the functions are \<open>vbuf_putblk\<close> and \<open>vbuf_add\<close>.  The record holds the
  \<open>static\<close> variables of the four functions and the mode.
\<close>

datatype ConvertMode = CONV_BIG5 | CONV_UTF8

record conv_state =
  cs_mode :: ConvertMode
  cs_trail :: byte
  cs_rd :: utf8_ctx
  cs_wr :: utf8_ctx
  cs_lead :: byte

definition set_converting_type :: "ConvertMode \<Rightarrow> conv_state \<Rightarrow> conv_state" where
  "set_converting_type mode s = s\<lparr>cs_mode := mode\<rparr>"

definition conv_plain :: "bool \<Rightarrow> conv_state \<Rightarrow> bool" where
  "conv_plain u8 s \<longleftrightarrow> (case cs_mode s of CONV_BIG5 \<Rightarrow> \<not> u8 | CONV_UTF8 \<Rightarrow> u8)"

definition convert_read :: "bool \<Rightarrow> mb_table \<Rightarrow> mb_table \<Rightarrow> conv_state vbuf_sink" where
  "convert_read u8 b2u u2b v buf s =
     (if conv_plain u8 s then vbuf_putblk_sink v buf s
      else if u8 then map_option (\<lambda>(n, v', l). (n, v', s\<lparr>cs_lead := l\<rparr>)) (convert_read_big5 b2u v buf (cs_lead s))
      else map_option (\<lambda>(n, v', k). (n, v', s\<lparr>cs_rd := k\<rparr>)) (convert_read_utf8 u2b v buf (cs_rd s)))"

definition convert_write :: "bool \<Rightarrow> mb_table \<Rightarrow> mb_table \<Rightarrow> vbuf \<Rightarrow> byte \<Rightarrow> conv_state \<Rightarrow> (int \<times> vbuf \<times> conv_state) option" where
  "convert_write u8 b2u u2b v c s =
     (if conv_plain u8 s then (case vbuf_add v c of (ok, v') \<Rightarrow> Some (if ok then 1 else 0, v', s))
      else if u8 then map_option (\<lambda>(n, v', k). (n, v', s\<lparr>cs_wr := k\<rparr>)) (convert_write_big5 u2b v c (cs_wr s))
      else map_option (\<lambda>(n, v', l). (n, v', s\<lparr>cs_trail := l\<rparr>)) (convert_write_utf8 b2u v c (cs_trail s)))"

section \<open>The automata\<close>


lemma utf8_add_high:
  assumes "utf8_inv ctx" "\<not> c < (0x80 :: byte)" "utf8_pending ctx = 0"
  shows "\<not> fst (utf8_add_byte ctx c)"
  using assms(2) utf8_clean_cases [of ctx c] assms by (simp add: utf8_clean_def utf8_start_def Let_def)

lemma utf8_pending_error: "utf8_is_error ctx \<Longrightarrow> utf8_pending ctx = 0"
  by (simp add: utf8_is_error_def utf8_pending_def)

lemma utf8_pending_init [simp]: "utf8_pending (utf8_init ctx) = 0"
  by (simp add: utf8_init_def utf8_pending_def)

lemma put_big5_clean:
  assumes "utf8_clean k"
  shows "utf8_clean (fst (put_big5 u2b k))"
  using assms by (simp add: put_big5_def utf8_get_ucs_def utf8_clean_def utf8_inv_def utf8_pending_def split: if_splits)

lemma length_put_big5: "length (snd (put_big5 u2b k)) \<le> 2"
  by (simp add: put_big5_def u2b_bytes_def Let_def split: prod.split)

text \<open>After an error the byte that caused it starts a new character or is dropped, so it never completes one.\<close>

lemma to_big5_step_high:
  assumes "utf8_inv ctx" "\<not> c < 0x80"
  shows "to_big5_step u2b ctx c =
    Some (case utf8_add_byte ctx c of (r, k) \<Rightarrow>
      if r then put_big5 u2b k
      else if utf8_is_error k then (if utf8_pending ctx > 0 then snd (utf8_add_byte (utf8_init k) c) else k, [63])
      else (k, []))"
proof -
  have "\<not> fst (utf8_add_byte (utf8_init (snd (utf8_add_byte ctx c))) c)"
    using assms by (intro utf8_add_high utf8_init_inv utf8_add_byte_inv) simp_all
  then show ?thesis using assms(2)
    by (auto simp: to_big5_step_def Let_def split: prod.splits bool.splits)
qed

lemma to_big5_step_inv:
  assumes "utf8_inv ctx"
  shows "\<exists>ctx' out. to_big5_step u2b ctx c = Some (ctx', out) \<and> utf8_inv ctx'"
proof (cases "c < 0x80")
  case True
  then show ?thesis using utf8_init_inv [OF assms] by (simp add: to_big5_step_def)
next
  case False
  obtain r k where k: "utf8_add_byte ctx c = (r, k)" by fastforce
  have "utf8_inv k" using utf8_add_byte_inv [OF assms, of c] k by simp
  moreover from this have "utf8_inv (snd (utf8_add_byte (utf8_init k) c))"
    by (intro utf8_add_byte_inv utf8_init_inv)
  moreover have "r \<Longrightarrow> utf8_inv (fst (put_big5 u2b k))"
    using put_big5_clean [of k u2b] utf8_ready_clean [OF assms] k by (simp add: utf8_clean_def)
  ultimately show ?thesis using to_big5_step_high [OF assms False] k
    by (cases "put_big5 u2b k") auto
qed

text \<open>A partial character is worth one byte of output.\<close>

definition utf8_held :: "utf8_ctx \<Rightarrow> nat" where "utf8_held ctx = (if utf8_pending ctx > 0 then 1 else 0)"

definition big5_held :: "byte \<Rightarrow> nat" where "big5_held lead = (if lead \<noteq> 0 then 1 else 0)"

lemma to_big5_step_held:
  assumes "utf8_inv ctx" "to_big5_step u2b ctx c = Some (ctx', out)"
  shows "length out + utf8_held ctx' \<le> 1 + utf8_held ctx"
proof (cases "c < 0x80")
  case True
  then show ?thesis using assms(2) by (auto simp: to_big5_step_def utf8_held_def)
next
  case False
  obtain r k where k: "utf8_add_byte ctx c = (r, k)" by fastforce
  have "utf8_pending ctx > 0 \<and> utf8_pending (fst (put_big5 u2b k)) = 0" if r
    using utf8_add_high [OF assms(1) False] put_big5_clean [of k u2b] utf8_ready_clean [OF assms(1)] k that
    by (auto simp: utf8_clean_def)
  then show ?thesis
    using assms(2) k length_put_big5 [of u2b k] utf8_pending_error [of k]
    by (cases "put_big5 u2b k") (auto simp: to_big5_step_high [OF assms(1) False] utf8_held_def split: if_splits)
qed

lemma utf8_from_ucs_u16: "fst (utf8_from_ucs ctx (uint (u :: u16))) \<le> 3"
  using uint_lt2p [of u] by (simp add: utf8_from_ucs_def Let_def)

lemma to_utf8_step_held:
  assumes "to_utf8_step b2u lead c = Some (lead', out)"
  shows "length out + big5_held lead' \<le> 2 + big5_held lead"
proof (cases "lead \<noteq> 0 \<and> big5_is_valid_trail c")
  case True
  define u where "u = b2u (push_bit 8 (ucast lead) OR ucast c)"
  have "lead' = 0" "length out \<le> 3"
    using assms True utf8_from_ucs_u16 [of utf8_fresh "if u = 0 then 63 else u"]
    unfolding to_utf8_step_def u_def [symmetric] Let_def by (auto split: prod.splits)
  then show ?thesis using True by (simp add: big5_held_def)
next
  case False
  then show ?thesis using assms by (auto simp: to_utf8_step_def big5_held_def split: if_splits)
qed

interpretation tb: bounded_machine "to_big5_step u2b" utf8_inv utf8_held 1
  by unfold_locales (rule to_big5_step_inv, assumption, rule to_big5_step_held)

interpretation tu: bounded_machine "to_utf8_step b2u" "\<lambda>_. True" big5_held 2
  by unfold_locales (simp add: to_utf8_step_def, auto dest: to_utf8_step_held)

section \<open>The functions\<close>

lemma vbuf_adds_Cons: "vbuf_adds v (b # bs) = vbuf_adds (snd (vbuf_add v b)) bs"
  by (simp add: vbuf_adds_def)

lemma vbuf_adds_append: "vbuf_adds v (xs @ ys) = vbuf_adds (vbuf_adds v xs) ys"
  by (simp add: vbuf_adds_def)

text \<open>What fits is appended, the rest is lost.\<close>

lemma vbuf_adds_take:
  assumes "vbuf_inv v"
  shows "vbuf_inv (vbuf_adds v bs) \<and> vb_capacity (vbuf_adds v bs) = vb_capacity v \<and>
    vbuf_list (vbuf_adds v bs) = vbuf_list v @ take (vbuf_space v) bs"
  using assms
proof (induction bs arbitrary: v)
  case Nil
  then show ?case by (simp add: vbuf_adds_def)
next
  case (Cons b bs)
  have le: "length (vbuf_list v) \<le> vb_capacity v"
    using vbuf_size_le [OF Cons.prems] length_vbuf_list [OF Cons.prems] by simp
  show ?case
  proof (cases "length (vbuf_list v) = vb_capacity v")
    case True
    then show ?thesis using vbuf_add_full [OF Cons.prems True, of b] Cons.IH [OF Cons.prems]
      by (simp add: vbuf_adds_Cons vbuf_space_eq [OF Cons.prems])
  next
    case False
    with le obtain v' where v': "vbuf_add v b = (True, v')" "vbuf_inv v'"
      "vbuf_list v' = vbuf_list v @ [b]" "vb_capacity v' = vb_capacity v"
      using vbuf_add_ok [OF Cons.prems, of b] by auto
    then have "vbuf_space v = Suc (vbuf_space v')" using False le by (simp add: vbuf_space_eq Cons.prems)
    then show ?thesis using Cons.IH [OF v'(2)] v' by (simp add: vbuf_adds_Cons)
  qed
qed

lemma vbuf_adds_all:
  assumes "vbuf_inv v" "length bs \<le> vbuf_space v"
  shows "vbuf_inv (vbuf_adds v bs)" "vb_capacity (vbuf_adds v bs) = vb_capacity v"
    "vbuf_list (vbuf_adds v bs) = vbuf_list v @ bs"
  using vbuf_adds_take [OF assms(1), of bs] assms(2) by simp_all

text \<open>Writing a string byte by byte, as \<open>output\<close> does with \<open>convert_write\<close>.\<close>

primrec convert_writes :: "(vbuf \<Rightarrow> byte \<Rightarrow> 's \<Rightarrow> (int \<times> vbuf \<times> 's) option) \<Rightarrow> vbuf \<Rightarrow> byte list \<Rightarrow> 's \<Rightarrow> (vbuf \<times> 's) option" where
  "convert_writes cw v [] s = Some (v, s)"
| "convert_writes cw v (c # cs) s =
     (case cw v c s of None \<Rightarrow> None | Some (_, v', s') \<Rightarrow> convert_writes cw v' cs s')"

lemma convert_writes_utf8:
  "convert_writes (convert_write_utf8 b2u) v cs lead =
     map_option (\<lambda>(lead', out). (vbuf_adds v out, lead')) (run_machine (to_utf8_step b2u) lead cs)"
proof (induction cs arbitrary: v lead)
  case (Cons c cs)
  obtain l out where "to_utf8_step b2u lead c = Some (l, out)" using tu.step_total [OF TrueI] by blast
  moreover from this have "convert_write_utf8 b2u v c lead = Some (if l = 0 then 1 else 0, vbuf_adds v out, l)"
    by (simp add: convert_write_utf8_def)
  ultimately show ?case
    by (cases "run_machine (to_utf8_step b2u) l cs") (auto simp: Cons.IH vbuf_adds_append)
qed (simp add: vbuf_adds_def)

lemma convert_writes_big5:
  assumes "utf8_inv ctx"
  shows "convert_writes (convert_write_big5 u2b) v cs ctx =
     map_option (\<lambda>(ctx', out). (vbuf_adds v out, ctx')) (run_machine (to_big5_step u2b) ctx cs)"
  using assms
proof (induction cs arbitrary: v ctx)
  case (Cons c cs)
  obtain k out where k: "to_big5_step u2b ctx c = Some (k, out)" "utf8_inv k"
    using to_big5_step_inv [OF Cons.prems] by blast
  then have "\<exists>r. convert_write_big5 u2b v c ctx = Some (r, vbuf_adds v out, k)"
    by (simp add: convert_write_big5_def)
  then show ?case using Cons.IH [OF k(2)] k
    by (cases "run_machine (to_big5_step u2b) k cs") (auto simp: vbuf_adds_append)
qed (simp add: vbuf_adds_def)

section \<open>Reading and writing in any mode\<close>

text \<open>The automata behind \<open>convert_read\<close> and \<open>convert_write\<close>.\<close>

definition read_step :: "bool \<Rightarrow> mb_table \<Rightarrow> mb_table \<Rightarrow> conv_state \<Rightarrow> byte \<Rightarrow> (conv_state \<times> byte list) option" where
  "read_step u8 b2u u2b s c =
     (if conv_plain u8 s then Some (s, [c])
      else if u8 then map_option (\<lambda>(l, out). (s\<lparr>cs_lead := l\<rparr>, out)) (to_utf8_step b2u (cs_lead s) c)
      else map_option (\<lambda>(k, out). (s\<lparr>cs_rd := k\<rparr>, out)) (to_big5_step u2b (cs_rd s) c))"

definition write_step :: "bool \<Rightarrow> mb_table \<Rightarrow> mb_table \<Rightarrow> conv_state \<Rightarrow> byte \<Rightarrow> (conv_state \<times> byte list) option" where
  "write_step u8 b2u u2b s c =
     (if conv_plain u8 s then Some (s, [c])
      else if u8 then map_option (\<lambda>(k, out). (s\<lparr>cs_wr := k\<rparr>, out)) (to_big5_step u2b (cs_wr s) c)
      else map_option (\<lambda>(l, out). (s\<lparr>cs_trail := l\<rparr>, out)) (to_utf8_step b2u (cs_trail s) c))"

definition conv_inv :: "ConvertMode \<Rightarrow> conv_state \<Rightarrow> bool" where
  "conv_inv m s \<longleftrightarrow> cs_mode s = m \<and> utf8_inv (cs_rd s) \<and> utf8_inv (cs_wr s)"

definition to_utf8_mode :: "bool \<Rightarrow> ConvertMode \<Rightarrow> bool" where
  "to_utf8_mode u8 m \<longleftrightarrow> u8 \<and> m = CONV_BIG5"

definition read_held :: "bool \<Rightarrow> conv_state \<Rightarrow> nat" where
  "read_held u8 s = (if conv_plain u8 s then 0 else if u8 then big5_held (cs_lead s) else utf8_held (cs_rd s))"

definition write_held :: "bool \<Rightarrow> conv_state \<Rightarrow> nat" where
  "write_held u8 s = (if conv_plain u8 s then 0 else if u8 then utf8_held (cs_wr s) else big5_held (cs_trail s))"

lemma conv_plain_upd [simp]:
  "conv_plain u8 (s\<lparr>cs_lead := l\<rparr>) = conv_plain u8 s" "conv_plain u8 (s\<lparr>cs_rd := k\<rparr>) = conv_plain u8 s"
  "conv_plain u8 (s\<lparr>cs_trail := l\<rparr>) = conv_plain u8 s" "conv_plain u8 (s\<lparr>cs_wr := k\<rparr>) = conv_plain u8 s"
  by (simp_all add: conv_plain_def)

lemma read_held_le: "read_held u8 s \<le> 1"
  by (simp add: read_held_def big5_held_def utf8_held_def)

interpretation rd: bounded_machine "read_step u8 b2u u2b" "conv_inv m" "read_held u8" "if to_utf8_mode u8 m then 2 else 1"
proof
  fix s x
  assume inv: "conv_inv m s"
  then show "\<exists>s' os. read_step u8 b2u u2b s x = Some (s', os) \<and> conv_inv m s'"
    using tb.step_total [of "cs_rd s" u2b x] tu.step_total [OF TrueI, of b2u "cs_lead s" x] by (auto simp: read_step_def conv_inv_def)
  fix s' os
  assume "read_step u8 b2u u2b s x = Some (s', os)"
  with inv show "length os + read_held u8 s' \<le> (if to_utf8_mode u8 m then 2 else 1) + read_held u8 s"
    using tb.step_held [of "cs_rd s" u2b x] tu.step_held [OF TrueI, of b2u "cs_lead s" x]
    by (auto simp: read_step_def conv_inv_def read_held_def to_utf8_mode_def conv_plain_def split: if_splits ConvertMode.splits)
qed

interpretation wr: bounded_machine "write_step u8 b2u u2b" "conv_inv m" "write_held u8" 2
proof
  fix s x
  assume inv: "conv_inv m s"
  then show "\<exists>s' os. write_step u8 b2u u2b s x = Some (s', os) \<and> conv_inv m s'"
    using tb.step_total [of "cs_wr s" u2b x] tu.step_total [OF TrueI, of b2u "cs_trail s" x] by (auto simp: write_step_def conv_inv_def)
  fix s' os
  assume "write_step u8 b2u u2b s x = Some (s', os)"
  with inv show "length os + write_held u8 s' \<le> 2 + write_held u8 s"
    using tb.step_held [of "cs_wr s" u2b x] tu.step_held [OF TrueI, of b2u "cs_trail s" x]
    by (force simp: write_step_def conv_inv_def write_held_def split: if_splits)
qed

lemma run_read_step:
  "run_machine (read_step u8 b2u u2b) s xs =
     (if conv_plain u8 s then Some (s, xs)
      else if u8 then map_option (\<lambda>(l, out). (s\<lparr>cs_lead := l\<rparr>, out)) (run_machine (to_utf8_step b2u) (cs_lead s) xs)
      else map_option (\<lambda>(k, out). (s\<lparr>cs_rd := k\<rparr>, out)) (run_machine (to_big5_step u2b) (cs_rd s) xs))"
proof (induction xs arbitrary: s)
  case (Cons x xs)
  show ?case
    using Cons.IH by (cases u8) (auto simp: read_step_def [of _ b2u u2b s x] option.map_comp comp_def case_prod_unfold split: option.splits)
qed simp

lemma convert_read_run:
  assumes "run_machine (read_step u8 b2u u2b) s buf = Some (s', out)"
    "vbuf_inv v" "buf \<noteq> []" "length out \<le> vbuf_space v"
  shows "\<exists>n v'. convert_read u8 b2u u2b v buf s = Some (n, v', s') \<and> vbuf_inv v' \<and>
    vb_capacity v' = vb_capacity v \<and> vbuf_list v' = vbuf_list v @ out"
proof (cases "conv_plain u8 s")
  case True
  then have "s' = s" "out = buf" using assms(1) by (auto simp: run_read_step)
  then show ?thesis using True vbuf_putblk_ok [OF assms(2,3)] assms(2,4)
    by (auto simp: convert_read_def vbuf_putblk_sink_def vbuf_space_eq)
next
  case False
  then have "convert_read u8 b2u u2b v buf s = Some (int (length out), vbuf_adds v out, s')"
    using assms(1) by (auto simp: run_read_step convert_read_def convert_read_big5_def convert_read_utf8_def convert_with_def
        split: if_splits)
  then show ?thesis using vbuf_adds_all [OF assms(2,4)] by simp
qed

lemma to_big5_step_Some: "\<exists>k out. to_big5_step u2b ctx c = Some (k, out)"
proof -
  have "to_big5_step u2b ctx c \<noteq> None" by (simp only: to_big5_step_def option.distinct not_False_eq_True)
  then show ?thesis by auto
qed

lemma convert_write_step:
  assumes "write_step u8 b2u u2b s c = Some (s', out)"
  shows "map_option snd (convert_write u8 b2u u2b v c s) = Some (vbuf_adds v out, s')"
proof -
  obtain k o1 where 1: "to_big5_step u2b (cs_wr s) c = Some (k, o1)" using to_big5_step_Some by blast
  obtain l o2 where 2: "to_utf8_step b2u (cs_trail s) c = Some (l, o2)" using tu.step_total [OF TrueI] by blast
  consider (plain) "conv_plain u8 s" | (big5) "\<not> conv_plain u8 s" "u8" | (utf8) "\<not> conv_plain u8 s" "\<not> u8" by blast
  then show ?thesis
  proof cases
    case plain
    then show ?thesis using assms by (auto simp: write_step_def convert_write_def vbuf_adds_def split: prod.split)
  next
    case big5
    then show ?thesis using assms 1 by (simp add: write_step_def convert_write_def convert_write_big5_def)
  next
    case utf8
    then show ?thesis using assms 2 by (simp add: write_step_def convert_write_def convert_write_utf8_def)
  qed
qed

section \<open>Round trip\<close>

text \<open>
  The characters that survive: mapped one to one by the tables, and for two bytes a valid second byte
  and a code point outside ASCII.
\<close>

fun term_char :: "mb_table \<Rightarrow> b5char \<Rightarrow> bool" where
  "term_char b2u (Single a) \<longleftrightarrow> True"
| "term_char b2u (Double h l) \<longleftrightarrow> l \<noteq> 0xFF \<and> 128 \<le> uint (b2u (b5_code (Double h l)))"

lemma utf8_encode_ascii: "uint (a :: byte) < 128 \<Longrightarrow> utf8_encode (uint a) = [a]"
  by (simp add: utf8_encode_eq utf8_bytes_def ucs_scalar_def)

lemma utf8_encode_high:
  assumes "ucs_scalar u" "128 \<le> u" "b \<in> set (utf8_encode u)"
  shows "\<not> b < 0x80"
proof -
  obtain x where x: "x \<in> set (utf8_bytes u)" "b = word_of_int x" using assms by (auto simp: utf8_encode_eq)
  have "128 \<le> x" using x(1) assms(1,2) by (auto simp: utf8_bytes_def ucs_scalar_def split: if_splits)
  then show ?thesis using utf8_bytes_range [OF assms(1) x(1)] uint_word_of_int_byte [of x] x(2)
    by (simp add: uint_less_iff_byte)
qed

lemma utf8_from_ucs_len: "fst (utf8_from_ucs ctx u) = u_len (snd (utf8_from_ucs ctx u))"
  by (simp add: utf8_from_ucs_def utf8_init_def Let_def)

lemma utf8_from_ucs_take:
  assumes "ucs_scalar u"
  shows "take (fst (utf8_from_ucs utf8_fresh u)) (u_buf (snd (utf8_from_ucs utf8_fresh u))) = utf8_encode u"
  using utf8_encode_ne [OF assms] utf8_from_ucs_len [of utf8_fresh u]
  by (auto simp: utf8_encode_def utf8_to_mb_def split: if_splits)

lemma to_utf8_char:
  assumes "b5_mapped b2u u2b c" "term_char b2u c"
  shows "run_machine (to_utf8_step b2u) 0 (b5_bytes c) = Some (0, utf8_encode (uint (b5_ucs b2u c)))"
proof (cases c)
  case (Single a)
  then have "uint a < 128" using assms(1) by (simp add: b5_mapped_def uint_less_iff_byte)
  then show ?thesis using Single utf8_encode_ascii [of a]
    by (simp add: to_utf8_step_def uint_less_iff_byte unsigned_ucast_eq take_bit_int_eq_self)
next
  case (Double h l)
  let ?u = "b2u (push_bit 8 (ucast h) OR ucast l)"
  have m: "\<not> h < 0x80" "big5_is_valid_trail l" "?u \<noteq> 0" "ucs_scalar (uint ?u)"
    using assms Double by (auto simp: b5_mapped_def big5_is_valid_trail_def not_less)
  then have "h \<noteq> 0" by auto
  obtain k ctx where f: "utf8_from_ucs utf8_fresh (uint ?u) = (k, ctx)" by fastforce
  have "take k (u_buf ctx) = utf8_encode (uint ?u)" using utf8_from_ucs_take [OF m(4)] f by simp
  moreover have "to_utf8_step b2u 0 h = Some (h, [])" using m(1) by (simp add: to_utf8_step_def)
  moreover have "to_utf8_step b2u h l = Some (0, take k (u_buf ctx))"
    using m(2,3) \<open>h \<noteq> 0\<close> f by (simp add: to_utf8_step_def)
  ultimately show ?thesis using Double by simp
qed

lemma to_utf8_text:
  assumes "list_all (b5_mapped b2u u2b) cs" "list_all (term_char b2u) cs"
  shows "run_machine (to_utf8_step b2u) 0 (concat (map b5_bytes cs)) = Some (0, utf8_text b2u cs)"
  using assms
proof (induction cs)
  case (Cons c cs)
  then show ?case using to_utf8_char [of b2u u2b c] by (simp add: run_machine_append utf8_text_def)
qed (simp add: utf8_text_def)

lemma to_big5_accept:
  "utf8_inv ctx \<Longrightarrow> utf8_accept ctx bs = Some u \<Longrightarrow> (\<And>b. b \<in> set bs \<Longrightarrow> \<not> b < 0x80) \<Longrightarrow>
     \<exists>c. run_machine (to_big5_step u2b) ctx bs = Some (c, u2b_bytes u2b u) \<and> utf8_clean c"
proof (induction ctx bs rule: utf8_accept.induct)
  case (2 ctx b)
  obtain k where k: "utf8_add_byte ctx b = (True, k)" "u = u_ucs k" using 2(2) by (auto split: prod.splits if_splits)
  then have "utf8_clean k" "utf8_is_ready k" using utf8_ready_clean [OF 2(1)] by blast+
  moreover from this have "snd (put_big5 u2b k) = u2b_bytes u2b u" using k(2) by (simp add: put_big5_def utf8_get_ucs_def)
  ultimately show ?case using k 2(3) [of b] put_big5_clean [of k u2b]
    by (cases "put_big5 u2b k") (simp add: to_big5_step_high [OF 2(1)])
next
  case (3 ctx b b' bs)
  obtain r c where rc: "utf8_add_byte ctx b = (r, c)" by fastforce
  then have *: "\<not> r" "utf8_pending c > 0" "utf8_accept c (b' # bs) = Some u"
    using 3(3) by (auto split: if_splits)
  have inv: "utf8_inv c" using utf8_add_byte_inv [OF 3(2), of b] rc by simp
  have "\<not> utf8_is_error c" using *(2) utf8_pending_error by fastforce
  then have step: "to_big5_step u2b ctx b = Some (c, [])" using rc * 3(4) [of b] by (simp add: to_big5_step_high [OF 3(2)])
  obtain c' where "run_machine (to_big5_step u2b) c (b' # bs) = Some (c', u2b_bytes u2b u)" "utf8_clean c'"
    using 3(1) [OF rc [symmetric] _ inv *(3)] * 3(4) by auto
  then show ?case using step by simp
qed simp

lemma to_big5_char:
  assumes "b5_mapped b2u u2b c" "term_char b2u c" "utf8_clean ctx"
  shows "\<exists>k. run_machine (to_big5_step u2b) ctx (utf8_encode (uint (b5_ucs b2u c))) = Some (k, b5_bytes c) \<and> utf8_clean k"
proof (cases c)
  case (Single a)
  then have "uint a < 128" using assms(1) by (simp add: b5_mapped_def uint_less_iff_byte)
  then show ?thesis using Single utf8_encode_ascii [of a] assms(3) utf8_init_inv [of ctx]
    by (simp add: to_big5_step_def uint_less_iff_byte unsigned_ucast_eq take_bit_int_eq_self utf8_clean_def)
next
  case (Double h l)
  let ?u = "uint (b5_ucs b2u c)"
  have u: "ucs_scalar ?u" "128 \<le> ?u" using assms Double by (auto simp: b5_mapped_def)
  have "utf8_accept ctx (utf8_encode ?u) = Some ?u" using utf8_accept_iff [OF assms(3)] u by simp
  then show ?thesis
    using to_big5_accept [of ctx "utf8_encode ?u" ?u u2b] assms(3) utf8_encode_high [OF u] u2b_bytes_char [OF assms(1)]
    by (simp add: utf8_clean_def)
qed

lemma to_big5_text:
  assumes "list_all (b5_mapped b2u u2b) cs" "list_all (term_char b2u) cs" "utf8_clean ctx"
  shows "\<exists>k. run_machine (to_big5_step u2b) ctx (utf8_text b2u cs) = Some (k, concat (map b5_bytes cs)) \<and> utf8_clean k"
  using assms
proof (induction cs arbitrary: ctx)
  case (Cons c cs)
  then obtain k where k: "run_machine (to_big5_step u2b) ctx (utf8_encode (uint (b5_ucs b2u c))) = Some (k, b5_bytes c)" "utf8_clean k"
    using to_big5_char [of b2u u2b c ctx] by auto
  then obtain k' where "run_machine (to_big5_step u2b) k (utf8_text b2u cs) = Some (k', concat (map b5_bytes cs))" "utf8_clean k'"
    using Cons by auto
  then show ?case using k by (auto simp: run_machine_append utf8_text_def)
qed (simp add: utf8_text_def)

text \<open>One call of \<open>convert_read_utf8\<close> for each piece the terminal sends.\<close>

fun read_pieces :: "mb_table \<Rightarrow> vbuf \<Rightarrow> byte list list \<Rightarrow> utf8_ctx \<Rightarrow> (int \<times> vbuf \<times> utf8_ctx) option" where
  "read_pieces u2b w [] ctx = Some (0, w, ctx)"
| "read_pieces u2b w (p # ps) ctx =
     (case convert_read_utf8 u2b w p ctx of
        None \<Rightarrow> None
      | Some (n, w', k) \<Rightarrow> map_option (\<lambda>(m, r). (n + m, r)) (read_pieces u2b w' ps k))"

lemma read_pieces_run:
  assumes "run_machine (to_big5_step u2b) ctx (concat ps) = Some (k, out)" "vbuf_inv w" "length out \<le> vbuf_space w"
  shows "\<exists>w'. read_pieces u2b w ps ctx = Some (int (length out), w', k) \<and> vbuf_list w' = vbuf_list w @ out"
  using assms
proof (induction ps arbitrary: ctx out w)
  case (Cons p ps)
  then obtain k1 o1 o2 where r: "run_machine (to_big5_step u2b) ctx p = Some (k1, o1)"
    "run_machine (to_big5_step u2b) k1 (concat ps) = Some (k, o2)" "out = o1 @ o2"
    unfolding concat.simps run_machine_append by (auto split: option.splits)
  define w1 where "w1 = vbuf_adds w o1"
  have w1: "vbuf_inv w1" "vbuf_list w1 = vbuf_list w @ o1" "vb_capacity w1 = vb_capacity w"
    using vbuf_adds_all [OF Cons.prems(2), of o1] Cons.prems(3) r(3) by (simp_all add: w1_def)
  then have "length o2 \<le> vbuf_space w1" using Cons.prems(2,3) r(3) by (simp add: vbuf_space_eq)
  then obtain w' where "read_pieces u2b w1 ps k1 = Some (int (length o2), w', k)" "vbuf_list w' = vbuf_list w1 @ o2"
    using Cons.IH [OF r(2) w1(1)] by blast
  moreover have "convert_read_utf8 u2b w p ctx = Some (int (length o1), w1, k1)"
    using r(1) by (simp add: convert_read_utf8_def convert_with_def w1_def)
  ultimately show ?case using r(3) w1(2) by simp
qed simp

section \<open>Properties\<close>

text \<open>C25.
  What is written to a UTF-8 terminal and typed back reads as it was: for Big5 text of characters the tables map one to
  one, \<open>convert_write_utf8\<close> of its bytes into a buffer with room for the UTF-8 text stores the UTF-8 of its characters,
  and \<open>convert_read_utf8\<close> of these bytes, cut into pieces anywhere and read one after the other into a buffer with room
  for the text, gives the text; no partial character is left in either direction.
\<close>

theorem convert_terminal_roundtrip:
  assumes "list_all (b5_mapped b2u u2b) cs" "list_all (term_char b2u) cs"
    "vbuf_inv v" "vbuf_list v = []" "length (utf8_text b2u cs) \<le> vb_capacity v"
    "vbuf_inv w" "vbuf_list w = []" "length (concat (map b5_bytes cs)) \<le> vb_capacity w" "utf8_clean ctx"
    "concat ps = utf8_text b2u cs"
  shows "(\<exists>v'. convert_writes (convert_write_utf8 b2u) v (concat (map b5_bytes cs)) 0 = Some (v', 0) \<and>
       vbuf_list v' = utf8_text b2u cs) \<and>
    (\<exists>w' k. read_pieces u2b w ps ctx = Some (int (length (concat (map b5_bytes cs))), w', k) \<and>
       vbuf_list w' = concat (map b5_bytes cs) \<and> utf8_pending k = 0)"
proof -
  let ?u = "utf8_text b2u cs" and ?b = "concat (map b5_bytes cs)"
  have "vbuf_list (vbuf_adds v ?u) = ?u"
    using vbuf_adds_all(3) [OF assms(3), of ?u] assms(3-5) by (simp add: vbuf_space_eq)
  moreover have "convert_writes (convert_write_utf8 b2u) v ?b 0 = Some (vbuf_adds v ?u, 0)"
    using to_utf8_text [OF assms(1,2)] by (simp add: convert_writes_utf8)
  moreover obtain k where k: "run_machine (to_big5_step u2b) ctx (concat ps) = Some (k, ?b)" "utf8_clean k"
    using to_big5_text [OF assms(1,2,9)] assms(10) by auto
  moreover have "\<exists>w'. read_pieces u2b w ps ctx = Some (int (length ?b), w', k) \<and> vbuf_list w' = vbuf_list w @ ?b"
    using assms(6-8) by (intro read_pieces_run [OF k(1)]) (simp_all add: vbuf_space_eq)
  ultimately show ?thesis using assms(7) by (auto simp: utf8_clean_def)
qed

definition ring8 :: vbuf where
  "ring8 = \<lparr>vb_buf = replicate 9 0, vb_head = 7, vb_tail = 7, vb_capacity = 8\<rparr>"

text \<open>The three bytes of a character in two pieces, then the letter.\<close>

theorem convert_terminal_roundtrip_witness:
  "(\<exists>v'. convert_writes (convert_write_utf8 demo_b2u) ring8 (concat (map b5_bytes [Double 0xA4 0xA4, Single 65])) 0 = Some (v', 0) \<and>
       vbuf_list v' = utf8_text demo_b2u [Double 0xA4 0xA4, Single 65]) \<and>
    (\<exists>w' k. read_pieces demo_u2b ring8 [[0xE4], [0xB8, 0xAD], [], [65]] utf8_fresh =
         Some (int (length (concat (map b5_bytes [Double 0xA4 0xA4, Single 65]))), w', k) \<and>
       vbuf_list w' = concat (map b5_bytes [Double 0xA4 0xA4, Single 65]) \<and> utf8_pending k = 0)"
proof (rule convert_terminal_roundtrip)
  show "list_all (b5_mapped demo_b2u demo_u2b) [Double 0xA4 0xA4, Single 65]"
    by (simp add: b5_mapped_def demo_b2u_def demo_u2b_def ucs_scalar_def)
  show "length (utf8_text demo_b2u [Double 0xA4 0xA4, Single 65]) \<le> vb_capacity ring8"
    by (simp add: utf8_text_def utf8_encode_eq utf8_bytes_def demo_b2u_def ucs_scalar_def ring8_def)
  show "concat [[0xE4], [0xB8, 0xAD], [], [65]] = utf8_text demo_b2u [Double 0xA4 0xA4, Single 65]"
    by (simp add: utf8_text_def utf8_encode_eq utf8_bytes_def demo_b2u_def ucs_scalar_def)
qed (simp_all add: demo_b2u_def ring8_def vbuf_inv_def vbuf_list_def)

end
