(* ===== verification/Input.thy ===== *)
theory Input
  imports Convert Telnet Vtkbd
begin

text \<open>
  Terminal input: \<open>vbuf_from_tty\<close> and its filters (\<open>src/mbbsd/io.c\<close>, \<open>src/mbbsd/telnet.c\<close>), which compose the telnet filter, the filter for repeated
  double-byte keys and the conversion, and the layer above that turns the bytes of the buffer into keys and hands them to
  the hooks.  The descriptor is a parameter: each call is given what \<open>read\<close> returns.

  The main result composes the components: the bytes a program takes out of the buffer are the conversion of the user input in what the client
  sent, where a read that brought one key twice counts it once, however reading and taking interleave, as long as every read leaves one
  byte of the buffer free; without that byte the last one read can be lost, and the code does not leave it.
\<close>

section \<open>From the descriptor to the buffer\<close>

record tty =
  ty_enabled :: bool
  ty_telnet :: telnet_ctx
  ty_events :: "telnet_event list"
  ty_conv :: conv_state

text \<open>What \<open>read\<close> finds: bytes, \<open>EINTR\<close> or \<open>EAGAIN\<close>, or the end or another error, for which \<open>abort_bbs\<close> ends the process.\<close>

datatype tty_input = Got "byte list" | Again | Closed

definition tty_read :: "tty_input \<Rightarrow> tty vbuf_filter" where
  "tty_read inp buf s =
     (case inp of
        Got d \<Rightarrow> (let l = take (length buf) d in if l = [] then None else Some (int (length l), write_at buf 0 l, s))
      | Again \<Rightarrow> Some (-1, buf, s)
      | Closed \<Rightarrow> None)"

definition telnet_filter_process :: "tty vbuf_filter" where
  "telnet_filter_process buf s =
     (if \<not> ty_enabled s \<or> buf = [] then Some (int (length buf), buf, s)
      else map_option (\<lambda>(r, arr, ctx, evs). (r, arr, s\<lparr>ty_telnet := ctx, ty_events := ty_events s @ evs\<rparr>))
             (telnet_process (ty_telnet s) buf))"

definition ISDBCSAWARE :: bool where "ISDBCSAWARE \<longleftrightarrow> True"

definition dbcs_filter_process :: "tty vbuf_filter" where
  "dbcs_filter_process buf s =
     Some (if \<not> ISDBCSAWARE then int (length buf) else int (vtkbd_ignore_dbcs_evil_repeats buf), buf, s)"

definition tty_sink :: "bool \<Rightarrow> mb_table \<Rightarrow> mb_table \<Rightarrow> tty vbuf_sink" where
  "tty_sink u8 b2u u2b v buf s =
     map_option (\<lambda>(n, v', cs). (n, v', s\<lparr>ty_conv := cs\<rparr>)) (convert_read u8 b2u u2b v buf (ty_conv s))"

abbreviation IBUFSIZE :: nat where "IBUFSIZE \<equiv> 128"

definition vbuf_from_tty :: "bool \<Rightarrow> mb_table \<Rightarrow> mb_table \<Rightarrow> tty_input \<Rightarrow> vbuf \<Rightarrow> tty \<Rightarrow> (int \<times> vbuf \<times> tty) option" where
  "vbuf_from_tty u8 b2u u2b inp v s =
     vbuf_pipeline v (replicate (min IBUFSIZE (vbuf_space v)) 0)
       [tty_read inp, telnet_filter_process, dbcs_filter_process] (Some (tty_sink u8 b2u u2b)) s"

section \<open>From the buffer to keys\<close>

text \<open>
  Key hooks: a row of at most two functions for each of the four priorities.  A function pointer is a value of type \<open>'h\<close>,
  \<^const>\<open>None\<close> the null pointer; the result \<^const>\<open>None\<close> is the failed \<open>assert\<close>.
\<close>

abbreviation VKEY_HOOK_PRIO_MAX :: nat where "VKEY_HOOK_PRIO_MAX \<equiv> 4"

abbreviation MAX_HOOKS_PER_PRIO :: nat where "MAX_HOOKS_PER_PRIO \<equiv> 2"

type_synonym 'h hooks = "'h list list"

definition vkey_register_hook :: "int \<Rightarrow> 'h option \<Rightarrow> 'h hooks \<Rightarrow> (int \<times> 'h hooks) option" where
  "vkey_register_hook prio fn rows =
     (case fn of
        None \<Rightarrow> Some (-1, rows)
      | Some f \<Rightarrow>
          if prio < 0 \<or> prio \<ge> int VKEY_HOOK_PRIO_MAX then Some (-1, rows)
          else let row = rows ! nat prio in
            if f \<in> set row then Some (0, rows)
            else if length row \<ge> MAX_HOOKS_PER_PRIO then None
            else Some (0, rows[nat prio := row @ [f]]))"

primrec unregister_rows :: "'h \<Rightarrow> 'h hooks \<Rightarrow> 'h hooks option" where
  "unregister_rows f [] = None"
| "unregister_rows f (row # rows) =
     (if f \<in> set row then Some (remove1 f row # rows) else map_option ((#) row) (unregister_rows f rows))"

definition vkey_unregister_hook :: "'h option \<Rightarrow> 'h hooks \<Rightarrow> int \<times> 'h hooks" where
  "vkey_unregister_hook fn rows =
     (case fn of
        None \<Rightarrow> (-1, rows)
      | Some f \<Rightarrow> (case unregister_rows f rows of None \<Rightarrow> (-1, rows) | Some rows' \<Rightarrow> (0, rows')))"

text \<open>\<open>run\<close> calls a hook; the hooks do not change the tables.\<close>

primrec dispatch_row :: "('h \<Rightarrow> int \<Rightarrow> 's \<Rightarrow> int \<times> 's) \<Rightarrow> 'h list \<Rightarrow> int \<Rightarrow> 's \<Rightarrow> int \<times> 's" where
  "dispatch_row run [] ch s = (ch, s)"
| "dispatch_row run (h # hs) ch s =
     (case run h ch s of (ret, s') \<Rightarrow> if ret = KEY_INCOMPLETE then (KEY_INCOMPLETE, s') else dispatch_row run hs ret s')"

definition vkey_dispatch_hooks :: "('h \<Rightarrow> int \<Rightarrow> 's \<Rightarrow> int \<times> 's) \<Rightarrow> 'h hooks \<Rightarrow> int \<Rightarrow> 's \<Rightarrow> int \<times> 's" where
  "vkey_dispatch_hooks run rows ch s = dispatch_row run (concat rows) ch s"

text \<open>The parser context and \<open>KEY_ESC_arg\<close>; \<open>inbuf\<close> is the buffer the raw code came from.\<close>

record vkey_ctx =
  vkx_vtkbd :: vtkbd_ctx
  vkx_esc_arg :: int

definition vkey_decode ::
    "('h \<Rightarrow> int \<Rightarrow> 's \<Rightarrow> int \<times> 's) \<Rightarrow> 'h hooks \<Rightarrow> vbuf \<Rightarrow> int \<Rightarrow> vkey_ctx \<Rightarrow> 's \<Rightarrow> int \<times> vbuf \<times> vkey_ctx \<times> 's" where
  "vkey_decode run rows inbuf raw_ch k s =
     (case vtkbd_process raw_ch (vkx_vtkbd k) of (ch, kb) \<Rightarrow>
        let k = k\<lparr>vkx_vtkbd := kb\<rparr>;
            k = (if ch = KEY_ESC then k\<lparr>vkx_esc_arg := esc_arg kb\<rparr> else k);
            inbuf = (if ch = 13 \<and> vbuf_peek inbuf = 10 then snd (vbuf_pop inbuf) else inbuf)
        in if ch = KEY_INCOMPLETE \<or> ch = 10 then (KEY_INCOMPLETE, inbuf, k, s)
           else case vkey_dispatch_hooks run rows ch s of (ch', s') \<Rightarrow> (ch', inbuf, k, s'))"

section \<open>The pipeline as a composition\<close>

definition tty_inv :: "ConvertMode \<Rightarrow> tty \<Rightarrow> bool" where
  "tty_inv m s \<longleftrightarrow> telnet_inv (ty_telnet s) \<and> conv_inv m (ty_conv s)"

text \<open>The user input in received data.\<close>

definition tty_user :: "tty \<Rightarrow> byte list \<Rightarrow> (telnet_ctx \<times> byte list) option" where
  "tty_user s d =
     (if ty_enabled s then map_option (\<lambda>(c, os). (c, inputs os)) (run_machine telnet_step (ty_telnet s) d)
      else Some (ty_telnet s, d))"

text \<open>
  Some clients send a key that deletes or moves over a double-byte character twice.  A read that brings nothing but
  one such key twice counts as the key once.
\<close>

definition typed :: "byte list \<Rightarrow> byte list" where
  "typed t = (if t \<in> set (map (\<lambda>k. k @ k) dbcs_keys) then take (length t div 2) t else t)"

lemma typed_Nil [simp]: "typed [] = []"
  by (simp add: typed_def dbcs_keys_def)

lemma length_typed: "length (typed t) \<le> length t"
  by (simp add: typed_def)

lemma typed_filter: "take (vtkbd_ignore_dbcs_evil_repeats t) t = typed t" "vtkbd_ignore_dbcs_evil_repeats t = 0 \<longleftrightarrow> t = []" "typed t = [] \<longleftrightarrow> t = []"
  by (auto simp: vtkbd_dbcs_repeats typed_def dbcs_keys_def)

lemma typed_high: "0x80 \<le> x \<Longrightarrow> typed (x # t) = x # t"
  by (auto simp: typed_def dbcs_keys_def)

lemma inputs_telnet_step: "telnet_step c x = Some (c', os) \<Longrightarrow> length (inputs os) \<le> 1"
  by (auto simp: telnet_step_def)

lemma length_inputs_run:
  "run_machine telnet_step c d = Some (c', os) \<Longrightarrow> length (inputs os) \<le> length d"
proof (induction d arbitrary: c os)
  case (Cons x d)
  obtain c1 o1 o2 where "telnet_step c x = Some (c1, o1)" "run_machine telnet_step c1 d = Some (c', o2)" "os = o1 @ o2"
    using Cons.prems by (auto split: option.splits)
  then show ?case using Cons.IH [of c1 o2] inputs_telnet_step [of c x c1 o1] by simp
qed simp

lemma tty_user_total:
  assumes "telnet_inv (ty_telnet s)"
  shows "\<exists>c t. tty_user s d = Some (c, t) \<and> telnet_inv c \<and> length t \<le> length d"
  using tn.run_total [OF assms, of d] assms length_inputs_run by (auto simp: tty_user_def)

lemma convert_read_take:
  assumes "run_machine (read_step u8 b2u u2b) s buf = Some (s', out)"
    "vbuf_inv v" "buf \<noteq> []" "length buf \<le> vbuf_space v"
  shows "\<exists>n v'. convert_read u8 b2u u2b v buf s = Some (n, v', s') \<and> vbuf_inv v' \<and>
    vb_capacity v' = vb_capacity v \<and> vbuf_list v' = vbuf_list v @ take (vbuf_space v) out"
proof (cases "conv_plain u8 s")
  case True
  then have "out = buf" using assms(1) by (auto simp: run_read_step)
  then show ?thesis using convert_read_run [OF assms(1,2,3)] assms(4) by auto
next
  case False
  then have "convert_read u8 b2u u2b v buf s = Some (int (length out), vbuf_adds v out, s')"
    using assms(1) by (auto simp: run_read_step convert_read_def convert_read_big5_def convert_read_utf8_def convert_with_def
        split: if_splits)
  then show ?thesis using vbuf_adds_take [OF assms(2), of out] by simp
qed

text \<open>One call: what the conversion yields is appended as far as it fits.\<close>

lemma vbuf_from_tty_run:
  assumes v: "vbuf_inv v" and inv: "tty_inv m s" and d: "d \<noteq> []" "length d \<le> min IBUFSIZE (vbuf_space v)"
    and t: "tty_user s d = Some (c, t)"
    and out: "run_machine (read_step u8 b2u u2b) (ty_conv s) (typed t) = Some (cs, out)"
  shows "\<exists>n v' s'. vbuf_from_tty u8 b2u u2b (Got d) v s = Some (n, v', s') \<and> vbuf_inv v' \<and> vb_capacity v' = vb_capacity v \<and>
    vbuf_list v' = vbuf_list v @ take (vbuf_space v) out \<and>
    ty_telnet s' = c \<and> ty_conv s' = cs \<and> ty_enabled s' = ty_enabled s"
proof -
  let ?buf = "replicate (min 128 (vbuf_space v)) (0 :: byte)"
  have r: "tty_read (Got d) ?buf s = Some (int (length d), write_at ?buf 0 d, s)" "take (length d) (write_at ?buf 0 d) = d"
    using d by (simp_all add: tty_read_def write_at_def)
  obtain n1 b1 s1 where f: "telnet_filter_process d s = Some (n1, b1, s1)" "take (nat n1) b1 = t" "0 < n1 \<longleftrightarrow> t \<noteq> []"
    "ty_telnet s1 = c" "ty_conv s1 = ty_conv s" "ty_enabled s1 = ty_enabled s"
  proof (cases "ty_enabled s")
    case True
    then obtain os where os: "run_machine telnet_step (ty_telnet s) d = Some (c, os)" "t = inputs os"
      using t by (auto simp: tty_user_def)
    have "telnet_inv (ty_telnet s)" using inv by (simp add: tty_inv_def)
    from telnet_process_run [OF this os(1)] show ?thesis using True that d(1) os(2)
      by (auto simp: telnet_filter_process_def)
  next
    case False
    then show ?thesis using that [of "int (length d)" d s] t d by (simp add: telnet_filter_process_def tty_user_def)
  qed
  have len: "length (typed t) \<le> vbuf_space v"
    using tty_user_total [of s d] inv t d(2) length_typed [of t] by (auto simp: tty_inv_def)
  show ?thesis
  proof (cases "t = []")
    case True
    then have "vbuf_from_tty u8 b2u u2b (Got d) v s = Some (n1, v, s1)" "out = []" "cs = ty_conv s"
      using r f d out by (auto simp: vbuf_from_tty_def vbuf_pipeline_def typed_filter)
    then show ?thesis using v f by simp
  next
    case False
    have "run_machine (read_step u8 b2u u2b) (ty_conv s1) (typed t) = Some (cs, out)" "typed t \<noteq> []" using out f(5) False by (simp_all add: typed_filter)
    from convert_read_take [OF this(1) v this(2) len] obtain n v' where
      cr: "convert_read u8 b2u u2b v (typed t) (ty_conv s1) = Some (n, v', cs)" "vbuf_inv v'" "vb_capacity v' = vb_capacity v"
        "vbuf_list v' = vbuf_list v @ take (vbuf_space v) out" by blast
    have "0 < n1" "0 < vbuf_space v" using f(3) False d by (auto simp: neq_Nil_conv)
    then have "vbuf_from_tty u8 b2u u2b (Got d) v s = Some (n, v', s1\<lparr>ty_conv := cs\<rparr>)"
      using r f(1,2) d cr(1) False by (simp add: vbuf_from_tty_def vbuf_pipeline_def dbcs_filter_process_def ISDBCSAWARE_def tty_sink_def typed_filter)
    then show ?thesis using cr f by simp
  qed
qed

section \<open>Sessions\<close>

text \<open>
  Reads and takes in any order.  \<open>ds\<close> are the pieces of what the client has sent, one for each read, \<open>got\<close> is what the program has taken out of the buffer.
  A read leaves room for what a partial character still owes.
\<close>

definition read_rate :: "bool \<Rightarrow> ConvertMode \<Rightarrow> nat" where
  "read_rate u8 m = (if to_utf8_mode u8 m then 2 else 1)"

inductive tty_session :: "bool \<Rightarrow> mb_table \<Rightarrow> mb_table \<Rightarrow> vbuf \<Rightarrow> tty \<Rightarrow> byte list list \<Rightarrow> byte list \<Rightarrow> vbuf \<Rightarrow> tty \<Rightarrow> bool"
  for u8 b2u u2b v0 s0 where
  tty_start: "tty_session u8 b2u u2b v0 s0 [] [] v0 s0"
| tty_fetch: "tty_session u8 b2u u2b v0 s0 ds got v s \<Longrightarrow> d \<noteq> [] \<Longrightarrow> length d \<le> IBUFSIZE \<Longrightarrow>
    read_rate u8 (cs_mode (ty_conv s)) * length d < vbuf_space v \<Longrightarrow>
    vbuf_from_tty u8 b2u u2b (Got d) v s = Some (n, v', s') \<Longrightarrow>
    tty_session u8 b2u u2b v0 s0 (ds @ [d]) got v' s'"
| tty_again: "tty_session u8 b2u u2b v0 s0 ds got v s \<Longrightarrow>
    vbuf_from_tty u8 b2u u2b Again v s = Some (n, v', s') \<Longrightarrow>
    tty_session u8 b2u u2b v0 s0 ds got v' s'"
| tty_take: "tty_session u8 b2u u2b v0 s0 ds got v s \<Longrightarrow> vbuf_pop v = (c, v') \<Longrightarrow> 0 \<le> c \<Longrightarrow>
    tty_session u8 b2u u2b v0 s0 ds (got @ [word_of_int c]) v' s"

lemma vbuf_from_tty_again: "vbuf_from_tty u8 b2u u2b Again v s = Some (n, v', s') \<Longrightarrow> v' = v \<and> s' = s"
  by (auto simp: vbuf_from_tty_def vbuf_pipeline_def tty_read_def split: if_splits)

lemma vbuf_pop_nonneg:
  assumes "vbuf_inv v" "vbuf_pop v = (c, v')" "0 \<le> c"
  shows "vbuf_inv v'" "vbuf_list v = word_of_int c # vbuf_list v'" "vb_capacity v' = vb_capacity v"
proof -
  obtain b q where "vbuf_list v = b # q"
    using vbuf_pop_Nil [OF assms(1)] assms(2,3) by (cases "vbuf_list v") (auto simp: EOF_def)
  with vbuf_pop_Cons [OF assms(1) this] assms(2)
  show "vbuf_inv v'" "vbuf_list v = word_of_int c # vbuf_list v'" "vb_capacity v' = vb_capacity v" by auto
qed

text \<open>The user input that each piece brings, given the pieces before it.\<close>

primrec user_parts :: "bool \<Rightarrow> telnet_ctx \<Rightarrow> byte list list \<Rightarrow> (telnet_ctx \<times> byte list list) option" where
  "user_parts en c [] = Some (c, [])"
| "user_parts en c (d # ds) =
     Option.bind (if en then map_option (\<lambda>(c, os). (c, inputs os)) (run_machine telnet_step c d) else Some (c, d)) (\<lambda>(c1, t).
       map_option (\<lambda>(c2, ts). (c2, t # ts)) (user_parts en c1 ds))"

lemma user_parts_snoc:
  assumes "user_parts (ty_enabled s) c ds = Some (ty_telnet s, ts)" "tty_user s d = Some (c', t)"
  shows "user_parts (ty_enabled s) c (ds @ [d]) = Some (c', ts @ [t])"
  using assms by (induction ds arbitrary: c ts) (auto simp: tty_user_def split: bind_splits if_splits)

text \<open>Together the parts are the user input in all that was sent.\<close>

lemma user_parts_concat:
  "user_parts (ty_enabled s) (ty_telnet s) ds = Some (c, ts) \<Longrightarrow> tty_user s (concat ds) = Some (c, concat ts)"
proof (induction ds arbitrary: s ts)
  case (Cons d ds)
  then obtain c1 t ts' where p: "tty_user s d = Some (c1, t)" "user_parts (ty_enabled s) c1 ds = Some (c, ts')" "ts = t # ts'"
    by (auto simp: tty_user_def split: bind_splits if_splits)
  from Cons.IH [of "s\<lparr>ty_telnet := c1\<rparr>" ts'] p show ?case
    by (auto simp: tty_user_def run_machine_append split: if_splits)
qed (simp add: tty_user_def)

definition tty_read_as :: "bool \<Rightarrow> mb_table \<Rightarrow> mb_table \<Rightarrow> tty \<Rightarrow> byte list list \<Rightarrow> byte list \<Rightarrow> tty \<Rightarrow> bool" where
  "tty_read_as u8 b2u u2b s0 ds out s \<longleftrightarrow>
     (\<exists>ts. user_parts (ty_enabled s0) (ty_telnet s0) ds = Some (ty_telnet s, ts) \<and>
        run_machine (read_step u8 b2u u2b) (ty_conv s0) (concat (map typed ts)) = Some (ty_conv s, out))"

lemma tty_read_as_fetch:
  assumes "tty_read_as u8 b2u u2b s0 ds out s" "ty_enabled s = ty_enabled s0"
    "tty_user s d = Some (c, t)" "run_machine (read_step u8 b2u u2b) (ty_conv s) (typed t) = Some (cs, o2)"
    "ty_telnet s' = c" "ty_conv s' = cs"
  shows "tty_read_as u8 b2u u2b s0 (ds @ [d]) (out @ o2) s'"
proof -
  obtain ts where ts: "user_parts (ty_enabled s0) (ty_telnet s0) ds = Some (ty_telnet s, ts)"
    "run_machine (read_step u8 b2u u2b) (ty_conv s0) (concat (map typed ts)) = Some (ty_conv s, out)"
    using assms(1) by (auto simp: tty_read_as_def)
  have "user_parts (ty_enabled s0) (ty_telnet s0) (ds @ [d]) = Some (c, ts @ [t])"
    using user_parts_snoc [of s "ty_telnet s0" ds ts d c t] ts(1) assms(2,3) by simp
  moreover have "run_machine (read_step u8 b2u u2b) (ty_conv s0) (concat (map typed (ts @ [t]))) = Some (cs, out @ o2)"
    using ts(2) assms(4) by (simp add: run_machine_append)
  ultimately show ?thesis using assms(5,6) unfolding tty_read_as_def by blast
qed

lemma tty_session_spec:
  assumes "tty_session u8 b2u u2b v0 s0 ds got v s" "vbuf_inv v0" "tty_inv m s0"
  shows "vbuf_inv v \<and> vb_capacity v = vb_capacity v0 \<and> tty_inv m s \<and> ty_enabled s = ty_enabled s0 \<and>
    (\<exists>out. tty_read_as u8 b2u u2b s0 ds out s \<and> vbuf_list v0 @ out = got @ vbuf_list v)"
  using assms
proof (induction rule: tty_session.induct)
  case tty_start
  then show ?case by (auto simp: tty_read_as_def)
next
  case (tty_fetch ds got v s d n v' s')
  from tty_fetch.IH tty_fetch.prems obtain out where IH: "vbuf_inv v" "tty_inv m s" "vb_capacity v = vb_capacity v0" "ty_enabled s = ty_enabled s0"
    "tty_read_as u8 b2u u2b s0 ds out s" "vbuf_list v0 @ out = got @ vbuf_list v" by blast
  have inv: "telnet_inv (ty_telnet s)" "conv_inv m (ty_conv s)" using IH(2) by (simp_all add: tty_inv_def)
  obtain c t where t: "tty_user s d = Some (c, t)" "telnet_inv c" "length t \<le> length d"
    using tty_user_total [OF inv(1)] by blast
  obtain cs o2 where o2: "run_machine (read_step u8 b2u u2b) (ty_conv s) (typed t) = Some (cs, o2)" "conv_inv m cs"
    using rd.run_total [OF inv(2)] by blast
  have rate: "read_rate u8 m * length d < vbuf_space v" using tty_fetch.hyps(4) inv(2) by (simp add: conv_inv_def)
  have "length o2 \<le> read_rate u8 m * length (typed t) + 1"
    using rd.run_held [OF inv(2) o2(1)] read_held_le [of u8 "ty_conv s"] by (simp add: read_rate_def split: if_splits)
  moreover have "read_rate u8 m * length (typed t) \<le> read_rate u8 m * length d"
    using t(3) length_typed [of t] by (intro mult_le_mono2) linarith
  ultimately have fit: "length o2 \<le> vbuf_space v" using rate by linarith
  have "length d \<le> min 128 (vbuf_space v)" using rate tty_fetch.hyps(3) by (auto simp: read_rate_def split: if_splits)
  from vbuf_from_tty_run [OF IH(1,2) tty_fetch.hyps(2) this t(1) o2(1)] tty_fetch.hyps(5) fit
  have n: "vbuf_inv v'" "vb_capacity v' = vb_capacity v" "vbuf_list v' = vbuf_list v @ o2" "ty_telnet s' = c" "ty_conv s' = cs" "ty_enabled s' = ty_enabled s" by auto
  have "tty_read_as u8 b2u u2b s0 (ds @ [d]) (out @ o2) s'"
    by (rule tty_read_as_fetch [OF IH(5,4) t(1) o2(1) n(4,5)])
  moreover have "vbuf_list v0 @ out @ o2 = got @ vbuf_list v'" using IH(6) n(3) by (metis append_assoc)
  ultimately show ?case using n t(2) o2(2) IH(3,4) by (auto simp: tty_inv_def)
next
  case (tty_again ds got v s n v' s')
  then show ?case using vbuf_from_tty_again [OF tty_again.hyps(2)] by simp
next
  case (tty_take ds got v s c v')
  then show ?case using vbuf_pop_nonneg [of v c v'] by auto
qed

text \<open>Every read is served.\<close>

lemma vbuf_from_tty_total:
  assumes "vbuf_inv v" "tty_inv m s" "d \<noteq> []" "length d \<le> min IBUFSIZE (vbuf_space v)"
  shows "\<exists>n v' s'. vbuf_from_tty u8 b2u u2b (Got d) v s = Some (n, v', s')"
proof -
  have inv: "telnet_inv (ty_telnet s)" "conv_inv m (ty_conv s)" using assms(2) by (simp_all add: tty_inv_def)
  obtain c t where t: "tty_user s d = Some (c, t)" using tty_user_total [OF inv(1)] by blast
  obtain cs out where "run_machine (read_step u8 b2u u2b) (ty_conv s) (typed t) = Some (cs, out)"
    using rd.run_total [OF inv(2)] by blast
  from vbuf_from_tty_run [OF assms t this] show ?thesis by blast
qed

section \<open>Keys\<close>

lemma vkey_register_unregister:
  assumes "0 \<le> prio" "nat prio < length rows" "f \<notin> set (concat rows)" "vkey_register_hook prio (Some f) rows = Some (r, rows')" "r = 0"
  shows "vkey_unregister_hook (Some f) rows' = (0, rows)"
proof -
  have r: "rows' = rows[nat prio := rows ! nat prio @ [f]]"
    using assms by (auto simp: vkey_register_hook_def Let_def split: if_splits)
  have "unregister_rows f (rows[i := rows ! i @ [f]]) = Some rows" if "i < length rows" for i
    using that assms(3)
  proof (induction rows arbitrary: i)
    case (Cons row rows)
    then show ?case by (cases i) (auto simp: remove1_append)
  qed simp
  then show ?thesis using assms(2) r by (simp add: vkey_unregister_hook_def)
qed

text \<open>A hook that returns \<open>KEY_INCOMPLETE\<close> takes the key from every hook after it.\<close>

lemma vkey_dispatch_consumed:
  assumes "run h ch s = (KEY_INCOMPLETE, s')"
  shows "vkey_dispatch_hooks run ((h # row) # rows) ch s = (KEY_INCOMPLETE, s')"
  using assms by (simp add: vkey_dispatch_hooks_def)

text \<open>CR and LF together are one Enter, whichever way they are cut: a line feed alone is no key.\<close>

lemma vkey_decode_crlf:
  assumes "vbuf_inv v" "vbuf_list v = 10 # q" "vk_state (vkx_vtkbd k) = VKSTATE_NORMAL"
  shows "\<exists>v' k'. vkey_decode run [] v 13 k s = (13, v', k', s) \<and> vbuf_inv v' \<and> vbuf_list v' = q"
proof -
  obtain v' where v': "vbuf_pop v = (uint (10 :: byte), v')" "vbuf_inv v'" "vbuf_list v' = q"
    using vbuf_pop_Cons [OF assms(1,2)] by blast
  then have "vbuf_peek v = 10" by (simp add: vbuf_pop_def Let_def)
  then show ?thesis using v' assms(3)
    by (simp add: vkey_decode_def vtkbd_process_def vtkbd_normal_def vkey_dispatch_hooks_def)
qed

section \<open>Properties\<close>

text \<open>C1.
  Terminal input composes correctly: in a session of reads and takes in any order, in every conversion mode, where every read
  is shorter than the free part of the buffer, or than half of it where Big5 is converted to UTF-8, the bytes the program has taken followed by those in the buffer
  are what was there at the start followed by the conversion of what was typed.  What was typed is the user input
  among the bytes the client sent, in order, except that a read that brought nothing but one editing key twice counts it once.
  The user input itself does not depend on how the bytes were cut into reads; so neither a telnet command nor a
  character cut by a read changes what the program sees, and no other byte is lost, repeated or reordered.  The next read is served.
\<close>

theorem tty_input_exact:
  assumes "tty_session u8 b2u u2b v0 s0 ds got v s" "vbuf_inv v0" "tty_inv m s0"
  shows "(\<exists>ts out. user_parts (ty_enabled s0) (ty_telnet s0) ds = Some (ty_telnet s, ts) \<and>
      tty_user s0 (concat ds) = Some (ty_telnet s, concat ts) \<and>
      run_machine (read_step u8 b2u u2b) (ty_conv s0) (concat (map typed ts)) = Some (ty_conv s, out) \<and>
      got @ vbuf_list v = vbuf_list v0 @ out) \<and>
    (d \<noteq> [] \<and> length d \<le> min IBUFSIZE (vbuf_space v) \<longrightarrow> (\<exists>n v' s'. vbuf_from_tty u8 b2u u2b (Got d) v s = Some (n, v', s')))"
proof -
  from tty_session_spec [OF assms] obtain out where o: "vbuf_inv v" "tty_inv m s"
    "tty_read_as u8 b2u u2b s0 ds out s" "vbuf_list v0 @ out = got @ vbuf_list v" by blast
  from o(3,4) show ?thesis using vbuf_from_tty_total [OF o(1,2)] user_parts_concat by (fastforce simp: tty_read_as_def)
qed

definition tty_demo :: tty where
  "tty_demo = \<lparr>ty_enabled = True, ty_telnet = telnet_ctx_init telnet_cb_all, ty_events = [],
     ty_conv = \<lparr>cs_mode = CONV_UTF8, cs_trail = 0, cs_rd = utf8_fresh, cs_wr = utf8_fresh, cs_lead = 0\<rparr>\<rparr>"

lemma tty_demo_ok: "tty_inv CONV_UTF8 tty_demo"
  by (simp add: tty_demo_def tty_inv_def conv_inv_def utf8_fresh_def utf8_init_def utf8_inv_def)

lemma ring8_empty: "vbuf_inv ring8" "vbuf_list ring8 = []" "vbuf_space ring8 = 8" "vb_capacity ring8 = 8"
  by (simp_all add: ring8_def vbuf_inv_def vbuf_list_def vbuf_space_def vbuf_size_def)

theorem tty_input_exact_witness:
  "\<exists>v s. tty_session False demo_b2u demo_u2b ring8 tty_demo [[65, 0xE4], [8, 8]] [65] v s \<and>
    (\<exists>ts out. user_parts True (ty_telnet tty_demo) [[65, 0xE4], [8, 8]] = Some (ty_telnet s, ts) \<and>
      tty_user tty_demo [65, 0xE4, 8, 8] = Some (ty_telnet s, concat ts) \<and>
      run_machine (read_step False demo_b2u demo_u2b) (ty_conv tty_demo) (concat (map typed ts)) = Some (ty_conv s, out) \<and>
      [65] @ vbuf_list v = vbuf_list ring8 @ out)"
proof -
  let ?S = "tty_session False demo_b2u demo_u2b ring8 tty_demo"
  obtain n v s where f: "vbuf_from_tty False demo_b2u demo_u2b (Got [65, 0xE4]) ring8 tty_demo = Some (n, v, s)"
    using vbuf_from_tty_total [OF ring8_empty(1) tty_demo_ok, of "[65, 0xE4]" False demo_b2u demo_u2b] by (auto simp: ring8_empty)
  have 1: "?S ([] @ [[65, 0xE4]]) [] v s"
    by (rule tty_fetch [OF tty_start _ _ _ f]) (simp_all add: ring8_empty read_rate_def to_utf8_mode_def)
  have "run_machine (read_step False demo_b2u demo_u2b) (ty_conv tty_demo) [65, 0xE4] = Some (cs, out) \<Longrightarrow> out = [65] \<and> cs_mode cs = CONV_UTF8" for cs out
    by (auto simp: read_step_def conv_plain_def tty_demo_def to_big5_step_def utf8_fresh_def utf8_init_def utf8_pending_def utf8_add_byte_def
        utf8_is_ready_def utf8_start_def utf8_is_error_def Let_def)
  moreover have "user_parts True (ty_telnet tty_demo) [[65, 0xE4]] = Some (c, ts) \<Longrightarrow> ts = [[65, 0xE4]]" for c ts
    by (auto simp: tty_demo_def telnet_step_def telnet_handler_def telnet_unquote_def telnet_dispatch_def telnet_ctx_init_def)
  moreover have "typed [65, 0xE4] = [65, 0xE4]" by (simp add: typed_def dbcs_keys_def)
  moreover note sp = tty_session_spec [OF 1 ring8_empty(1) tty_demo_ok]
  moreover have e: "ty_enabled tty_demo" by (simp add: tty_demo_def)
  ultimately have l: "vbuf_inv v" "tty_inv CONV_UTF8 s" "vbuf_list v = [65]"
    by (fastforce simp: tty_read_as_def ring8_empty)+
  obtain v1 where p: "vbuf_pop v = (65, v1)" "vbuf_inv v1" "vbuf_list v1 = []" "vb_capacity v1 = vb_capacity v"
    using vbuf_pop_Cons [OF l(1,3)] by auto
  have 2: "?S [[65, 0xE4]] [65] v1 s" using tty_take [OF 1 p(1)] by simp
  have sz: "vbuf_space v1 = 8" using p(2-4) sp ring8_empty by (simp add: vbuf_space_eq)
  obtain n2 v2 s2 where g: "vbuf_from_tty False demo_b2u demo_u2b (Got [8, 8]) v1 s = Some (n2, v2, s2)"
    using vbuf_from_tty_total [OF p(2) l(2), of "[8, 8]" False demo_b2u demo_u2b] by (auto simp: sz)
  have "?S ([[65, 0xE4]] @ [[8, 8]]) [65] v2 s2"
    by (rule tty_fetch [OF 2 _ _ _ g]) (simp_all add: sz read_rate_def to_utf8_mode_def l(2) [unfolded tty_inv_def conv_inv_def])
  then have 3: "?S [[65, 0xE4], [8, 8]] [65] v2 s2" by simp
  from tty_input_exact [OF this ring8_empty(1) tty_demo_ok, of "[]"] 3 e show ?thesis by auto
qed

lemma to_big5_ascii:
  "list_all (\<lambda>x. x < 0x80) a \<Longrightarrow> utf8_clean k \<Longrightarrow> \<exists>k'. run_machine (to_big5_step u2b) k a = Some (k', a)"
proof (induction a arbitrary: k)
  case (Cons x a)
  then have "to_big5_step u2b k x = Some (utf8_init k, [x])" "utf8_clean (utf8_init k)"
    using utf8_init_inv [of k] by (simp_all add: to_big5_step_def utf8_clean_def)
  then show ?case using Cons by fastforce
qed simp

lemma tty_user_ascii:
  assumes "\<not> ty_enabled s \<or> iac_state (ty_telnet s) = IAC_NONE \<and> \<not> iac_quote (ty_telnet s)" "IAC \<notin> set d"
  shows "\<exists>c. tty_user s d = Some (c, d)"
proof (cases "ty_enabled s")
  case True
  then show ?thesis using assms telnet_prescan_run [of "ty_telnet s" d] by (auto simp: tty_user_def)
qed (simp add: tty_user_def)

text \<open>C38.
  \<open>vbuf_from_tty\<close> reads as many bytes as the buffer has free, but the first of them can complete a character of two bytes: on a
  UTF-8 terminal, when the previous read ended before the last byte of such a character and the next one fills the
  buffer with that byte and ASCII text, the last byte of the text is lost.
\<close>

theorem vbuf_from_tty_loses_byte:
  assumes "vbuf_inv v" "tty_inv CONV_UTF8 s"
    and "\<not> ty_enabled s \<or> iac_state (ty_telnet s) = IAC_NONE \<and> \<not> iac_quote (ty_telnet s)"
    and char: "ucs_scalar u" "utf8_encode u = p @ [x]" "u2b_bytes u2b u = [h, l]" "p \<noteq> []" "x \<noteq> IAC"
    and held: "utf8_clean k" "run_machine (to_big5_step u2b) k p = Some (cs_rd (ty_conv s), [])"
    and tail: "list_all (\<lambda>c. c < 0x80) a" "a \<noteq> []" "Suc (length a) = vbuf_space v" "vbuf_space v \<le> IBUFSIZE"
  shows "\<exists>n v' s'. vbuf_from_tty False b2u u2b (Got (x # a)) v s = Some (n, v', s') \<and>
    vbuf_list v' = vbuf_list v @ h # l # butlast a"
proof -
  let ?k = "cs_rd (ty_conv s)"
  have "128 \<le> u"
  proof (rule ccontr)
    assume "\<not> 128 \<le> u"
    then have "length (utf8_encode u) = 1" using char(1) by (simp add: utf8_encode_eq utf8_bytes_def)
    then show False using char(2,4) by simp
  qed
  then obtain k1 where "run_machine (to_big5_step u2b) k (p @ [x]) = Some (k1, [h, l])" "utf8_clean k1"
    using to_big5_accept [of k "utf8_encode u" u u2b] utf8_accept_iff [OF held(1)] char utf8_encode_high [OF char(1)] held(1)
    by (auto simp: utf8_clean_def)
  then have step: "to_big5_step u2b ?k x = Some (k1, [h, l])" "utf8_clean k1"
    using held(2) by (auto simp: run_machine_append split: option.splits)
  obtain k2 where "run_machine (to_big5_step u2b) k1 a = Some (k2, a)" using to_big5_ascii [OF tail(1) step(2)] by blast
  then have "run_machine (to_big5_step u2b) ?k (x # a) = Some (k2, h # l # a)" using step(1) by simp
  moreover have "\<not> conv_plain False (ty_conv s)" using assms(2) by (simp add: conv_plain_def tty_inv_def conv_inv_def)
  ultimately obtain cs where out: "run_machine (read_step False b2u u2b) (ty_conv s) (x # a) = Some (cs, h # l # a)"
    by (simp only: run_read_step) simp
  have x: "0x80 \<le> x" using utf8_encode_high [OF char(1) \<open>128 \<le> u\<close>, of x] char(2) by (simp add: linorder_not_less)
  have "IAC \<notin> set (x # a)" using char(5) tail(1) by (auto simp: list_all_iff)
  with tty_user_ascii [OF assms(3)] obtain c where c: "tty_user s (x # a) = Some (c, x # a)" by blast
  have "take (vbuf_space v) (h # l # a) = h # l # butlast a"
    using tail(2,3) by (cases a rule: rev_cases) (auto simp flip: tail(3))
  moreover have "run_machine (read_step False b2u u2b) (ty_conv s) (typed (x # a)) = Some (cs, h # l # a)"
    using out typed_high [OF x] by simp
  moreover have "length (x # a) \<le> min IBUFSIZE (vbuf_space v)" using tail(3,4) by simp
  ultimately show ?thesis using vbuf_from_tty_run [OF assms(1,2) list.distinct(2) _ c] by fastforce
qed

definition tty_cut :: tty where
  "tty_cut = tty_demo\<lparr>ty_conv := (ty_conv tty_demo)\<lparr>cs_rd := utf8_fresh\<lparr>u_buf := (u_buf utf8_fresh)[0 := 0xE4, 1 := 0xB8], u_need := 3, u_got := 2, u_ucs := 0x138\<rparr>\<rparr>\<rparr>"

theorem vbuf_from_tty_loses_byte_witness:
  "\<exists>n v' s'. vbuf_from_tty False demo_b2u demo_u2b (Got (0xAD # [65, 66, 67, 68, 69, 70, 71])) ring8 tty_cut = Some (n, v', s') \<and>
    vbuf_list v' = vbuf_list ring8 @ 0xA4 # 0xA4 # butlast [65, 66, 67, 68, 69, 70, 71]"
proof (rule vbuf_from_tty_loses_byte)
  show "utf8_encode 0x4E2D = [0xE4, 0xB8] @ [0xAD]" by (simp add: utf8_encode_eq utf8_bytes_def ucs_scalar_def)
  show "u2b_bytes demo_u2b 0x4E2D = [0xA4, 0xA4]" by (simp add: u2b_bytes_def demo_u2b_def)
  show "utf8_clean utf8_fresh" by simp
  show "run_machine (to_big5_step demo_u2b) utf8_fresh [0xE4, 0xB8] = Some (cs_rd (ty_conv tty_cut), [])"
    by (simp add: to_big5_step_def tty_cut_def tty_demo_def utf8_fresh_def utf8_init_def utf8_pending_def utf8_add_byte_def
        utf8_is_ready_def utf8_start_def utf8_continue_def utf8_is_error_def Let_def)
  show "tty_inv CONV_UTF8 tty_cut" using tty_demo_ok(1)
    by (simp add: tty_cut_def tty_inv_def conv_inv_def utf8_inv_def utf8_fresh_def utf8_init_def)
qed (simp_all add: ring8_empty tty_cut_def tty_demo_def telnet_ctx_init_def ucs_scalar_def)

end
