(* ===== verification/Output.thy ===== *)
theory Output
  imports Convert
begin

text \<open>
  Terminal output, the first half of \<open>src/mbbsd/io.c\<close>.  Characters are converted into a buffer of 3072 bytes that is written
  to descriptor 1 when it is nearly full, on \<open>oflush\<close> and at the end of a frame.  A frame of at least 64 bytes
  is bracketed by the sequences that begin and end a synchronized update: the first eight bytes of the buffer
  always hold the opening sequence, text starts after them, and a frame is opened by moving \<open>head\<close> back to the
  start of the buffer.

  The writer behind \<open>vbuf_write\<close> is a parameter with its own state.  The theory shows that the scheme is sound: the buffer
  never wraps, every closing sequence fits, no byte is lost, and the two sequences alternate.
\<close>

section \<open>Definitions\<close>

definition DEC2026_BSU :: "byte list" where "DEC2026_BSU = [27, 91, 63, 50, 48, 50, 54, 104]"

definition DEC2026_ESU :: "byte list" where "DEC2026_ESU = [27, 91, 63, 50, 48, 50, 54, 108]"

abbreviation OBUFSIZE :: nat where "OBUFSIZE \<equiv> 3072"

abbreviation OBUFMINSPACE :: nat where "OBUFMINSPACE \<equiv> 3"

abbreviation SZ_BSU :: nat where "SZ_BSU \<equiv> 8"

abbreviation SZ_ESU :: nat where "SZ_ESU \<equiv> 8"

abbreviation SYNC_FRAME_THRESHOLD :: nat where "SYNC_FRAME_THRESHOLD \<equiv> 64"

datatype oframe = OFRAME_NONE | OFRAME_PENDING | OFRAME_ACTIVE

record 'e out_state =
  o_vout :: vbuf
  o_frame :: oframe
  o_conv :: conv_state
  o_tty :: 'e

definition vout_clear :: "vbuf \<Rightarrow> vbuf" where
  "vout_clear v = v\<lparr>vb_head := SZ_BSU, vb_tail := SZ_BSU\<rparr>"

text \<open>The part of \<open>init_io\<close> about output; \<open>obuf\<close> is a static array.\<close>

definition init_io_out :: "conv_state \<Rightarrow> 'e \<Rightarrow> 'e out_state option" where
  "init_io_out cs e =
     map_option (\<lambda>v. \<lparr>o_vout = vout_clear v, o_frame = OFRAME_NONE, o_conv = cs, o_tty = e\<rparr>)
       (vbuf_attach (write_at (replicate OBUFSIZE 0) 0 DEC2026_BSU))"

text \<open>
  \<open>oflush\<close>.  The loop of \<open>vbuf_write\<close> takes at least one byte in a round unless the writer fails, so the
  capacity is enough fuel; \<^const>\<open>None\<close> is a writer that makes no progress for ever.
\<close>

definition oflush :: "'e vbuf_writer \<Rightarrow> 'e out_state \<Rightarrow> 'e out_state option" where
  "oflush writer s =
     (if vbuf_is_empty (o_vout s) then Some s
      else case vbuf_general_write (Suc (vb_capacity (o_vout s))) writer (o_vout s) 0 (o_tty s) of
          None \<Rightarrow> None
        | Some (_, v', e') \<Rightarrow> Some (s\<lparr>o_vout := vout_clear v', o_tty := e'\<rparr>))"

definition obegin_frame :: "'e out_state \<Rightarrow> 'e out_state" where
  "obegin_frame s = (if o_frame s = OFRAME_NONE then s\<lparr>o_frame := OFRAME_PENDING\<rparr> else s)"

definition oend_frame :: "'e vbuf_writer \<Rightarrow> 'e out_state \<Rightarrow> 'e out_state option" where
  "oend_frame writer s =
     (case (if o_frame s = OFRAME_ACTIVE then map_option fst (vbuf_putblk (o_vout s) DEC2026_ESU) else Some (o_vout s)) of
        None \<Rightarrow> None
      | Some v \<Rightarrow> oflush writer (s\<lparr>o_vout := v, o_frame := OFRAME_NONE\<rparr>))"

definition oframe_open :: "'e out_state \<Rightarrow> 'e out_state" where
  "oframe_open s =
     (if o_frame s = OFRAME_PENDING \<and> SYNC_FRAME_THRESHOLD \<le> vbuf_size (o_vout s)
      then s\<lparr>o_vout := (o_vout s)\<lparr>vb_head := 0\<rparr>, o_frame := OFRAME_ACTIVE\<rparr> else s)"

definition ochar :: "bool \<Rightarrow> mb_table \<Rightarrow> mb_table \<Rightarrow> 'e vbuf_writer \<Rightarrow> byte \<Rightarrow> 'e out_state \<Rightarrow> 'e out_state option" where
  "ochar u8 b2u u2b writer c s =
     (case (if vbuf_space (o_vout s) < OBUFMINSPACE + SZ_BSU + SZ_ESU then oflush writer s else Some s) of
        None \<Rightarrow> None
      | Some s1 \<Rightarrow>
          (case convert_write u8 b2u u2b (o_vout s1) c (o_conv s1) of
             None \<Rightarrow> None
           | Some (_, v, cs) \<Rightarrow> Some (oframe_open (s1\<lparr>o_vout := v, o_conv := cs\<rparr>))))"

primrec output_str :: "bool \<Rightarrow> mb_table \<Rightarrow> mb_table \<Rightarrow> 'e vbuf_writer \<Rightarrow> byte list \<Rightarrow> 'e out_state \<Rightarrow> 'e out_state option" where
  "output_str u8 b2u u2b writer [] s = Some s"
| "output_str u8 b2u u2b writer (c # cs) s =
     (case ochar u8 b2u u2b writer c s of None \<Rightarrow> None | Some s' \<Rightarrow> output_str u8 b2u u2b writer cs s')"

text \<open>A program that prints: any sequence of the operations.\<close>

datatype out_op = Obegin | Oend | Oflush | Oput "byte list"

fun out_step :: "bool \<Rightarrow> mb_table \<Rightarrow> mb_table \<Rightarrow> 'e vbuf_writer \<Rightarrow> out_op \<Rightarrow> 'e out_state \<Rightarrow> 'e out_state option" where
  "out_step u8 b2u u2b writer Obegin s = Some (obegin_frame s)"
| "out_step u8 b2u u2b writer Oend s = oend_frame writer s"
| "out_step u8 b2u u2b writer Oflush s = oflush writer s"
| "out_step u8 b2u u2b writer (Oput cs) s = output_str u8 b2u u2b writer cs s"

primrec out_run :: "bool \<Rightarrow> mb_table \<Rightarrow> mb_table \<Rightarrow> 'e vbuf_writer \<Rightarrow> out_op list \<Rightarrow> 'e out_state \<Rightarrow> 'e out_state option" where
  "out_run u8 b2u u2b writer [] s = Some s"
| "out_run u8 b2u u2b writer (x # xs) s =
     (case out_step u8 b2u u2b writer x s of None \<Rightarrow> None | Some s' \<Rightarrow> out_run u8 b2u u2b writer xs s')"

fun printed :: "out_op list \<Rightarrow> byte list" where
  "printed [] = []"
| "printed (Oput cs # xs) = cs @ printed xs"
| "printed (_ # xs) = printed xs"

section \<open>What a terminal receives\<close>

text \<open>The stream as text and brackets; \<open>sync\<close> is whether an update is open after it, \<^const>\<open>None\<close> if the brackets do not alternate.\<close>

datatype item = Bsu | Esu | Txt "byte list"

fun render :: "item \<Rightarrow> byte list" where
  "render Bsu = DEC2026_BSU"
| "render Esu = DEC2026_ESU"
| "render (Txt b) = b"

abbreviation stream :: "item list \<Rightarrow> byte list" where "stream is \<equiv> concat (map render is)"

fun item_text :: "item \<Rightarrow> byte list" where
  "item_text (Txt b) = b"
| "item_text _ = []"

abbreviation stext :: "item list \<Rightarrow> byte list" where "stext is \<equiv> concat (map item_text is)"

fun sync :: "bool \<Rightarrow> item list \<Rightarrow> bool option" where
  "sync b [] = Some b"
| "sync b (Txt _ # is) = sync b is"
| "sync b (Bsu # is) = (if b then None else sync True is)"
| "sync b (Esu # is) = (if b then sync False is else None)"

lemma sync_append: "sync b (xs @ ys) = (case sync b xs of None \<Rightarrow> None | Some b' \<Rightarrow> sync b' ys)"
  by (induction b xs rule: sync.induct) auto

lemma sync_text [simp]: "list_all (\<lambda>i. \<exists>b. i = Txt b) xs \<Longrightarrow> sync b xs = Some b"
  by (induction xs) auto

lemma sync_snoc [simp]: "sync b (xs @ [Txt c]) = sync b xs"
  by (simp add: sync_append split: option.split)

lemma sync_snoc2 [simp]: "sync b (xs @ ys @ [Txt c]) = sync b (xs @ ys)"
  using sync_snoc [of b "xs @ ys"] by simp

section \<open>The buffer\<close>

lemma vbuf_add_unwrapped:
  assumes "vbuf_inv v" "vb_head v \<le> vb_tail v" "Suc (vb_tail v) < vb_end v"
  shows "vbuf_add v c = (True, v\<lparr>vb_buf := write_at (vb_buf v) (vb_tail v) [c], vb_tail := Suc (vb_tail v)\<rparr>)"
  using assms by (auto simp: vbuf_add_def vbuf_is_full_def vbuf_space_def vbuf_size_def vbuf_inv_def write_at_single)

lemma write_at_append: "i + length ys \<le> length xs \<Longrightarrow> write_at (write_at xs i ys) (i + length ys) zs = write_at xs i (ys @ zs)"
  by (simp add: write_at_def ac_simps)

lemma vbuf_adds_unwrapped:
  assumes "vbuf_inv v" "vb_head v \<le> vb_tail v" "vb_tail v + length bs < vb_end v"
  shows "vbuf_adds v bs = v\<lparr>vb_buf := write_at (vb_buf v) (vb_tail v) bs, vb_tail := vb_tail v + length bs\<rparr>"
  using assms
proof (induction bs arbitrary: v)
  case Nil
  then show ?case by (simp add: vbuf_adds_def)
next
  case (Cons b bs)
  let ?v = "v\<lparr>vb_buf := write_at (vb_buf v) (vb_tail v) [b], vb_tail := Suc (vb_tail v)\<rparr>"
  have "vbuf_add v b = (True, ?v)" using Cons.prems by (intro vbuf_add_unwrapped) auto
  moreover have "vbuf_inv ?v" "vb_head ?v \<le> vb_tail ?v" "vb_tail ?v + length bs < vb_end ?v"
    using Cons.prems by (auto simp: vbuf_inv_def)
  ultimately show ?case using Cons.IH [of ?v] write_at_append [of "vb_tail v" "[b]" "vb_buf v" bs] Cons.prems
    by (simp add: vbuf_adds_Cons)
qed

lemma vbuf_putblk_unwrapped:
  assumes "vbuf_inv v" "vb_head v \<le> vb_tail v" "vb_tail v + length bs < vb_end v" "bs \<noteq> []"
  shows "vbuf_putblk v bs = Some (v\<lparr>vb_buf := write_at (vb_buf v) (vb_tail v) bs, vb_tail := vb_tail v + length bs\<rparr>, True)"
  using assms by (auto simp: vbuf_putblk_def vbuf_space_def vbuf_size_def vbuf_inv_def vb_head_sz_def numeral_2_eq_2 Let_def)

text \<open>\<open>vbuf_write\<close> of everything, with a writer that takes at least one byte of what it is given.\<close>

definition writer_ok :: "'e vbuf_writer \<Rightarrow> ('e \<Rightarrow> byte list) \<Rightarrow> bool" where
  "writer_ok writer sent \<longleftrightarrow> (\<forall>e a b r e'. writer e a b = (r, e') \<longrightarrow> a @ b \<noteq> [] \<longrightarrow>
     0 < r \<and> r \<le> int (length (a @ b)) \<and> sent e' = sent e @ take (nat r) (a @ b))"

lemma writer_okD:
  "writer_ok writer sent \<Longrightarrow> writer e a b = (r, e') \<Longrightarrow> a @ b \<noteq> [] \<Longrightarrow>
     0 < r \<and> r \<le> int (length (a @ b)) \<and> sent e' = sent e @ take (nat r) (a @ b)"
  unfolding writer_ok_def by blast

lemma gwrite_loop_all:
  assumes "writer_ok writer sent" "vbuf_inv v" "0 < sz" "sz \<le> length (vbuf_list v)" "sz < fuel"
  shows "\<exists>v' e'. gwrite_loop fuel writer False v sz e = Some (0, v', e') \<and>
    vb_buf v' = vb_buf v \<and> vb_capacity v' = vb_capacity v \<and> sent e' = sent e @ take sz (vbuf_list v)"
  using assms(2-)
proof (induction fuel arbitrary: v sz e)
  case (Suc fuel)
  define rw where "rw = (if sz < vb_tail_sz v then sz else vb_tail_sz v)"
  define a b where "a = take rw (drop (vb_head v) (vb_buf v))" and "b = take (sz - rw) (vb_buf v)"
  obtain k e1 where k: "writer e a b = (k, e1)" by fastforce
  have ab: "a @ b = take sz (vbuf_list v)"
    using vbuf_iov_list [OF Suc.prems(1), of sz] Suc.prems(3) length_vbuf_list [OF Suc.prems(1)]
    by (simp add: a_def b_def rw_def)
  have len: "length (a @ b) = sz" unfolding ab using Suc.prems(3) by simp
  then have ne: "a @ b \<noteq> []" using Suc.prems(2) by (metis length_0_conv less_numeral_extra(3))
  have snt: "0 < k" "k \<le> int sz" and "sent e1 = sent e @ take (nat k) (a @ b)"
    using writer_okD [OF assms(1) k ne] unfolding len by blast+
  then have snt3: "sent e1 = sent e @ take (nat k) (vbuf_list v)" unfolding ab by (simp add: min_absorb1)
  define v1 where "v1 = v\<lparr>vb_head := (if vb_end v \<le> vb_head v + nat k then vb_head v + nat k - vb_end v else vb_head v + nat k)\<rparr>"
  have "nat k \<le> length (vbuf_list v)" using snt Suc.prems(3) by linarith
  note v1 = vbuf_drop_list [OF Suc.prems(1) this, folded v1_def]
  have loop: "gwrite_loop (Suc fuel) writer False v sz e =
     (if 0 < sz - nat k then gwrite_loop fuel writer False v1 (sz - nat k) e1 else Some (0, v1, e1))"
    using k snt(1,2) by (simp add: Let_def v1_def flip: rw_def a_def b_def)
  have same: "vb_buf v1 = vb_buf v" by (simp add: v1_def)
  show ?case
  proof (cases "0 < sz - nat k")
    case True
    have "take (nat k) (vbuf_list v) @ take (sz - nat k) (drop (nat k) (vbuf_list v)) = take sz (vbuf_list v)"
      using True by (metis le_add_diff_inverse less_imp_le_nat take_add zero_less_diff)
    moreover have "sz - nat k \<le> length (vbuf_list v1)" "sz - nat k < fuel"
      using Suc.prems(3,4) snt v1(2) by auto
    ultimately show ?thesis using Suc.IH [OF v1(1) True, of e1] snt3 v1(2,3) loop True same
      by (metis append_assoc)
  next
    case False
    then have "nat k = sz" using snt by linarith
    then show ?thesis using loop snt3 v1(3) same by simp
  qed
qed simp

section \<open>The invariant\<close>

text \<open>The buffer starts with the opening sequence, \<open>head\<close> is before or after it and the text ends at most at \<open>n\<close>.\<close>

definition vout_ok :: "nat \<Rightarrow> vbuf \<Rightarrow> bool" where
  "vout_ok n v \<longleftrightarrow> vb_end v = OBUFSIZE \<and> vb_capacity v = OBUFSIZE - 1 \<and> take SZ_BSU (vb_buf v) = DEC2026_BSU \<and>
     (vb_head v = 0 \<or> vb_head v = SZ_BSU) \<and> SZ_BSU \<le> vb_tail v \<and> vb_tail v \<le> n"

definition out_ok :: "('e \<Rightarrow> byte list) \<Rightarrow> ConvertMode \<Rightarrow> item list \<Rightarrow> item list \<Rightarrow> 'e out_state \<Rightarrow> bool" where
  "out_ok sent m i1 i2 s \<longleftrightarrow> vout_ok (OBUFSIZE - SZ_ESU - 1) (o_vout s) \<and>
     (vb_head (o_vout s) = 0 \<longrightarrow> o_frame s = OFRAME_ACTIVE) \<and> conv_inv m (o_conv s) \<and>
     sent (o_tty s) = stream i1 \<and> vbuf_list (o_vout s) = stream i2 \<and>
     sync False (i1 @ i2) = Some (o_frame s = OFRAME_ACTIVE) \<and>
     (o_frame s \<noteq> OFRAME_ACTIVE \<longrightarrow> list_all (\<lambda>i. \<exists>b. i = Txt b) i2)"

lemma vout_ok_inv: "vout_ok n v \<Longrightarrow> n < OBUFSIZE \<Longrightarrow> vbuf_inv v \<and> vb_head v \<le> vb_tail v"
  by (auto simp: vout_ok_def vbuf_inv_def)

lemma vout_list: "vout_ok n v \<Longrightarrow> vbuf_list v = take (vb_tail v - vb_head v) (drop (vb_head v) (vb_buf v))"
  by (auto simp: vout_ok_def vbuf_list_def)

lemma vout_append:
  assumes "vout_ok n v" "n + length bs < OBUFSIZE"
  defines "v' \<equiv> v\<lparr>vb_buf := write_at (vb_buf v) (vb_tail v) bs, vb_tail := vb_tail v + length bs\<rparr>"
  shows "vout_ok (vb_tail v + length bs) v'" "vbuf_list v' = vbuf_list v @ bs" "vbuf_adds v bs = v'"
    "bs \<noteq> [] \<Longrightarrow> vbuf_putblk v bs = Some (v', True)"
proof -
  have v: "vbuf_inv v" "vb_head v \<le> vb_tail v" "vb_tail v + length bs < vb_end v"
    using vout_ok_inv [OF assms(1)] assms(1,2) by (auto simp: vout_ok_def)
  show "vbuf_adds v bs = v'" unfolding v'_def by (rule vbuf_adds_unwrapped [OF v])
  show "vbuf_putblk v bs = Some (v', True)" if "bs \<noteq> []" unfolding v'_def by (rule vbuf_putblk_unwrapped [OF v that])
  show ok: "vout_ok (vb_tail v + length bs) v'" using assms(1) v(3) by (auto simp: vout_ok_def v'_def)
  show "vbuf_list v' = vbuf_list v @ bs"
    unfolding vout_list [OF ok] vout_list [OF assms(1)] using v by (simp add: v'_def write_at_def drop_take)
qed

text \<open>Opening a frame puts the opening sequence before what is in the buffer.\<close>

lemma vout_open:
  assumes "vout_ok n v" "vb_head v = SZ_BSU" "n < OBUFSIZE"
  shows "vout_ok n (v\<lparr>vb_head := 0\<rparr>)" "vbuf_list (v\<lparr>vb_head := 0\<rparr>) = DEC2026_BSU @ vbuf_list v"
proof -
  show ok: "vout_ok n (v\<lparr>vb_head := 0\<rparr>)" using assms by (simp add: vout_ok_def)
  have "take (vb_tail v) (vb_buf v) = take 8 (vb_buf v) @ take (vb_tail v - 8) (drop 8 (vb_buf v))"
    using assms(1) take_add [of 8 "vb_tail v - 8" "vb_buf v"] by (simp add: vout_ok_def)
  then show "vbuf_list (v\<lparr>vb_head := 0\<rparr>) = DEC2026_BSU @ vbuf_list v"
    unfolding vout_list [OF ok] vout_list [OF assms(1)] using assms by (simp add: vout_ok_def)
qed

lemma oflush_ok:
  assumes "writer_ok writer sent" "vout_ok n (o_vout s)" "n < OBUFSIZE"
  shows "\<exists>s'. oflush writer s = Some s' \<and> vout_ok SZ_BSU (o_vout s') \<and> vb_head (o_vout s') = SZ_BSU \<and>
    vbuf_list (o_vout s') = [] \<and> sent (o_tty s') = sent (o_tty s) @ vbuf_list (o_vout s) \<and>
    o_frame s' = o_frame s \<and> o_conv s' = o_conv s"
proof -
  let ?v = "o_vout s"
  have inv: "vbuf_inv ?v" "vb_head ?v \<le> vb_tail ?v" using vout_ok_inv [OF assms(2,3)] by auto
  show ?thesis
  proof (cases "vbuf_list ?v = []")
    case True
    then have "vb_head ?v = vb_tail ?v" using length_vbuf_list [OF inv(1)] inv(2) by (simp add: vbuf_size_def)
    then show ?thesis using True assms(2) vbuf_is_empty_iff [OF inv(1)] by (auto simp: oflush_def vout_ok_def)
  next
    case False
    let ?n = "length (vbuf_list ?v)"
    have sz: "vbuf_size ?v = ?n" "?n \<le> vb_capacity ?v"
      using length_vbuf_list [OF inv(1)] vbuf_size_le [OF inv(1)] by simp_all
    have "0 < ?n" "?n < Suc (vb_capacity ?v)" using False sz by auto
    then obtain v' e' where g: "gwrite_loop (Suc (vb_capacity ?v)) writer False ?v ?n (o_tty s) = Some (0, v', e')"
      "vb_buf v' = vb_buf ?v" "vb_capacity v' = vb_capacity ?v" "sent e' = sent (o_tty s) @ vbuf_list ?v"
      using gwrite_loop_all [OF assms(1) inv(1), of ?n "Suc (vb_capacity ?v)" "o_tty s"] by auto
    then have "vbuf_general_write (Suc (vb_capacity ?v)) writer ?v 0 (o_tty s) = Some (0, v', e')"
      using \<open>0 < ?n\<close> sz by (simp add: vbuf_general_write_def del: gwrite_loop.simps)
    moreover have "vout_ok SZ_BSU (vout_clear v')" using assms(2) g by (simp add: vout_ok_def vout_clear_def)
    ultimately show ?thesis using False vbuf_is_empty_iff [OF inv(1)] g(4)
      by (simp add: oflush_def vout_clear_def vbuf_list_def)
  qed
qed

lemma out_ok_flush:
  assumes "writer_ok writer sent" "out_ok sent m i1 i2 s"
  shows "\<exists>s'. oflush writer s = Some s' \<and> out_ok sent m (i1 @ i2) [] s' \<and> vb_tail (o_vout s') = SZ_BSU \<and>
    vb_head (o_vout s') = SZ_BSU \<and> o_conv s' = o_conv s"
proof -
  have "vout_ok 3063 (o_vout s)" using assms(2) by (simp add: out_ok_def)
  from oflush_ok [OF assms(1) this] show ?thesis using assms(2)
    by (auto simp: out_ok_def vout_ok_def)
qed

lemma out_ok_write:
  assumes "out_ok sent m i1 i2 s" "\<not> vbuf_space (o_vout s) < 19" "length out \<le> 3" "conv_inv m cs"
  shows "\<exists>i3. out_ok sent m i1 i3 (oframe_open (s\<lparr>o_vout := vbuf_adds (o_vout s) out, o_conv := cs\<rparr>)) \<and> stext i3 = stext i2 @ out"
proof -
  let ?v = "o_vout s" and ?v' = "vbuf_adds (o_vout s) out"
  let ?s = "s\<lparr>o_vout := ?v', o_conv := cs\<rparr>"
  have v: "vout_ok 3063 ?v" using assms(1) by (simp add: out_ok_def)
  then have "vb_tail ?v \<le> 3060" using assms(2) by (auto simp: vout_ok_def vbuf_space_def vbuf_size_def)
  then have "vout_ok 3060 ?v" using v by (simp add: vout_ok_def)
  from vout_append [OF this, of out] \<open>vb_tail ?v \<le> 3060\<close> assms(3)
  have a: "vout_ok 3063 ?v'" "vbuf_list ?v' = vbuf_list ?v @ out" "vb_head ?v' = vb_head ?v"
    by (auto simp: vout_ok_def)
  have ok: "out_ok sent m i1 (i2 @ [Txt out]) ?s"
    using assms(1,4) a by (simp add: out_ok_def)
  show ?thesis
  proof (cases "o_frame s = OFRAME_PENDING \<and> 64 \<le> vbuf_size ?v'")
    case True
    then have h: "vb_head ?v' = 8" "list_all (\<lambda>i. \<exists>b. i = Txt b) i2" "sync False (i1 @ i2) = Some False"
      using assms(1) a(3) by (auto simp: out_ok_def vout_ok_def)
    then have i1: "sync False i1 = Some False" by (simp add: sync_append split: option.splits)
    note o = vout_open [OF a(1) h(1)]
    have "out_ok sent m i1 (Bsu # i2 @ [Txt out]) (oframe_open ?s)"
      using ok o True h(2) i1 by (simp add: out_ok_def oframe_open_def sync_append)
    then show ?thesis by (intro exI [of _ "Bsu # i2 @ [Txt out]"]) simp
  next
    case False
    then have "oframe_open ?s = ?s" by (auto simp: oframe_open_def)
    then show ?thesis using ok by (intro exI [of _ "i2 @ [Txt out]"]) simp
  qed
qed

section \<open>The operations keep it\<close>

text \<open>\<open>out_good\<close>: the invariant for some reading of the stream whose text is \<open>tx\<close>.\<close>

definition out_good :: "('e \<Rightarrow> byte list) \<Rightarrow> ConvertMode \<Rightarrow> byte list \<Rightarrow> 'e out_state \<Rightarrow> bool" where
  "out_good sent m tx s \<longleftrightarrow> (\<exists>i1 i2. out_ok sent m i1 i2 s \<and> stext (i1 @ i2) = tx)"

lemma out_good_flush:
  assumes "writer_ok writer sent" "out_good sent m tx s"
  shows "\<exists>s'. oflush writer s = Some s' \<and> out_good sent m tx s' \<and> \<not> vbuf_space (o_vout s') < 19 \<and>
    o_conv s' = o_conv s \<and> vbuf_list (o_vout s') = []"
proof -
  obtain i1 i2 where i: "out_ok sent m i1 i2 s" "stext (i1 @ i2) = tx" using assms(2) by (auto simp: out_good_def)
  obtain s' where s': "oflush writer s = Some s'" "out_ok sent m (i1 @ i2) [] s'"
    "vb_tail (o_vout s') = SZ_BSU" "vb_head (o_vout s') = SZ_BSU" "o_conv s' = o_conv s"
    using out_ok_flush [OF assms(1) i(1)] by blast
  moreover have "out_good sent m tx s'"
    unfolding out_good_def by (rule exI [of _ "i1 @ i2"], rule exI [of _ "[]"]) (use s'(2) i(2) in simp)
  moreover have "vb_capacity (o_vout s') = 3071" "vbuf_list (o_vout s') = []"
    using s'(2) by (simp_all add: out_ok_def vout_ok_def)
  ultimately show ?thesis by (simp add: vbuf_space_def vbuf_size_def)
qed

lemma write_step_short:
  assumes "conv_inv m cs" "write_step u8 b2u u2b cs c = Some (cs', out)"
  shows "length out \<le> 3" "conv_inv m cs'"
proof -
  have "write_held u8 cs \<le> 1" by (simp add: write_held_def big5_held_def utf8_held_def)
  then show "length out \<le> 3" using wr.step_held [OF assms] by simp
  show "conv_inv m cs'" using wr.step_total [OF assms(1), of u8 b2u u2b c] assms(2) by simp
qed

lemma out_good_char:
  assumes "writer_ok writer sent" "out_good sent m tx s" "write_step u8 b2u u2b (o_conv s) c = Some (cs, out)"
  shows "\<exists>s'. ochar u8 b2u u2b writer c s = Some s' \<and> out_good sent m (tx @ out) s' \<and> o_conv s' = cs"
proof -
  obtain s1 where s1: "(if vbuf_space (o_vout s) < 19 then oflush writer s else Some s) = Some s1"
    "out_good sent m tx s1" "\<not> vbuf_space (o_vout s1) < 19" "o_conv s1 = o_conv s"
    using out_good_flush [OF assms(1,2)] assms(2) by (cases "vbuf_space (o_vout s) < 19") auto
  obtain i1 i2 where i: "out_ok sent m i1 i2 s1" "stext (i1 @ i2) = tx" using s1(2) by (auto simp: out_good_def)
  have "conv_inv m (o_conv s)" using i(1) s1(4) by (simp add: out_ok_def)
  note w = write_step_short [OF this assms(3)]
  let ?s = "oframe_open (s1\<lparr>o_vout := vbuf_adds (o_vout s1) out, o_conv := cs\<rparr>)"
  obtain i3 where "out_ok sent m i1 i3 ?s" "stext i3 = stext i2 @ out"
    using out_ok_write [OF i(1) s1(3) w] by blast
  then have "out_good sent m (tx @ out) ?s" using i(2)
    unfolding out_good_def by (intro exI [of _ i1] exI [of _ i3]) simp
  moreover obtain n where "convert_write u8 b2u u2b (o_vout s1) c (o_conv s1) = Some (n, vbuf_adds (o_vout s1) out, cs)"
    using convert_write_step [OF assms(3), of "o_vout s1"] s1(4) by auto
  ultimately show ?thesis using s1(1) by (simp add: ochar_def) (simp add: oframe_open_def)
qed

lemma out_good_output:
  assumes "writer_ok writer sent"
  shows "out_good sent m tx s \<Longrightarrow> run_machine (write_step u8 b2u u2b) (o_conv s) cs = Some (k, out) \<Longrightarrow>
    \<exists>s'. output_str u8 b2u u2b writer cs s = Some s' \<and> out_good sent m (tx @ out) s' \<and> o_conv s' = k"
proof (induction cs arbitrary: s tx out)
  case (Cons c cs)
  obtain k1 o1 o2 where r: "write_step u8 b2u u2b (o_conv s) c = Some (k1, o1)"
    "run_machine (write_step u8 b2u u2b) k1 cs = Some (k, o2)" "out = o1 @ o2"
    using Cons.prems(2) by (auto split: option.splits)
  obtain s1 where "ochar u8 b2u u2b writer c s = Some s1" "out_good sent m (tx @ o1) s1" "o_conv s1 = k1"
    using out_good_char [OF assms Cons.prems(1) r(1)] by blast
  then show ?case using Cons.IH [of "tx @ o1" s1 o2] r by simp
qed simp

lemma out_good_end:
  assumes "writer_ok writer sent" "out_good sent m tx s"
  shows "\<exists>s'. oend_frame writer s = Some s' \<and> out_good sent m tx s' \<and> o_conv s' = o_conv s \<and>
    vbuf_list (o_vout s') = [] \<and> o_frame s' = OFRAME_NONE"
proof -
  obtain i1 i2 where i: "out_ok sent m i1 i2 s" "stext (i1 @ i2) = tx" using assms(2) by (auto simp: out_good_def)
  have v: "vout_ok 3063 (o_vout s)" using i(1) by (simp add: out_ok_def)
  define e where "e = (if o_frame s = OFRAME_ACTIVE then [Esu] else [])"
  obtain v' where v': "(if o_frame s = OFRAME_ACTIVE then map_option fst (vbuf_putblk (o_vout s) DEC2026_ESU) else Some (o_vout s)) = Some v'"
    "vout_ok 3071 v'" "vbuf_list v' = stream (i2 @ e)"
  proof (cases "o_frame s = OFRAME_ACTIVE")
    case True
    have l: "length DEC2026_ESU = 8" "DEC2026_ESU \<noteq> []" by (simp_all add: DEC2026_ESU_def)
    note a = vout_append [OF v, of DEC2026_ESU, unfolded l(1)]
    define w where "w = (o_vout s)\<lparr>vb_buf := write_at (vb_buf (o_vout s)) (vb_tail (o_vout s)) DEC2026_ESU, vb_tail := vb_tail (o_vout s) + 8\<rparr>"
    have "vout_ok (vb_tail (o_vout s) + 8) w" "vbuf_list w = vbuf_list (o_vout s) @ DEC2026_ESU"
      "vbuf_putblk (o_vout s) DEC2026_ESU = Some (w, True)"
      using a(1,2) a(4) [OF _ l(2)] by (simp_all add: w_def)
    then show ?thesis using that [of w] True v i(1) by (auto simp: e_def out_ok_def vout_ok_def)
  next
    case False
    then show ?thesis using that [of "o_vout s"] v i(1) by (simp add: vout_ok_def out_ok_def e_def)
  qed
  have sy: "sync False (i1 @ i2 @ e) = Some False" "stext (i1 @ i2 @ e) = tx"
    using i sync_append [of False "i1 @ i2" e] by (auto simp: out_ok_def e_def)
  let ?s = "s\<lparr>o_vout := v', o_frame := OFRAME_NONE\<rparr>"
  from oflush_ok [OF assms(1), of 3071 ?s] v'(2)
  obtain s' where s': "oflush writer ?s = Some s'" "vout_ok SZ_BSU (o_vout s')" "vb_head (o_vout s') = SZ_BSU"
    "vbuf_list (o_vout s') = []" "sent (o_tty s') = sent (o_tty s) @ vbuf_list v'"
    "o_frame s' = OFRAME_NONE" "o_conv s' = o_conv s" by auto
  then have "out_ok sent m (i1 @ i2 @ e) [] s'" using i(1) v'(3) sy by (simp add: out_ok_def vout_ok_def)
  then have "out_good sent m tx s'" using sy unfolding out_good_def by (intro exI [of _ "i1 @ i2 @ e"] exI [of _ "[]"]) simp
  then show ?thesis using s' v'(1) by (simp add: oend_frame_def)
qed

lemma out_good_begin: "out_good sent m tx s \<Longrightarrow> out_good sent m tx (obegin_frame s)"
  unfolding out_good_def by (elim exE, rule_tac x = i1 in exI, rule_tac x = i2 in exI) (auto simp: out_ok_def obegin_frame_def)

lemma out_good_step:
  assumes "writer_ok writer sent" "out_good sent m tx s"
    "run_machine (write_step u8 b2u u2b) (o_conv s) (printed [x]) = Some (k, out)"
  shows "\<exists>s'. out_step u8 b2u u2b writer x s = Some s' \<and> out_good sent m (tx @ out) s' \<and> o_conv s' = k \<and>
    (x = Oend \<longrightarrow> vbuf_list (o_vout s') = [] \<and> o_frame s' = OFRAME_NONE)"
proof (cases x)
  case Obegin
  moreover have "o_conv (obegin_frame s) = o_conv s" by (simp add: obegin_frame_def)
  ultimately show ?thesis using assms out_good_begin by auto
next
  case Oend
  then show ?thesis using assms out_good_end [OF assms(1,2)] by auto
next
  case Oflush
  then show ?thesis using assms out_good_flush [OF assms(1,2)] by auto
next
  case (Oput cs)
  then show ?thesis using assms out_good_output [OF assms(1,2)] by simp
qed

lemma printed_Cons: "printed (x # xs) = printed [x] @ printed xs"
  by (cases x) simp_all

lemma out_run_good:
  assumes "writer_ok writer sent"
  shows "out_good sent m tx s \<Longrightarrow> run_machine (write_step u8 b2u u2b) (o_conv s) (printed ops) = Some (k, out) \<Longrightarrow>
    \<exists>s'. out_run u8 b2u u2b writer ops s = Some s' \<and> out_good sent m (tx @ out) s' \<and>
      (ops \<noteq> [] \<and> last ops = Oend \<longrightarrow> vbuf_list (o_vout s') = [] \<and> o_frame s' = OFRAME_NONE)"
proof (induction ops arbitrary: s tx out)
  case (Cons x ops)
  obtain k1 o1 o2 where r: "run_machine (write_step u8 b2u u2b) (o_conv s) (printed [x]) = Some (k1, o1)"
    "run_machine (write_step u8 b2u u2b) k1 (printed ops) = Some (k, o2)" "out = o1 @ o2"
    using Cons.prems(2) unfolding printed_Cons [of x ops] run_machine_append by (auto split: option.splits)
  obtain s1 where s1: "out_step u8 b2u u2b writer x s = Some s1" "out_good sent m (tx @ o1) s1" "o_conv s1 = k1"
    "x = Oend \<longrightarrow> vbuf_list (o_vout s1) = [] \<and> o_frame s1 = OFRAME_NONE"
    using out_good_step [OF assms Cons.prems(1) r(1)] by blast
  show ?case using Cons.IH [OF s1(2), of o2] s1 r by (cases ops) auto
qed simp

section \<open>Properties\<close>

text \<open>C4.
  Output is complete and its frames are well formed.  Whatever sequence of \<open>output\<close>, \<open>oflush\<close>, \<open>obegin_frame\<close> and
  \<open>oend_frame\<close> a program calls after \<open>init_io\<close>, in every conversion mode and with every
  writer that takes at least one byte of what it is given, what has been written followed by what is in the buffer is
  the converted text with the sequences of synchronized updates between its bytes; opening and closing sequences
  alternate, one being open exactly while the frame state says so; and after \<open>oend_frame\<close> nothing is
  left in the buffer and no update is open.
\<close>

theorem output_frames:
  assumes "writer_ok writer sent" "conv_inv m cs" "sent e = []"
  shows "\<exists>s0 s is k. init_io_out cs e = Some s0 \<and> out_run u8 b2u u2b writer ops s0 = Some s \<and>
    sent (o_tty s) @ vbuf_list (o_vout s) = stream is \<and> sync False is = Some (o_frame s = OFRAME_ACTIVE) \<and>
    run_machine (write_step u8 b2u u2b) cs (printed ops) = Some (k, stext is) \<and>
    (ops \<noteq> [] \<and> last ops = Oend \<longrightarrow> vbuf_list (o_vout s) = [] \<and> o_frame s = OFRAME_NONE)"
proof -
  obtain k out where k: "run_machine (write_step u8 b2u u2b) cs (printed ops) = Some (k, out)"
    using wr.run_total [OF assms(2)] by blast
  have "length DEC2026_BSU = 8" by (simp add: DEC2026_BSU_def)
  then obtain s0 where s0: "init_io_out cs e = Some s0" "out_ok sent m [] [] s0" "o_conv s0 = cs"
    using assms(2,3)
    by (simp add: init_io_out_def vbuf_attach_def vout_clear_def out_ok_def vout_ok_def vbuf_list_def)
      (simp add: write_at_def)
  then have "out_good sent m [] s0" unfolding out_good_def by (intro exI [of _ "[]"]) simp
  from out_run_good [OF assms(1) this, of u8 b2u u2b ops k out] k s0(3)
  obtain s where s: "out_run u8 b2u u2b writer ops s0 = Some s" "out_good sent m out s"
    "ops \<noteq> [] \<and> last ops = Oend \<longrightarrow> vbuf_list (o_vout s) = [] \<and> o_frame s = OFRAME_NONE" by auto
  then obtain i1 i2 where "out_ok sent m i1 i2 s" "stext (i1 @ i2) = out" by (auto simp: out_good_def)
  then show ?thesis using s0(1) s k
    by (intro exI [of _ s0] exI [of _ s] exI [of _ "i1 @ i2"] exI [of _ k]) (simp add: out_ok_def)
qed

definition conv_start :: "ConvertMode \<Rightarrow> conv_state" where
  "conv_start m = \<lparr>cs_mode = m, cs_trail = 0, cs_rd = utf8_fresh, cs_wr = utf8_fresh, cs_lead = 0\<rparr>"

lemma conv_inv_start [simp]: "conv_inv m (conv_start m)"
  by (simp add: conv_start_def conv_inv_def utf8_fresh_def utf8_init_def utf8_inv_def)

definition byte_writer :: "byte list vbuf_writer" where
  "byte_writer e a b = (if a @ b = [] then (0, e) else (1, e @ take 1 (a @ b)))"

lemma byte_writer_ok: "writer_ok byte_writer id"
  unfolding writer_ok_def byte_writer_def by (auto simp flip: length_greater_0_conv)

theorem output_frames_witness:
  "\<exists>s0 s is k. init_io_out (conv_start CONV_UTF8) [] = Some s0 \<and>
    out_run False demo_b2u demo_u2b byte_writer [Obegin, Oput (replicate 70 0xA4), Oend] s0 = Some s \<and>
    id (o_tty s) @ vbuf_list (o_vout s) = stream is \<and> sync False is = Some (o_frame s = OFRAME_ACTIVE) \<and>
    run_machine (write_step False demo_b2u demo_u2b) (conv_start CONV_UTF8)
      (printed [Obegin, Oput (replicate 70 0xA4), Oend]) = Some (k, stext is) \<and>
    vbuf_list (o_vout s) = [] \<and> o_frame s = OFRAME_NONE"
proof -
  have "id ([] :: byte list) = []" by simp
  from output_frames [OF byte_writer_ok conv_inv_start this, of CONV_UTF8 False demo_b2u demo_u2b
      "[Obegin, Oput (replicate 70 0xA4), Oend]"]
  show ?thesis by simp
qed

end
