(* ===== verification/Chc.thy ===== *)
theory Chc
  imports Prelude
begin

unbundle bit_operations_syntax

text \<open>
  The rules of Chinese chess, \<open>src/mbbsd/chc.c\<close> and \<open>src/include/chc.h\<close>: the board, the moves of the pieces, check, and
  picking up and moving a piece.  A position is a pair of row and column; black starts in rows 0 to 4.
  Drawing, sending the step to the other player and the printed form of a step are left out; the
  alternation of turns is the loop of \<open>ChessPlay\<close> in \<open>src/mbbsd/chess.c\<close>.

  The theory gives the rules of the game as a reference and shows that \<open>chc_canmove\<close> decides them, and that in every
  position that play can reach the pieces stand where the rules allow them, both kings are on the
  board and do not face each other, and \<open>chc_ischeck\<close> answers correctly.
\<close>

section \<open>Pieces and the board\<close>

type_synonym rc = "int \<times> int"

text \<open>\<open>board[r][c]\<close> is the value at \<open>(r, c)\<close>, 0 for an empty place.\<close>

type_synonym board = "rc \<Rightarrow> int"

abbreviation BLK :: int where "BLK \<equiv> 0"
abbreviation RED :: int where "RED \<equiv> 1"

abbreviation KIND_K :: int where "KIND_K \<equiv> 1"
abbreviation KIND_A :: int where "KIND_A \<equiv> 2"
abbreviation KIND_E :: int where "KIND_E \<equiv> 3"
abbreviation KIND_R :: int where "KIND_R \<equiv> 4"
abbreviation KIND_H :: int where "KIND_H \<equiv> 5"
abbreviation KIND_C :: int where "KIND_C \<equiv> 6"
abbreviation KIND_P :: int where "KIND_P \<equiv> 7"

abbreviation BRD_ROW :: int where "BRD_ROW \<equiv> 10"
abbreviation BRD_COL :: int where "BRD_COL \<equiv> 9"

definition CHE_O :: "int \<Rightarrow> int" where "CHE_O c = drop_bit 3 c"

definition CHE_P :: "int \<Rightarrow> int" where "CHE_P c = c AND 7"

definition CHE :: "int \<Rightarrow> int \<Rightarrow> int" where "CHE a b = a OR push_bit 3 b"

definition CENTER :: "int \<Rightarrow> int \<Rightarrow> int" where "CENTER a b = drop_bit 1 (a + b)"

definition on_board :: "rc \<Rightarrow> bool" where
  "on_board p \<longleftrightarrow> 0 \<le> fst p \<and> fst p < BRD_ROW \<and> 0 \<le> snd p \<and> snd p < BRD_COL"

text \<open>The pieces of one side; its back row is \<open>r\<close>, and \<open>d\<close> points to the other side.\<close>

definition put_side :: "int \<Rightarrow> int \<Rightarrow> int \<Rightarrow> board \<Rightarrow> board" where
  "put_side r d w b =
     b((r, 4) := CHE KIND_K w,
       (r, 3) := CHE KIND_A w, (r, 5) := CHE KIND_A w,
       (r, 2) := CHE KIND_E w, (r, 6) := CHE KIND_E w,
       (r, 0) := CHE KIND_R w, (r, 8) := CHE KIND_R w,
       (r, 1) := CHE KIND_H w, (r, 7) := CHE KIND_H w,
       (r + 2 * d, 1) := CHE KIND_C w, (r + 2 * d, 7) := CHE KIND_C w,
       (r + 3 * d, 0) := CHE KIND_P w, (r + 3 * d, 2) := CHE KIND_P w, (r + 3 * d, 4) := CHE KIND_P w,
       (r + 3 * d, 6) := CHE KIND_P w, (r + 3 * d, 8) := CHE KIND_P w)"

definition chc_init_board :: board where
  "chc_init_board = put_side 9 (-1) RED (put_side 0 1 BLK (\<lambda>_. 0))"

section \<open>The rules in the code\<close>

definition dist :: "rc \<Rightarrow> rc \<Rightarrow> bool \<Rightarrow> int" where
  "dist from to rowcol =
     (let d = (if rowcol then snd from - snd to else fst from - fst to) in if d > 0 then d else - d)"

text \<open>The loops of \<open>between\<close> over \<open>i\<close> with \<open>lo < i < hi\<close>.\<close>

definition count_between :: "(int \<Rightarrow> int) \<Rightarrow> int \<Rightarrow> int \<Rightarrow> int" where
  "count_between f lo hi = int (length (filter (\<lambda>i. f i \<noteq> 0) [lo + 1..hi - 1]))"

definition between :: "board \<Rightarrow> rc \<Rightarrow> rc \<Rightarrow> bool \<Rightarrow> int" where
  "between board from to rowcol =
     (if rowcol then
        let (a, b) = (if snd from > snd to then (snd to, snd from) else (snd from, snd to)) in
        count_between (\<lambda>i. board (fst to, i)) a b
      else
        let (a, b) = (if fst from > fst to then (fst to, fst from) else (fst from, fst to)) in
        count_between (\<lambda>i. board (i, snd to)) a b)"

definition in_palace :: "int \<Rightarrow> rc \<Rightarrow> bool" where
  "in_palace turn to \<longleftrightarrow> \<not> (turn = BLK \<and> fst to > 2 \<or> turn = RED \<and> fst to < 7 \<or> snd to < 3 \<or> snd to > 5)"

definition chc_canmove :: "board \<Rightarrow> rc \<Rightarrow> rc \<Rightarrow> bool" where
  "chc_canmove board from to =
     (if \<not> on_board from \<or> \<not> on_board to then False
      else
        let rd = dist from to False; cd = dist from to True; turn = CHE_O (board from); kind = CHE_P (board from) in
        if board to \<noteq> 0 \<and> CHE_O (board to) = turn then False
        else if kind = KIND_K then (rd = 1 \<and> cd = 0 \<or> rd = 0 \<and> cd = 1) \<and> in_palace turn to
        else if kind = KIND_A then rd = 1 \<and> cd = 1 \<and> in_palace turn to
        else if kind = KIND_E then
          rd = 2 \<and> cd = 2 \<and> \<not> (turn = BLK \<and> fst to > 4 \<or> turn = RED \<and> fst to < 5) \<and>
          board (CENTER (fst from) (fst to), CENTER (snd from) (snd to)) = 0
        else if kind = KIND_R then
          (rd > 0 \<and> cd = 0 \<or> rd = 0 \<and> cd > 0) \<and> between board from to (rd = 0) = 0
        else if kind = KIND_H then
          (rd = 2 \<and> cd = 1 \<or> rd = 1 \<and> cd = 2) \<and>
          (if rd = 2 then board (CENTER (fst from) (fst to), snd from) = 0
           else board (fst from, CENTER (snd from) (snd to)) = 0)
        else if kind = KIND_C then
          (rd > 0 \<and> cd = 0 \<or> rd = 0 \<and> cd > 0) \<and>
          (let i = between board from to (rd = 0) in \<not> (i > 1 \<or> i = 1 \<and> board to = 0 \<or> i = 0 \<and> board to \<noteq> 0))
        else if kind = KIND_P then
          (rd = 1 \<and> cd = 0 \<or> rd = 0 \<and> cd = 1) \<and>
          \<not> ((turn = BLK \<and> fst to < 5 \<or> turn = RED \<and> fst to > 4) \<and> cd \<noteq> 0) \<and>
          \<not> (turn = BLK \<and> fst to < fst from \<or> turn = RED \<and> fst to > fst from)
        else True)"

datatype chess_result = CHESS_RESULT_CONTINUE | CHESS_RESULT_WIN

definition chc_movechess :: "board \<Rightarrow> rc \<Rightarrow> rc \<Rightarrow> chess_result \<times> board" where
  "chc_movechess board from to =
     (if CHE_P (board to) = KIND_K then CHESS_RESULT_WIN else CHESS_RESULT_CONTINUE,
      (board(to := board from))(from := 0))"

definition chc_check_step :: "rc \<Rightarrow> rc \<Rightarrow> bool" where
  "chc_check_step from to \<longleftrightarrow>
     \<not> ((fst from < 0 \<or> fst from \<ge> BRD_ROW \<or> snd from < 0 \<or> snd from \<ge> BRD_COL) \<or>
        (fst to < 0 \<or> fst to \<ge> BRD_ROW \<or> snd to < 0 \<or> snd to \<ge> BRD_COL))"

definition findking :: "board \<Rightarrow> int \<Rightarrow> rc option" where
  "findking board turn =
     (let r0 = (if turn = BLK then 0 else 7) in
      find (\<lambda>p. CHE_P (board p) = KIND_K \<and> CHE_O (board p) = turn)
        [(r, c). r \<leftarrow> [r0..r0 + 2], c \<leftarrow> [3..5]])"

definition chc_iskfk :: "board \<Rightarrow> bool" where
  "chc_iskfk board =
     (case findking board BLK of
        None \<Rightarrow> False
      | Some to \<Rightarrow>
          (case findking board RED of
             None \<Rightarrow> False
           | Some from \<Rightarrow> snd from = snd to \<and> between board from to False = 0))"

definition all_places :: "rc list" where
  "all_places = [(r, c). r \<leftarrow> [0..BRD_ROW - 1], c \<leftarrow> [0..BRD_COL - 1]]"

definition chc_ischeck :: "board \<Rightarrow> int \<Rightarrow> bool" where
  "chc_ischeck board turn =
     (case findking board turn of
        None \<Rightarrow> False
      | Some to \<Rightarrow> list_ex (\<lambda>from. board from \<noteq> 0 \<and> CHE_O (board from) \<noteq> turn \<and> chc_canmove board from to) all_places)"

section \<open>Picking and moving\<close>

record chc_info =
  ci_board :: board
  ci_turn :: int
  ci_myturn :: int
  tag_selected :: bool
  tag_select :: rc
  ci_history :: "(rc \<times> rc) list"

definition screen_loc :: "chc_info \<Rightarrow> rc \<Rightarrow> rc" where
  "screen_loc info scrloc =
     (if ci_myturn info = RED then scrloc else (BRD_ROW - fst scrloc - 1, BRD_COL - snd scrloc - 1))"

text \<open>The value returned (whether the turn ends), the game result and the state afterwards.\<close>

definition chc_select :: "chc_info \<Rightarrow> rc \<Rightarrow> bool \<times> chess_result \<times> chc_info" where
  "chc_select info scrloc =
     (let board = ci_board info; loc = screen_loc info scrloc; none = (False, CHESS_RESULT_CONTINUE, info) in
      if \<not> tag_selected info then
        if board loc \<noteq> 0 \<and> CHE_O (board loc) = ci_turn info
        then (False, CHESS_RESULT_CONTINUE, info\<lparr>tag_selected := True, tag_select := loc\<rparr>) else none
      else if tag_select info = loc then (False, CHESS_RESULT_CONTINUE, info\<lparr>tag_selected := False\<rparr>)
      else if chc_canmove board (tag_select info) loc then
        let result = (if CHE_P (board loc) = KIND_K then CHESS_RESULT_WIN else CHESS_RESULT_CONTINUE);
            valid_step = (CHE_P (board loc) = KIND_K \<or> \<not> chc_iskfk (snd (chc_movechess board (tag_select info) loc)))
        in if valid_step then
             (True, result,
              info\<lparr>ci_board := snd (chc_movechess board (tag_select info) loc), tag_selected := False,
                   ci_history := ci_history info @ [(tag_select info, loc)]\<rparr>)
           else none
      else none)"

text \<open>The start of a game and the change of turns in \<open>ChessPlay\<close>: red moves first, and a turn that ends without a result is the other side's.\<close>

definition chc_start :: "int \<Rightarrow> chc_info" where
  "chc_start my =
     \<lparr>ci_board = chc_init_board, ci_turn = RED, ci_myturn = my, tag_selected = False, tag_select = (0, 0), ci_history = []\<rparr>"

inductive chc_play :: "chc_info \<Rightarrow> bool" where
  play_start: "chc_play (chc_start my)"
| play_pick: "chc_play i \<Longrightarrow> on_board loc \<Longrightarrow> chc_select i loc = (False, r, i') \<Longrightarrow> chc_play i'"
| play_move: "chc_play i \<Longrightarrow> on_board loc \<Longrightarrow> chc_select i loc = (True, CHESS_RESULT_CONTINUE, i') \<Longrightarrow>
    chc_play (i'\<lparr>ci_turn := ci_turn i' XOR 1\<rparr>)"

section \<open>The rules as a reference\<close>

text \<open>
  Steps are pairs of integers; \<open>p \<oplus> n d\<close> is written \<open>go p n d\<close>.  A ray is clear when the places strictly between its ends are empty.
\<close>

definition go :: "rc \<Rightarrow> int \<Rightarrow> int \<times> int \<Rightarrow> rc" where
  "go p n d = (fst p + n * fst d, snd p + n * snd d)"

definition orthogonal :: "(int \<times> int) set" where "orthogonal = {(1, 0), (-1, 0), (0, 1), (0, -1)}"

definition diagonal :: "(int \<times> int) set" where "diagonal = {(1, 1), (1, -1), (-1, 1), (-1, -1)}"

definition ahead :: "int \<Rightarrow> int" where "ahead side = (if side = BLK then 1 else -1)"

definition own_half :: "int \<Rightarrow> rc \<Rightarrow> bool" where
  "own_half side p \<longleftrightarrow> (if side = BLK then fst p \<le> 4 else fst p \<ge> 5)"

definition palace :: "int \<Rightarrow> rc \<Rightarrow> bool" where
  "palace side p \<longleftrightarrow> 3 \<le> snd p \<and> snd p \<le> 5 \<and> (if side = BLK then fst p \<le> 2 else 7 \<le> fst p)"

definition screens :: "board \<Rightarrow> rc \<Rightarrow> int \<Rightarrow> int \<times> int \<Rightarrow> int set" where
  "screens b p n d = {k. 0 < k \<and> k < n \<and> b (go p k d) \<noteq> 0}"

definition moves_as :: "int \<Rightarrow> board \<Rightarrow> int \<Rightarrow> rc \<Rightarrow> rc \<Rightarrow> bool" where
  "moves_as kind b side p q \<longleftrightarrow>
     (if kind = KIND_K then \<exists>d \<in> orthogonal. q = go p 1 d \<and> palace side q
      else if kind = KIND_A then \<exists>d \<in> diagonal. q = go p 1 d \<and> palace side q
      else if kind = KIND_E then \<exists>d \<in> diagonal. q = go p 2 d \<and> own_half side q \<and> b (go p 1 d) = 0
      else if kind = KIND_R then \<exists>d \<in> orthogonal. \<exists>n > 0. q = go p n d \<and> screens b p n d = {}
      else if kind = KIND_H then \<exists>d \<in> orthogonal. \<exists>e \<in> diagonal. q = go (go p 1 d) 1 e \<and>
          (fst d * fst e + snd d * snd e = 1) \<and> b (go p 1 d) = 0
      else if kind = KIND_C then \<exists>d \<in> orthogonal. \<exists>n > 0. q = go p n d \<and>
          (if b q = 0 then screens b p n d = {} else card (screens b p n d) = 1)
      else \<exists>d \<in> orthogonal. q = go p 1 d \<and> fst d \<noteq> - ahead side \<and> (snd d \<noteq> 0 \<longrightarrow> \<not> own_half side q))"


text \<open>The codes of the fourteen pieces.\<close>

definition piece :: "int \<Rightarrow> bool" where
  "piece x \<longleftrightarrow> 1 \<le> x \<and> x \<le> 15 \<and> x \<noteq> 8"

lemma CHE_O_div: "CHE_O x = x div 8"
  by (simp add: CHE_O_def drop_bit_eq_div)

lemma CHE_P_mod: "CHE_P x = x mod 8"
  using take_bit_eq_mask [of 3 x] by (simp add: CHE_P_def take_bit_eq_mod mask_eq_exp_minus_1)

lemma CHE_code:
  assumes "1 \<le> k" "k \<le> 7" "w = 0 \<or> w = 1"
  shows "CHE k w = 8 * w + k"
proof -
  have "k = 1 \<or> k = 2 \<or> k = 3 \<or> k = 4 \<or> k = 5 \<or> k = 6 \<or> k = 7" using assms by arith
  then show ?thesis using assms(3) by (elim disjE) (simp_all add: CHE_def push_bit_eq_mult)
qed

lemma piece_side: "piece x \<Longrightarrow> CHE_O x = BLK \<or> CHE_O x = RED"
  by (auto simp: piece_def CHE_O_div)

lemma piece_kind: "piece x \<Longrightarrow> 1 \<le> CHE_P x \<and> CHE_P x \<le> 7"
  unfolding piece_def CHE_P_mod by presburger

lemma piece_code: "piece x \<Longrightarrow> x = 8 * CHE_O x + CHE_P x"
  by (simp add: CHE_O_div CHE_P_mod)


section \<open>The code follows the rules\<close>

lemma go_orthogonal:
  "(\<exists>d \<in> orthogonal. Q d) \<longleftrightarrow> Q (1, 0) \<or> Q (-1, 0) \<or> Q (0, 1) \<or> Q (0, -1)"
  by (simp add: orthogonal_def)

lemma go_diagonal:
  "(\<exists>d \<in> diagonal. Q d) \<longleftrightarrow> Q (1, 1) \<or> Q (1, -1) \<or> Q (-1, 1) \<or> Q (-1, -1)"
  by (simp add: diagonal_def)

lemma dist_eq: "dist from to True = \<bar>snd from - snd to\<bar>" "dist from to False = \<bar>fst from - fst to\<bar>"
  by (auto simp: dist_def Let_def)

lemma count_between_card: "count_between f lo hi = int (card {i. lo < i \<and> i < hi \<and> f i \<noteq> 0})"
proof -
  have "card (set (filter (\<lambda>i. f i \<noteq> 0) [lo + 1..hi - 1])) = length (filter (\<lambda>i. f i \<noteq> 0) [lo + 1..hi - 1])"
    by (intro distinct_card distinct_filter) simp
  moreover have "set (filter (\<lambda>i. f i \<noteq> 0) [lo + 1..hi - 1]) = {i. lo < i \<and> i < hi \<and> f i \<noteq> 0}" by auto
  ultimately show ?thesis by (simp add: count_between_def)
qed

text \<open>The pieces between two places of a line are the screens of the ray from one to the other.\<close>

lemma card_ray:
  assumes "d = 1 \<or> d = (-1 :: int)" "0 < n"
  shows "card {k. 0 < k \<and> k < n \<and> f (p + k * d) \<noteq> (0 :: int)} = card {i. min p (p + n * d) < i \<and> i < max p (p + n * d) \<and> f i \<noteq> 0}"
  using assms by (intro bij_betw_same_card [where f = "\<lambda>k. p + k * d"] bij_betw_byWitness [where f' = "\<lambda>i. (i - p) * d"]) auto

lemma between_screens:
  assumes "d \<in> orthogonal" "0 < n" "to = go from n d"
  shows "between b from to (fst d = 0) = int (card (screens b from n d))"
proof -
  consider e where "d = (e, 0)" "e = 1 \<or> e = -1" | e where "d = (0, e)" "e = 1 \<or> e = -1"
    using assms(1) by (auto simp: orthogonal_def)
  then show ?thesis
  proof cases
    case (1 e)
    then have "between b from to (fst d = 0) = count_between (\<lambda>i. b (i, snd from)) (min (fst from) (fst to)) (max (fst from) (fst to))"
      using assms(2,3) by (auto simp: between_def go_def)
    then show ?thesis using card_ray [OF 1(2) assms(2), of "\<lambda>i. b (i, snd from)" "fst from"] 1(1) assms(3)
      by (simp add: count_between_card screens_def go_def)
  next
    case (2 e)
    then have "between b from to (fst d = 0) = count_between (\<lambda>i. b (fst from, i)) (min (snd from) (snd to)) (max (snd from) (snd to))"
      using assms(2,3) by (auto simp: between_def go_def)
    then show ?thesis using card_ray [OF 2(2) assms(2), of "\<lambda>i. b (fst from, i)" "snd from"] 2(1) assms(3)
      by (simp add: count_between_card screens_def go_def)
  qed
qed

lemma finite_screens: "finite (screens b p n d)"
  by (rule finite_subset [of _ "{0..n}"]) (auto simp: screens_def)

lemma between_clear: "d \<in> orthogonal \<Longrightarrow> 0 < n \<Longrightarrow> to = go from n d \<Longrightarrow>
    between b from to (fst d = 0) = 0 \<longleftrightarrow> screens b from n d = {}"
  by (simp add: between_screens finite_screens)

text \<open>Two places on a line, as a ray.\<close>

lemma line_ray:
  "(dist p q False > 0 \<and> dist p q True = 0 \<or> dist p q False = 0 \<and> dist p q True > 0) \<longleftrightarrow>
     (\<exists>d \<in> orthogonal. \<exists>n > 0. q = go p n d)"
proof
  assume "dist p q False > 0 \<and> dist p q True = 0 \<or> dist p q False = 0 \<and> dist p q True > 0"
  then consider "snd p = snd q" "fst p < fst q" | "snd p = snd q" "fst q < fst p"
    | "fst p = fst q" "snd p < snd q" | "fst p = fst q" "snd q < snd p"
    by (auto simp: dist_eq) linarith+
  then show "\<exists>d \<in> orthogonal. \<exists>n > 0. q = go p n d"
  proof cases
    case 1
    then show ?thesis by (intro bexI [of _ "(1, 0)"] exI [of _ "fst q - fst p"]) (auto simp: go_def prod_eq_iff orthogonal_def)
  next
    case 2
    then show ?thesis by (intro bexI [of _ "(-1, 0)"] exI [of _ "fst p - fst q"]) (auto simp: go_def prod_eq_iff orthogonal_def)
  next
    case 3
    then show ?thesis by (intro bexI [of _ "(0, 1)"] exI [of _ "snd q - snd p"]) (auto simp: go_def prod_eq_iff orthogonal_def)
  next
    case 4
    then show ?thesis by (intro bexI [of _ "(0, -1)"] exI [of _ "snd p - snd q"]) (auto simp: go_def prod_eq_iff orthogonal_def)
  qed
qed (auto simp: dist_eq go_def orthogonal_def)

lemma ray_unique:
  assumes "d \<in> orthogonal" "0 < n" "q = go p n d" "d' \<in> orthogonal" "0 < n'" "q = go p n' d'"
  shows "d' = d \<and> n' = n"
  using assms by (auto simp: orthogonal_def go_def prod_eq_iff)

lemma ray_row: "d \<in> orthogonal \<Longrightarrow> 0 < n \<Longrightarrow> dist p (go p n d) False = 0 \<longleftrightarrow> fst d = 0"
  by (auto simp: orthogonal_def go_def dist_eq)

lemma line_between:
  assumes "\<And>k. P k \<longleftrightarrow> Q (int k)"
  shows "((dist p q False > 0 \<and> dist p q True = 0 \<or> dist p q False = 0 \<and> dist p q True > 0) \<and> Q (between b p q (dist p q False = 0))) \<longleftrightarrow>
     (\<exists>d \<in> orthogonal. \<exists>n > 0. q = go p n d \<and> P (card (screens b p n d)))"
proof -
  have "Q (between b p q (dist p q False = 0)) \<longleftrightarrow> P (card (screens b p n d))" if "d \<in> orthogonal" "n > 0" "q = go p n d" for d n
    using between_screens [OF that, of b] ray_row [OF that(1,2), of p] that(3) assms by simp
  then show ?thesis unfolding line_ray by blast
qed

lemma step_orthogonal:
  "dist p q False = 1 \<and> dist p q True = 0 \<or> dist p q False = 0 \<and> dist p q True = 1 \<longleftrightarrow> (\<exists>d \<in> orthogonal. q = go p 1 d)"
  unfolding go_orthogonal by (auto simp: dist_eq go_def prod_eq_iff)

lemma step_diagonal:
  "0 < n \<Longrightarrow> dist p q False = n \<and> dist p q True = n \<longleftrightarrow> (\<exists>d \<in> diagonal. q = go p n d)"
  unfolding go_diagonal by (auto simp: dist_eq go_def prod_eq_iff)

lemma palace_eq: "w = BLK \<or> w = RED \<Longrightarrow> in_palace w q \<longleftrightarrow> palace w q"
  by (auto simp: in_palace_def palace_def)

lemma rook_line:
  "((dist p q False > 0 \<and> dist p q True = 0 \<or> dist p q False = 0 \<and> dist p q True > 0) \<and> between b p q (dist p q False = 0) = 0) \<longleftrightarrow>
     (\<exists>d \<in> orthogonal. \<exists>n > 0. q = go p n d \<and> screens b p n d = {})"
proof -
  have "card (screens b p n d) = 0 \<longleftrightarrow> screens b p n d = {}" for n d by (simp add: finite_screens)
  then show ?thesis using line_between [of "\<lambda>k. k = 0" "\<lambda>i. i = 0" p q b] by simp
qed

lemma cannon_line:
  "((dist p q False > 0 \<and> dist p q True = 0 \<or> dist p q False = 0 \<and> dist p q True > 0) \<and>
     (let i = between b p q (dist p q False = 0) in \<not> (i > 1 \<or> i = 1 \<and> b q = 0 \<or> i = 0 \<and> b q \<noteq> 0))) \<longleftrightarrow>
     (\<exists>d \<in> orthogonal. \<exists>n > 0. q = go p n d \<and> (if b q = 0 then screens b p n d = {} else card (screens b p n d) = 1))"
proof -
  have empty: "card (screens b p n d) = 0 \<longleftrightarrow> screens b p n d = {}" for n d by (simp add: finite_screens)
  have "(if b q = 0 then k = 0 else k = 1) \<longleftrightarrow> \<not> (int k > 1 \<or> int k = 1 \<and> b q = 0 \<or> int k = 0 \<and> b q \<noteq> 0)" for k
    by auto
  from line_between [where P = "\<lambda>k. if b q = 0 then k = 0 else k = 1", of "\<lambda>i. \<not> (i > 1 \<or> i = 1 \<and> b q = 0 \<or> i = 0 \<and> b q \<noteq> 0)" p q b, OF this]
  show ?thesis by (simp only: Let_def empty)
qed

lemma CENTER_go:
  "d \<in> diagonal \<Longrightarrow> (CENTER (fst p) (fst (go p 2 d)), CENTER (snd p) (snd (go p 2 d))) = go p 1 d"
  by (auto simp: CENTER_def go_def diagonal_def drop_bit_eq_div)

lemma elephant_step:
  "dist p q False = 2 \<and> dist p q True = 2 \<and> b (CENTER (fst p) (fst q), CENTER (snd p) (snd q)) = 0 \<longleftrightarrow>
     (\<exists>d \<in> diagonal. q = go p 2 d \<and> b (go p 1 d) = 0)"
  using step_diagonal [of 2 p q] CENTER_go [of _ p] by auto

lemma horse_step:
  "(dist p q False = 2 \<and> dist p q True = 1 \<or> dist p q False = 1 \<and> dist p q True = 2) \<and>
     (if dist p q False = 2 then b (CENTER (fst p) (fst q), snd p) = 0 else b (fst p, CENTER (snd p) (snd q)) = 0) \<longleftrightarrow>
   (\<exists>d \<in> orthogonal. \<exists>e \<in> diagonal. q = go (go p 1 d) 1 e \<and> (fst d * fst e + snd d * snd e = 1) \<and> b (go p 1 d) = 0)"
proof -
  obtain r c r' c' where pq: "p = (r, c)" "q = (r', c')" by fastforce
  have "CENTER r (r + 2) = 1 + r" "CENTER (r + 2) r = 1 + r" for r by (simp_all add: CENTER_def drop_bit_eq_div)
  then show ?thesis unfolding go_orthogonal go_diagonal pq
    by (auto simp: dist_eq go_def abs_eq_iff' algebra_simps)
qed

lemma pawn_step:
  assumes "w = BLK \<or> w = RED"
  shows "((dist p q False = 1 \<and> dist p q True = 0 \<or> dist p q False = 0 \<and> dist p q True = 1) \<and>
      \<not> ((w = BLK \<and> fst q < 5 \<or> w = RED \<and> fst q > 4) \<and> dist p q True \<noteq> 0) \<and>
      \<not> (w = BLK \<and> fst q < fst p \<or> w = RED \<and> fst q > fst p)) \<longleftrightarrow>
    (\<exists>d \<in> orthogonal. q = go p 1 d \<and> fst d \<noteq> - ahead w \<and> (snd d \<noteq> 0 \<longrightarrow> \<not> own_half w q))"
  using assms unfolding step_orthogonal go_orthogonal by (auto simp: go_def dist_eq ahead_def own_half_def)

text \<open>The branches of the \<open>switch\<close>.\<close>

lemma canmove_kind:
  fixes b :: board
  assumes "on_board p" "on_board q"
  defines "w \<equiv> CHE_O (b p)"
  shows
    "CHE_P (b p) = 1 \<Longrightarrow> chc_canmove b p q \<longleftrightarrow> \<not> (b q \<noteq> 0 \<and> CHE_O (b q) = w) \<and>
      (dist p q False = 1 \<and> dist p q True = 0 \<or> dist p q False = 0 \<and> dist p q True = 1) \<and> in_palace w q"
    "CHE_P (b p) = 2 \<Longrightarrow> chc_canmove b p q \<longleftrightarrow> \<not> (b q \<noteq> 0 \<and> CHE_O (b q) = w) \<and>
      (dist p q False = 1 \<and> dist p q True = 1) \<and> in_palace w q"
    "CHE_P (b p) = 3 \<Longrightarrow> chc_canmove b p q \<longleftrightarrow> \<not> (b q \<noteq> 0 \<and> CHE_O (b q) = w) \<and>
      \<not> (w = BLK \<and> fst q > 4 \<or> w = RED \<and> fst q < 5) \<and>
      (dist p q False = 2 \<and> dist p q True = 2 \<and> b (CENTER (fst p) (fst q), CENTER (snd p) (snd q)) = 0)"
    "CHE_P (b p) = 4 \<Longrightarrow> chc_canmove b p q \<longleftrightarrow> \<not> (b q \<noteq> 0 \<and> CHE_O (b q) = w) \<and>
      (dist p q False > 0 \<and> dist p q True = 0 \<or> dist p q False = 0 \<and> dist p q True > 0) \<and> between b p q (dist p q False = 0) = 0"
    "CHE_P (b p) = 5 \<Longrightarrow> chc_canmove b p q \<longleftrightarrow> \<not> (b q \<noteq> 0 \<and> CHE_O (b q) = w) \<and>
      (dist p q False = 2 \<and> dist p q True = 1 \<or> dist p q False = 1 \<and> dist p q True = 2) \<and>
      (if dist p q False = 2 then b (CENTER (fst p) (fst q), snd p) = 0 else b (fst p, CENTER (snd p) (snd q)) = 0)"
    "CHE_P (b p) = 6 \<Longrightarrow> chc_canmove b p q \<longleftrightarrow> \<not> (b q \<noteq> 0 \<and> CHE_O (b q) = w) \<and>
      (dist p q False > 0 \<and> dist p q True = 0 \<or> dist p q False = 0 \<and> dist p q True > 0) \<and>
      (let i = between b p q (dist p q False = 0) in \<not> (i > 1 \<or> i = 1 \<and> b q = 0 \<or> i = 0 \<and> b q \<noteq> 0))"
    "CHE_P (b p) = 7 \<Longrightarrow> chc_canmove b p q \<longleftrightarrow> \<not> (b q \<noteq> 0 \<and> CHE_O (b q) = w) \<and>
      ((dist p q False = 1 \<and> dist p q True = 0 \<or> dist p q False = 0 \<and> dist p q True = 1) \<and>
       \<not> ((w = BLK \<and> fst q < 5 \<or> w = RED \<and> fst q > 4) \<and> dist p q True \<noteq> 0) \<and>
       \<not> (w = BLK \<and> fst q < fst p \<or> w = RED \<and> fst q > fst p))"
  using assms(1,2) by (auto simp: chc_canmove_def Let_def w_def)

lemma canmove_moves:
  assumes "on_board p" "on_board q" "piece (b p)"
  shows "chc_canmove b p q \<longleftrightarrow> \<not> (b q \<noteq> 0 \<and> CHE_O (b q) = CHE_O (b p)) \<and> moves_as (CHE_P (b p)) b (CHE_O (b p)) p q"
proof -
  let ?w = "CHE_O (b p)" and ?k = "CHE_P (b p)"
  note w = piece_side [OF assms(3)] and kind = canmove_kind [OF assms(1,2), of b]
  have half: "\<not> (?w = BLK \<and> fst q > 4 \<or> ?w = RED \<and> fst q < 5) \<longleftrightarrow> own_half ?w q" using w by (auto simp: own_half_def)
  consider "?k = 1" | "?k = 2" | "?k = 3" | "?k = 4" | "?k = 5" | "?k = 6" | "?k = 7"
    using piece_kind [OF assms(3)] by linarith
  then show ?thesis
  proof cases
    case 1
    show ?thesis unfolding kind(1) [OF 1] step_orthogonal palace_eq [OF w] using 1 by (auto simp: moves_as_def)
  next
    case 2
    have "(dist p q False = 1 \<and> dist p q True = 1) \<longleftrightarrow> (\<exists>d \<in> diagonal. q = go p 1 d)" by (rule step_diagonal) simp
    then show ?thesis unfolding kind(2) [OF 2] palace_eq [OF w] using 2 by (auto simp: moves_as_def)
  next
    case 3
    show ?thesis unfolding kind(3) [OF 3] elephant_step half using 3 by (auto simp: moves_as_def)
  next
    case 4
    show ?thesis unfolding kind(4) [OF 4] rook_line using 4 by (simp add: moves_as_def)
  next
    case 5
    show ?thesis unfolding kind(5) [OF 5] horse_step using 5 by (simp add: moves_as_def)
  next
    case 6
    show ?thesis unfolding kind(6) [OF 6] cannon_line using 6 by (simp add: moves_as_def)
  next
    case 7
    show ?thesis unfolding kind(7) [OF 7] pawn_step [OF w] using 7 by (simp add: moves_as_def)
  qed
qed

section \<open>Where pieces can stand\<close>

text \<open>
  Kings stay in their palace, advisors on its five marked points, elephants on the seven points of their half, and a pawn
  that has not crossed the river is on its file.
\<close>

definition stands :: "int \<Rightarrow> int \<Rightarrow> rc \<Rightarrow> bool" where
  "stands side kind p \<longleftrightarrow>
     (kind = KIND_K \<longrightarrow> palace side p) \<and>
     (kind = KIND_A \<longrightarrow> palace side p \<and> (fst p + snd p) mod 2 = (if side = BLK then 1 else 0)) \<and>
     (kind = KIND_E \<longrightarrow> own_half side p \<and> snd p mod 2 = 0 \<and> (fst p + snd p) mod 4 = (if side = BLK then 2 else 3)) \<and>
     (kind = KIND_P \<longrightarrow> (if side = BLK then 3 \<le> fst p else fst p \<le> 6) \<and> (own_half side p \<longrightarrow> snd p mod 2 = 0))"

definition places :: "int \<Rightarrow> board \<Rightarrow> rc set" where
  "places x b = {p. on_board p \<and> b p = x}"

definition board_inv :: "board \<Rightarrow> bool" where
  "board_inv b \<longleftrightarrow> (\<forall>p. on_board p \<and> b p \<noteq> 0 \<longrightarrow> piece (b p) \<and> stands (CHE_O (b p)) (CHE_P (b p)) p) \<and>
     (\<forall>x. piece x \<longrightarrow> card (places x b) \<le> card (places x chc_init_board)) \<and>
     card (places (CHE KIND_K BLK) b) = 1 \<and> card (places (CHE KIND_K RED) b) = 1"

lemma board_invD:
  "board_inv b \<Longrightarrow> on_board p \<Longrightarrow> b p \<noteq> 0 \<Longrightarrow> piece (b p)"
  "board_inv b \<Longrightarrow> on_board p \<Longrightarrow> b p \<noteq> 0 \<Longrightarrow> stands (CHE_O (b p)) (CHE_P (b p)) p"
  "board_inv b \<Longrightarrow> piece x \<Longrightarrow> card (places x b) \<le> card (places x chc_init_board)"
  "board_inv b \<Longrightarrow> w = BLK \<or> w = RED \<Longrightarrow> card (places (CHE KIND_K w) b) = 1"
  unfolding board_inv_def by blast+

lemma finite_places: "finite (places x b)"
  by (rule finite_subset [of _ "{0..9} \<times> {0..8}"]) (auto simp: places_def on_board_def)

lemma moves_stands:
  assumes "1 \<le> k" "k \<le> 7" "w = BLK \<or> w = RED" "stands w k p" "moves_as k b w p q"
  shows "stands w k q"
proof -
  consider "k = 1" | "k = 2" | "k = 3" | "k = 7" | "k = 4 \<or> k = 5 \<or> k = 6" using assms(1,2) by linarith
  then show ?thesis
  proof cases
    case 1
    then show ?thesis using assms(5) by (auto simp: stands_def moves_as_def)
  next
    case 2
    have "(fst q + snd q) mod 2 = (fst p + snd p) mod 2" "palace w q"
      using assms(5) 2 unfolding moves_as_def go_diagonal by (auto simp: go_def; presburger)+
    then show ?thesis using 2 assms(4) by (simp add: stands_def)
  next
    case 3
    have "(fst q + snd q) mod 4 = (fst p + snd p) mod 4" "snd q mod 2 = snd p mod 2" "own_half w q"
      using assms(5) 3 unfolding moves_as_def go_diagonal by (auto simp: go_def; presburger)+
    then show ?thesis using 3 assms(4) by (simp add: stands_def)
  next
    case 4
    then show ?thesis using assms(3-5) unfolding moves_as_def go_orthogonal
      by (auto simp: go_def stands_def ahead_def own_half_def)
  next
    case 5
    then show ?thesis by (auto simp: stands_def)
  qed
qed

lemma all_places_iff: "p \<in> set all_places \<longleftrightarrow> on_board p"
  by (cases p) (auto simp: all_places_def on_board_def image_iff)

lemma init_check:
  "list_all (\<lambda>p. chc_init_board p \<noteq> 0 \<longrightarrow> piece (chc_init_board p) \<and> stands (CHE_O (chc_init_board p)) (CHE_P (chc_init_board p)) p) all_places"
  by code_simp

lemma init_king_check: "filter (\<lambda>p. chc_init_board p = 1) all_places = [(0, 4)]" "filter (\<lambda>p. chc_init_board p = 9) all_places = [(9, 4)]"
  by code_simp+

lemma places_filter: "places x b = set (filter (\<lambda>p. b p = x) all_places)"
  by (auto simp: places_def all_places_iff)

lemma init_places:
  "on_board p \<Longrightarrow> chc_init_board p \<noteq> 0 \<Longrightarrow>
     piece (chc_init_board p) \<and> stands (CHE_O (chc_init_board p)) (CHE_P (chc_init_board p)) p"
  using init_check by (simp add: list_all_iff all_places_iff)

lemma init_kings: "places 1 chc_init_board = {(0, 4)}" "places 9 chc_init_board = {(9, 4)}"
  unfolding places_filter init_king_check by simp_all

lemma board_inv_init: "board_inv chc_init_board"
  using init_places init_kings by (auto simp: board_inv_def CHE_code)

lemma init_not_kfk: "\<not> chc_iskfk chc_init_board"
  by code_simp

text \<open>The captured piece is gone, the others are as many as before.\<close>

lemma places_move:
  assumes "on_board p" "on_board q" "p \<noteq> q" "b p \<noteq> 0" "b q \<noteq> b p" "x \<noteq> 0"
  defines "b' \<equiv> (b(q := b p))(p := 0)"
  shows "places x b' = (if x = b p then insert q (places x b - {p}) else places x b - {q})"
    "card (places x b') = (if x = b q then card (places x b) - 1 else card (places x b))"
proof -
  show *: "places x b' = (if x = b p then insert q (places x b - {p}) else places x b - {q})"
    using assms by (auto simp: places_def)
  have "p \<in> places x b" "q \<notin> places x b" if "x = b p" using assms that by (auto simp: places_def)
  moreover have "q \<in> places x b \<longleftrightarrow> x = b q" using assms(2) by (auto simp: places_def)
  ultimately show "card (places x b') = (if x = b q then card (places x b) - 1 else card (places x b))"
    unfolding * using finite_places [of x b] assms(5)
    by (auto simp: card_Diff_singleton_if card.insert_remove) (metis Suc_pred card_gt_0_iff empty_iff One_nat_def)
qed

lemma board_inv_move:
  assumes "board_inv b" "on_board p" "on_board q" "b p \<noteq> 0" "p \<noteq> q" "chc_canmove b p q" "CHE_P (b q) \<noteq> KIND_K"
  shows "board_inv (snd (chc_movechess b p q))"
proof -
  define b2 where "b2 = (b(q := b p))(p := 0)"
  have pc: "piece (b p)" "stands (CHE_O (b p)) (CHE_P (b p)) p" using board_invD(1,2) [OF assms(1,2,4)] by blast+
  have mv: "b q = 0 \<or> CHE_O (b q) \<noteq> CHE_O (b p)" "moves_as (CHE_P (b p)) b (CHE_O (b p)) p q"
    using assms(6) canmove_moves [OF assms(2,3), of b] pc(1) by auto
  have ne: "b q \<noteq> b p" using mv(1) assms(4) by auto
  have "stands (CHE_O (b p)) (CHE_P (b p)) q"
    using moves_stands [OF _ _ piece_side [OF pc(1)] pc(2) mv(2)] piece_kind [OF pc(1)] by blast
  then have a: "piece (b2 r) \<and> stands (CHE_O (b2 r)) (CHE_P (b2 r)) r" if "on_board r" "b2 r \<noteq> 0" for r
    using that board_invD(1,2) [OF assms(1), of r] pc(1) by (cases "r = p"; cases "r = q") (simp_all add: b2_def)
  have cd: "card (places x b2) = (if x = b q then card (places x b) - 1 else card (places x b))" if "piece x" for x
    using places_move(2) [OF assms(2,3,5,4) ne, of x] that by (auto simp: piece_def b2_def)
  have kings: "card (places x b2) = 1" if "x = CHE KIND_K BLK \<or> x = CHE KIND_K RED" for x
  proof -
    have "x = 1 \<or> x = 9" using that by (auto simp: CHE_code)
    then have "piece x" "CHE_P x = KIND_K" by (auto simp: piece_def CHE_P_mod)
    then show ?thesis using cd [of x] board_invD(4) [OF assms(1)] assms(7) that by auto
  qed
  have le: "card (places x b2) \<le> card (places x chc_init_board)" if "piece x" for x
    using cd [OF that] board_invD(3) [OF assms(1) that] by (simp split: if_splits)
  have "snd (chc_movechess b p q) = b2" by (simp add: chc_movechess_def b2_def)
  moreover have "board_inv b2" unfolding board_inv_def using a le kings by blast
  ultimately show ?thesis by simp
qed

section \<open>Kings\<close>

lemma find_SomeD: "find P xs = Some x \<Longrightarrow> P x \<and> x \<in> set xs"
  by (induction xs) (auto split: if_splits)

lemma king_code: "piece x \<Longrightarrow> CHE_P x = KIND_K \<and> CHE_O x = w \<longleftrightarrow> x = CHE KIND_K w \<and> (w = BLK \<or> w = RED)"
  using piece_code [of x] piece_side [of x] by (auto simp: CHE_code) (auto simp: CHE_P_mod CHE_O_div)

lemma king_unique:
  assumes "board_inv b" "w = BLK \<or> w = RED"
  shows "\<exists>!k. on_board k \<and> b k = CHE KIND_K w"
proof -
  obtain k where "places (CHE KIND_K w) b = {k}" using board_invD(4) [OF assms] by (auto simp: card_1_singleton_iff)
  then have "p = k \<longleftrightarrow> on_board p \<and> b p = CHE KIND_K w" for p unfolding places_def by blast
  then show ?thesis by metis
qed

lemma findking_exact:
  assumes "board_inv b" "w = BLK \<or> w = RED"
  shows "\<exists>k. findking b w = Some k \<and> on_board k \<and> b k = CHE KIND_K w"
proof -
  let ?P = "\<lambda>p. CHE_P (b p) = KIND_K \<and> CHE_O (b p) = w"
  let ?r = "if w = BLK then 0 else 7 :: int"
  let ?ps = "[(r, c). r \<leftarrow> [?r..?r + 2], c \<leftarrow> [3..5 :: int]]"
  obtain k where k: "on_board k" "b k = CHE KIND_K w" using king_unique [OF assms] by blast
  have "piece (CHE KIND_K w)" "CHE_P (CHE KIND_K w) = KIND_K" "CHE_O (CHE KIND_K w) = w"
    using assms(2) by (auto simp: CHE_code piece_def CHE_P_mod CHE_O_div)
  moreover have "b k \<noteq> 0" using calculation(1) k(2) by (auto simp: piece_def)
  ultimately have st: "?P k" "palace w k" using k board_invD(2) [OF assms(1) k(1)] by (auto simp: stands_def)
  have "k \<in> set ?ps" using st(2) k(1) assms(2) by (cases k) (auto simp: palace_def on_board_def image_iff)
  then have "find ?P ?ps \<noteq> None" unfolding find_None_iff using st(1) by blast
  then obtain j where j: "find ?P ?ps = Some j" by blast
  have "?P j" "j \<in> set ?ps" using find_SomeD [OF j] by blast+
  then have "on_board j" using assms(2) by (auto simp: on_board_def)
  moreover have "b j \<noteq> 0" using \<open>?P j\<close> by (auto simp: CHE_P_mod)
  ultimately have "piece (b j)" using board_invD(1) [OF assms(1)] by blast
  then have "b j = CHE KIND_K w" using \<open>?P j\<close> king_code by blast
  then show ?thesis using j \<open>on_board j\<close> by (simp add: findking_def Let_def)
qed

lemma findking_king:
  assumes "board_inv b" "w = BLK \<or> w = RED" "on_board k" "b k = CHE KIND_K w"
  shows "findking b w = Some k"
  using findking_exact [OF assms(1,2)] king_unique [OF assms(1,2)] assms(3,4) by metis

lemma chc_ischeck_exact:
  assumes "board_inv b" "w = BLK \<or> w = RED" "on_board k" "b k = CHE KIND_K w"
  shows "chc_ischeck b w \<longleftrightarrow>
    (\<exists>p. on_board p \<and> b p \<noteq> 0 \<and> CHE_O (b p) \<noteq> w \<and> moves_as (CHE_P (b p)) b (CHE_O (b p)) p k)"
proof -
  have "CHE_O (b k) = w" using assms(2,4) by (auto simp: CHE_code CHE_O_div)
  then have "chc_canmove b p k \<longleftrightarrow> moves_as (CHE_P (b p)) b (CHE_O (b p)) p k" if "on_board p" "b p \<noteq> 0" "CHE_O (b p) \<noteq> w" for p
    using that canmove_moves [OF that(1) assms(3), of b] board_invD(1) [OF assms(1) that(1,2)] by auto
  then show ?thesis unfolding chc_ischeck_def findking_king [OF assms]
    by (auto simp: list_ex_iff all_places_iff simp del: split_paired_Ex)
qed

section \<open>Play\<close>

definition play_inv :: "chc_info \<Rightarrow> bool" where
  "play_inv i \<longleftrightarrow> board_inv (ci_board i) \<and> \<not> chc_iskfk (ci_board i) \<and> (ci_turn i = BLK \<or> ci_turn i = RED) \<and>
     (tag_selected i \<longrightarrow> on_board (tag_select i) \<and> ci_board i (tag_select i) \<noteq> 0 \<and> CHE_O (ci_board i (tag_select i)) = ci_turn i)"

lemma screen_loc_board: "on_board loc \<Longrightarrow> on_board (screen_loc i loc)"
  by (auto simp: on_board_def screen_loc_def)

lemma chc_select_pick:
  "play_inv i \<Longrightarrow> on_board loc \<Longrightarrow> chc_select i loc = (False, r, i') \<Longrightarrow> play_inv i'"
  using screen_loc_board [of loc i] by (auto simp: chc_select_def play_inv_def Let_def split: if_splits)

lemma chc_select_move:
  assumes "play_inv i" "on_board loc" "chc_select i loc = (True, CHESS_RESULT_CONTINUE, i')"
  shows "board_inv (ci_board i') \<and> \<not> chc_iskfk (ci_board i') \<and> \<not> tag_selected i' \<and> ci_turn i' = ci_turn i"
proof -
  let ?q = "screen_loc i loc" and ?p = "tag_select i" and ?b = "ci_board i"
  have m: "tag_selected i" "?p \<noteq> ?q" "chc_canmove ?b ?p ?q" "CHE_P (?b ?q) \<noteq> KIND_K"
    "i' = i\<lparr>ci_board := snd (chc_movechess ?b ?p ?q), tag_selected := False, ci_history := ci_history i @ [(?p, ?q)]\<rparr>"
    "\<not> chc_iskfk (snd (chc_movechess ?b ?p ?q))"
    using assms(3) by (auto simp: chc_select_def Let_def split: if_splits)
  then show ?thesis
    using assms(1) board_inv_move [of ?b ?p ?q] screen_loc_board [OF assms(2), of i] by (simp add: play_inv_def)
qed

lemma chc_play_inv: "chc_play i \<Longrightarrow> play_inv i"
proof (induction rule: chc_play.induct)
  case (play_start my)
  then show ?case using board_inv_init init_not_kfk by (simp add: play_inv_def chc_start_def)
next
  case (play_pick i loc r i')
  then show ?case using chc_select_pick by blast
next
  case (play_move i loc i')
  then show ?case using chc_select_move [OF play_move.IH play_move.hyps(2,3)] by (auto simp: play_inv_def)
qed


section \<open>Properties\<close>


definition chc_opening :: chc_info where
  "chc_opening = (chc_start RED)\<lparr>ci_board := snd (chc_movechess chc_init_board (7, 1) (7, 4)), tag_select := (7, 1), ci_history := [((7, 1), (7, 4))], ci_turn := BLK\<rparr>"

lemma chc_opening_play: "chc_play chc_opening"
proof -
  let ?i = "(chc_start RED)\<lparr>tag_selected := True, tag_select := (7, 1)\<rparr>"
  have c: "chc_init_board (7, 1) \<noteq> 0" "CHE_O (chc_init_board (7, 1)) = 1" "chc_canmove chc_init_board (7, 1) (7, 4)"
    "CHE_P (chc_init_board (7, 4)) \<noteq> 1" "\<not> chc_iskfk (snd (chc_movechess chc_init_board (7, 1) (7, 4)))" by code_simp+
  have "chc_select (chc_start RED) (7, 1) = (False, CHESS_RESULT_CONTINUE, ?i)"
    using c by (simp add: chc_select_def chc_start_def screen_loc_def Let_def)
  from play_pick [OF play_start _ this] have 1: "chc_play ?i" by (simp add: on_board_def)
  have "chc_select ?i (7, 4) = (True, CHESS_RESULT_CONTINUE, chc_opening\<lparr>ci_turn := RED\<rparr>)"
    using c by (simp add: chc_select_def chc_start_def screen_loc_def Let_def chc_opening_def)
  from play_move [OF 1 _ this] show ?thesis by (simp add: on_board_def chc_opening_def chc_start_def)
qed


text \<open>C18.
  In every position of play the code decides the rules: \<open>chc_canmove\<close> accepts a step of a piece between two places of the board exactly
  when it does not capture a piece of its own side and is a move of its kind (along rays with no screen, over exactly one
  for a capture by the cannon, past an empty leg for the horse and an empty eye for the elephant), and
  \<open>chc_ischeck\<close> is true exactly when some piece of the other side could move onto the king.
\<close>

theorem chc_rules_decided:
  assumes "chc_play i" "on_board p" "on_board q" "ci_board i p \<noteq> 0" "w = BLK \<or> w = RED"
  defines "b \<equiv> ci_board i"
  shows "(chc_canmove b p q \<longleftrightarrow> \<not> (b q \<noteq> 0 \<and> CHE_O (b q) = CHE_O (b p)) \<and> moves_as (CHE_P (b p)) b (CHE_O (b p)) p q) \<and>
    (\<exists>k. on_board k \<and> b k = CHE KIND_K w \<and>
      (chc_ischeck b w \<longleftrightarrow> (\<exists>p. on_board p \<and> b p \<noteq> 0 \<and> CHE_O (b p) \<noteq> w \<and> moves_as (CHE_P (b p)) b (CHE_O (b p)) p k)))"
proof -
  have inv: "board_inv b" using chc_play_inv [OF assms(1)] by (simp add: play_inv_def b_def)
  have "piece (b p)" using board_invD(1) [OF inv assms(2)] assms(4) by (simp add: b_def)
  note 1 = canmove_moves [OF assms(2,3), of b, OF this]
  obtain k where k: "on_board k" "b k = CHE KIND_K w" using king_unique [OF inv assms(5)] by blast
  from 1 k chc_ischeck_exact [OF inv assms(5) k] show ?thesis by blast
qed

theorem chc_rules_decided_witness:
  "(chc_canmove (ci_board chc_opening) (0, 1) (2, 2) \<longleftrightarrow>
      \<not> (ci_board chc_opening (2, 2) \<noteq> 0 \<and> CHE_O (ci_board chc_opening (2, 2)) = CHE_O (ci_board chc_opening (0, 1))) \<and>
      moves_as (CHE_P (ci_board chc_opening (0, 1))) (ci_board chc_opening) (CHE_O (ci_board chc_opening (0, 1))) (0, 1) (2, 2)) \<and>
    chc_canmove (ci_board chc_opening) (0, 1) (2, 2)"
proof -
  have "on_board (0, 1)" "on_board (2, 2)" "ci_board chc_opening (0, 1) \<noteq> 0" "chc_canmove (ci_board chc_opening) (0, 1) (2, 2)" by code_simp+
  then show ?thesis using chc_rules_decided [OF chc_opening_play, of "(0, 1)" "(2, 2)" BLK] by blast
qed

end
