(* ===== verification/Boards.thy ===== *)
theory Boards
  imports Clib "HOL-Library.List_Lexorder" "HOL-Library.Multiset"
begin

text \<open>
  The table of boards: the headers in the shared memory, the permission to read a
  board, the sorted name table with the search by name, and the lists of the boards of
  a group, from \<open>src/mbbsd/board.c\<close>, \<open>src/mbbsd/cache.c\<close>, \<open>src/common/bbs/cache.c\<close>,
  \<open>src/include/perm.h\<close> and \<open>src/include/pttstruct.h\<close>.

  The array \<open>bcache\<close> is a function of the board number (\<open>bid\<close>, from 1 to \<open>MAX_BOARD\<close>), a
  pointer to a header is its number.  \<open>bsorted[type]\<close> is the list of its first \<open>Bnumber\<close>
  entries, which count from 0.  \<open>qsort\<close> is a parameter with what C promises of it.  The
  answer of the friend service about a hidden board is a parameter of the permission
  checks.
\<close>

section \<open>Data\<close>

definition PERM_BASIC :: u32 where "PERM_BASIC = 0x1"
definition PERM_POST :: u32 where "PERM_POST = 0x8"
definition PERM_LOGINOK :: u32 where "PERM_LOGINOK = 0x10"
definition PERM_BM :: u32 where "PERM_BM = 0x400"
definition PERM_BOARDS :: u32 where "PERM_BOARDS = 0x2000"
definition PERM_SYSOP :: u32 where "PERM_SYSOP = 0x4000"
definition PERM_VIOLATELAW :: u32 where "PERM_VIOLATELAW = 0x20000"
definition PERM_NOCITIZEN :: u32 where "PERM_NOCITIZEN = 0x400000"
definition PERM_POLICE_MAN :: u32 where "PERM_POLICE_MAN = 0x10000000"
definition PERM_POLICE :: u32 where "PERM_POLICE = 0x80000000"

definition BRD_GROUPBOARD :: u32 where "BRD_GROUPBOARD = 0x8"
definition BRD_HIDE :: u32 where "BRD_HIDE = 0x10"
definition BRD_POSTMASK :: u32 where "BRD_POSTMASK = 0x20"
definition BRD_TOP :: u32 where "BRD_TOP = 0x800"
definition BRD_SYMBOLIC :: u32 where "BRD_SYMBOLIC = 0x8000"
definition BRD_RESTRICTEDPOST :: u32 where "BRD_RESTRICTEDPOST = 0x40000"
definition BRD_NOREG_CAN_POST :: u32 where "BRD_NOREG_CAN_POST = 0x80000"
definition BRD_OVER18 :: u32 where "BRD_OVER18 = 0x1000000"

text \<open>The two orders in which the boards are sorted, \<open>BRD_GROUP_LL_TYPE_NAME\<close> and \<open>BRD_GROUP_LL_TYPE_CLASS\<close>.\<close>

datatype ll_type = LL_NAME | LL_CLASS

record user_t =
  unum :: int
  firstlogin :: u32

record boardheader_t =
  brdname :: cstr
  bclass :: cstr
  desc :: cstr
  brdattr :: u32
  post_limit_logins :: byte
  post_limit_badpost :: byte
  level :: u32
  perm_reload :: u32
  gid :: int
  next_bid :: "ll_type \<Rightarrow> int"
  firstchild :: "ll_type \<Rightarrow> int"
  parent :: int
  childcount :: int
  postexpire :: int
  moderators :: "user_t list"

text \<open>The flags are tested against a mask.\<close>

definition has :: "u32 \<Rightarrow> u32 \<Rightarrow> bool" where "has w m \<longleftrightarrow> w AND m \<noteq> 0"

definition IS_GROUP :: "boardheader_t \<Rightarrow> bool" where
  "IS_GROUP bh \<longleftrightarrow> brdname bh \<noteq> [] \<and> has (brdattr bh) BRD_GROUPBOARD"

definition GROUP_LISTS_BOARDS :: "boardheader_t \<Rightarrow> bool" where
  "GROUP_LISTS_BOARDS bh \<longleftrightarrow> IS_GROUP bh \<and> \<not> has (brdattr bh) (BRD_SYMBOLIC OR BRD_TOP)"

definition BRD_LINK_TARGET :: "boardheader_t \<Rightarrow> int" where "BRD_LINK_TARGET bh = postexpire bh"

record board_shm =
  bcache :: "int \<Rightarrow> boardheader_t"
  Bnumber :: nat
  bsorted :: "ll_type \<Rightarrow> nat list"
  Bbusystate :: bool

text \<open>What a session knows of its user: the fields of \<open>cuser\<close> and \<open>currutmp\<close>, and the mode.\<close>

record session =
  userlevel :: u32
  uid :: int
  cu_firstlogin :: u32
  over_18 :: bool
  numlogindays :: nat
  badpost :: nat
  currmode :: u32
  list_groupop :: u32

definition HasUserPerm :: "session \<Rightarrow> u32 \<Rightarrow> bool" where "HasUserPerm u x \<longleftrightarrow> has (userlevel u) x"

definition HasBasicUserPerm :: "session \<Rightarrow> u32 \<Rightarrow> bool" where
  "HasBasicUserPerm u x \<longleftrightarrow> HasUserPerm u PERM_BASIC \<and> HasUserPerm u x"

definition is_board_moderator :: "board_shm \<Rightarrow> session \<Rightarrow> int \<Rightarrow> bool" where
  "is_board_moderator s u bid \<longleftrightarrow>
     \<not> (\<not> HasUserPerm u PERM_BASIC \<or> uid u = 0 \<or> uid u = -1) \<and>
     HasBasicUserPerm u PERM_LOGINOK \<and>
     list_ex (\<lambda>m. unum m > 0 \<and> unum m = uid u \<and> (firstlogin m = 0 \<or> firstlogin m = cu_firstlogin u))
       (moderators (bcache s bid))"

section \<open>Permission to read\<close>

text \<open>The value 2 lets a user who is not a friend into a hidden board that has no \<open>BRD_POSTMASK\<close>.\<close>

definition HasBoardPermNormally :: "(int \<Rightarrow> int \<Rightarrow> bool) \<Rightarrow> board_shm \<Rightarrow> session \<Rightarrow> int \<Rightarrow> int" where
  "HasBoardPermNormally hbf s u bid =
     (let level = level (bcache s bid); brdattr = brdattr (bcache s bid) in
      if has level PERM_BM \<and> (HasUserPerm u PERM_POLICE \<or> HasUserPerm u PERM_POLICE_MAN) then 1
      else if is_board_moderator s u bid then 1
      else if has brdattr BRD_HIDE then
        (if \<not> hbf bid (uid u) then (if has brdattr BRD_POSTMASK then 0 else 2) else 1)
      else if has brdattr BRD_OVER18 \<and> \<not> over_18 u then 0
      else if level \<noteq> 0 \<and> \<not> has brdattr BRD_POSTMASK \<and> \<not> HasUserPerm u level then 0
      else 1)"

definition HasBoardPerm :: "(int \<Rightarrow> int \<Rightarrow> bool) \<Rightarrow> board_shm \<Rightarrow> session \<Rightarrow> int \<Rightarrow> int" where
  "HasBoardPerm hbf s u bid = (if HasUserPerm u PERM_SYSOP then 1 else HasBoardPermNormally hbf s u bid)"

definition BoardPermNeedsSysopOverride :: "(int \<Rightarrow> int \<Rightarrow> bool) \<Rightarrow> board_shm \<Rightarrow> session \<Rightarrow> int \<Rightarrow> bool" where
  "BoardPermNeedsSysopOverride hbf s u bid \<longleftrightarrow> HasUserPerm u PERM_SYSOP \<and> HasBoardPermNormally hbf s u bid = 0"

section \<open>Sorting and searching\<close>

definition cmpboardname :: "board_shm \<Rightarrow> nat \<Rightarrow> nat \<Rightarrow> int" where
  "cmpboardname s i j = strcasecmp (brdname (bcache s (int i + 1))) (brdname (bcache s (int j + 1)))"

text \<open>\<open>strcmp\<close> compares bytes as unsigned.\<close>

fun strcmp :: "cstr \<Rightarrow> cstr \<Rightarrow> int" where
  "strcmp [] [] = 0"
| "strcmp [] (d # t) = - uint d"
| "strcmp (c # s) [] = uint c"
| "strcmp (c # s) (d # t) = (if c = d then strcmp s t else uint c - uint d)"

definition cmpboardclass :: "board_shm \<Rightarrow> nat \<Rightarrow> nat \<Rightarrow> int" where
  "cmpboardclass s i j =
     (let cmp = strcmp (bclass (bcache s (int i + 1))) (bclass (bcache s (int j + 1))) in
      if cmp \<noteq> 0 then cmp else strcasecmp (brdname (bcache s (int i + 1))) (brdname (bcache s (int j + 1))))"

type_synonym qsort = "(nat \<Rightarrow> nat \<Rightarrow> int) \<Rightarrow> nat list \<Rightarrow> nat list"

text \<open>
  \<open>sort_bcache\<close>; the lock is free or the call has no effect.  It also forgets the first
  child of every board.
\<close>

definition sort_bcache :: "qsort \<Rightarrow> board_shm \<Rightarrow> board_shm" where
  "sort_bcache qsort s =
     (if Bbusystate s then s
      else s\<lparr>bsorted := (\<lambda>t. case t of LL_NAME \<Rightarrow> qsort (cmpboardname s) [0..<Bnumber s]
                                   | LL_CLASS \<Rightarrow> qsort (cmpboardclass s) [0..<Bnumber s]),
             bcache := (\<lambda>b. if 1 \<le> b \<and> b \<le> int (Bnumber s) then bcache s b\<lparr>firstchild := (\<lambda>_. 0)\<rparr> else bcache s b)\<rparr>)"

text \<open>
  The loop of \<open>getbnum\<close>; \<open>start\<close> never exceeds \<open>en\<close>, so the two are equal when \<open>start < en\<close>
  fails.
\<close>

function getbnum_loop :: "board_shm \<Rightarrow> cstr \<Rightarrow> nat \<Rightarrow> nat \<Rightarrow> int" where
  "getbnum_loop s bname start en =
     (let i = (start + en) div 2;
          b = bsorted s LL_NAME ! i;
          j = strcasecmp bname (brdname (bcache s (int b + 1))) in
      if j = 0 then int b + 1
      else if start < en then
        (if i = start then getbnum_loop s bname en en
         else if j > 0 then getbnum_loop s bname i en
         else getbnum_loop s bname start i)
      else 0)"
  by pat_completeness auto
termination by (relation "measure (\<lambda>(s, b, start, en). en - start)") auto

declare getbnum_loop.simps [simp del]

text \<open>With an empty table the code reads outside it.\<close>

definition getbnum :: "board_shm \<Rightarrow> cstr \<Rightarrow> int option" where
  "getbnum s bname = (if Bnumber s = 0 then None else Some (getbnum_loop s bname 0 (Bnumber s - 1)))"

section \<open>The boards of a group\<close>

text \<open>
  The loop of \<open>resolve_board_group\<close> over the sorted entries; \<open>cur\<close> is \<open>currbptr\<close>, and
  \<open>cnt\<close> the \<open>childcount\<close>.
\<close>

fun resolve_loop :: "int \<Rightarrow> ll_type \<Rightarrow> nat list \<Rightarrow> (int \<Rightarrow> boardheader_t) \<Rightarrow> int \<Rightarrow> int \<Rightarrow> (int \<Rightarrow> boardheader_t) \<times> int \<times> int" where
  "resolve_loop g t [] bc cur cnt = (bc, cur, cnt)"
| "resolve_loop g t (n # ns) bc cur cnt =
     (let bid = int n + 1 in
      if brdname (bc bid) = [] then resolve_loop g t ns bc cur cnt
      else if gid (bc bid) = g then
        resolve_loop g t ns
          (bc(cur := if cur = g then bc cur\<lparr>firstchild := (firstchild (bc cur))(t := bid)\<rparr>
                     else bc cur\<lparr>next_bid := (next_bid (bc cur))(t := bid), parent := g\<rparr>)) bid (cnt + 1)
      else resolve_loop g t ns bc cur cnt)"

definition resolve_board_group :: "int \<Rightarrow> ll_type \<Rightarrow> board_shm \<Rightarrow> board_shm" where
  "resolve_board_group g t s =
     (let (bc, cur, cnt) = resolve_loop g t (bsorted s t) (bcache s) g 0;
          bc1 = bc(g := bc g\<lparr>childcount := cnt\<rparr>);
          bc2 = bc1(cur := if cur = g then bc1 cur\<lparr>firstchild := (firstchild (bc1 cur))(t := -1)\<rparr>
                           else bc1 cur\<lparr>next_bid := (next_bid (bc1 cur))(t := -1)\<rparr>) in
      s\<lparr>bcache := bc2\<rparr>)"

section \<open>Listing a group\<close>

definition NBRD_FAV :: byte where "NBRD_FAV = 1"
definition NBRD_BOARD :: byte where "NBRD_BOARD = 2"
definition NBRD_UNREAD :: byte where "NBRD_UNREAD = 32"
definition NBRD_SYMBOLIC :: byte where "NBRD_SYMBOLIC = 64"

text \<open>\<open>strcasestr\<close> finds a needle up to the case of letters.\<close>

fun strcasestr :: "cstr \<Rightarrow> cstr \<Rightarrow> bool" where
  "strcasestr [] key = (key = [])"
| "strcasestr (c # s) key =
     (map to_lower (take (length key) (c # s)) = map to_lower key \<or> strcasestr s key)"

definition TITLE_MATCH :: "boardheader_t \<Rightarrow> cstr \<Rightarrow> bool" where
  "TITLE_MATCH bh key \<longleftrightarrow> key \<noteq> [] \<and> \<not> strcasestr (desc bh) key \<and> \<not> strcasestr (bclass bh) key"

definition link_target_bid :: "board_shm \<Rightarrow> boardheader_t \<Rightarrow> int" where
  "link_target_bid s link =
     (let bid = BRD_LINK_TARGET link in
      if bid < 1 \<or> bid > MAX_BOARD then 0
      else if brdname (bcache s bid) = [] \<or> has (brdattr (bcache s bid)) BRD_SYMBOLIC then 0
      else bid)"

text \<open>
  \<open>addnewbrdstat\<close> for a list of boards that is not the favourites: the row of the list.
  \<open>has_new\<close> is whether the board has articles and the last one is unread.
\<close>

definition check_newpost :: "(int \<Rightarrow> bool) \<Rightarrow> board_shm \<Rightarrow> int \<Rightarrow> byte \<Rightarrow> byte" where
  "check_newpost has_new s bid myattr =
     (let myattr = myattr AND NOT NBRD_UNREAD in
      if has (brdattr (bcache s bid)) (BRD_GROUPBOARD OR BRD_SYMBOLIC) then myattr
      else if has_new bid then myattr OR NBRD_UNREAD else myattr)"

definition addnewbrdstat :: "(int \<Rightarrow> bool) \<Rightarrow> int \<Rightarrow> byte \<Rightarrow> board_shm \<Rightarrow> (int \<times> byte) \<times> board_shm" where
  "addnewbrdstat has_new bid state s =
     (let bh = bcache s bid;
          bh' = (if has (brdattr bh) BRD_HIDE \<and> state = NBRD_BOARD then bh\<lparr>brdattr := brdattr bh OR BRD_POSTMASK\<rparr> else bh);
          s' = s\<lparr>bcache := (bcache s)(bid := bh')\<rparr> in
      ((bid, check_newpost has_new s' bid (state AND NOT NBRD_FAV)), s'))"

text \<open>
  The loop of \<open>load_boards\<close> over the boards of a group, which follows \<open>next\<close> and may not
  end.  \<open>cc\<close> is the \<open>childcount\<close>, \<open>list_op\<close> and \<open>list_lead\<close> are the group modes that hold in the
  list.  A link is shown as such only with \<open>list_lead\<close>, otherwise its target is shown.
\<close>

record list_env =
  le_hbf :: "int \<Rightarrow> int \<Rightarrow> bool"
  le_user :: session
  le_new :: "int \<Rightarrow> bool"
  le_key :: cstr
  list_op :: bool
  list_lead :: bool

definition load_one :: "list_env \<Rightarrow> int \<Rightarrow> board_shm \<Rightarrow> (int \<times> byte) list \<times> board_shm" where
  "load_one e bid s =
     (let bh = bcache s bid;
          state = HasBoardPerm (le_hbf e) s (le_user e) bid in
      if \<not> (state \<noteq> 0 \<or> list_op e) \<or> TITLE_MATCH bh (le_key e) then ([], s)
      else if has (brdattr bh) BRD_SYMBOLIC then
        (if list_lead e then
           (let (r, s') = addnewbrdstat (le_new e) bid (word_of_int state OR NBRD_SYMBOLIC) s in ([r], s'))
         else if link_target_bid s bh = 0 then ([], s)
         else (let (r, s') = addnewbrdstat (le_new e) (link_target_bid s bh) (word_of_int state) s in ([r], s')))
      else (let (r, s') = addnewbrdstat (le_new e) bid (word_of_int state) s in ([r], s')))"

partial_function (option) load_loop ::
  "list_env \<Rightarrow> ll_type \<Rightarrow> int \<Rightarrow> int \<Rightarrow> (int \<times> byte) list \<Rightarrow> board_shm \<Rightarrow> ((int \<times> byte) list \<times> board_shm) option" where
  "load_loop e t cc bid rows s =
     (if bid > 0 \<and> int (length rows) < cc + 5 then
        (let (r, s') = load_one e bid s in load_loop e t cc (next_bid (bcache s' bid) t) (rows @ r) s')
      else Some (rows, s))"

text \<open>\<open>load_boards\<close> in a group.\<close>

definition load_class :: "list_env \<Rightarrow> ll_type \<Rightarrow> int \<Rightarrow> board_shm \<Rightarrow> ((int \<times> byte) list \<times> board_shm) option" where
  "load_class e t class_bid s =
     (let s1 = (if firstchild (bcache s class_bid) t = 0 \<or> childcount (bcache s class_bid) = 0
                then resolve_board_group class_bid t s else s);
          cc = childcount (bcache s1 class_bid) in
      map_option (\<lambda>(rows, s2). (rows,
          if cc < int (length rows) then s2\<lparr>bcache := (bcache s2)(class_bid := bcache s2 class_bid\<lparr>childcount := 0\<rparr>)\<rparr> else s2))
        (load_loop e t cc (firstchild (bcache s1 class_bid) t) [] s1))"

section \<open>The order of names\<close>

text \<open>\<open>strcasecmp\<close> compares the lower-case bytes lexicographically.\<close>

definition name_key :: "cstr \<Rightarrow> int list" where "name_key s = map (\<lambda>c. uint (to_lower c)) s"

definition c_string :: "cstr \<Rightarrow> bool" where "c_string s \<longleftrightarrow> 0 \<notin> set s"

lemma uint_to_lower_pos: "c \<noteq> 0 \<Longrightarrow> 0 < uint (to_lower c)"
  by (metis to_lower_0 uint_0_iff uint_ge_0 order_le_less)

lemma strcasecmp_less: "c_string s \<Longrightarrow> c_string t \<Longrightarrow> strcasecmp s t < 0 \<longleftrightarrow> name_key s < name_key t"
  by (induction s t rule: strcasecmp.induct)
    (auto simp: c_string_def name_key_def uint_to_lower_pos simp flip: word_uint_eq_iff)

lemma strcasecmp_equal: "c_string s \<Longrightarrow> c_string t \<Longrightarrow> strcasecmp s t = 0 \<longleftrightarrow> name_key s = name_key t"
  by (induction s t rule: strcasecmp.induct) (auto simp: c_string_def name_key_def uint_0_iff simp flip: word_uint_eq_iff)

lemma strcasecmp_greater: "c_string s \<Longrightarrow> c_string t \<Longrightarrow> strcasecmp s t > 0 \<longleftrightarrow> name_key t < name_key s"
  using strcasecmp_less [of s t] strcasecmp_equal [of s t] by (metis linorder_less_linear order_less_asym)

text \<open>Names that differ in the case of letters only.\<close>

definition same_name :: "cstr \<Rightarrow> cstr \<Rightarrow> bool" where "same_name a b \<longleftrightarrow> map to_lower a = map to_lower b"

lemma same_name_key: "same_name a b \<longleftrightarrow> name_key a = name_key b"
proof -
  have "name_key s = map uint (map to_lower s)" for s by (simp add: name_key_def)
  then show ?thesis unfolding same_name_def by (metis inj_def inj_map_eq_map word_uint_eq_iff)
qed

text \<open>What C promises of \<open>qsort\<close> for a comparison that is a total order up to equality of keys.\<close>

definition bsort_ok :: "qsort \<Rightarrow> bool" where
  "bsort_ok qs \<longleftrightarrow>
     (\<forall>cmp xs. mset (qs cmp xs) = mset xs \<and>
        ((\<forall>x\<in>set xs. \<forall>y\<in>set xs. cmp x y \<le> 0 \<or> cmp y x \<le> 0) \<and>
         (\<forall>x\<in>set xs. \<forall>y\<in>set xs. \<forall>z\<in>set xs. cmp x y \<le> 0 \<longrightarrow> cmp y z \<le> 0 \<longrightarrow> cmp x z \<le> 0) \<longrightarrow>
         sorted_wrt (\<lambda>x y. cmp x y \<le> 0) (qs cmp xs)))"

definition names_ok :: "board_shm \<Rightarrow> bool" where
  "names_ok s \<longleftrightarrow> (\<forall>b. 1 \<le> b \<and> b \<le> int (Bnumber s) \<longrightarrow> c_string (brdname (bcache s b)) \<and> c_string (bclass (bcache s b)))"

abbreviation nm :: "board_shm \<Rightarrow> nat \<Rightarrow> cstr" where "nm s i \<equiv> brdname (bcache s (int i + 1))"

lemma names_okD: "names_ok s \<Longrightarrow> i < Bnumber s \<Longrightarrow> c_string (nm s i)"
  by (simp add: names_ok_def)

lemma sort_bcache_sel [simp]:
  "Bnumber (sort_bcache qs s) = Bnumber s"
  "brdname (bcache (sort_bcache qs s) b) = brdname (bcache s b)"
  "gid (bcache (sort_bcache qs s) b) = gid (bcache s b)"
  by (simp_all add: sort_bcache_def)

lemma sorted_names:
  assumes "bsort_ok qs" "names_ok s"
  shows "sorted_wrt (\<lambda>i j. name_key (nm s i) \<le> name_key (nm s j)) (qs (cmpboardname s) [0..<Bnumber s])"
    "mset (qs (cmpboardname s) [0..<Bnumber s]) = mset [0..<Bnumber s]"
proof -
  have le: "cmpboardname s i j \<le> 0 \<longleftrightarrow> name_key (nm s i) \<le> name_key (nm s j)" if "i < Bnumber s" "j < Bnumber s" for i j
    using strcasecmp_greater [OF names_okD names_okD, OF assms(2) that(1) assms(2) that(2)]
    by (auto simp: cmpboardname_def not_less [symmetric])
  show m: "mset (qs (cmpboardname s) [0..<Bnumber s]) = mset [0..<Bnumber s]" using assms(1) by (simp add: bsort_ok_def)
  have tot: "\<forall>i\<in>set [0..<Bnumber s]. \<forall>j\<in>set [0..<Bnumber s]. cmpboardname s i j \<le> 0 \<or> cmpboardname s j i \<le> 0"
    by (auto simp: le)
  have trans: "\<forall>i\<in>set [0..<Bnumber s]. \<forall>j\<in>set [0..<Bnumber s]. \<forall>k\<in>set [0..<Bnumber s].
      cmpboardname s i j \<le> 0 \<longrightarrow> cmpboardname s j k \<le> 0 \<longrightarrow> cmpboardname s i k \<le> 0"
    by (auto simp: le)
  have "sorted_wrt (\<lambda>i j. cmpboardname s i j \<le> 0) (qs (cmpboardname s) [0..<Bnumber s])"
    using assms(1) tot trans unfolding bsort_ok_def by blast
  then show "sorted_wrt (\<lambda>i j. name_key (nm s i) \<le> name_key (nm s j)) (qs (cmpboardname s) [0..<Bnumber s])"
    by (rule sorted_wrt_mono_rel [rotated]) (use mset_eq_setD [OF m] in \<open>auto simp: le\<close>)
qed

text \<open>The search narrows the interval that holds every entry with the name.\<close>

definition found :: "board_shm \<Rightarrow> cstr \<Rightarrow> int \<Rightarrow> bool" where
  "found s bname r \<longleftrightarrow>
     (if \<exists>b. 1 \<le> b \<and> b \<le> int (Bnumber s) \<and> same_name bname (brdname (bcache s b))
      then 1 \<le> r \<and> r \<le> int (Bnumber s) \<and> same_name bname (brdname (bcache s r)) else r = 0)"

definition sorted_table :: "board_shm \<Rightarrow> bool" where
  "sorted_table s \<longleftrightarrow> mset (bsorted s LL_NAME) = mset [0..<Bnumber s] \<and>
     sorted_wrt (\<lambda>i j. name_key (nm s i) \<le> name_key (nm s j)) (bsorted s LL_NAME)"

lemma sorted_tableD:
  assumes "sorted_table s"
  shows "length (bsorted s LL_NAME) = Bnumber s" "set (bsorted s LL_NAME) = {0..<Bnumber s}"
  using assms mset_eq_length [of "bsorted s LL_NAME" "[0..<Bnumber s]"] mset_eq_setD [of "bsorted s LL_NAME" "[0..<Bnumber s]"]
  by (auto simp: sorted_table_def)

text \<open>All the entries with the name lie between \<open>start\<close> and \<open>en\<close>.\<close>

definition within :: "board_shm \<Rightarrow> cstr \<Rightarrow> nat \<Rightarrow> nat \<Rightarrow> bool" where
  "within s bname start en \<longleftrightarrow>
     (\<forall>k < Bnumber s. same_name bname (nm s (bsorted s LL_NAME ! k)) \<longrightarrow> start \<le> k \<and> k \<le> en)"

lemma within_split:
  assumes "sorted_table s" "within s bname start en" "i < Bnumber s"
  shows "name_key (nm s (bsorted s LL_NAME ! i)) < name_key bname \<Longrightarrow> within s bname i en"
    "name_key bname < name_key (nm s (bsorted s LL_NAME ! i)) \<Longrightarrow> within s bname start i"
proof -
  have mono: "name_key (nm s (bsorted s LL_NAME ! k)) \<le> name_key (nm s (bsorted s LL_NAME ! l))" if "k \<le> l" "l < Bnumber s" for k l
    using that assms(1) sorted_tableD(1) [OF assms(1)]
    by (cases "k = l") (auto simp: sorted_table_def intro: sorted_wrt_nth_less)
  show "within s bname i en" if "name_key (nm s (bsorted s LL_NAME ! i)) < name_key bname"
    using that assms(2,3) mono [of _ i] unfolding within_def same_name_key by (metis linorder_not_le nle_le)
  show "within s bname start i" if "name_key bname < name_key (nm s (bsorted s LL_NAME ! i))"
    using that assms(2,3) mono [of i] unfolding within_def same_name_key by (metis linorder_not_le nle_le)
qed

lemma within_absent:
  assumes "sorted_table s" "within s bname k k" "\<not> same_name bname (nm s (bsorted s LL_NAME ! k))"
  shows "found s bname 0"
proof -
  have "\<not> same_name bname (brdname (bcache s b))" if b: "1 \<le> b" "b \<le> int (Bnumber s)" for b
  proof -
    have "nat (b - 1) \<in> set (bsorted s LL_NAME)" using b sorted_tableD(2) [OF assms(1)] by auto
    then obtain m where "m < Bnumber s" "bsorted s LL_NAME ! m = nat (b - 1)"
      using sorted_tableD(1) [OF assms(1)] by (metis in_set_conv_nth)
    moreover from this have "nm s (bsorted s LL_NAME ! m) = brdname (bcache s b)" using b by simp
    ultimately show ?thesis using assms(2,3) unfolding within_def by (metis antisym)
  qed
  then show ?thesis by (auto simp: found_def)
qed

lemma getbnum_loop_spec:
  assumes "sorted_table s" "names_ok s" "c_string bname" "start \<le> en" "en < Bnumber s" "within s bname start en"
  shows "found s bname (getbnum_loop s bname start en)"
  using assms
proof (induction s bname start en rule: getbnum_loop.induct [case_names loop])
  case (loop s bname start en)
  let ?i = "(start + en) div 2"
  let ?b = "bsorted s LL_NAME ! ?i"
  let ?j = "strcasecmp bname (nm s ?b)"
  have i: "start \<le> ?i" "?i \<le> en" "?i < Bnumber s" using loop.prems by auto
  have b: "?b < Bnumber s" using i(3) sorted_tableD [OF loop.prems(1)] by (metis atLeastLessThan_iff nth_mem)
  note cs = loop.prems(3) names_okD [OF loop.prems(2) b]
  have step: "getbnum_loop s bname start en = (if ?j = 0 then int ?b + 1 else if start < en then
      (if ?i = start then getbnum_loop s bname en en else if ?j > 0 then getbnum_loop s bname ?i en else getbnum_loop s bname start ?i)
      else 0)" by (subst getbnum_loop.simps) (simp only: Let_def)
  show ?case
  proof (cases "?j = 0")
    case True
    then show ?thesis using b step strcasecmp_equal [OF cs] by (auto simp: found_def same_name_key intro!: exI [of _ "int ?b + 1"])
  next
    case ne: False
    then have diff: "\<not> same_name bname (nm s ?b)" using strcasecmp_equal [OF cs] by (simp add: same_name_key)
    consider "\<not> start < en" | "start < en" "?i = start" | "start < en" "?i \<noteq> start" "?j > 0" | "start < en" "?i \<noteq> start" "?j < 0"
      using ne by linarith
    then show ?thesis
    proof cases
      case 1
      then have "start = en" "?i = en" using loop.prems(4) by simp_all
      then show ?thesis using within_absent [OF loop.prems(1), of bname en] loop.prems(6) diff step ne by simp
    next
      case 2
      then have "en = Suc start" by linarith
      then have "within s bname en en" using loop.prems(6) diff 2(2) unfolding within_def
        by (metis le_SucE le_antisym)
      then show ?thesis using loop.IH(1) [OF refl refl refl ne 2] loop.prems step ne 2 by simp
    next
      case 3
      have "within s bname ?i en" using within_split(1) [OF loop.prems(1,6) i(3)] strcasecmp_greater [OF cs] 3(3) by blast
      then show ?thesis using loop.IH(2) [OF refl refl refl ne 3] loop.prems i step ne 3 by simp
    next
      case 4
      have "within s bname start ?i" using within_split(2) [OF loop.prems(1,6) i(3)] strcasecmp_less [OF cs] 4(3) by blast
      then show ?thesis using loop.IH(3) [OF refl refl refl ne 4(1,2)] loop.prems i step ne 4 by simp
    qed
  qed
qed

lemma sorted_table_sort:
  assumes "bsort_ok qs" "names_ok s" "\<not> Bbusystate s"
  shows "sorted_table (sort_bcache qs s)"
proof -
  have "bsorted (sort_bcache qs s) LL_NAME = qs (cmpboardname s) [0..<Bnumber s]" using assms(3) by (simp add: sort_bcache_def)
  then show ?thesis using sorted_names [OF assms(1,2)] by (simp add: sorted_table_def)
qed

lemma names_ok_sort: "names_ok s \<Longrightarrow> names_ok (sort_bcache qs s)"
  by (auto simp: names_ok_def sort_bcache_def)

section \<open>The list of a group\<close>

text \<open>The boards of a group in the order of the sorted table.\<close>

definition is_kid :: "(int \<Rightarrow> boardheader_t) \<Rightarrow> int \<Rightarrow> nat \<Rightarrow> bool" where
  "is_kid bc g n \<longleftrightarrow> brdname (bc (int n + 1)) \<noteq> [] \<and> gid (bc (int n + 1)) = g"

definition kids :: "(int \<Rightarrow> boardheader_t) \<Rightarrow> int \<Rightarrow> nat list \<Rightarrow> int list" where
  "kids bc g ns = map (\<lambda>n. int n + 1) (filter (is_kid bc g) ns)"

lemma kids_simps [simp]:
  "kids bc g [] = []"
  "kids bc g (n # ns) = (if is_kid bc g n then (int n + 1) # kids bc g ns else kids bc g ns)"
  by (simp_all add: kids_def)

lemma kids_distinct: "distinct ns \<Longrightarrow> distinct (kids bc g ns)"
  by (induction ns) (auto simp: kids_def)

lemma kids_pos: "b \<in> set (kids bc g ns) \<Longrightarrow> 0 < b \<and> gid (bc b) = g"
  by (auto simp: kids_def is_kid_def)

text \<open>Headers that agree up to the fields of the lists.\<close>

definition unlinked :: "boardheader_t \<Rightarrow> boardheader_t" where
  "unlinked bh = bh\<lparr>next_bid := (\<lambda>_. 0), firstchild := (\<lambda>_. 0), parent := 0, childcount := 0\<rparr>"

definition same_heads :: "(int \<Rightarrow> boardheader_t) \<Rightarrow> (int \<Rightarrow> boardheader_t) \<Rightarrow> bool" where
  "same_heads bc bc' \<longleftrightarrow> (\<forall>b. unlinked (bc b) = unlinked (bc' b))"

lemma unlinked_simps [simp]:
  "unlinked (bh\<lparr>next_bid := x\<rparr>) = unlinked bh" "unlinked (bh\<lparr>firstchild := y\<rparr>) = unlinked bh"
  "unlinked (bh\<lparr>parent := z\<rparr>) = unlinked bh" "unlinked (bh\<lparr>childcount := w\<rparr>) = unlinked bh"
  by (simp_all add: unlinked_def)

lemma unlinkedD:
  assumes "unlinked a = unlinked b"
  shows "brdname a = brdname b" "bclass a = bclass b" "desc a = desc b" "brdattr a = brdattr b" "level a = level b"
    "gid a = gid b" "postexpire a = postexpire b" "moderators a = moderators b"
  using assms by (cases a; cases b; simp add: unlinked_def)+

lemma same_heads_refl [simp]: "same_heads bc bc" by (simp add: same_heads_def)

lemma same_heads_trans: "same_heads a b \<Longrightarrow> same_heads b c \<Longrightarrow> same_heads a c" by (simp add: same_heads_def)

lemma same_heads_upd: "unlinked h = unlinked (bc b) \<Longrightarrow> same_heads bc (bc(b := h))" by (simp add: same_heads_def)

lemma same_heads_kids: "same_heads bc bc' \<Longrightarrow> kids bc g ns = kids bc' g ns"
  unfolding kids_def is_kid_def same_heads_def using unlinkedD(1,6) by metis

text \<open>The entry that follows \<open>x\<close> in the list of \<open>g\<close>.\<close>

definition after :: "(int \<Rightarrow> boardheader_t) \<Rightarrow> ll_type \<Rightarrow> int \<Rightarrow> int \<Rightarrow> int" where
  "after bc t g x = (if x = g then firstchild (bc x) t else next_bid (bc x) t)"

fun linked :: "(int \<Rightarrow> boardheader_t) \<Rightarrow> ll_type \<Rightarrow> int \<Rightarrow> int \<Rightarrow> int list \<Rightarrow> bool" where
  "linked bc t g x [] \<longleftrightarrow> True"
| "linked bc t g x (c # cs) \<longleftrightarrow> after bc t g x = c \<and> linked bc t g c cs"

lemma resolve_loop_last:
  "resolve_loop g t ns bc cur cnt = (bc', cur', cnt') \<Longrightarrow>
   same_heads bc bc' \<and> cur' = last (cur # kids bc g ns) \<and> cnt' = cnt + int (length (kids bc g ns))"
proof (induction ns arbitrary: bc cur cnt)
  case (Cons n ns)
  define bc1 where "bc1 = bc(cur := if cur = g then bc cur\<lparr>firstchild := (firstchild (bc cur))(t := int n + 1)\<rparr>
    else bc cur\<lparr>next_bid := (next_bid (bc cur))(t := int n + 1), parent := g\<rparr>)"
  have sh: "same_heads bc bc1" unfolding bc1_def by (rule same_heads_upd) simp
  show ?case
  proof (cases "is_kid bc g n")
    case True
    then have "resolve_loop g t ns bc1 (int n + 1) (cnt + 1) = (bc', cur', cnt')"
      using Cons.prems by (simp add: is_kid_def Let_def bc1_def)
    from Cons.IH [OF this] show ?thesis using same_heads_trans [OF sh] same_heads_kids [OF sh, of g ns] True by auto
  next
    case False
    then have "resolve_loop g t ns bc cur cnt = (bc', cur', cnt')"
      using Cons.prems by (auto simp: is_kid_def Let_def split: if_splits)
    from Cons.IH [OF this] show ?thesis using False by simp
  qed
qed simp

lemma resolve_loop_links:
  "resolve_loop g t ns bc cur cnt = (bc', cur', cnt') \<Longrightarrow> cur \<notin> set (kids bc g ns) \<Longrightarrow> g \<notin> set (kids bc g ns) \<Longrightarrow>
   distinct ns \<Longrightarrow> linked bc' t g cur (kids bc g ns) \<and> (\<forall>y. y \<notin> set (cur # kids bc g ns) \<longrightarrow> bc' y = bc y)
   \<and> (kids bc g ns \<noteq> [] \<longrightarrow> after bc' t g cur = hd (kids bc g ns))"
proof (induction ns arbitrary: bc cur cnt)
  case (Cons n ns)
  define bc1 where "bc1 = bc(cur := if cur = g then bc cur\<lparr>firstchild := (firstchild (bc cur))(t := int n + 1)\<rparr>
    else bc cur\<lparr>next_bid := (next_bid (bc cur))(t := int n + 1), parent := g\<rparr>)"
  have sh: "same_heads bc bc1" unfolding bc1_def by (rule same_heads_upd) simp
  show ?case
  proof (cases "is_kid bc g n")
    case True
    let ?c = "int n + 1"
    have r: "resolve_loop g t ns bc1 ?c (cnt + 1) = (bc', cur', cnt')"
      using Cons.prems(1) True by (simp add: is_kid_def Let_def bc1_def)
    have k: "kids bc1 g ns = kids bc g ns" using same_heads_kids [OF sh] by simp
    have c: "?c \<notin> set (kids bc g ns)" "g \<notin> set (kids bc g ns)" "cur \<noteq> ?c" "cur \<notin> set (kids bc g ns)"
      using Cons.prems(2-4) True by (auto simp: kids_def)
    have IH: "linked bc' t g ?c (kids bc g ns)" "\<forall>y. y \<notin> set (?c # kids bc g ns) \<longrightarrow> bc' y = bc1 y"
      using Cons.IH [OF r, unfolded k, OF c(1,2)] Cons.prems(4) by auto
    then have "bc' cur = bc1 cur" using c(3,4) by simp
    then have "after bc' t g cur = ?c" by (cases "cur = g") (simp_all add: after_def bc1_def)
    moreover have "bc' y = bc y" if "y \<notin> set (cur # kids bc g (n # ns))" for y
      using IH(2) that True by (auto simp: bc1_def)
    ultimately show ?thesis using IH(1) True by auto
  next
    case False
    then have "resolve_loop g t ns bc cur cnt = (bc', cur', cnt')"
      using Cons.prems(1) by (auto simp: is_kid_def Let_def split: if_splits)
    from Cons.IH [OF this] show ?thesis using False Cons.prems(2-4) by simp
  qed
qed simp

lemma linked_snoc: "linked bc t g x (cs @ [y]) \<longleftrightarrow> linked bc t g x cs \<and> after bc t g (last (x # cs)) = y"
  by (induction cs arbitrary: x) auto

lemma linked_cong:
  "(\<And>y. y \<in> set (butlast (x # cs)) \<Longrightarrow> after bc' t g y = after bc t g y) \<Longrightarrow> linked bc' t g x cs = linked bc t g x cs"
proof (induction cs arbitrary: x)
  case (Cons c cs)
  then show ?case by (cases cs) auto
qed simp

text \<open>After \<open>resolve_board_group\<close> the list leads through the boards of the group and ends.\<close>

lemma resolve_board_group_links:
  assumes "distinct (bsorted s t)" "g \<notin> set (kids (bcache s) g (bsorted s t))"
  defines "s' \<equiv> resolve_board_group g t s" and "cs \<equiv> kids (bcache s) g (bsorted s t)"
  shows "linked (bcache s') t g g (cs @ [-1])" "childcount (bcache s' g) = int (length cs)"
    "same_heads (bcache s) (bcache s')"
proof -
  obtain bc cur cnt where r: "resolve_loop g t (bsorted s t) (bcache s) g 0 = (bc, cur, cnt)" by (metis prod_cases3)
  have last: "same_heads (bcache s) bc" "cur = last (g # cs)" "cnt = int (length cs)"
    using resolve_loop_last [OF r] by (auto simp: cs_def)
  have links: "linked bc t g g cs" using resolve_loop_links [OF r assms(2,2,1)] by (simp add: cs_def)
  define bc2 where "bc2 = bcache s'"
  have d: "distinct (g # cs)" using assms(1,2) kids_distinct by (auto simp: cs_def)
  have s': "bc2 = (let bc1 = bc(g := bc g\<lparr>childcount := cnt\<rparr>) in
      bc1(cur := if cur = g then bc1 cur\<lparr>firstchild := (firstchild (bc1 cur))(t := -1)\<rparr>
                 else bc1 cur\<lparr>next_bid := (next_bid (bc1 cur))(t := -1)\<rparr>))"
    by (simp add: bc2_def s'_def resolve_board_group_def r Let_def)
  have "after bc2 t g y = after bc t g y" if "y \<in> set (butlast (g # cs))" for y
  proof -
    have "y \<noteq> cur" using that d last(2) by (metis append_butlast_last_id distinct_append disjoint_iff list.distinct(1) list.set_intros(1))
    then show ?thesis by (simp add: s' Let_def after_def)
  qed
  then have "linked bc2 t g g cs" using linked_cong links by blast
  moreover have "after bc2 t g (last (g # cs)) = -1" by (simp add: s' Let_def after_def last(2))
  ultimately show "linked (bcache s') t g g (cs @ [-1])" by (simp add: linked_snoc bc2_def)
  show "childcount (bcache s' g) = int (length cs)" unfolding bc2_def [symmetric] by (simp add: s' Let_def last(3))
  show "same_heads (bcache s) (bcache s')" unfolding bc2_def [symmetric] using last(1)
    by (auto simp: s' Let_def same_heads_def)
qed

text \<open>Listing a board may only set \<open>BRD_POSTMASK\<close> of hidden boards.\<close>

lemma HasBoardPerm_range: "HasBoardPerm hbf s u b \<in> {0, 1, 2}"
  by (simp add: HasBoardPerm_def HasBoardPermNormally_def Let_def)

lemma HasBoardPerm_2: "HasBoardPerm hbf s u b = 2 \<Longrightarrow> has (brdattr (bcache s b)) BRD_HIDE"
  by (auto simp: HasBoardPerm_def HasBoardPermNormally_def Let_def split: if_splits)

definition postmasked :: "boardheader_t \<Rightarrow> boardheader_t" where "postmasked bh = bh\<lparr>brdattr := brdattr bh OR BRD_POSTMASK\<rparr>"

definition masks :: "int set \<Rightarrow> board_shm \<Rightarrow> board_shm \<Rightarrow> bool" where
  "masks B s s' \<longleftrightarrow> (\<exists>M \<subseteq> B. s' = s\<lparr>bcache := (\<lambda>b. if b \<in> M then postmasked (bcache s b) else bcache s b)\<rparr>)"

lemma has_mask: "has (brdattr (postmasked bh)) m \<longleftrightarrow> has (brdattr bh) m" if "m AND BRD_POSTMASK = 0"
proof -
  have "(w OR BRD_POSTMASK) AND m = w AND m" for w :: u32
    using that by (metis (no_types) and.commute bit.conj_disj_distrib or.right_neutral)
  then show ?thesis by (simp add: has_def postmasked_def)
qed

lemma masks_other: "masks B s s' \<Longrightarrow> b \<notin> B \<Longrightarrow> bcache s' b = bcache s b"
  by (auto simp: masks_def)

lemma masks_head:
  assumes "masks B s s'"
  shows "brdname (bcache s' b) = brdname (bcache s b)" "next_bid (bcache s' b) = next_bid (bcache s b)"
    "m AND BRD_POSTMASK = 0 \<Longrightarrow> has (brdattr (bcache s' b)) m = has (brdattr (bcache s b)) m"
proof -
  obtain M where "s' = s\<lparr>bcache := (\<lambda>b. if b \<in> M then postmasked (bcache s b) else bcache s b)\<rparr>"
    using assms by (auto simp: masks_def)
  then have b: "bcache s' b = (if b \<in> M then postmasked (bcache s b) else bcache s b)" by simp
  show "brdname (bcache s' b) = brdname (bcache s b)" "next_bid (bcache s' b) = next_bid (bcache s b)"
    by (simp_all add: b postmasked_def)
  show "m AND BRD_POSTMASK = 0 \<Longrightarrow> has (brdattr (bcache s' b)) m = has (brdattr (bcache s b)) m" by (simp add: b has_mask)
qed

lemma not_postmask [simp]:
  "BRD_SYMBOLIC AND BRD_POSTMASK = 0" "BRD_HIDE AND BRD_POSTMASK = 0" "(BRD_GROUPBOARD OR BRD_SYMBOLIC) AND BRD_POSTMASK = 0"
  by (simp_all add: BRD_SYMBOLIC_def BRD_POSTMASK_def BRD_GROUPBOARD_def BRD_HIDE_def)

lemma masks_link: "masks B s s' \<Longrightarrow> link_target_bid s' bh = link_target_bid s bh"
  by (simp add: link_target_bid_def Let_def masks_head)

lemma masks_newpost: "masks B s s' \<Longrightarrow> check_newpost has_new s' b a = check_newpost has_new s b a"
  by (simp add: check_newpost_def Let_def masks_head)

lemma masks_refl [simp]: "masks B s s"
  unfolding masks_def by (intro exI [of _ "{}"]) simp

lemma postmasked_idem [simp]: "postmasked (postmasked bh) = postmasked bh"
  by (simp add: postmasked_def or.assoc)

lemma masks_trans: "masks A s s' \<Longrightarrow> masks B s' s'' \<Longrightarrow> masks (A \<union> B) s s''"
  unfolding masks_def
proof (elim exE conjE)
  fix M N assume "M \<subseteq> A" "N \<subseteq> B" and e: "s' = s\<lparr>bcache := (\<lambda>b. if b \<in> M then postmasked (bcache s b) else bcache s b)\<rparr>"
    "s'' = s'\<lparr>bcache := (\<lambda>b. if b \<in> N then postmasked (bcache s' b) else bcache s' b)\<rparr>"
  then show "\<exists>M\<subseteq>A \<union> B. s'' = s\<lparr>bcache := (\<lambda>b. if b \<in> M then postmasked (bcache s b) else bcache s b)\<rparr>"
    by (intro exI [of _ "M \<union> N"]) (auto simp: fun_eq_iff)
qed

lemma addnewbrdstat_masks: "masks {b} s (snd (addnewbrdstat has_new b state s))"
proof (cases "has (brdattr (bcache s b)) BRD_HIDE \<and> state = NBRD_BOARD")
  case True
  then have "snd (addnewbrdstat has_new b state s) = s\<lparr>bcache := (\<lambda>x. if x \<in> {b} then postmasked (bcache s x) else bcache s x)\<rparr>"
    by (auto simp: addnewbrdstat_def Let_def postmasked_def fun_eq_iff)
  then show ?thesis unfolding masks_def by blast
next
  case False
  then have "snd (addnewbrdstat has_new b state s) = s" by (auto simp: addnewbrdstat_def Let_def)
  then show ?thesis by simp
qed

lemma addnewbrdstat_row:
  "fst (addnewbrdstat has_new b state s) = (b, check_newpost has_new s b (state AND NOT NBRD_FAV))"
  using masks_newpost [OF addnewbrdstat_masks]
  by (simp add: addnewbrdstat_def Let_def)

text \<open>No link is hidden.\<close>

definition open_links :: "board_shm \<Rightarrow> bool" where
  "open_links s \<longleftrightarrow> (\<forall>b. \<not> (has (brdattr (bcache s b)) BRD_SYMBOLIC \<and> has (brdattr (bcache s b)) BRD_HIDE))"

lemma addnewbrdstat_open: "state \<noteq> NBRD_BOARD \<Longrightarrow> snd (addnewbrdstat has_new b state s) = s"
  by (simp add: addnewbrdstat_def Let_def)

lemma load_one_masks:
  assumes "open_links s"
  shows "masks {b} s (snd (load_one e b s))"
proof -
  let ?st = "HasBoardPerm (le_hbf e) s (le_user e) b"
  have "(word_of_int ?st :: byte) \<noteq> NBRD_BOARD" if "has (brdattr (bcache s b)) BRD_SYMBOLIC"
    using HasBoardPerm_range [of "le_hbf e" s "le_user e" b] HasBoardPerm_2 [of "le_hbf e" s "le_user e" b] that assms
    by (auto simp: open_links_def NBRD_BOARD_def)
  then show ?thesis
    using addnewbrdstat_masks [of b s "le_new e"] by (simp add: load_one_def Let_def addnewbrdstat_open case_prod_beta)
qed

text \<open>The row of a board does not depend on the boards listed before it.\<close>

lemma load_one_row:
  assumes "masks B s s'" "b \<notin> B"
  shows "fst (load_one e b s') = fst (load_one e b s)"
proof -
  have bh: "bcache s' b = bcache s b" using masks_other [OF assms] .
  then have "is_board_moderator s' u b = is_board_moderator s u b" for u by (simp add: is_board_moderator_def)
  then have "HasBoardPerm hbf s' u b = HasBoardPerm hbf s u b" for hbf u
    by (simp only: HasBoardPerm_def HasBoardPermNormally_def bh)
  then show ?thesis
    by (simp add: load_one_def Let_def bh masks_link [OF assms(1)] case_prod_beta addnewbrdstat_row masks_newpost [OF assms(1)])
qed

declare load_loop.simps [code]

lemma length_load_one: "length (fst (load_one e b s)) \<le> 1"
  by (simp add: load_one_def Let_def case_prod_beta)

text \<open>The walk ends and lists every board of the chain.\<close>

lemma load_loop_chain:
  assumes "masks B s0 s" "open_links s0" "linked (bcache s0) t g x (cs @ [-1])" "distinct cs" "set cs \<inter> B = {}"
    "\<forall>c\<in>set cs. 0 < c \<and> c \<noteq> g" "int (length rows + length cs) < cc + 5"
  shows "\<exists>s'. masks (B \<union> set cs) s0 s' \<and>
    load_loop e t cc (after (bcache s0) t g x) rows s = Some (rows @ concat (map (\<lambda>b. fst (load_one e b s0)) cs), s')"
  using assms
proof (induction cs arbitrary: x rows s B)
  case Nil
  then show ?case by (auto simp: load_loop.simps)
next
  case (Cons c cs)
  let ?r = "fst (load_one e c s)" and ?s = "snd (load_one e c s)"
  have c: "after (bcache s0) t g x = c" "0 < c" "c \<noteq> g" "c \<notin> B" using Cons.prems(3,5,6) by auto
  have r: "?r = fst (load_one e c s0)" by (rule load_one_row [OF Cons.prems(1) c(4)])
  have "open_links s" using Cons.prems(1,2) by (simp add: open_links_def masks_head)
  then have m: "masks (insert c B) s0 ?s" using masks_trans [OF Cons.prems(1) load_one_masks, of c e] by simp
  have nx: "next_bid (bcache ?s c) t = after (bcache s0) t g c" using masks_head(2) [OF m] c(3) by (simp add: after_def)
  have step: "load_loop e t cc c rows s = load_loop e t cc (after (bcache s0) t g c) (rows @ ?r) ?s"
    using c(2) Cons.prems(7) by (subst load_loop.simps) (simp add: case_prod_beta nx)
  have "length (rows @ ?r) + length cs \<le> length rows + length (c # cs)" using length_load_one [of e c s] by simp
  then have "int (length (rows @ ?r) + length cs) < cc + 5" using Cons.prems(7) by linarith
  from Cons.IH [OF m Cons.prems(2) _ _ _ _ this] Cons.prems(3-6)
  show ?case unfolding c(1) step by (auto simp: r)
qed

text \<open>Only the lists change when a group is resolved, so a board is listed alike before and after.\<close>

lemma load_one_heads:
  assumes "same_heads (bcache s) (bcache s')"
  shows "fst (load_one e b s') = fst (load_one e b s)"
proof -
  have u: "brdname (bcache s' x) = brdname (bcache s x)" "bclass (bcache s' x) = bclass (bcache s x)"
    "desc (bcache s' x) = desc (bcache s x)" "brdattr (bcache s' x) = brdattr (bcache s x)"
    "level (bcache s' x) = level (bcache s x)" "postexpire (bcache s' x) = postexpire (bcache s x)"
    "moderators (bcache s' x) = moderators (bcache s x)" for x
    using assms unlinkedD unfolding same_heads_def by metis+
  have "is_board_moderator s' w x = is_board_moderator s w x" for w x by (simp add: is_board_moderator_def u)
  then have "HasBoardPerm hbf s' w x = HasBoardPerm hbf s w x" for hbf w x
    by (simp only: HasBoardPerm_def HasBoardPermNormally_def u)
  then show ?thesis
    by (simp add: load_one_def Let_def case_prod_beta addnewbrdstat_row check_newpost_def link_target_bid_def
        BRD_LINK_TARGET_def TITLE_MATCH_def u)
qed

lemma same_heads_links: "same_heads (bcache s) (bcache s') \<Longrightarrow> open_links s \<Longrightarrow> open_links s'"
  unfolding open_links_def same_heads_def using unlinkedD(4) by metis

lemma sort_bcache_heads: "same_heads (bcache s) (bcache (sort_bcache qs s))"
  by (simp add: same_heads_def sort_bcache_def)

lemma load_class_unresolved:
  assumes "distinct (bsorted s t)" "firstchild (bcache s g) t = 0" "gid (bcache s g) \<noteq> g" "open_links s"
  shows "\<exists>s'. load_class e t g s = Some (concat (map (\<lambda>b. fst (load_one e b s)) (kids (bcache s) g (bsorted s t))), s')"
proof -
  let ?cs = "kids (bcache s) g (bsorted s t)"
  let ?s = "resolve_board_group g t s"
  have g: "g \<notin> set ?cs" using assms(3) kids_pos by metis
  note r = resolve_board_group_links [OF assms(1) g]
  have pos: "\<forall>c\<in>set ?cs. 0 < c \<and> c \<noteq> g" using g kids_pos by metis
  have "after (bcache ?s) t g g = firstchild (bcache ?s g) t" by (simp add: after_def)
  then obtain s' where "load_loop e t (int (length ?cs)) (firstchild (bcache ?s g) t) [] ?s =
      Some (concat (map (\<lambda>b. fst (load_one e b ?s)) ?cs), s')"
    using load_loop_chain [OF masks_refl same_heads_links [OF r(3) assms(4)] r(1) kids_distinct [OF assms(1)] _ pos, of "{}" "[]" "int (length ?cs)" e]
    by auto
  then show ?thesis using assms(2) load_one_heads [OF r(3)] by (auto simp: load_class_def Let_def r(2))
qed

section \<open>Examples\<close>

text \<open>Insertion sort is a \<open>qsort\<close>.\<close>

fun ins :: "(nat \<Rightarrow> nat \<Rightarrow> int) \<Rightarrow> nat \<Rightarrow> nat list \<Rightarrow> nat list" where
  "ins cmp x [] = [x]"
| "ins cmp x (y # ys) = (if cmp x y \<le> 0 then x # y # ys else y # ins cmp x ys)"

fun isort :: "(nat \<Rightarrow> nat \<Rightarrow> int) \<Rightarrow> nat list \<Rightarrow> nat list" where
  "isort cmp [] = []"
| "isort cmp (x # xs) = ins cmp x (isort cmp xs)"

lemma mset_ins: "mset (ins cmp x ys) = add_mset x (mset ys)"
  by (induction ys) auto

lemma mset_isort: "mset (isort cmp xs) = mset xs"
  by (induction xs) (auto simp: mset_ins)

lemma sorted_ins:
  assumes "\<forall>a\<in>S. \<forall>b\<in>S. cmp a b \<le> 0 \<or> cmp b a \<le> 0"
    "\<forall>a\<in>S. \<forall>b\<in>S. \<forall>c\<in>S. cmp a b \<le> 0 \<longrightarrow> cmp b c \<le> 0 \<longrightarrow> cmp a c \<le> 0" "x \<in> S"
  shows "set ys \<subseteq> S \<Longrightarrow> sorted_wrt (\<lambda>a b. cmp a b \<le> 0) ys \<Longrightarrow> sorted_wrt (\<lambda>a b. cmp a b \<le> 0) (ins cmp x ys)"
proof (induction ys)
  case (Cons y ys)
  have "set (ins cmp x ys) = insert x (set ys)" using mset_ins [of cmp x ys] by (metis set_mset_add_mset_insert set_mset_mset)
  moreover have "cmp x b \<le> 0" if "cmp x y \<le> 0" "b \<in> set ys" for b
  proof -
    have "cmp y b \<le> 0" "y \<in> S" "b \<in> S" using that(2) Cons.prems by auto
    then show ?thesis using that(1) assms(2,3) by blast
  qed
  moreover have "cmp y x \<le> 0" if "\<not> cmp x y \<le> 0"
  proof -
    have "y \<in> S" using Cons.prems(1) by simp
    then show ?thesis using that assms(1,3) by blast
  qed
  ultimately show ?case using Cons.prems Cons.IH by (cases "cmp x y \<le> 0") simp_all
qed simp

lemma bsort_ok_isort: "bsort_ok isort"
  unfolding bsort_ok_def
proof (intro allI conjI impI)
  fix cmp :: "nat \<Rightarrow> nat \<Rightarrow> int" and xs
  show "mset (isort cmp xs) = mset xs" by (rule mset_isort)
  assume a: "(\<forall>x\<in>set xs. \<forall>y\<in>set xs. cmp x y \<le> 0 \<or> cmp y x \<le> 0) \<and>
    (\<forall>x\<in>set xs. \<forall>y\<in>set xs. \<forall>z\<in>set xs. cmp x y \<le> 0 \<longrightarrow> cmp y z \<le> 0 \<longrightarrow> cmp x z \<le> 0)"
  have "sorted_wrt (\<lambda>a b. cmp a b \<le> 0) (isort cmp ys)" if "set ys \<subseteq> set xs" for ys
    using that
  proof (induction ys)
    case (Cons y ys)
    have "set (isort cmp ys) \<subseteq> set xs" using Cons.prems mset_eq_setD [OF mset_isort [of cmp ys]] by simp
    then show ?case using sorted_ins [OF a [THEN conjunct1] a [THEN conjunct2]] Cons by simp
  qed simp
  then show "sorted_wrt (\<lambda>a b. cmp a b \<le> 0) (isort cmp xs)" by simp
qed

definition no_board :: boardheader_t where
  "no_board = \<lparr>brdname = [], bclass = [], desc = [], brdattr = 0, post_limit_logins = 0, post_limit_badpost = 0, level = 0,
     perm_reload = 0, gid = 0, next_bid = (\<lambda>_. 0), firstchild = (\<lambda>_. 0), parent = 0, childcount = 0, postexpire = 0, moderators = []\<rparr>"

text \<open>Board 1 is the class root \<open>R\<close>, 2 the group \<open>C\<close> in it; 3, \<open>B\<close>, and 4, \<open>A\<close>, are boards in the group.\<close>

definition demo_group :: "int \<Rightarrow> boardheader_t" where
  "demo_group g = no_board\<lparr>brdname := [67], brdattr := BRD_GROUPBOARD, gid := g\<rparr>"

definition demo_shm :: "int \<Rightarrow> board_shm" where
  "demo_shm g = \<lparr>bcache = (\<lambda>_. no_board)(1 := no_board\<lparr>brdname := [82]\<rparr>, 2 := demo_group g,
       3 := no_board\<lparr>brdname := [66], gid := 2\<rparr>, 4 := no_board\<lparr>brdname := [65], gid := 2\<rparr>),
     Bnumber = 4, bsorted = (\<lambda>_. []), Bbusystate = False\<rparr>"

definition guest :: session where
  "guest = \<lparr>userlevel = 0, uid = 7, cu_firstlogin = 5, over_18 = False, numlogindays = 0, badpost = 0, currmode = 0, list_groupop = 0\<rparr>"

lemma demo_names_ok: "names_ok (demo_shm g)"
  by (auto simp: names_ok_def demo_shm_def demo_group_def no_board_def c_string_def)

section \<open>Properties\<close>

text \<open>
  C13. Once the table of boards is sorted, \<open>getbnum\<close> ends and finds a board exactly if there
  is one with the name up to the case of letters; the number it returns is one of such
  a board, and it is 0 otherwise.
\<close>

theorem getbnum_correct:
  assumes "bsort_ok qs" "names_ok s" "\<not> Bbusystate s" "0 < Bnumber s" "c_string bname"
  shows "\<exists>r. getbnum (sort_bcache qs s) bname = Some r \<and>
    (if \<exists>b. 1 \<le> b \<and> b \<le> int (Bnumber s) \<and> same_name bname (brdname (bcache s b))
     then 1 \<le> r \<and> r \<le> int (Bnumber s) \<and> same_name bname (brdname (bcache s r)) else r = 0)"
proof -
  let ?s = "sort_bcache qs s"
  have "within ?s bname 0 (Bnumber ?s - 1)" by (auto simp: within_def)
  then have "found ?s bname (getbnum_loop ?s bname 0 (Bnumber ?s - 1))"
    using getbnum_loop_spec [OF sorted_table_sort [OF assms(1,2,3)] names_ok_sort [OF assms(2)] assms(5)] assms(4) by simp
  then have "found s bname (getbnum_loop ?s bname 0 (Bnumber s - 1))" by (simp add: found_def cong: if_cong)
  then show ?thesis using assms(4) by (simp add: getbnum_def found_def)
qed

theorem getbnum_correct_witness:
  "\<exists>r. getbnum (sort_bcache isort (demo_shm 1)) [97] = Some r \<and>
    (if \<exists>b. 1 \<le> b \<and> b \<le> int (Bnumber (demo_shm 1)) \<and> same_name [97] (brdname (bcache (demo_shm 1) b))
     then 1 \<le> r \<and> r \<le> int (Bnumber (demo_shm 1)) \<and> same_name [97] (brdname (bcache (demo_shm 1) r)) else r = 0)"
  by (rule getbnum_correct [OF bsort_ok_isort demo_names_ok]) (simp_all add: demo_shm_def c_string_def)

text \<open>
  C16. The first listing of a group after the table was sorted ends and shows exactly the
  boards of the group, in the order of the table, each with the row that its own
  header and the reader's permissions give; a listing of other boards before it makes
  no difference.  The group must not have its own number as its group and no link may be hidden.
\<close>

theorem load_class_lists:
  assumes "bsort_ok qs" "\<not> Bbusystate s" "open_links s" "1 \<le> g" "g \<le> int (Bnumber s)" "gid (bcache s g) \<noteq> g"
  shows "\<exists>s'. load_class e t g (sort_bcache qs s) =
    Some (concat (map (\<lambda>b. fst (load_one e b s)) (kids (bcache s) g (bsorted (sort_bcache qs s) t))), s')
    \<and> set (kids (bcache s) g (bsorted (sort_bcache qs s) t)) =
      {b. 1 \<le> b \<and> b \<le> int (Bnumber s) \<and> brdname (bcache s b) \<noteq> [] \<and> gid (bcache s b) = g}"
proof -
  let ?s = "sort_bcache qs s"
  have m: "mset (bsorted ?s t) = mset [0..<Bnumber s]"
    using assms(1,2) by (cases t) (simp_all add: sort_bcache_def bsort_ok_def)
  then have d: "distinct (bsorted ?s t)" "set (bsorted ?s t) = {0..<Bnumber s}"
    using mset_eq_imp_distinct_iff [OF m] mset_eq_setD [OF m] by simp_all
  note h = sort_bcache_heads [of s qs]
  have "firstchild (bcache ?s g) t = 0" using assms(2,4,5) by (simp add: sort_bcache_def)
  then obtain s' where "load_class e t g ?s = Some (concat (map (\<lambda>b. fst (load_one e b ?s)) (kids (bcache ?s) g (bsorted ?s t))), s')"
    using load_class_unresolved [OF d(1)] assms(6) same_heads_links [OF h assms(3)] by fastforce
  moreover have "kids (bcache ?s) g (bsorted ?s t) = kids (bcache s) g (bsorted ?s t)" using same_heads_kids [OF h] by simp
  moreover have "set (kids (bcache s) g (bsorted ?s t)) =
      {b. 1 \<le> b \<and> b \<le> int (Bnumber s) \<and> brdname (bcache s b) \<noteq> [] \<and> gid (bcache s b) = g}"
    (is "?L = ?R")
  proof (intro equalityI subsetI)
    fix x assume "x \<in> ?R"
    then have "nat (x - 1) \<in> set (bsorted ?s t)" "is_kid (bcache s) g (nat (x - 1))" "x = int (nat (x - 1)) + 1"
      using d(2) by (auto simp: is_kid_def)
    then show "x \<in> ?L" unfolding kids_def set_map set_filter by (metis (mono_tags, lifting) image_eqI mem_Collect_eq)
  qed (use d(2) in \<open>auto simp: kids_def is_kid_def\<close>)
  ultimately show ?thesis using load_one_heads [OF h] by auto
qed

definition demo_env :: list_env where
  "demo_env = \<lparr>le_hbf = (\<lambda>_ _. False), le_user = guest, le_new = (\<lambda>_. False), le_key = [], list_op = False, list_lead = False\<rparr>"

lemma demo_open_links: "open_links (demo_shm g)"
  by (simp add: open_links_def demo_shm_def demo_group_def no_board_def has_def BRD_SYMBOLIC_def BRD_GROUPBOARD_def)

theorem load_class_lists_witness:
  "\<exists>s'. load_class demo_env LL_NAME 2 (sort_bcache isort (demo_shm 1)) =
    Some (concat (map (\<lambda>b. fst (load_one demo_env b (demo_shm 1))) (kids (bcache (demo_shm 1)) 2 (bsorted (sort_bcache isort (demo_shm 1)) LL_NAME))), s')
    \<and> set (kids (bcache (demo_shm 1)) 2 (bsorted (sort_bcache isort (demo_shm 1)) LL_NAME)) =
      {b. 1 \<le> b \<and> b \<le> int (Bnumber (demo_shm 1)) \<and> brdname (bcache (demo_shm 1) b) \<noteq> [] \<and> gid (bcache (demo_shm 1) b) = 2}"
  by (rule load_class_lists [OF bsort_ok_isort _ demo_open_links]) (simp_all add: demo_shm_def demo_group_def no_board_def)

text \<open>
  C39. A group that has its own number as its group, as some old groups have, can hide its
  boards: when its name comes last among the boards that have it as their group, the
  first listing after the table was sorted is empty, whatever boards are in the group
  and whoever lists it.
\<close>

theorem load_class_own_group:
  assumes "\<not> Bbusystate s" "1 \<le> g" "g \<le> int (Bnumber s)"
    "last (kids (bcache s) g (bsorted (sort_bcache qs s) t)) = g" "kids (bcache s) g (bsorted (sort_bcache qs s) t) \<noteq> []"
  shows "\<exists>s'. load_class e t g (sort_bcache qs s) = Some ([], s')"
proof -
  let ?s = "sort_bcache qs s"
  obtain bc cur cnt where r: "resolve_loop g t (bsorted ?s t) (bcache ?s) g 0 = (bc, cur, cnt)" by (metis prod_cases3)
  have "cur = g" using resolve_loop_last [OF r] same_heads_kids [OF sort_bcache_heads [of s qs], of g] assms(4,5) by simp
  then have "firstchild (bcache (resolve_board_group g t ?s) g) t = -1" by (simp add: resolve_board_group_def r)
  moreover have "firstchild (bcache ?s g) t = 0" using assms(1,2,3) by (simp add: sort_bcache_def)
  ultimately show ?thesis by (simp add: load_class_def Let_def load_loop.simps)
qed

theorem load_class_own_group_witness:
  "\<exists>s'. load_class demo_env LL_NAME 2 (sort_bcache isort (demo_shm 2)) = Some ([], s')"
  by (rule load_class_own_group)
    (simp_all add: demo_shm_def demo_group_def no_board_def sort_bcache_def cmpboardname_def upt_rec kids_def is_kid_def
      to_lower_def is_upper_def)

text \<open>
  A hidden board without \<open>BRD_POSTMASK\<close> admits a user who is neither a moderator nor on
  its list, until its row is listed once.
\<close>

lemma hidden_board_admits:
  assumes "has (brdattr (bcache s b)) BRD_HIDE" "\<not> has (brdattr (bcache s b)) BRD_POSTMASK" "\<not> HasUserPerm u PERM_SYSOP"
    "\<not> is_board_moderator s u b" "\<not> hbf b (uid u)" "\<not> has (level (bcache s b)) PERM_BM"
  shows "HasBoardPerm hbf s u b = 2 \<and>
    HasBoardPerm hbf (snd (addnewbrdstat new b (word_of_int (HasBoardPerm hbf s u b)) s)) u b = 0"
proof -
  have 2: "HasBoardPerm hbf s u b = 2" using assms by (simp add: HasBoardPerm_def HasBoardPermNormally_def)
  have "BRD_POSTMASK AND BRD_HIDE = 0" by (simp add: BRD_POSTMASK_def BRD_HIDE_def)
  then have "has (brdattr (postmasked (bcache s b))) BRD_HIDE" "has (brdattr (postmasked (bcache s b))) BRD_POSTMASK"
    using assms(1) has_mask [of BRD_HIDE] by (simp_all add: has_def postmasked_def BRD_POSTMASK_def bit.conj_disj_distrib2)
  moreover have "snd (addnewbrdstat new b (word_of_int 2) s) = s\<lparr>bcache := (bcache s)(b := postmasked (bcache s b))\<rparr>"
    using assms(1) by (simp add: addnewbrdstat_def Let_def postmasked_def NBRD_BOARD_def)
  ultimately show ?thesis using assms(3-6) unfolding 2
    by (simp add: HasBoardPerm_def HasBoardPermNormally_def Let_def is_board_moderator_def postmasked_def)
qed

end
