(* ===== verification/BoardGroups.thy ===== *)
theory BoardGroups
  imports Boards Fav
begin

text \<open>
  The groups of boards and the rights they give, \<open>src/mbbsd/board.c\<close>, \<open>src/mbbsd/bbs.c\<close> and
  \<open>src/mbbsd/admin.c\<close>.  A board or group names the group it is in by its \<open>gid\<close>.  The
  moderators of a group manage the boards in it (\<open>MODE_GROUP_OP\<close>), and those of a group
  right under the class root, board 1, also lead it (\<open>MODE_GROUP_LEAD\<close>).  The model has
  the walks up the groups, the modes a session has while it moves through the lists
  and boards, the command that moves tagged boards into a group, and the choice of the
  slot of a new board.

  The theory shows which rights the walks find, that moving tagged boards neither
  raises the mover's rights anywhere nor closes a cycle of groups, that in every
  reachable state of a session the modes are covered by the groups above the current
  list or board, and that a new board takes no slot that something refers to.
\<close>

section \<open>Definitions\<close>

definition MODE_STARTED :: u32 where "MODE_STARTED = 0x1"
definition MODE_BM :: u32 where "MODE_BM = 0x8"
definition MODE_GROUP_OP :: u32 where "MODE_GROUP_OP = 0x10"
definition MODE_GROUP_LEAD :: u32 where "MODE_GROUP_LEAD = 0x40"
definition MODE_DIRTY :: u32 where "MODE_DIRTY = 0x100"
definition GROUP_MODES :: u32 where "GROUP_MODES = MODE_GROUP_OP OR MODE_GROUP_LEAD"
definition GROUP_DEPTH_MAX :: nat where "GROUP_DEPTH_MAX = 64"

definition PERM_GROUP_LEAD :: u32 where "PERM_GROUP_LEAD = 0x800000"
definition PERM_GROUP_OP :: u32 where "PERM_GROUP_OP = 0x20000000"

definition groupop_unlimited :: "session \<Rightarrow> bool" where
  "groupop_unlimited u \<longleftrightarrow> HasUserPerm u (PERM_SYSOP OR PERM_BOARDS)"

definition group_exists :: "board_shm \<Rightarrow> int \<Rightarrow> bool" where
  "group_exists s g \<longleftrightarrow> g = 1 \<or> 0 < g \<and> g \<le> MAX_BOARD \<and> GROUP_LISTS_BOARDS (bcache s g)"

text \<open>The loop of \<open>group_roles\<close>: \<open>k\<close> is the number of steps left, \<open>at_bid\<close> is \<open>depth == 0\<close>.\<close>

fun roles_loop :: "board_shm \<Rightarrow> session \<Rightarrow> nat \<Rightarrow> bool \<Rightarrow> int \<Rightarrow> u32" where
  "roles_loop s u 0 at_bid g = 0"
| "roles_loop s u (Suc k) at_bid g =
     (if 1 < g \<and> g \<le> MAX_BOARD then
        (let gh = bcache s g in
         if \<not> GROUP_LISTS_BOARDS gh then
           (if \<not> at_bid then 0 else roles_loop s u k False (gid gh))
         else (if is_board_moderator s u g then (if gid gh = 1 then GROUP_MODES else MODE_GROUP_OP) else 0)
           OR roles_loop s u k False (gid gh))
      else 0)"

definition group_roles :: "board_shm \<Rightarrow> session \<Rightarrow> int \<Rightarrow> u32" where
  "group_roles s u g = (if HasUserPerm u PERM_NOCITIZEN then 0 else roles_loop s u GROUP_DEPTH_MAX True g)"

definition group_roles_above :: "board_shm \<Rightarrow> session \<Rightarrow> int \<Rightarrow> u32" where
  "group_roles_above s u bid =
     (let g = gid (bcache s bid) in
      if g < 1 \<or> g > MAX_BOARD \<or> g = bid \<or> \<not> GROUP_LISTS_BOARDS (bcache s g) then 0 else group_roles s u g)"

fun within_loop :: "board_shm \<Rightarrow> int \<Rightarrow> nat \<Rightarrow> int \<Rightarrow> bool" where
  "within_loop s bid 0 g = False"
| "within_loop s bid (Suc k) g =
     (if 0 < g \<and> g \<le> MAX_BOARD then
        (if g = bid then True else if g = 1 then False else within_loop s bid k (gid (bcache s g)))
      else False)"

definition gid_is_within :: "board_shm \<Rightarrow> int \<Rightarrow> int \<Rightarrow> bool" where
  "gid_is_within s g bid =
     (if \<not> IS_GROUP (bcache s bid) then g = bid else within_loop s bid (nat MAX_BOARD) g)"

subsection \<open>Modes\<close>

definition CBRD_IS_GROUP_OP :: "session \<Rightarrow> bool" where
  "CBRD_IS_GROUP_OP u \<longleftrightarrow> HasUserPerm u (PERM_SYSOP OR PERM_BOARDS) \<or> has (currmode u) MODE_GROUP_OP"

definition CBRD_IS_GROUP_LEAD :: "session \<Rightarrow> bool" where
  "CBRD_IS_GROUP_LEAD u \<longleftrightarrow> HasUserPerm u (PERM_SYSOP OR PERM_BOARDS) \<or> has (currmode u) MODE_GROUP_LEAD"

definition groupop_keep :: "u32 \<Rightarrow> session \<Rightarrow> session" where
  "groupop_keep roles u =
     (if \<not> groupop_unlimited u then u\<lparr>currmode := currmode u AND NOT (GROUP_MODES AND NOT roles)\<rparr> else u)"

definition groupop_narrow :: "board_shm \<Rightarrow> int \<Rightarrow> session \<Rightarrow> session" where
  "groupop_narrow s bid u = (if has (currmode u) GROUP_MODES then groupop_keep (group_roles s u bid) u else u)"

definition groupop_set_board :: "board_shm \<Rightarrow> int \<Rightarrow> session \<Rightarrow> session" where
  "groupop_set_board s bid u =
     (if groupop_unlimited u then u
      else let u1 = u\<lparr>currmode := (currmode u AND NOT GROUP_MODES) OR list_groupop u\<rparr> in
        if bid = 1 \<and> \<not> has (brdattr (bcache s 1)) BRD_GROUPBOARD then groupop_keep (group_roles_above s u1 1) u1
        else groupop_narrow s bid u1)"

definition groupop_save :: "session \<Rightarrow> u32" where "groupop_save u = currmode u AND GROUP_MODES"

definition groupop_restore :: "u32 \<Rightarrow> session \<Rightarrow> session" where
  "groupop_restore saved u = u\<lparr>currmode := (currmode u AND NOT GROUP_MODES) OR (saved AND GROUP_MODES)\<rparr>"

definition set_menu_group_op :: "board_shm \<Rightarrow> int \<Rightarrow> session \<Rightarrow> session" where
  "set_menu_group_op s bid u =
     (if HasUserPerm u PERM_NOCITIZEN then u
      else if \<not> (bid > 0 \<and> bid \<le> MAX_BOARD \<and> is_board_moderator s u bid \<or> HasUserPerm u PERM_BOARDS) then u
      else u\<lparr>currmode := currmode u OR MODE_GROUP_OP OR (if gid (bcache s bid) = 1 then MODE_GROUP_LEAD else 0)\<rparr>)"

definition group_modes_covering :: "board_shm \<Rightarrow> session \<Rightarrow> int \<Rightarrow> u32" where
  "group_modes_covering s u bid =
     (if groupop_unlimited u then GROUP_MODES
      else if \<not> has (currmode u) GROUP_MODES then 0
      else currmode u AND GROUP_MODES AND group_roles s u bid)"

definition group_mode_covers :: "board_shm \<Rightarrow> session \<Rightarrow> u32 \<Rightarrow> int \<Rightarrow> bool" where
  "group_mode_covers s u mode bid \<longleftrightarrow> has (group_modes_covering s u bid) mode"

definition groupop_covers :: "board_shm \<Rightarrow> session \<Rightarrow> int \<Rightarrow> bool" where
  "groupop_covers s u bid \<longleftrightarrow> group_mode_covers s u MODE_GROUP_OP bid"

definition groupop_leads :: "board_shm \<Rightarrow> session \<Rightarrow> int \<Rightarrow> bool" where
  "groupop_leads s u bid \<longleftrightarrow> group_mode_covers s u MODE_GROUP_LEAD bid"

text \<open>\<open>list_groupop_now\<close>; the list of group \<open>class_bid\<close> is open.\<close>

definition list_groupop_now :: "board_shm \<Rightarrow> session \<Rightarrow> int \<Rightarrow> u32 \<Rightarrow> bool" where
  "list_groupop_now s u class_bid mode =
     (if class_bid > 0 \<and> \<not> group_exists s class_bid then False else group_mode_covers s u mode class_bid)"

definition groupop_may_edit :: "board_shm \<Rightarrow> session \<Rightarrow> int \<Rightarrow> u32 \<Rightarrow> bool" where
  "groupop_may_edit s u bid mode =
     (if groupop_unlimited u then True else has (currmode u) mode \<and> has (group_roles_above s u bid) mode)"

definition does_board_have_bm :: "boardheader_t \<Rightarrow> bool" where
  "does_board_have_bm bp \<longleftrightarrow> (case moderators bp of [] \<Rightarrow> False | m # _ \<Rightarrow> unum m > 0)"

text \<open>The modes that \<open>set_board\<close> gives; the user may read the board.\<close>

definition set_board :: "board_shm \<Rightarrow> int \<Rightarrow> session \<Rightarrow> session" where
  "set_board s bid u =
     (let u1 = u\<lparr>currmode := (currmode u AND (MODE_DIRTY OR MODE_GROUP_OP OR MODE_GROUP_LEAD)) OR MODE_STARTED\<rparr>;
          u2 = groupop_set_board s bid u1;
          bp = bcache s bid in
      if \<not> HasUserPerm u2 PERM_NOCITIZEN \<and>
         (HasUserPerm u2 PERM_BOARDS \<or> is_board_moderator s u2 bid \<or>
          (\<not> does_board_have_bm bp \<and> CBRD_IS_GROUP_OP u2))
      then u2\<lparr>currmode := currmode u2 OR MODE_BM\<rparr> else u2)"

text \<open>\<open>board_enter_group\<close> up to the list it opens.\<close>

definition enter_group :: "board_shm \<Rightarrow> int \<Rightarrow> session \<Rightarrow> session" where
  "enter_group s bid u =
     (let u1 = (if \<not> CBRD_IS_GROUP_OP u \<or> \<not> CBRD_IS_GROUP_LEAD u then set_menu_group_op s bid u else u);
          u2 = groupop_narrow s bid u1 in
      u2\<lparr>list_groupop := groupop_save u2\<rparr>)"

subsection \<open>Moving boards\<close>

text \<open>
  \<open>board_enable_moderator_perms\<close>: a moderator gets the permission of the kind of board.
  \<open>pw\<close> is the password file, the level and the first login of the users that exist; the
  user's own session is changed too.
\<close>

definition CFG_MAX_USERS :: int where "CFG_MAX_USERS = 150000"

type_synonym passwd = "int \<Rightarrow> (u32 \<times> u32) option"

definition enable_one :: "u32 \<Rightarrow> user_t \<Rightarrow> passwd \<times> session \<Rightarrow> passwd \<times> session" where
  "enable_one bits m pu =
     (let (pw, u) = pu in
      if unum m \<le> 0 \<or> unum m > CFG_MAX_USERS then (pw, u)
      else case pw (unum m) of
        None \<Rightarrow> (pw, u)
      | Some (lev, fl) \<Rightarrow>
          if firstlogin m \<noteq> 0 \<and> firstlogin m \<noteq> fl then (pw, u)
          else (pw(unum m \<mapsto> (lev OR bits, fl)),
                if unum m = uid u then u\<lparr>userlevel := userlevel u OR bits\<rparr> else u))"

definition board_enable_moderator_perms :: "boardheader_t \<Rightarrow> passwd \<times> session \<Rightarrow> passwd \<times> session" where
  "board_enable_moderator_perms bh pu =
     (if brdname bh = [] \<or> has (brdattr bh) BRD_SYMBOLIC then pu
      else let bits = (if has (brdattr bh) BRD_GROUPBOARD then (if gid bh = 1 then PERM_GROUP_LEAD else PERM_GROUP_OP) else PERM_BM)
        in fold (enable_one bits) (moderators bh) pu)"

text \<open>
  What \<open>paste_taged_brds\<close> works on: the shared memory, the records of the file \<open>.BRD\<close>
  and their number, the password file and the session.  \<open>wr\<close> tells whether writing the record of a board
  succeeds, \<open>rd\<close> whether \<open>reset_board\<close> gets its locks and can read the file.
\<close>

record board_sys =
  shm :: board_shm
  brd_file :: "int \<Rightarrow> boardheader_t"
  brd_nrec :: int
  pwd :: passwd
  sess :: session

definition reset_board :: "(int \<Rightarrow> bool) \<Rightarrow> int \<Rightarrow> board_sys \<Rightarrow> board_sys" where
  "reset_board rd bid w =
     (if \<not> (1 \<le> bid \<and> bid \<le> MAX_BOARD) \<or> Bbusystate (shm w) \<or> \<not> rd bid then w
      else w\<lparr>shm := shm w\<lparr>bcache := (bcache (shm w))(bid :=
          (let bh = brd_file w bid in if nth0 (bclass bh) 4 = 32 then bh\<lparr>bclass := take 4 (bclass bh)\<rparr> else bh))\<rparr>\<rparr>)"

definition move_board :: "(int \<Rightarrow> bool) \<Rightarrow> (int \<Rightarrow> bool) \<Rightarrow> int \<Rightarrow> int \<Rightarrow> board_sys \<Rightarrow> board_sys" where
  "move_board wr rd g bid w =
     (let bh = bcache (shm w) bid\<lparr>gid := g\<rparr>;
          w1 = w\<lparr>shm := shm w\<lparr>bcache := (bcache (shm w))(bid := bh)\<rparr>\<rparr>;
          w2 = (if wr bid then w1\<lparr>brd_file := (brd_file w1)(bid := bh)\<rparr> else w1);
          w3 = reset_board rd bid w2;
          (pw, u) = board_enable_moderator_perms (bcache (shm w3) bid) (pwd w3, sess w3) in
      w3\<lparr>pwd := pw, sess := u\<rparr>)"

text \<open>
  One entry of the favourites; \<open>unlimited\<close> and \<open>into\<close> are computed before the loop.  The
  first component is the entry with its tag taken off; a failed \<open>assert\<close> is \<open>None\<close>.
\<close>

definition paste_one ::
  "(int \<Rightarrow> bool) \<Rightarrow> (int \<Rightarrow> bool) \<Rightarrow> int \<Rightarrow> bool \<Rightarrow> u32 \<Rightarrow> fav_item \<Rightarrow> board_sys \<Rightarrow> (fav_item \<times> board_sys) option" where
  "paste_one wr rd g unlimited into ft w =
     (let bid = fav_getid ft; bh = bcache (shm w) bid in
      if \<not> (0 \<le> bid - 1 \<and> bid - 1 < MAX_BOARD) then None
      else if \<not> is_set_attr ft FAVH_ADM_TAG then Some (ft, w)
      else let ft' = set_attr FAVH_ADM_TAG FALSE ft in
        if brdname bh = [] then Some (ft', w)
        else if gid bh \<noteq> g then
          (let from = group_roles_above (shm w) (sess w) bid in
           if \<not> unlimited \<and> \<not> has (into AND from) MODE_GROUP_OP then Some (ft', w)
           else if \<not> unlimited \<and> into AND NOT from \<noteq> 0 then Some (ft', w)
           else if gid_is_within (shm w) g bid then Some (ft', w)
           else Some (ft', move_board wr rd g bid w))
        else Some (ft', w))"

fun paste_loop ::
  "(int \<Rightarrow> bool) \<Rightarrow> (int \<Rightarrow> bool) \<Rightarrow> int \<Rightarrow> bool \<Rightarrow> u32 \<Rightarrow> fav_item list \<Rightarrow> board_sys \<Rightarrow> (fav_item list \<times> board_sys) option" where
  "paste_loop wr rd g unlimited into [] w = Some ([], w)"
| "paste_loop wr rd g unlimited into (ft # fts) w =
     (case paste_one wr rd g unlimited into ft w of
        None \<Rightarrow> None
      | Some (ft', w1) \<Rightarrow>
          (case paste_loop wr rd g unlimited into fts w1 of
             None \<Rightarrow> None
           | Some (fts', w2) \<Rightarrow> Some (ft' # fts', w2)))"

text \<open>\<open>paste_taged_brds\<close>, answered with \<open>y\<close>; the entries are those of the root of the favourites.\<close>

definition paste_taged_brds ::
  "qsort \<Rightarrow> (int \<Rightarrow> bool) \<Rightarrow> (int \<Rightarrow> bool) \<Rightarrow> int \<Rightarrow> fav_item list \<Rightarrow> board_sys \<Rightarrow> (bool \<times> fav_item list \<times> board_sys) option" where
  "paste_taged_brds qs wr rd g fts w =
     (if g \<le> 0 \<or> \<not> (HasUserPerm (sess w) PERM_SYSOP \<or> CBRD_IS_GROUP_OP (sess w)) then Some (False, fts, w)
      else if \<not> group_exists (shm w) g then Some (False, fts, w)
      else let unlimited = groupop_unlimited (sess w);
               into = (if unlimited then 0 else group_roles (shm w) (sess w) g) in
        map_option (\<lambda>(fts', w'). (True, fts', w'\<lparr>shm := sort_bcache qs (shm w')\<rparr>))
          (paste_loop wr rd g unlimited into fts w))"

subsection \<open>A slot for a new board\<close>

definition used_slot :: "board_shm \<Rightarrow> int \<Rightarrow> bool" where
  "used_slot s b \<longleftrightarrow> 0 < b \<and> b \<le> MAX_BOARD \<and>
     list_ex (\<lambda>i. let bh = bcache s (int i + 1) in brdname bh \<noteq> [] \<and>
         (gid bh = b \<or> has (brdattr bh) BRD_SYMBOLIC \<and> BRD_LINK_TARGET bh = b)) [0..<Bnumber s]"

definition free_board_slot :: "board_shm \<Rightarrow> int" where
  "free_board_slot s =
     (case find (\<lambda>i. brdname (bcache s (int i + 1)) = [] \<and> \<not> used_slot s (int i + 1)) [0..<Bnumber s] of
        Some i \<Rightarrow> int i + 1 | None \<Rightarrow> 0)"

text \<open>\<open>add_board_record\<close>; \<open>app\<close> is whether the record can be appended.\<close>

definition add_board_record :: "qsort \<Rightarrow> (int \<Rightarrow> bool) \<Rightarrow> (int \<Rightarrow> bool) \<Rightarrow> bool \<Rightarrow> boardheader_t \<Rightarrow> board_sys \<Rightarrow> int \<times> board_sys" where
  "add_board_record qs wr rd app board w =
     (if \<not> group_exists (shm w) (gid board) then (-2, w)
      else let bid = free_board_slot (shm w) in
        if bid > 0 then
          (let w1 = (if wr bid then w\<lparr>brd_file := (brd_file w)(bid := board)\<rparr> else w);
               w2 = reset_board rd bid w1 in
           (0, w2\<lparr>shm := sort_bcache qs (shm w2)\<rparr>))
        else if int (Bnumber (shm w)) \<ge> MAX_BOARD then (-1, w)
        else if \<not> app then (-1, w)
        else
          (let w1 = w\<lparr>brd_file := (brd_file w)(brd_nrec w + 1 := board), brd_nrec := brd_nrec w + 1,
                      shm := shm w\<lparr>Bnumber := Bnumber (shm w) + 1\<rparr>\<rparr>;
               w2 = reset_board rd (int (Bnumber (shm w1))) w1 in
           (0, w2\<lparr>shm := sort_bcache qs (shm w2)\<rparr>)))"

section \<open>Sets of modes\<close>

text \<open>Modes are compared as sets of bits.\<close>

definition sub :: "u32 \<Rightarrow> u32 \<Rightarrow> bool" where "sub a b \<longleftrightarrow> a AND NOT b = 0"

lemma sub_iff: "sub a b \<longleftrightarrow> (\<forall>n. bit a n \<longrightarrow> bit b n)"
proof -
  have "n < 32" if "bit a n" for n using bit_imp_le_length [OF that] by simp
  then show ?thesis by (auto simp: sub_def bit_eq_iff bit_simps)
qed

lemma sub_refl [simp]: "sub a a" by (simp add: sub_iff)
lemma sub_0 [simp]: "sub 0 a" by (simp add: sub_iff)
lemma sub_trans: "sub a b \<Longrightarrow> sub b c \<Longrightarrow> sub a c" by (simp add: sub_iff)
lemma sub_or [simp]: "sub (a OR b) c \<longleftrightarrow> sub a c \<and> sub b c" by (auto simp: sub_iff bit_simps)
lemma sub_or1: "sub a b \<Longrightarrow> sub a (b OR c)" by (simp add: sub_iff bit_simps)
lemma sub_or2: "sub a c \<Longrightarrow> sub a (b OR c)" by (simp add: sub_iff bit_simps)
lemma sub_and: "sub a b \<Longrightarrow> sub (a AND c) b" by (simp add: sub_iff bit_simps)
lemma sub_and2 [simp]: "sub (a AND b) b" by (simp add: sub_iff bit_simps)
lemma sub_has: "sub a b \<Longrightarrow> has a m \<Longrightarrow> has b m"
  by (auto simp: sub_iff has_def bit_eq_iff bit_simps)

lemma sub_op [simp]: "sub MODE_GROUP_OP GROUP_MODES"
  by (simp add: GROUP_MODES_def sub_or1)

section \<open>What the walks find\<close>

text \<open>The rights a group gives the user.\<close>

definition own_role :: "board_shm \<Rightarrow> session \<Rightarrow> int \<Rightarrow> u32" where
  "own_role s u g =
     (if GROUP_LISTS_BOARDS (bcache s g) \<and> is_board_moderator s u g
      then (if gid (bcache s g) = 1 then GROUP_MODES else MODE_GROUP_OP) else 0)"

text \<open>The groups on the chain of a board: itself, and the groups above it that list their boards.\<close>

inductive on_chain :: "board_shm \<Rightarrow> int \<Rightarrow> int \<Rightarrow> bool" for s where
  self: "1 < x \<Longrightarrow> x \<le> MAX_BOARD \<Longrightarrow> on_chain s x x"
| up: "1 < x \<Longrightarrow> x \<le> MAX_BOARD \<Longrightarrow> GROUP_LISTS_BOARDS (bcache s (gid (bcache s x))) \<Longrightarrow>
    on_chain s (gid (bcache s x)) g \<Longrightarrow> on_chain s x g"

inductive_simps on_chain_iff: "on_chain s x g"

text \<open>The walk from a board ends within \<open>k\<close> steps.\<close>

fun chain_ends :: "board_shm \<Rightarrow> nat \<Rightarrow> int \<Rightarrow> bool" where
  "chain_ends s 0 x = False"
| "chain_ends s (Suc k) x \<longleftrightarrow> \<not> (1 < x \<and> x \<le> MAX_BOARD) \<or> \<not> GROUP_LISTS_BOARDS (bcache s (gid (bcache s x))) \<or>
     chain_ends s k (gid (bcache s x))"

definition depth_ok :: "board_shm \<Rightarrow> bool" where
  "depth_ok s \<longleftrightarrow> (\<forall>x. chain_ends s GROUP_DEPTH_MAX x)"

lemma roles_loop_sound:
  "bit (roles_loop s u k at x) n \<Longrightarrow> at \<or> GROUP_LISTS_BOARDS (bcache s x) \<Longrightarrow> \<exists>g. on_chain s x g \<and> bit (own_role s u g) n"
proof (induction k arbitrary: x at)
  case (Suc k)
  let ?p = "gid (bcache s x)"
  have v: "1 < x" "x \<le> MAX_BOARD" using Suc.prems(1) by (auto split: if_splits)
  show ?case
  proof (cases "bit (roles_loop s u k False ?p) n")
    case True
    then have "GROUP_LISTS_BOARDS (bcache s ?p)" by (cases k) (auto simp: Let_def split: if_splits)
    then show ?thesis using Suc.IH [OF True] on_chain.up [OF v] by blast
  next
    case False
    then have "bit (own_role s u x) n"
      using Suc.prems(1) v by (auto simp: own_role_def Let_def bit_simps split: if_splits)
    then show ?thesis using on_chain.self [OF v] by blast
  qed
qed simp

lemma roles_loop_complete:
  "on_chain s x g \<Longrightarrow> bit (own_role s u g) n \<Longrightarrow> chain_ends s k x \<Longrightarrow> at \<or> GROUP_LISTS_BOARDS (bcache s x) \<Longrightarrow>
   bit (roles_loop s u k at x) n"
proof (induction arbitrary: k at rule: on_chain.induct)
  case (self x)
  then show ?case by (cases k) (auto simp: own_role_def Let_def bit_simps split: if_splits)
next
  case (up x g)
  then obtain j where k: "k = Suc j" by (cases k) auto
  then have "chain_ends s j (gid (bcache s x))" using up.hyps(1,2,3) up.prems(2) by simp
  from up.IH [OF up.prems(1) this] up.hyps(3) have "bit (roles_loop s u j False (gid (bcache s x))) n" by blast
  then show ?case using up.hyps(1,2) up.prems(3) by (auto simp: k Let_def bit_simps)
qed

text \<open>The right with bit \<open>n\<close> that some group on the chain gives, however long the chain.\<close>

definition role_at :: "board_shm \<Rightarrow> session \<Rightarrow> int \<Rightarrow> nat \<Rightarrow> bool" where
  "role_at s u x n \<longleftrightarrow> \<not> HasUserPerm u PERM_NOCITIZEN \<and> (\<exists>g. on_chain s x g \<and> bit (own_role s u g) n)"

lemma group_roles_sound: "bit (group_roles s u x) n \<Longrightarrow> role_at s u x n"
  using roles_loop_sound [of s u GROUP_DEPTH_MAX True x n] by (auto simp: group_roles_def role_at_def split: if_splits)

lemma group_roles_exact: "chain_ends s GROUP_DEPTH_MAX x \<Longrightarrow> bit (group_roles s u x) n \<longleftrightarrow> role_at s u x n"
  using roles_loop_complete [of s x _ u n GROUP_DEPTH_MAX True] group_roles_sound [of s u x n]
  by (auto simp: group_roles_def role_at_def)

text \<open>Above a board: the rights its group gives.\<close>

lemma role_above:
  assumes "bit (group_roles_above s u b) n"
  shows "GROUP_LISTS_BOARDS (bcache s (gid (bcache s b)))" "role_at s u (gid (bcache s b)) n"
  using assms by (auto simp: group_roles_above_def Let_def group_roles_sound split: if_splits)

lemma role_up:
  assumes "1 < x" "x \<le> MAX_BOARD" "GROUP_LISTS_BOARDS (bcache s (gid (bcache s x)))" "role_at s u (gid (bcache s x)) n"
  shows "role_at s u x n"
  using assms on_chain.up [OF assms(1-3)] by (auto simp: role_at_def)

section \<open>Moving a board\<close>

text \<open>
  The headers that the walks read; the cache and the file agree on them while no other
  process changes the file.
\<close>

definition group_head :: "boardheader_t \<Rightarrow> cstr \<times> u32 \<times> int \<times> user_t list" where
  "group_head bh = (brdname bh, brdattr bh, gid bh, moderators bh)"

definition file_agrees :: "board_sys \<Rightarrow> bool" where
  "file_agrees w \<longleftrightarrow> (\<forall>b. group_head (brd_file w b) = group_head (bcache (shm w) b))"

text \<open>The session as far as the walks read it: permissions that matter for groups.\<close>

definition group_perms :: u32 where
  "group_perms = PERM_SYSOP OR PERM_BOARDS OR PERM_NOCITIZEN OR PERM_BASIC OR PERM_LOGINOK"

definition same_user :: "session \<Rightarrow> session \<Rightarrow> bool" where
  "same_user u v \<longleftrightarrow> uid u = uid v \<and> cu_firstlogin u = cu_firstlogin v \<and> userlevel u AND group_perms = userlevel v AND group_perms"

lemma same_user_refl [simp]: "same_user u u" by (simp add: same_user_def)
lemma same_user_trans: "same_user u v \<Longrightarrow> same_user v w \<Longrightarrow> same_user u w" by (simp add: same_user_def)

lemma same_user_perm:
  assumes "same_user u v" "sub m group_perms"
  shows "HasUserPerm u m = HasUserPerm v m"
proof -
  have "w AND m = (w AND group_perms) AND m" for w using assms(2) by (auto simp: bit_eq_iff bit_simps sub_iff)
  from this [of "userlevel u"] this [of "userlevel v"] have "userlevel u AND m = userlevel v AND m"
    using assms(1) by (simp only: same_user_def)
  then show ?thesis by (simp add: HasUserPerm_def has_def)
qed

lemma group_perms_sub [simp]:
  "sub PERM_SYSOP group_perms" "sub PERM_BOARDS group_perms" "sub PERM_NOCITIZEN group_perms"
  "sub PERM_BASIC group_perms" "sub PERM_LOGINOK group_perms"
  by (simp_all add: group_perms_def sub_def PERM_SYSOP_def PERM_BOARDS_def PERM_NOCITIZEN_def PERM_BASIC_def PERM_LOGINOK_def)

lemma same_user_moderator: "same_user u v \<Longrightarrow> is_board_moderator s u b = is_board_moderator s v b"
  by (simp add: is_board_moderator_def HasBasicUserPerm_def same_user_perm) (simp add: same_user_def)

lemma same_user_unlimited: "same_user u v \<Longrightarrow> groupop_unlimited u = groupop_unlimited v"
  by (simp add: groupop_unlimited_def same_user_perm)

lemma same_user_role: "same_user u v \<Longrightarrow> role_at s u x n = role_at s v x n"
  by (simp add: role_at_def own_role_def same_user_moderator same_user_perm)

text \<open>Giving moderators their permission leaves those alone.\<close>

lemma enable_one_same: "sub bits (NOT group_perms) \<Longrightarrow> same_user (snd pu) (snd (enable_one bits m pu))"
proof -
  assume "sub bits (NOT group_perms)"
  then have "(w OR bits) AND group_perms = w AND group_perms" for w by (auto simp: bit_eq_iff bit_simps sub_iff)
  then show ?thesis by (cases pu) (auto simp: enable_one_def same_user_def split: option.split)
qed

lemma fold_enable_same: "sub bits (NOT group_perms) \<Longrightarrow> same_user (snd pu) (snd (fold (enable_one bits) ms pu))"
proof (induction ms arbitrary: pu)
  case (Cons m ms)
  show ?case using same_user_trans [OF enable_one_same [OF Cons.prems] Cons.IH [OF Cons.prems]] by simp
qed simp

lemma enable_perms_same: "same_user (snd pu) (snd (board_enable_moderator_perms bh pu))"
proof -
  have "sub bits (NOT group_perms)" if "bits \<in> {PERM_GROUP_LEAD, PERM_GROUP_OP, PERM_BM}" for bits
    using that by (auto simp: sub_def group_perms_def PERM_GROUP_LEAD_def PERM_GROUP_OP_def PERM_BM_def
        PERM_SYSOP_def PERM_BOARDS_def PERM_NOCITIZEN_def PERM_BASIC_def PERM_LOGINOK_def)
  then show ?thesis by (simp add: board_enable_moderator_perms_def Let_def fold_enable_same)
qed

text \<open>The headers with one group changed.\<close>

definition heads :: "board_shm \<Rightarrow> int \<Rightarrow> cstr \<times> u32 \<times> int \<times> user_t list" where
  "heads s b = group_head (bcache s b)"

definition moved :: "board_shm \<Rightarrow> board_shm \<Rightarrow> int \<Rightarrow> int \<Rightarrow> bool" where
  "moved s s' b g \<longleftrightarrow> heads s' = (heads s)(b := group_head (bcache s b\<lparr>gid := g\<rparr>))"

lemma group_head_sel:
  "group_head a = group_head b \<longleftrightarrow> brdname a = brdname b \<and> brdattr a = brdattr b \<and> gid a = gid b \<and> moderators a = moderators b"
  by (simp add: group_head_def)

lemma reset_board_heads:
  "heads (shm (reset_board rd b w)) =
     (if \<not> (1 \<le> b \<and> b \<le> MAX_BOARD) \<or> Bbusystate (shm w) \<or> \<not> rd b then heads (shm w)
      else (heads (shm w))(b := group_head (brd_file w b)))"
  "brd_file (reset_board rd b w) = brd_file w" "sess (reset_board rd b w) = sess w"
  "Bbusystate (shm (reset_board rd b w)) = Bbusystate (shm w)" "Bnumber (shm (reset_board rd b w)) = Bnumber (shm w)"
  by (auto simp: reset_board_def heads_def Let_def fun_eq_iff group_head_def)

definition io_ok :: "(int \<Rightarrow> bool) \<Rightarrow> (int \<Rightarrow> bool) \<Rightarrow> board_sys \<Rightarrow> bool" where
  "io_ok wr rd w \<longleftrightarrow> (\<forall>b. wr b \<or> rd b \<and> \<not> Bbusystate (shm w))"

lemma file_agrees_heads: "file_agrees w \<longleftrightarrow> (\<lambda>b. group_head (brd_file w b)) = heads (shm w)"
  by (auto simp: file_agrees_def heads_def fun_eq_iff)

lemma move_board_result:
  fixes g :: int
  assumes "file_agrees w" "io_ok wr rd w" "1 \<le> b" "b \<le> MAX_BOARD"
  defines "w' \<equiv> move_board wr rd g b w"
  shows "file_agrees w'" "io_ok wr rd w'" "same_user (sess w) (sess w')"
    "moved (shm w) (shm w') b g \<or> heads (shm w') = heads (shm w)"
proof -
  define bh where "bh = bcache (shm w) b\<lparr>gid := g\<rparr>"
  define w1 where "w1 = w\<lparr>shm := shm w\<lparr>bcache := (bcache (shm w))(b := bh)\<rparr>\<rparr>"
  define w2 where "w2 = (if wr b then w1\<lparr>brd_file := (brd_file w1)(b := bh)\<rparr> else w1)"
  define w3 where "w3 = reset_board rd b w2"
  have w': "shm w' = shm w3" "brd_file w' = brd_file w3"
    "sess w' = snd (board_enable_moderator_perms (bcache (shm w3) b) (pwd w3, sess w3))"
    by (simp_all add: w'_def move_board_def Let_def bh_def w1_def w2_def w3_def case_prod_beta)
  have h: "heads (shm w2) = (heads (shm w))(b := group_head bh)" "sess w2 = sess w" "Bbusystate (shm w2) = Bbusystate (shm w)"
    by (auto simp: w2_def w1_def heads_def fun_eq_iff)
  show "same_user (sess w) (sess w')"
    using enable_perms_same [of "(pwd w3, sess w3)"] by (simp add: w' w3_def reset_board_heads h)
  show "io_ok wr rd w'" using assms(2) by (simp add: io_ok_def w' w3_def reset_board_heads h)
  have io: "wr b \<or> rd b \<and> \<not> Bbusystate (shm w)" using assms(2) by (simp add: io_ok_def)
  show "file_agrees w'" "moved (shm w) (shm w') b g \<or> heads (shm w') = heads (shm w)"
    using assms(1,3,4) io
    by (auto simp: file_agrees_heads w' w3_def reset_board_heads h moved_def bh_def [symmetric] w2_def w1_def fun_eq_iff heads_def split: if_splits)
qed

section \<open>Rights after a move\<close>

text \<open>What the walks read is determined by the heads.\<close>

lemma heads_sel:
  assumes "heads s = heads s'"
  shows "brdname (bcache s b) = brdname (bcache s' b)" "brdattr (bcache s b) = brdattr (bcache s' b)"
    "gid (bcache s b) = gid (bcache s' b)" "moderators (bcache s b) = moderators (bcache s' b)"
  using fun_cong [OF assms, of b] by (simp_all add: heads_def group_head_def)

lemma moved_sel:
  assumes "moved s s' b g"
  shows "brdname (bcache s' x) = brdname (bcache s x)" "brdattr (bcache s' x) = brdattr (bcache s x)"
    "moderators (bcache s' x) = moderators (bcache s x)" "gid (bcache s' x) = (if x = b then g else gid (bcache s x))"
proof -
  have "group_head (bcache s' x) = (if x = b then group_head (bcache s b\<lparr>gid := g\<rparr>) else group_head (bcache s x))"
    using assms by (metis fun_upd_apply heads_def moved_def)
  then show "brdname (bcache s' x) = brdname (bcache s x)" "brdattr (bcache s' x) = brdattr (bcache s x)"
    "moderators (bcache s' x) = moderators (bcache s x)" "gid (bcache s' x) = (if x = b then g else gid (bcache s x))"
    by (auto simp: group_head_def split: if_splits)
qed

lemma heads_cong:
  assumes "heads s = heads s'"
  shows "GROUP_LISTS_BOARDS (bcache s b) = GROUP_LISTS_BOARDS (bcache s' b)" "IS_GROUP (bcache s b) = IS_GROUP (bcache s' b)"
    "is_board_moderator s u b = is_board_moderator s' u b" "own_role s u b = own_role s' u b"
  using heads_sel [OF assms, of b]
  by (simp_all add: GROUP_LISTS_BOARDS_def IS_GROUP_def is_board_moderator_def own_role_def)

lemma roles_loop_heads: "heads s = heads s' \<Longrightarrow> roles_loop s u k at x = roles_loop s' u k at x"
proof (induction k arbitrary: x at)
  case (Suc k)
  note h = Suc.prems
  show ?case by (simp only: roles_loop.simps Let_def heads_cong [OF h] heads_sel [OF h] Suc.IH [OF h])
qed simp

lemma group_roles_heads: "heads s = heads s' \<Longrightarrow> group_roles s u x = group_roles s' u x"
  unfolding group_roles_def using roles_loop_heads by metis

lemma moved_cong:
  assumes "moved s s' b g"
  shows "GROUP_LISTS_BOARDS (bcache s' x) = GROUP_LISTS_BOARDS (bcache s x)" "IS_GROUP (bcache s' x) = IS_GROUP (bcache s x)"
    "is_board_moderator s' u x = is_board_moderator s u x"
  using moved_sel [OF assms, of x] by (simp_all add: GROUP_LISTS_BOARDS_def IS_GROUP_def is_board_moderator_def)

text \<open>
  A board moved to where the groups give no right that the groups above it did not give
  has afterwards, like every other board, at most the rights it had.
\<close>

lemma move_no_new_role:
  assumes "moved s s' b g" "g \<noteq> 1" "\<And>n. 1 < b \<Longrightarrow> role_at s u g n \<Longrightarrow> role_at s u b n"
  shows "role_at s' u x n \<Longrightarrow> role_at s u x n"
proof -
  have own: "bit (own_role s' u y) n \<Longrightarrow> bit (own_role s u y) n" for y
    using assms(2) by (auto simp: own_role_def moved_cong [OF assms(1)] moved_sel [OF assms(1)] GROUP_MODES_def bit_simps split: if_splits)
  have "on_chain s' x y \<Longrightarrow> bit (own_role s' u y) n \<Longrightarrow> \<not> HasUserPerm u PERM_NOCITIZEN \<Longrightarrow> role_at s u x n" for y
  proof (induction rule: on_chain.induct)
    case (self x)
    then show ?case using own on_chain.self by (auto simp: role_at_def)
  next
    case (up x y)
    then have ih: "role_at s u (gid (bcache s' x)) n" by blast
    show ?case
    proof (cases "x = b")
      case True
      then show ?thesis using ih assms(3) up.hyps(1) by (simp add: moved_sel [OF assms(1)])
    next
      case False
      then show ?thesis using ih up.hyps(1-3) role_up [of x s u n] by (simp add: moved_sel [OF assms(1)] moved_cong [OF assms(1)])
    qed
  qed
  then show "role_at s' u x n \<Longrightarrow> role_at s u x n" by (auto simp: role_at_def)
qed

lemma has_op: "has m MODE_GROUP_OP \<longleftrightarrow> bit m 4"
proof -
  have e: "MODE_GROUP_OP = 2 ^ 4" by (simp add: MODE_GROUP_OP_def)
  show ?thesis unfolding has_def e and_exp_eq_0_iff_not_bit by simp
qed

text \<open>
  What a run of moves into \<open>g\<close> keeps of the boards \<open>s0\<close> at its start: the user \<open>u\<close> has no
  right that \<open>s0\<close> did not give, and the boards that changed their group were in a group
  that \<open>u\<close> manages.
\<close>

definition pasted :: "board_shm \<Rightarrow> session \<Rightarrow> int \<Rightarrow> board_shm \<Rightarrow> bool" where
  "pasted s0 u g s \<longleftrightarrow>
     (\<forall>x n. role_at s u x n \<longrightarrow> role_at s0 u x n) \<and>
     (\<forall>b. GROUP_LISTS_BOARDS (bcache s b) = GROUP_LISTS_BOARDS (bcache s0 b)) \<and>
     (\<forall>b. gid (bcache s b) = gid (bcache s0 b) \<or>
        gid (bcache s b) = g \<and> role_at s0 u g 4 \<and> role_at s0 u (gid (bcache s0 b)) 4 \<and>
        gid (bcache s0 b) \<noteq> b \<and> GROUP_LISTS_BOARDS (bcache s0 (gid (bcache s0 b))))"

lemma pasted_refl [simp]: "pasted s u g s" by (simp add: pasted_def)

lemma pasted_heads: "heads s' = heads s \<Longrightarrow> pasted s0 u g s \<Longrightarrow> pasted s0 u g s'"
proof -
  assume h: "heads s' = heads s"
  have "on_chain s' x y \<Longrightarrow> on_chain s x y" for x y
    by (induction rule: on_chain.induct) (auto intro: on_chain.intros simp: heads_cong [OF h] heads_sel [OF h])
  then have "role_at s' u x n \<Longrightarrow> role_at s u x n" for x n
    unfolding role_at_def using heads_cong(4) [OF h] by metis
  then show "pasted s0 u g s \<Longrightarrow> pasted s0 u g s'" by (simp add: pasted_def heads_cong [OF h] heads_sel [OF h])
qed

lemma pasted_move:
  assumes p: "pasted s0 u g s" and m: "moved s s' b g" and "same_user u v" "b \<le> MAX_BOARD"
    and "\<And>n. role_at s0 u g n \<Longrightarrow> bit into n" "g = 1 \<longrightarrow> into = 0"
    and "gid (bcache s b) \<noteq> g" "bit (into AND group_roles_above s v b) 4" "into AND NOT (group_roles_above s v b) = 0"
    and "bit into 4 \<Longrightarrow> role_at s0 u g 4"
  shows "pasted s0 u g s'"
proof -
  let ?from = "group_roles_above s v b" and ?p = "gid (bcache s b)"
  have g: "g \<noteq> 1" using assms(6,8) by (auto simp: bit_simps)
  have above: "GROUP_LISTS_BOARDS (bcache s ?p) \<and> role_at s u ?p n" if "bit ?from n" for n
    using role_above [OF that] same_user_role [OF assms(3)] by blast
  have into: "sub into ?from" using assms(9) by (simp add: sub_def)
  have shrink: "role_at s' u x n \<Longrightarrow> role_at s u x n" for x n
  proof (rule move_no_new_role [OF m g])
    fix n assume b: "1 < b" and "role_at s u g n"
    then have "bit ?from n" using p assms(5) into by (auto simp: pasted_def sub_iff)
    then show "role_at s u b n" using role_up [OF b assms(4)] above by blast
  qed
  have 4: "bit ?from 4" "bit into 4" using assms(8) by (simp_all add: bit_simps)
  have "?p \<noteq> b" using 4(1) by (auto simp: group_roles_above_def Let_def split: if_splits)
  moreover have "?p = gid (bcache s0 b)" using p assms(7) by (auto simp: pasted_def)
  ultimately have "gid (bcache s0 b) \<noteq> b" "GROUP_LISTS_BOARDS (bcache s0 (gid (bcache s0 b)))" "role_at s0 u (gid (bcache s0 b)) 4"
    using above [OF 4(1)] p by (auto simp: pasted_def)
  then show ?thesis
    using p shrink assms(10) 4(2) unfolding pasted_def by (auto simp: moved_sel [OF m] moved_cong [OF m])
qed

lemma paste_one_pasted:
  assumes "paste_one wr rd g False into ft w = Some (ft', w')" "pasted s0 u g (shm w)" "same_user u (sess w)"
    "file_agrees w" "io_ok wr rd w" "\<And>n. bit into n \<longleftrightarrow> role_at s0 u g n" "g = 1 \<longrightarrow> into = 0"
  shows "pasted s0 u g (shm w') \<and> same_user u (sess w') \<and> file_agrees w' \<and> io_ok wr rd w'"
proof -
  let ?b = "fav_getid ft"
  have b: "1 \<le> ?b" "?b \<le> MAX_BOARD" using assms(1) by (auto simp: paste_one_def Let_def split: if_splits)
  consider "w' = w" | (move) "w' = move_board wr rd g ?b w" "gid (bcache (shm w) ?b) \<noteq> g"
      "has (into AND group_roles_above (shm w) (sess w) ?b) MODE_GROUP_OP"
      "into AND NOT (group_roles_above (shm w) (sess w) ?b) = 0"
    using assms(1) by (auto simp: paste_one_def Let_def split: if_splits)
  then show ?thesis
  proof cases
    case move
    note r = move_board_result [OF assms(4,5) b, of g, folded move(1)]
    have "pasted s0 u g (shm w')"
      using r(4)
    proof
      assume "moved (shm w) (shm w') ?b g"
      then show ?thesis using pasted_move [OF assms(2) _ assms(3) b(2) _ assms(7) move(2) move(3) [unfolded has_op] move(4)] assms(6) by blast
    qed (rule pasted_heads [OF _ assms(2)])
    then show ?thesis using r same_user_trans [OF assms(3)] by blast
  qed (use assms in simp)
qed

lemma paste_loop_pasted:
  assumes "paste_loop wr rd g False into fts w = Some (fts', w')" "pasted s0 u g (shm w)" "same_user u (sess w)"
    "file_agrees w" "io_ok wr rd w" "\<And>n. bit into n \<longleftrightarrow> role_at s0 u g n" "g = 1 \<longrightarrow> into = 0"
  shows "pasted s0 u g (shm w') \<and> same_user u (sess w')"
  using assms(1-5)
proof (induction fts arbitrary: w fts')
  case (Cons ft fts)
  then obtain ft' w1 fts1 where 1: "paste_one wr rd g False into ft w = Some (ft', w1)"
    "paste_loop wr rd g False into fts w1 = Some (fts1, w')"
    by (auto split: option.splits)
  show ?case using Cons.IH [OF 1(2)] paste_one_pasted [OF 1(1) Cons.prems(2-5) assms(6,7)] by blast
qed simp

section \<open>Cycles\<close>

text \<open>A group and the group it is in; the class root is in none.\<close>

definition parents :: "board_shm \<Rightarrow> (int \<times> int) set" where
  "parents s = {(x, y). 1 < x \<and> x \<le> MAX_BOARD \<and> IS_GROUP (bcache s x) \<and> y = gid (bcache s x)}"

lemma within_loop_finds:
  "(g, b) \<in> parents s ^^ n \<Longrightarrow> n < k \<Longrightarrow> 1 < b \<Longrightarrow> b \<le> MAX_BOARD \<Longrightarrow> within_loop s b k g"
proof (induction n arbitrary: g k)
  case 0
  then show ?case by (cases k) auto
next
  case (Suc n)
  then obtain k' y where k: "k = Suc k'" and y: "(g, y) \<in> parents s" "(y, b) \<in> parents s ^^ n"
    using relpow_Suc_D2 [OF Suc.prems(1)] by (cases k) auto
  then have "within_loop s b k' y" using Suc by simp
  then show ?case using y(1) by (auto simp: k parents_def)
qed

text \<open>A shortest path visits no group twice, so it is shorter than the table.\<close>

lemma short_path:
  assumes "(x, y) \<in> (parents s)\<^sup>*"
  shows "\<exists>n < nat MAX_BOARD. (x, y) \<in> parents s ^^ n"
proof -
  define n where "n = (LEAST n. (x, y) \<in> parents s ^^ n)"
  have n: "(x, y) \<in> parents s ^^ n" unfolding n_def by (rule LeastI_ex) (use assms rtrancl_imp_relpow in blast)
  have least: "(x, y) \<notin> parents s ^^ m" if "m < n" for m using that not_less_Least unfolding n_def by blast
  have "\<exists>z. i \<le> n \<longrightarrow> (x, z) \<in> parents s ^^ i \<and> (z, y) \<in> parents s ^^ (n - i)" for i
  proof (cases "i \<le> n")
    case True
    then have "(x, y) \<in> parents s ^^ i O parents s ^^ (n - i)" using n by (simp flip: relpow_add)
    then show ?thesis by blast
  qed simp
  then have "\<forall>i. \<exists>z. i \<le> n \<longrightarrow> (x, z) \<in> parents s ^^ i \<and> (z, y) \<in> parents s ^^ (n - i)" by blast
  from choice [OF this] obtain f where
    f: "\<And>i. i \<le> n \<Longrightarrow> (x, f i) \<in> parents s ^^ i \<and> (f i, y) \<in> parents s ^^ (n - i)" by blast
  have "f i \<in> {2..MAX_BOARD}" if "i < n" for i
  proof -
    have "(f i, y) \<in> parents s ^^ Suc (n - Suc i)" using f [of i] that by (simp add: Suc_diff_Suc)
    from relpow_Suc_D2 [OF this] obtain z where "(f i, z) \<in> parents s" by auto
    then show ?thesis by (simp add: parents_def)
  qed
  moreover have "inj_on f {..<n}"
  proof (rule linorder_inj_onI)
    fix i j assume "i < j" "i \<in> {..<n}" "j \<in> {..<n}"
    then have "(x, y) \<in> parents s ^^ (i + (n - j))" if "f i = f j"
      unfolding relpow_add using f [of i] f [of j] that by (intro relcompI [of _ "f i"]) simp_all
    then show "f i \<noteq> f j" using least [of "i + (n - j)"] \<open>i < j\<close> \<open>j \<in> {..<n}\<close> by auto
  qed auto
  ultimately have "card {..<n} \<le> card {2..MAX_BOARD}" by (intro card_inj_on_le [of f]) auto
  then have "n < nat MAX_BOARD" by (simp add: MAX_BOARD_def)
  then show ?thesis using n by blast
qed

lemma acyclic_move:
  assumes "acyclic (parents s)" "moved s s' b g" "\<not> gid_is_within s g b" "1 \<le> b" "b \<le> MAX_BOARD"
  shows "acyclic (parents s')"
proof (cases "1 < b \<and> IS_GROUP (bcache s b)")
  case True
  have "parents s' \<subseteq> insert (b, g) (parents s)" using moved_sel [OF assms(2)] moved_cong [OF assms(2)] by (auto simp: parents_def)
  moreover have "(g, b) \<notin> (parents s)\<^sup>*"
  proof
    assume "(g, b) \<in> (parents s)\<^sup>*"
    then obtain n where "n < nat MAX_BOARD" "(g, b) \<in> parents s ^^ n" using short_path by blast
    then show False using within_loop_finds [of g b n s] True assms(3,5) by (simp add: gid_is_within_def)
  qed
  ultimately show ?thesis using assms(1) acyclic_insert [of b g "parents s"] by (blast intro: acyclic_subset)
next
  case False
  then have "parents s' = parents s"
    by (auto simp: parents_def moved_sel [OF assms(2)] moved_cong [OF assms(2)])
  then show ?thesis using assms(1) by simp
qed

lemma parents_heads: "heads s = heads s' \<Longrightarrow> parents s = parents s'"
  unfolding parents_def using heads_cong(2) heads_sel(3) by metis

lemma paste_one_acyclic:
  assumes "paste_one wr rd g unl into ft w = Some (ft', w')" "acyclic (parents (shm w))" "file_agrees w" "io_ok wr rd w"
  shows "acyclic (parents (shm w')) \<and> file_agrees w' \<and> io_ok wr rd w'"
proof -
  let ?b = "fav_getid ft"
  have b: "1 \<le> ?b" "?b \<le> MAX_BOARD" using assms(1) by (auto simp: paste_one_def Let_def split: if_splits)
  consider "w' = w" | (move) "w' = move_board wr rd g ?b w" "\<not> gid_is_within (shm w) g ?b"
    using assms(1) by (auto simp: paste_one_def Let_def split: if_splits)
  then show ?thesis
  proof cases
    case move
    note r = move_board_result [OF assms(3,4) b, of g, folded move(1)]
    then show ?thesis using acyclic_move [OF assms(2) _ move(2) b] parents_heads [of "shm w'" "shm w"] assms(2) by auto
  qed (use assms in simp)
qed

lemma paste_loop_acyclic:
  "paste_loop wr rd g unl into fts w = Some (fts', w') \<Longrightarrow> acyclic (parents (shm w)) \<Longrightarrow> file_agrees w \<Longrightarrow> io_ok wr rd w \<Longrightarrow>
   acyclic (parents (shm w'))"
proof (induction fts arbitrary: w fts')
  case (Cons ft fts)
  then obtain ft' w1 fts1 where "paste_one wr rd g unl into ft w = Some (ft', w1)"
    "paste_loop wr rd g unl into fts w1 = Some (fts1, w')"
    by (auto split: option.splits)
  then show ?case using Cons.IH paste_one_acyclic Cons.prems(2-4) by blast
qed simp

section \<open>Modes of a session\<close>

text \<open>
  Where a session is: in the main menu, in the list of a group, or reading a board.  The
  list keeps the modes to go back to, as \<open>board_enter_group\<close> does in its local variables,
  and reading keeps the group modes as \<open>board_enter_normal\<close> does.
\<close>

datatype frame = InGroup (fr_bid: int) (fr_mode: u32) (fr_list: u32) | InBoard (fr_bid: int) (fr_saved: u32)

fun reading :: "frame list \<Rightarrow> bool" where
  "reading (InBoard b m # fs) = True"
| "reading (InGroup b m l # fs) = False"
| "reading [] = False"

text \<open>
  The steps of a session: enter a group from a menu or list, enter a board, jump to
  another board while reading, and go back.  The boards do not change meanwhile.
\<close>

inductive nav :: "(int \<Rightarrow> int \<Rightarrow> bool) \<Rightarrow> board_shm \<Rightarrow> session \<times> frame list \<Rightarrow> session \<times> frame list \<Rightarrow> bool" for hbf s where
  enter_group: "\<not> reading fs \<Longrightarrow> 1 \<le> b \<Longrightarrow> b \<le> MAX_BOARD \<Longrightarrow>
    nav hbf s (u, fs) (enter_group s b u, InGroup b (currmode u) (list_groupop u) # fs)"
| leave_group: "nav hbf s (u, InGroup b m l # fs) (u\<lparr>currmode := m, list_groupop := l\<rparr>, fs)"
| enter_board: "\<not> reading fs \<Longrightarrow> 1 \<le> b \<Longrightarrow> b \<le> MAX_BOARD \<Longrightarrow>
    HasBoardPerm hbf s u b \<noteq> 0 \<Longrightarrow> nav hbf s (u, fs) (set_board s b u, InBoard b (groupop_save u) # fs)"
| jump: "1 \<le> c \<Longrightarrow> c \<le> MAX_BOARD \<Longrightarrow> HasBoardPerm hbf s u c \<noteq> 0 \<Longrightarrow>
    nav hbf s (u, InBoard b m # fs) (set_board s c u, InBoard c m # fs)"
| leave_board: "nav hbf s (u, InBoard b m # fs) (groupop_restore m u, fs)"

text \<open>The rights that cover a place; board 1 is read as a board in the group it is in.\<close>

definition board_roles :: "board_shm \<Rightarrow> session \<Rightarrow> int \<Rightarrow> u32" where
  "board_roles s u b = (if b = 1 \<and> \<not> has (brdattr (bcache s 1)) BRD_GROUPBOARD then group_roles_above s u 1 else group_roles s u b)"

text \<open>The rights on the frames below: what the modes are when the frames above are left.\<close>

fun cover :: "board_shm \<Rightarrow> session \<Rightarrow> frame list \<Rightarrow> u32" where
  "cover s u [] = 0"
| "cover s u (InGroup b m l # fs) = group_roles s u b"
| "cover s u (InBoard b m # fs) = board_roles s u b"

fun list_cover :: "board_shm \<Rightarrow> session \<Rightarrow> frame list \<Rightarrow> u32" where
  "list_cover s u [] = 0"
| "list_cover s u (InGroup b m l # fs) = group_roles s u b"
| "list_cover s u (InBoard b m # fs) = list_cover s u fs"

fun frames_ok :: "board_shm \<Rightarrow> session \<Rightarrow> frame list \<Rightarrow> bool" where
  "frames_ok s u [] = True"
| "frames_ok s u (InGroup b m l # fs) \<longleftrightarrow>
     sub (m AND GROUP_MODES) (cover s u fs) \<and> sub l (list_cover s u fs) \<and> sub l GROUP_MODES \<and> frames_ok s u fs"
| "frames_ok s u (InBoard b m # fs) \<longleftrightarrow>
     sub m (cover s u fs) \<and> sub m GROUP_MODES \<and> frames_ok s u fs"

text \<open>A board is read on top of a list only.\<close>

fun boards_on_top :: "frame list \<Rightarrow> bool" where
  "boards_on_top [] = True"
| "boards_on_top (f # fs) \<longleftrightarrow> \<not> reading fs \<and> boards_on_top fs"

text \<open>When board moderator mode is justified.\<close>

definition bm_due :: "board_shm \<Rightarrow> session \<Rightarrow> int \<Rightarrow> bool" where
  "bm_due s u b \<longleftrightarrow> \<not> HasUserPerm u PERM_NOCITIZEN \<and>
     (is_board_moderator s u b \<or> \<not> does_board_have_bm (bcache s b) \<and> has (board_roles s u b) MODE_GROUP_OP)"

text \<open>
  While a board is read, the mode is due in this board.  Leaving the board does not take the mode off, and
  leaving a group brings back the modes with which it was entered, so in a list it is only due in some board;
  the same goes for the modes that the open lists bring back.
\<close>

definition bm_somewhere :: "board_shm \<Rightarrow> session \<Rightarrow> u32 \<Rightarrow> bool" where
  "bm_somewhere s v mode \<longleftrightarrow> (has mode MODE_BM \<longrightarrow> (\<exists>b. 1 \<le> b \<and> b \<le> MAX_BOARD \<and> bm_due s v b))"

fun bm_ok :: "board_shm \<Rightarrow> session \<Rightarrow> u32 \<Rightarrow> frame list \<Rightarrow> bool" where
  "bm_ok s v mode [] = bm_somewhere s v mode"
| "bm_ok s v mode (InBoard b m # fs) \<longleftrightarrow> (has mode MODE_BM \<longrightarrow> 1 \<le> b \<and> b \<le> MAX_BOARD \<and> bm_due s v b)"
| "bm_ok s v mode (InGroup b m l # fs) \<longleftrightarrow> bm_somewhere s v mode"

fun kept_ok :: "board_shm \<Rightarrow> session \<Rightarrow> frame list \<Rightarrow> bool" where
  "kept_ok s v [] = True"
| "kept_ok s v (InBoard b m # fs) = kept_ok s v fs"
| "kept_ok s v (InGroup b m l # fs) \<longleftrightarrow> bm_somewhere s v m \<and> kept_ok s v fs"

definition nav_inv :: "board_shm \<Rightarrow> session \<Rightarrow> session \<times> frame list \<Rightarrow> bool" where
  "nav_inv s v uf \<longleftrightarrow> (let (u, fs) = uf in
     userlevel u = userlevel v \<and> uid u = uid v \<and> cu_firstlogin u = cu_firstlogin v \<and>
     sub (currmode u AND GROUP_MODES) (cover s v fs) \<and> sub (list_groupop u) (list_cover s v fs) \<and> sub (list_groupop u) GROUP_MODES \<and>
     frames_ok s v fs \<and> boards_on_top fs \<and> bm_ok s v (currmode u) fs \<and> kept_ok s v fs)"

lemma bm_ok_list: "\<not> reading fs \<Longrightarrow> bm_ok s v m fs = bm_somewhere s v m"
  by (cases fs rule: reading.cases) simp_all

lemma bm_ok_somewhere: "bm_ok s v m fs \<Longrightarrow> bm_somewhere s v m"
  by (cases fs rule: reading.cases) (auto simp: bm_somewhere_def)

lemma roles_same:
  assumes "userlevel u = userlevel v" "uid u = uid v" "cu_firstlogin u = cu_firstlogin v"
  shows "is_board_moderator s u b = is_board_moderator s v b" "roles_loop s u k at b = roles_loop s v k at b"
    "group_roles s u b = group_roles s v b" "group_roles_above s u b = group_roles_above s v b"
    "groupop_unlimited u = groupop_unlimited v" "HasUserPerm u p = HasUserPerm v p"
proof -
  show p: "HasUserPerm u p = HasUserPerm v p" for p using assms by (simp add: HasUserPerm_def)
  show m: "is_board_moderator s u b = is_board_moderator s v b" for b
    using assms by (simp add: is_board_moderator_def HasBasicUserPerm_def p)
  show l: "roles_loop s u k at b = roles_loop s v k at b" for k at b
    by (induction k arbitrary: at b) (simp_all add: m Let_def)
  show g: "group_roles s u b = group_roles s v b" for b by (simp add: group_roles_def p l)
  show "group_roles_above s u b = group_roles_above s v b" by (simp add: group_roles_above_def Let_def g)
  show "groupop_unlimited u = groupop_unlimited v" by (simp add: groupop_unlimited_def p)
qed

lemma sub_bits: "sub (a AND b) c \<longleftrightarrow> (\<forall>n. bit a n \<longrightarrow> bit b n \<longrightarrow> bit c n)"
  by (auto simp: sub_iff bit_simps)

lemma sub_disj: "sub a (b OR c) \<longleftrightarrow> (\<forall>n. bit a n \<longrightarrow> bit b n \<or> bit c n)"
  by (auto simp: sub_iff bit_simps)

text \<open>Narrowing leaves only group modes that the groups of the board give.\<close>

lemma keep_sub: "\<not> groupop_unlimited u \<Longrightarrow> sub (currmode (groupop_keep r u) AND GROUP_MODES) r"
  by (auto simp: groupop_keep_def sub_iff bit_simps)

lemma keep_other: "bit (currmode (groupop_keep r u)) n \<Longrightarrow> bit (currmode u) n"
  by (auto simp: groupop_keep_def bit_simps split: if_splits)

lemma has_none: "\<not> has a m \<Longrightarrow> sub (a AND m) c"
  by (simp add: has_def)

lemma narrow_sub: "\<not> groupop_unlimited u \<Longrightarrow> sub (currmode (groupop_narrow s b u) AND GROUP_MODES) (group_roles s u b)"
  by (simp add: groupop_narrow_def keep_sub has_none)

lemma keep_sel [simp]:
  "userlevel (groupop_keep r u) = userlevel u" "uid (groupop_keep r u) = uid u" "cu_firstlogin (groupop_keep r u) = cu_firstlogin u"
  "list_groupop (groupop_keep r u) = list_groupop u"
  by (simp_all add: groupop_keep_def)

lemma narrow_sel [simp]:
  "userlevel (groupop_narrow s b u) = userlevel u" "uid (groupop_narrow s b u) = uid u" "cu_firstlogin (groupop_narrow s b u) = cu_firstlogin u"
  "list_groupop (groupop_narrow s b u) = list_groupop u"
  by (simp_all add: groupop_narrow_def)

lemma set_menu_sel [simp]:
  "userlevel (set_menu_group_op s b u) = userlevel u" "uid (set_menu_group_op s b u) = uid u"
  "cu_firstlogin (set_menu_group_op s b u) = cu_firstlogin u" "list_groupop (set_menu_group_op s b u) = list_groupop u"
  by (simp_all add: set_menu_group_op_def)

lemma groupop_set_board_sel [simp]:
  "userlevel (groupop_set_board s b u) = userlevel u" "uid (groupop_set_board s b u) = uid u"
  "cu_firstlogin (groupop_set_board s b u) = cu_firstlogin u" "list_groupop (groupop_set_board s b u) = list_groupop u"
  by (simp_all add: groupop_set_board_def Let_def)

lemma set_board_sel [simp]:
  "userlevel (set_board s b u) = userlevel u" "uid (set_board s b u) = uid u"
  "cu_firstlogin (set_board s b u) = cu_firstlogin u" "list_groupop (set_board s b u) = list_groupop u"
  by (simp_all add: set_board_def Let_def)

lemma unlimitedD: "\<not> groupop_unlimited u \<Longrightarrow> \<not> HasUserPerm u PERM_BOARDS \<and> \<not> HasUserPerm u (PERM_SYSOP OR PERM_BOARDS)"
  by (auto simp: groupop_unlimited_def HasUserPerm_def has_def bit.conj_disj_distrib bit_eq_iff bit_simps)

lemma same_board_roles:
  assumes "userlevel u = userlevel v" "uid u = uid v" "cu_firstlogin u = cu_firstlogin v"
  shows "board_roles s u b = board_roles s v b"
  by (simp add: board_roles_def roles_same [OF assms])

lemma groupop_set_board_sub:
  assumes "\<not> groupop_unlimited u"
  shows "sub (currmode (groupop_set_board s b u) AND GROUP_MODES) (board_roles s u b)"
proof -
  let ?u = "u\<lparr>currmode := (currmode u AND NOT GROUP_MODES) OR list_groupop u\<rparr>"
  have r: "group_roles s ?u b = group_roles s u b" "group_roles_above s ?u 1 = group_roles_above s u 1"
    "groupop_unlimited ?u = groupop_unlimited u" using roles_same [of ?u u] by simp_all
  show ?thesis
    using keep_sub [of ?u "group_roles_above s u 1"] narrow_sub [of ?u s b] assms
    by (simp add: groupop_set_board_def board_roles_def r Let_def)
qed

lemma narrow_other: "bit (currmode (groupop_narrow s b u)) n \<Longrightarrow> bit (currmode u) n"
  by (auto simp: groupop_narrow_def dest: keep_other split: if_splits)

lemma groupop_set_board_bits:
  assumes "bit (currmode (groupop_set_board s b u)) n" "sub (list_groupop u) GROUP_MODES" "\<not> bit GROUP_MODES n"
  shows "bit (currmode u) n"
proof -
  define w where "w = u\<lparr>currmode := (currmode u AND NOT GROUP_MODES) OR list_groupop u\<rparr>"
  have "\<not> bit (list_groupop u) n" using assms(2,3) by (auto simp: sub_iff)
  then have w: "bit (currmode w) n \<Longrightarrow> bit (currmode u) n" by (simp add: w_def bit_simps)
  have "groupop_set_board s b u \<in> {u, groupop_keep (group_roles_above s w 1) w, groupop_narrow s b w}"
    by (simp add: groupop_set_board_def Let_def w_def)
  then consider "groupop_set_board s b u = u" | "groupop_set_board s b u = groupop_keep (group_roles_above s w 1) w"
    | "groupop_set_board s b u = groupop_narrow s b w" by auto
  then show ?thesis using assms(1) w by cases (auto dest: keep_other narrow_other)
qed

lemma bm_bit: "has m MODE_BM \<longleftrightarrow> bit m 3" "\<not> bit GROUP_MODES 3" "bit MODE_BM n \<Longrightarrow> \<not> bit GROUP_MODES n"
proof -
  have e: "MODE_BM = 2 ^ 3" by (simp add: MODE_BM_def)
  show "has m MODE_BM \<longleftrightarrow> bit m 3" unfolding has_def e and_exp_eq_0_iff_not_bit by simp
  show g: "\<not> bit GROUP_MODES 3" by (simp add: GROUP_MODES_def MODE_GROUP_OP_def MODE_GROUP_LEAD_def)
  have "bit MODE_BM n \<longleftrightarrow> n = 3" unfolding e bit_exp_iff by (auto simp: possible_bit_def)
  then show "bit MODE_BM n \<Longrightarrow> \<not> bit GROUP_MODES n" using g by simp
qed

lemma set_board_inv:
  assumes "\<not> groupop_unlimited u" "sub (list_groupop u) GROUP_MODES"
  shows "sub (currmode (set_board s b u) AND GROUP_MODES) (board_roles s u b)"
    "has (currmode (set_board s b u)) MODE_BM \<Longrightarrow> bm_due s u b"
proof -
  define u1 where "u1 = u\<lparr>currmode := (currmode u AND (MODE_DIRTY OR MODE_GROUP_OP OR MODE_GROUP_LEAD)) OR MODE_STARTED\<rparr>"
  define u2 where "u2 = groupop_set_board s b u1"
  have same: "userlevel u2 = userlevel u" "uid u2 = uid u" "cu_firstlogin u2 = cu_firstlogin u" by (simp_all add: u2_def u1_def)
  note r = roles_same [OF same] same_board_roles [OF same]
  have r1: "board_roles s u1 b = board_roles s u b" "groupop_unlimited u1 = groupop_unlimited u"
    using same_board_roles [of u1 u] roles_same [of u1 u] by (simp_all add: u1_def)
  have s2: "sub (currmode u2 AND GROUP_MODES) (board_roles s u b)"
    using groupop_set_board_sub [of u1 s b] assms(1) by (simp add: u2_def r1)
  have cm: "currmode (set_board s b u) = (if \<not> HasUserPerm u2 PERM_NOCITIZEN \<and>
      (HasUserPerm u2 PERM_BOARDS \<or> is_board_moderator s u2 b \<or> \<not> does_board_have_bm (bcache s b) \<and> CBRD_IS_GROUP_OP u2)
      then currmode u2 OR MODE_BM else currmode u2)"
    by (simp add: set_board_def Let_def u1_def u2_def)
  show "sub (currmode (set_board s b u) AND GROUP_MODES) (board_roles s u b)"
    using s2 bm_bit(3) by (auto simp: cm sub_bits bit_simps)
  show "bm_due s u b" if "has (currmode (set_board s b u)) MODE_BM"
  proof -
    have "\<not> bit (currmode u1) 3"
      by (simp add: u1_def bit_simps MODE_DIRTY_def MODE_GROUP_OP_def MODE_GROUP_LEAD_def MODE_STARTED_def)
    then have "\<not> bit (currmode u2) 3"
      using groupop_set_board_bits [of s b u1 3] bm_bit(2) assms(2) by (auto simp: u2_def u1_def)
    then have c: "\<not> HasUserPerm u2 PERM_NOCITIZEN"
      "HasUserPerm u2 PERM_BOARDS \<or> is_board_moderator s u2 b \<or> \<not> does_board_have_bm (bcache s b) \<and> CBRD_IS_GROUP_OP u2"
      using that by (auto simp: cm bm_bit(1) split: if_splits)
    have "has (board_roles s u b) MODE_GROUP_OP" if "CBRD_IS_GROUP_OP u2"
    proof -
      have "bit (currmode u2) 4" using that unlimitedD [OF assms(1)] by (simp add: CBRD_IS_GROUP_OP_def r has_op)
      moreover have "bit GROUP_MODES 4" by (simp add: GROUP_MODES_def MODE_GROUP_OP_def MODE_GROUP_LEAD_def)
      ultimately show ?thesis using s2 by (auto simp: sub_bits has_op)
    qed
    then show ?thesis using c unlimitedD [OF assms(1)] by (auto simp: bm_due_def r)
  qed
qed

lemma enter_group_sub:
  assumes "\<not> groupop_unlimited u"
  shows "sub (currmode (enter_group s b u) AND GROUP_MODES) (group_roles s u b)"
    "list_groupop (enter_group s b u) = currmode (enter_group s b u) AND GROUP_MODES"
    "userlevel (enter_group s b u) = userlevel u" "uid (enter_group s b u) = uid u" "cu_firstlogin (enter_group s b u) = cu_firstlogin u"
proof -
  let ?u = "if \<not> CBRD_IS_GROUP_OP u \<or> \<not> CBRD_IS_GROUP_LEAD u then set_menu_group_op s b u else u"
  have "group_roles s ?u b = group_roles s u b" "groupop_unlimited ?u = groupop_unlimited u"
    using roles_same [of ?u u] by simp_all
  then show "sub (currmode (enter_group s b u) AND GROUP_MODES) (group_roles s u b)"
    using narrow_sub [of ?u s b] assms by (simp add: enter_group_def Let_def)
qed (simp_all add: enter_group_def Let_def groupop_save_def)

lemma restore_bits: "sub (currmode (groupop_restore m u) AND GROUP_MODES) m"
  by (auto simp: groupop_restore_def sub_iff bit_simps)

lemma restore_bm: "sub m GROUP_MODES \<Longrightarrow> has (currmode (groupop_restore m u)) MODE_BM = has (currmode u) MODE_BM"
  using bm_bit(2) by (auto simp: groupop_restore_def bm_bit(1) bit_simps sub_iff)

lemma enter_group_bm: "has (currmode (enter_group s b u)) MODE_BM \<Longrightarrow> has (currmode u) MODE_BM"
proof -
  let ?u = "if \<not> CBRD_IS_GROUP_OP u \<or> \<not> CBRD_IS_GROUP_LEAD u then set_menu_group_op s b u else u"
  assume "has (currmode (enter_group s b u)) MODE_BM"
  then have "bit (currmode (groupop_narrow s b ?u)) 3" by (simp add: enter_group_def Let_def bm_bit(1))
  then have "bit (currmode ?u) 3" by (rule narrow_other)
  then show ?thesis
    by (auto simp: bm_bit(1) set_menu_group_op_def bit_simps MODE_GROUP_OP_def MODE_GROUP_LEAD_def split: if_splits)
qed

lemma restore_sel [simp]:
  "userlevel (groupop_restore m u) = userlevel u" "uid (groupop_restore m u) = uid u"
  "cu_firstlogin (groupop_restore m u) = cu_firstlogin u" "list_groupop (groupop_restore m u) = list_groupop u"
  by (simp_all add: groupop_restore_def)

lemma nav_inv_step:
  assumes "nav hbf s a a'" "nav_inv s v a" "\<not> groupop_unlimited v"
  shows "nav_inv s v a'"
proof -
  obtain u fs where a: "a = (u, fs)" by (cases a)
  note inv = assms(2) [unfolded a nav_inv_def Let_def prod.case]
  have same: "userlevel u = userlevel v" "uid u = uid v" "cu_firstlogin u = cu_firstlogin v" using inv by simp_all
  note r = roles_same [OF same] same_board_roles [OF same]
  have lim: "\<not> groupop_unlimited u" using assms(3) by (simp add: r)
  have bm: "bm_due s u b = bm_due s v b" for b by (simp add: bm_due_def r)
  note sb = set_board_inv [OF lim, of s, unfolded r bm]
  from assms(1) show ?thesis unfolding a
  proof (cases rule: nav.cases)
    case (enter_group b)
    then show ?thesis
      using inv same enter_group_sub [OF lim, of s b] bm_ok_somewhere [of s v "currmode u" fs] enter_group_bm [of s b u]
      by (simp add: nav_inv_def r bm_somewhere_def)
  next
    case (leave_group b m l fs')
    then show ?thesis using inv by (simp add: nav_inv_def bm_ok_list)
  next
    case (enter_board b)
    then show ?thesis using inv sb [of b] by (simp add: nav_inv_def groupop_save_def)
  next
    case (jump c b m fs')
    then show ?thesis using inv sb [of c] by (simp add: nav_inv_def)
  next
    case (leave_board b m fs')
    then show ?thesis
      using inv sub_trans [OF restore_bits [of m u]] bm_ok_somewhere [of s v "currmode u" fs] restore_bm [of m u]
      by (simp add: nav_inv_def bm_ok_list bm_somewhere_def)
  qed
qed

lemma depth_Suc: "GROUP_DEPTH_MAX = Suc 63"
  by (simp add: GROUP_DEPTH_MAX_def)

lemmas group_roles_unfold = group_roles_def [unfolded depth_Suc roles_loop.simps Let_def]

lemma nav_reach_inv:
  assumes "(nav hbf s)\<^sup>*\<^sup>* (v, []) a" "\<not> groupop_unlimited v" "currmode v AND GROUP_MODES = 0" "list_groupop v = 0"
    "\<not> has (currmode v) MODE_BM"
  shows "nav_inv s v a"
  using assms(1)
proof (induction rule: rtranclp_induct)
  case base
  then show ?case using assms(3-5) by (simp add: nav_inv_def bm_somewhere_def)
next
  case (step a a')
  then show ?case using nav_inv_step assms(2) by blast
qed

text \<open>Entering a group that lists the user as a moderator gives group-op mode.\<close>

lemma enter_group_gives:
  assumes "1 < b" "b \<le> MAX_BOARD" "GROUP_LISTS_BOARDS (bcache s b)" "is_board_moderator s u b" "\<not> HasUserPerm u PERM_NOCITIZEN"
    "\<not> groupop_unlimited u"
  shows "has (currmode (enter_group s b u)) MODE_GROUP_OP"
proof -
  let ?u = "if \<not> CBRD_IS_GROUP_OP u \<or> \<not> CBRD_IS_GROUP_LEAD u then set_menu_group_op s b u else u"
  have "bit (currmode (set_menu_group_op s b u)) 4"
    using assms(1,2,4,5) by (simp add: set_menu_group_op_def MODE_GROUP_OP_def bit_simps)
  then have on: "bit (currmode ?u) 4" using unlimitedD [OF assms(6)] by (auto simp: CBRD_IS_GROUP_OP_def has_op)
  have "bit (group_roles s u b) 4"
    using assms by (simp add: group_roles_unfold bit_simps GROUP_MODES_def MODE_GROUP_OP_def MODE_GROUP_LEAD_def)
  then have "bit (group_roles s ?u b) 4" using roles_same(3) [of ?u u] by simp
  then have "bit (currmode (groupop_narrow s b ?u)) 4"
    using on by (simp add: groupop_narrow_def groupop_keep_def bit_simps)
  then show ?thesis by (simp add: enter_group_def Let_def has_op)
qed

text \<open>A new board never takes a slot that a board has as its group or a link as its target.\<close>

lemma free_board_slot_unused:
  assumes "free_board_slot s = b" "0 < b" "1 \<le> c" "c \<le> int (Bnumber s)" "brdname (bcache s c) \<noteq> []" "b \<le> MAX_BOARD"
  shows "brdname (bcache s b) = [] \<and> gid (bcache s c) \<noteq> b \<and> \<not> (has (brdattr (bcache s c)) BRD_SYMBOLIC \<and> BRD_LINK_TARGET (bcache s c) = b)"
proof -
  have "brdname (bcache s b) = [] \<and> \<not> used_slot s b"
    using assms(1,2) unfolding free_board_slot_def by (auto simp: find_Some_iff split: option.splits)
  moreover have "nat (c - 1) \<in> set [0..<Bnumber s]" "int (nat (c - 1)) + 1 = c" using assms(3,4) by auto
  ultimately show ?thesis using assms(2,5,6) unfolding used_slot_def list_ex_iff Let_def by metis
qed

section \<open>Properties\<close>

lemma sort_bcache_group_heads: "heads (sort_bcache qs s) = heads s"
  by (auto simp: heads_def sort_bcache_def group_head_def)

lemma same_user_loop: "same_user u v \<Longrightarrow> roles_loop s u k at x = roles_loop s v k at x"
  by (induction k arbitrary: at x) (simp_all add: same_user_moderator Let_def)

lemma same_user_roles: "same_user u v \<Longrightarrow> group_roles s u x = group_roles s v x"
  using same_user_loop [of u v] same_user_perm [of u v PERM_NOCITIZEN] by (simp add: group_roles_def)

text \<open>
  An example: user 7 is a moderator of the groups 2 and 3, which are right under the
  class root, and has tagged board 4, which is in group 2.
\<close>

definition demo_op :: session where
  "demo_op = guest\<lparr>userlevel := PERM_BASIC OR PERM_LOGINOK, currmode := MODE_GROUP_OP\<rparr>"

definition demo_groups :: board_shm where
  "demo_groups = \<lparr>bcache = (\<lambda>_. no_board)(1 := no_board\<lparr>brdname := [82]\<rparr>,
       2 := demo_group 1\<lparr>moderators := [\<lparr>unum = 7, firstlogin = 5\<rparr>]\<rparr>,
       3 := demo_group 1\<lparr>brdname := [68], moderators := [\<lparr>unum = 7, firstlogin = 5\<rparr>]\<rparr>,
       4 := no_board\<lparr>brdname := [65], gid := 2\<rparr>),
     Bnumber = 4, bsorted = (\<lambda>_. []), Bbusystate = False\<rparr>"

definition demo_sys :: board_sys where
  "demo_sys = \<lparr>shm = demo_groups, brd_file = bcache demo_groups, brd_nrec = 4, pwd = (\<lambda>_. None), sess = demo_op\<rparr>"

definition demo_tagged :: "fav_item list" where "demo_tagged = [FBoard 9 4 0 0 []]"

lemma demo_depth: "depth_ok demo_groups"
proof -
  have g: "gid (bcache demo_groups x) = (if x = 2 \<or> x = 3 then 1 else if x = 4 then 2 else 0)" for x
    by (simp add: demo_groups_def demo_group_def no_board_def)
  have "\<not> GROUP_LISTS_BOARDS (bcache demo_groups x)" if "x \<noteq> 2" "x \<noteq> 3" for x
    using that by (simp add: demo_groups_def no_board_def GROUP_LISTS_BOARDS_def IS_GROUP_def has_def)
  then have "chain_ends demo_groups (Suc (Suc k)) x" for k x by (simp add: g)
  from this [of 62] show ?thesis by (simp add: depth_ok_def depth_Suc)
qed

lemma demo_sys_ok:
  "\<not> groupop_unlimited (sess demo_sys)" "depth_ok (shm demo_sys)" "file_agrees demo_sys" "io_ok (\<lambda>_. True) (\<lambda>_. True) demo_sys"
  by (simp_all add: demo_sys_def demo_depth file_agrees_def io_ok_def groupop_unlimited_def HasUserPerm_def has_def demo_op_def
      guest_def PERM_BASIC_def PERM_LOGINOK_def PERM_SYSOP_def PERM_BOARDS_def)

lemma demo_acyclic: "acyclic (parents demo_groups)"
proof (rule acyclicI_order [where f = nat])
  fix x y assume "(x, y) \<in> parents demo_groups"
  then show "nat y < nat x" by (auto simp: parents_def demo_groups_def demo_group_def no_board_def IS_GROUP_def has_def split: if_splits)
qed

lemma demo_paste:
  "map_option (\<lambda>(r, fts, w). (r, gid (bcache (shm w) 4))) (paste_taged_brds isort (\<lambda>_. True) (\<lambda>_. True) 3 demo_tagged demo_sys) =
   Some (True, 3)"
  by code_simp

text \<open>
  C3. A group operator who moves tagged boards into a group gets no new rights: after
  the command every board and group gives at most the group modes it gave before, for
  the session as the command leaves it, and the boards that moved went into the group
  from groups whose boards the user manages, as the user manages the boards of the
  target.  No walk up the groups was cut off before the command, and the board file
  can be written or read back.
\<close>

theorem paste_no_escalation:
  assumes "paste_taged_brds qs wr rd g fts w = Some (r, fts', w')" "\<not> groupop_unlimited (sess w)" "depth_ok (shm w)"
    "file_agrees w" "io_ok wr rd w"
  shows "(\<forall>x. group_roles (shm w') (sess w') x AND NOT (group_roles (shm w) (sess w) x) = 0) \<and>
    (\<forall>b. gid (bcache (shm w') b) = gid (bcache (shm w) b) \<or>
       gid (bcache (shm w') b) = g \<and> has (group_roles_above (shm w) (sess w) b) MODE_GROUP_OP \<and>
       has (group_roles (shm w) (sess w) g) MODE_GROUP_OP)"
proof -
  let ?s = "shm w" and ?u = "sess w"
  have exact: "bit (group_roles ?s ?u x) n \<longleftrightarrow> role_at ?s ?u x n" for x n
    using group_roles_exact assms(3) by (simp add: depth_ok_def)
  have "pasted ?s ?u g (shm w') \<and> same_user ?u (sess w')"
  proof (cases "w' = w")
    case False
    then obtain w1 where w1: "paste_loop wr rd g False (group_roles ?s ?u g) fts w = Some (fts', w1)"
      "w' = w1\<lparr>shm := sort_bcache qs (shm w1)\<rparr>"
      using assms(1,2) by (auto simp: paste_taged_brds_def Let_def split: if_splits)
    have "group_roles ?s ?u 1 = 0" by (simp add: group_roles_unfold)
    then have "pasted ?s ?u g (shm w1) \<and> same_user ?u (sess w1)"
      using paste_loop_pasted [OF w1(1) pasted_refl same_user_refl assms(4,5)] exact by auto
    then show ?thesis using pasted_heads [OF sort_bcache_group_heads] by (simp add: w1(2))
  qed simp
  then have p: "pasted ?s ?u g (shm w')" and u: "same_user ?u (sess w')" by simp_all
  have "group_roles (shm w') (sess w') x = group_roles (shm w') ?u x" for x using same_user_roles [OF u] by simp
  then have "sub (group_roles (shm w') (sess w') x) (group_roles ?s ?u x)" for x
    using p group_roles_sound [of "shm w'" ?u x] by (auto simp: sub_iff exact pasted_def)
  moreover have "has (group_roles_above ?s ?u b) MODE_GROUP_OP" if "role_at ?s ?u (gid (bcache ?s b)) 4" "gid (bcache ?s b) \<noteq> b"
      "GROUP_LISTS_BOARDS (bcache ?s (gid (bcache ?s b)))" for b
  proof -
    have "1 < gid (bcache ?s b)" "gid (bcache ?s b) \<le> MAX_BOARD"
      using that(1) by (auto simp: role_at_def elim: on_chain.cases)
    then show ?thesis using that by (simp add: group_roles_above_def Let_def has_op exact)
  qed
  ultimately show ?thesis using p unfolding pasted_def sub_def has_op exact by blast
qed

theorem paste_no_escalation_witness:
  "\<exists>fts' w'. paste_taged_brds isort (\<lambda>_. True) (\<lambda>_. True) 3 demo_tagged demo_sys = Some (True, fts', w') \<and>
    gid (bcache (shm w') 4) = 3 \<and>
    (\<forall>x. group_roles (shm w') (sess w') x AND NOT (group_roles (shm demo_sys) (sess demo_sys) x) = 0) \<and>
    (\<forall>b. gid (bcache (shm w') b) = gid (bcache (shm demo_sys) b) \<or>
       gid (bcache (shm w') b) = 3 \<and> has (group_roles_above (shm demo_sys) (sess demo_sys) b) MODE_GROUP_OP \<and>
       has (group_roles (shm demo_sys) (sess demo_sys) 3) MODE_GROUP_OP)"
proof -
  obtain fts' w' where p: "paste_taged_brds isort (\<lambda>_. True) (\<lambda>_. True) 3 demo_tagged demo_sys = Some (True, fts', w')"
    "gid (bcache (shm w') 4) = 3" using demo_paste by auto
  from paste_no_escalation [OF p(1) demo_sys_ok] p show ?thesis by blast
qed

text \<open>
  C15. Whoever moves tagged boards, the groups stay without a cycle of group numbers, so that
  every walk up the groups still ends at the class root or outside the table.
\<close>

theorem paste_keeps_acyclic:
  assumes "paste_taged_brds qs wr rd g fts w = Some (r, fts', w')" "acyclic (parents (shm w))" "file_agrees w" "io_ok wr rd w"
  shows "acyclic (parents (shm w'))"
proof (cases "w' = w")
  case False
  then obtain unl into w1 where "paste_loop wr rd g unl into fts w = Some (fts', w1)" "w' = w1\<lparr>shm := sort_bcache qs (shm w1)\<rparr>"
    using assms(1) by (auto simp: paste_taged_brds_def Let_def split: if_splits)
  then show ?thesis using paste_loop_acyclic [OF _ assms(2-4)] parents_heads [OF sort_bcache_group_heads] by auto
qed (use assms in simp)

theorem paste_keeps_acyclic_witness:
  "\<exists>fts' w'. paste_taged_brds isort (\<lambda>_. True) (\<lambda>_. True) 3 demo_tagged demo_sys = Some (True, fts', w') \<and>
    acyclic (parents (shm w'))"
proof -
  obtain fts' w' where p: "paste_taged_brds isort (\<lambda>_. True) (\<lambda>_. True) 3 demo_tagged demo_sys = Some (True, fts', w')"
    using demo_paste by auto
  have "acyclic (parents (shm demo_sys))" using demo_acyclic by (simp add: demo_sys_def)
  from paste_keeps_acyclic [OF p this demo_sys_ok(3,4)] p show ?thesis by blast
qed

text \<open>
  The mode is not tied to the board read last: a user who has it on in a list, having read a board they moderate, can enter
  a group there, read a board in which it is not due, and leave both, and has it on again.
\<close>

lemma bm_mode_comes_back:
  assumes "\<not> reading fs" "1 \<le> b" "b \<le> MAX_BOARD" "1 \<le> c" "c \<le> MAX_BOARD"
    "HasBoardPerm hbf s (enter_group s b u) c \<noteq> 0" "has (currmode u) MODE_BM"
  shows "\<exists>w u'. (nav hbf s)\<^sup>*\<^sup>* (u, fs) (set_board s c (enter_group s b u), InBoard c w # InGroup b (currmode u) (list_groupop u) # fs) \<and>
    (nav hbf s)\<^sup>*\<^sup>* (set_board s c (enter_group s b u), InBoard c w # InGroup b (currmode u) (list_groupop u) # fs) (u', fs) \<and>
    has (currmode u') MODE_BM"
proof -
  let ?v = "enter_group s b u" and ?g = "InGroup b (currmode u) (list_groupop u)"
  have 1: "nav hbf s (u, fs) (?v, ?g # fs)" by (rule nav.enter_group [OF assms(1-3)])
  have 2: "nav hbf s (?v, ?g # fs) (set_board s c ?v, InBoard c (groupop_save ?v) # ?g # fs)"
    using assms(4-6) by (intro nav.enter_board) simp_all
  have 3: "nav hbf s (set_board s c ?v, InBoard c (groupop_save ?v) # ?g # fs) (groupop_restore (groupop_save ?v) (set_board s c ?v), ?g # fs)"
    by (rule nav.leave_board)
  note 4 = nav.leave_group [of hbf s "groupop_restore (groupop_save ?v) (set_board s c ?v)" b "currmode u" "list_groupop u" fs]
  have "(nav hbf s)\<^sup>*\<^sup>* (u, fs) (set_board s c ?v, InBoard c (groupop_save ?v) # ?g # fs)"
    by (rule rtranclp_trans [of "nav hbf s", OF r_into_rtranclp [of "nav hbf s", OF 1] r_into_rtranclp [of "nav hbf s", OF 2]])
  moreover have "(nav hbf s)\<^sup>*\<^sup>* (set_board s c ?v, InBoard c (groupop_save ?v) # ?g # fs)
      ((groupop_restore (groupop_save ?v) (set_board s c ?v))\<lparr>currmode := currmode u, list_groupop := list_groupop u\<rparr>, fs)"
    by (rule rtranclp_trans [of "nav hbf s", OF r_into_rtranclp [of "nav hbf s", OF 3] r_into_rtranclp [of "nav hbf s", OF 4]])
  moreover have "has (currmode ((groupop_restore (groupop_save ?v) (set_board s c ?v))\<lparr>currmode := currmode u, list_groupop := list_groupop u\<rparr>)) MODE_BM"
    using assms(7) by simp
  ultimately show ?thesis by blast
qed

text \<open>
  C12. However a user who is neither a sysop nor a board administrator moves through the
  lists and boards after login, the group modes that are on are always covered by the groups above
  the current list or board.  Board moderator mode is on while a board is read only if the board lists
  the user as moderator, or has no moderator and is in a group the user manages; in a list it
  is on only if there is such a board at all.
\<close>

theorem nav_modes_covered:
  assumes "(nav hbf s)\<^sup>*\<^sup>* (v, []) (u, fs)" "\<not> groupop_unlimited v" "currmode v AND GROUP_MODES = 0" "list_groupop v = 0"
    "\<not> has (currmode v) MODE_BM"
  shows "currmode u AND GROUP_MODES AND NOT (cover s v fs) = 0 \<and>
    (has (currmode u) MODE_BM \<longrightarrow>
       (\<exists>b. 1 \<le> b \<and> b \<le> MAX_BOARD \<and> bm_due s v b \<and> (\<forall>c m fs'. fs = InBoard c m # fs' \<longrightarrow> c = b)))"
proof -
  have inv: "nav_inv s v (u, fs)" by (rule nav_reach_inv [OF assms])
  then have "bm_ok s v (currmode u) fs" by (simp add: nav_inv_def)
  then have "has (currmode u) MODE_BM \<longrightarrow>
      (\<exists>b. 1 \<le> b \<and> b \<le> MAX_BOARD \<and> bm_due s v b \<and> (\<forall>c m fs'. fs = InBoard c m # fs' \<longrightarrow> c = b))"
    by (cases fs rule: reading.cases) (auto simp: bm_somewhere_def)
  then show ?thesis using inv by (simp add: nav_inv_def sub_def and.assoc)
qed

definition demo_start :: session where "demo_start = demo_op\<lparr>currmode := MODE_STARTED\<rparr>"

text \<open>The user enters group 2, reads board 4, which has no moderator, and is its moderator there.\<close>

theorem nav_modes_covered_witness:
  "let u1 = enter_group demo_groups 2 demo_start; u2 = set_board demo_groups 4 u1;
       fs = [InBoard 4 (groupop_save u1), InGroup 2 (currmode demo_start) 0] in
   has (currmode u2) MODE_BM \<and> (nav (\<lambda>_ _. False) demo_groups)\<^sup>*\<^sup>* (demo_start, []) (u2, fs) \<and>
   currmode u2 AND GROUP_MODES AND NOT (cover demo_groups demo_start fs) = 0 \<and>
   (has (currmode u2) MODE_BM \<longrightarrow>
      (\<exists>b. 1 \<le> b \<and> b \<le> MAX_BOARD \<and> bm_due demo_groups demo_start b \<and> (\<forall>c m fs'. fs = InBoard c m # fs' \<longrightarrow> c = b)))"
proof -
  let ?u1 = "enter_group demo_groups 2 demo_start"
  let ?u2 = "set_board demo_groups 4 ?u1"
  let ?fs = "[InBoard 4 (groupop_save ?u1), InGroup 2 (currmode demo_start) 0]"
  have l: "list_groupop demo_start = 0" by code_simp
  have 1: "nav (\<lambda>_ _. False) demo_groups (demo_start, []) (?u1, [InGroup 2 (currmode demo_start) 0])"
    using nav.enter_group [of "[]" 2 "\<lambda>_ _. False" demo_groups demo_start] by (simp add: l MAX_BOARD_def)
  have "HasBoardPerm (\<lambda>_ _. False) demo_groups ?u1 4 \<noteq> 0" by code_simp
  then have 2: "nav (\<lambda>_ _. False) demo_groups (?u1, [InGroup 2 (currmode demo_start) 0]) (?u2, ?fs)"
    using nav.enter_board [of "[InGroup 2 (currmode demo_start) 0]" 4] by (simp add: MAX_BOARD_def)
  have run: "(nav (\<lambda>_ _. False) demo_groups)\<^sup>*\<^sup>* (demo_start, []) (?u2, ?fs)" using 1 2 by (meson converse_rtranclp_into_rtranclp r_into_rtranclp)
  have "\<not> groupop_unlimited demo_start" "currmode demo_start AND GROUP_MODES = 0" by code_simp+
  note c = nav_modes_covered [OF run this l]
  have bm: "\<not> has (currmode demo_start) MODE_BM" by code_simp
  have "has (currmode ?u2) MODE_BM" by code_simp
  then show ?thesis unfolding Let_def using run c [OF bm] by blast
qed

end
