(* ===== verification/Posting.thy ===== *)
theory Posting
  imports BoardGroups Strings Time4
begin

text \<open>
  The permission to post in a board: the files that mute a user in a board
  (\<open>src/mbbsd/acl.c\<close>), the rules (\<open>postperm_msg\<close> in \<open>src/mbbsd/cache.c\<close>) and the answer that a
  session remembers for its current board (\<open>CheckModifyPerm\<close> in \<open>src/mbbsd/bbs.c\<close>), which
  other sessions invalidate through the time \<open>perm_reload\<close> in the header of the board
  (\<open>invalid_board_permission_cache\<close>) or by an alert to the user.

  The files are a map from paths to contents.  The relation \<open>pstep\<close> interleaves what the
  session does with muting, hiding and changes of permissions by others.  The theory shows that
  a mute is what a later query reads and that it touches nothing else, and that the
  remembered answer is right at every check, except that a mute that has run out may
  still be reported.  It also shows two changes that are not noticed.
\<close>

section \<open>Muting\<close>

definition CFG_PATHLEN :: nat where "CFG_PATHLEN = 256"
definition STRLEN :: nat where "STRLEN = 80"

type_synonym files = "cstr \<rightharpoonup> byte list"

text \<open>\<open>home/%c/%s/%s\<close>, and the file \<open>muted/b_<board>\<close> in the home of the user.\<close>

definition sethomefile :: "cstr \<Rightarrow> cstr \<Rightarrow> cstr" where
  "sethomefile who fname = take (CFG_PATHLEN - 1) ([104, 111, 109, 101, 47, hd0 who, 47] @ who @ [47] @ fname)"

definition bakuman_make_tag_filename :: "cstr \<Rightarrow> cstr \<Rightarrow> byte \<Rightarrow> cstr" where
  "bakuman_make_tag_filename who object object_type =
     strlcat CFG_PATHLEN (strlcat CFG_PATHLEN (sethomefile who [109, 117, 116, 101, 100, 47]) [object_type, 95]) object"

text \<open>The two lines of such a file: the time it ends and the reason.\<close>

definition bakuman_get_info :: "byte list \<Rightarrow> u32 \<times> cstr" where
  "bakuman_get_info f =
     (case fgets_all STRLEN f of
        [] \<Rightarrow> (0, [])
      | l # ls \<Rightarrow> (ucast (strtoul 10 l), case ls of [] \<Rightarrow> [] | r # _ \<Rightarrow> chomp r))"

definition bakuman_set_info :: "u32 \<Rightarrow> cstr \<Rightarrow> byte list" where
  "bakuman_set_info expire reason = fmt_u expire @ [10] @ reason @ [10]"

text \<open>A file whose time has passed is removed by the query.\<close>

definition is_muted_by :: "u32 \<Rightarrow> cstr \<Rightarrow> cstr \<Rightarrow> byte \<Rightarrow> files \<Rightarrow> u32 \<times> files" where
  "is_muted_by now who object object_type fs =
     (let tag_fn = bakuman_make_tag_filename who object object_type in
      case fs tag_fn of
        None \<Rightarrow> (0, fs)
      | Some f \<Rightarrow>
          (let expire = fst (bakuman_get_info f) in
           if time4_gt now expire then (0, fs(tag_fn := None)) else (expire, fs)))"

definition is_user_muted_by_board :: "u32 \<Rightarrow> cstr \<Rightarrow> cstr \<Rightarrow> files \<Rightarrow> u32 \<times> files" where
  "is_user_muted_by_board now user board fs = is_muted_by now user board 98 fs"

definition mute_user_for_board :: "cstr \<Rightarrow> cstr \<Rightarrow> u32 \<Rightarrow> cstr \<Rightarrow> files \<Rightarrow> files" where
  "mute_user_for_board user board expire reason fs =
     fs(bakuman_make_tag_filename user board 98 \<mapsto> bakuman_set_info expire reason)"

definition unmute_user_for_board :: "cstr \<Rightarrow> cstr \<Rightarrow> files \<Rightarrow> bool \<times> files" where
  "unmute_user_for_board user board fs =
     (let tag_fn = bakuman_make_tag_filename user board 98 in (fs tag_fn \<noteq> None, fs(tag_fn := None)))"

section \<open>The rules\<close>

datatype deny = NoBoard | ReadOnlyBoard | IsMuted int | NoPostPerm | RestrictedPost | UnpaidFine | LowLevel | InDigest

definition BN_SECURITY :: cstr where "BN_SECURITY = [83, 101, 99, 117, 114, 105, 116, 121]"
definition BN_ALLPOST :: cstr where "BN_ALLPOST = [65, 76, 76, 80, 79, 83, 84]"
definition DEFAULT_BOARD :: cstr where "DEFAULT_BOARD = [83, 89, 83, 79, 80]"

definition is_readonly_board :: "cstr \<Rightarrow> bool" where
  "is_readonly_board bname \<longleftrightarrow> strcasecmp bname BN_SECURITY = 0 \<or> strcasecmp bname BN_ALLPOST = 0"

text \<open>
  The state of a session and what it shares with others: the boards, the files, the time,
  the level in the password file, and whether an alert of new permissions is pending.
\<close>

record post_state =
  boards :: board_shm
  mutes :: files
  now :: u32
  userid :: cstr
  user :: session
  disk_level :: u32
  new_perm :: bool
  currbid :: int
  currboard :: cstr
  last_chk_time :: u32
  last_board_index :: int
  last_reason :: "deny option"

definition muted_msg :: "cstr \<Rightarrow> post_state \<Rightarrow> deny option \<times> files" where
  "muted_msg bname w =
     (let (expire, fs) = is_user_muted_by_board (now w) (userid w) bname (mutes w) in
      (if time4_gt expire (now w) then Some (IsMuted (time4_days_remaining expire (now w))) else None, fs))"

text \<open>The rules after the check for a mute.\<close>

definition postperm_rules :: "(int \<Rightarrow> int \<Rightarrow> bool) \<Rightarrow> board_shm \<Rightarrow> session \<Rightarrow> cstr \<Rightarrow> int \<Rightarrow> deny option" where
  "postperm_rules hbf s u bname i =
     (let bp = bcache s i in
      if strcasecmp bname DEFAULT_BOARD = 0 then None
      else if has (brdattr bp) BRD_NOREG_CAN_POST then None
      else if \<not> HasUserPerm u PERM_POST then Some NoPostPerm
      else if has (brdattr bp) BRD_HIDE then None
      else if has (brdattr bp) BRD_RESTRICTEDPOST \<and> \<not> hbf i (uid u) then Some RestrictedPost
      else if HasUserPerm u PERM_VIOLATELAW then
        (if has (level bp) PERM_VIOLATELAW then None else Some UnpaidFine)
      else if level bp AND NOT PERM_POST = 0 then None
      else if \<not> HasUserPerm u (level bp AND NOT PERM_POST) then Some LowLevel
      else None)"

definition postperm_msg :: "(int \<Rightarrow> int \<Rightarrow> bool) \<Rightarrow> cstr \<Rightarrow> post_state \<Rightarrow> (deny option \<times> files) option" where
  "postperm_msg hbf bname w =
     Option.bind (getbnum (boards w) bname) (\<lambda>i.
       if i = 0 then Some (Some NoBoard, mutes w)
       else if is_readonly_board bname then Some (Some ReadOnlyBoard, mutes w)
       else if HasUserPerm (user w) PERM_SYSOP then Some (None, mutes w)
       else (case muted_msg bname w of
           (Some m, fs) \<Rightarrow> Some (Some m, fs)
         | (None, fs) \<Rightarrow> Some (postperm_rules hbf (boards w) (user w) bname i, fs)))"

definition haspostperm :: "(int \<Rightarrow> int \<Rightarrow> bool) \<Rightarrow> cstr \<Rightarrow> post_state \<Rightarrow> (bool \<times> files) option" where
  "haspostperm hbf bname w = map_option (\<lambda>(m, fs). (m = None, fs)) (postperm_msg hbf bname w)"

text \<open>The limits of a board; \<open>assess\<close> is whether the program is built with \<open>ASSESS\<close>.\<close>

definition get_restriction_reason :: "bool \<Rightarrow> nat \<Rightarrow> nat \<Rightarrow> nat \<Rightarrow> nat \<Rightarrow> bool" where
  "get_restriction_reason assess logindays bad limits_logins limits_badpost \<longleftrightarrow>
     logindays div 10 < limits_logins \<or> assess \<and> bad > 255 - limits_badpost"

definition CheckPostRestriction :: "bool \<Rightarrow> post_state \<Rightarrow> int \<Rightarrow> bool" where
  "CheckPostRestriction assess w bid =
     (if HasUserPerm (user w) PERM_SYSOP then True
      else if is_board_moderator (boards w) (user w) bid then True
      else \<not> get_restriction_reason assess (numlogindays (user w)) (badpost (user w))
             (unat (post_limit_logins (bcache (boards w) bid))) (unat (post_limit_badpost (bcache (boards w) bid))))"

section \<open>The remembered answer\<close>

definition MODE_POST :: u32 where "MODE_POST = 0x2"
definition MODE_POSTCHECKED :: u32 where "MODE_POSTCHECKED = 0x4"
definition MODE_DIGEST :: u32 where "MODE_DIGEST = 0x20"

definition set_mode :: "u32 \<Rightarrow> post_state \<Rightarrow> post_state" where
  "set_mode m w = w\<lparr>user := user w\<lparr>currmode := m\<rparr>\<rparr>"

definition check_new_perm :: "post_state \<Rightarrow> post_state" where
  "check_new_perm w =
     (if \<not> new_perm w then w
      else w\<lparr>user := user w\<lparr>currmode := currmode (user w) AND NOT MODE_POSTCHECKED, userlevel := disk_level w\<rparr>,
             new_perm := False\<rparr>)"

text \<open>
  The first part of \<open>CheckModifyPerm\<close> while \<open>MODE_POSTCHECKED\<close> is on: it may turn the mode
  off.  The result is the state and \<open>valid_index\<close>.  A board number outside the table is
  \<open>None\<close>.
\<close>

definition recheck :: "post_state \<Rightarrow> (post_state \<times> bool) option" where
  "recheck w =
     (let w1 = (if currbid w \<noteq> last_board_index w
                then (set_mode (currmode (user w) AND NOT MODE_POSTCHECKED) w)\<lparr>last_board_index := 0\<rparr> else w) in
      Option.bind
        (if last_board_index w1 < 1 \<or> last_board_index w1 > int (Bnumber (boards w1))
         then map_option (\<lambda>i. (w1\<lparr>last_board_index := i\<rparr>, True)) (getbnum (boards w1) (currboard w1))
         else Some (w1, False))
        (\<lambda>(w2, valid_index).
           if \<not> (0 \<le> last_board_index w2 - 1 \<and> last_board_index w2 - 1 < MAX_BOARD) then None
           else if perm_reload (bcache (boards w2) (last_board_index w2)) \<noteq> last_chk_time w2
           then Some (set_mode (currmode (user w2) AND NOT MODE_POSTCHECKED) w2, valid_index)
           else Some (w2, valid_index)))"

text \<open>The second part: the rules are consulted.\<close>

definition refill :: "(int \<Rightarrow> int \<Rightarrow> bool) \<Rightarrow> bool \<Rightarrow> post_state \<Rightarrow> (deny option \<times> post_state) option" where
  "refill hbf valid_index w =
     Option.bind
       (if valid_index then Some w else map_option (\<lambda>i. w\<lparr>last_board_index := i\<rparr>) (getbnum (boards w) (currboard w)))
       (\<lambda>w1. if \<not> (1 \<le> last_board_index w1 \<and> last_board_index w1 \<le> MAX_BOARD) then None
         else let w2 = (set_mode (currmode (user w1) OR MODE_POSTCHECKED) w1)
                         \<lparr>last_chk_time := perm_reload (bcache (boards w1) (last_board_index w1))\<rparr> in
           Option.bind (postperm_msg hbf (currboard w2) w2) (\<lambda>(r, fs).
             let w3 = w2\<lparr>last_reason := r, mutes := fs\<rparr> in
             Some (r, if r = None then set_mode (currmode (user w3) OR MODE_POST) w3
                      else set_mode (currmode (user w3) AND NOT MODE_POST) w3)))"

definition CheckModifyPerm :: "(int \<Rightarrow> int \<Rightarrow> bool) \<Rightarrow> post_state \<Rightarrow> (bool \<times> deny option \<times> post_state) option" where
  "CheckModifyPerm hbf w =
     (let w1 = check_new_perm w in
      Option.bind (if has (currmode (user w1)) MODE_POSTCHECKED then recheck w1 else Some (w1, False))
        (\<lambda>(w2, valid_index).
           if \<not> has (currmode (user w2)) MODE_POSTCHECKED
           then map_option (\<lambda>(r, w3). (r = None, r, w3)) (refill hbf valid_index w2)
           else Some (has (currmode (user w2)) MODE_POST, last_reason w2, w2)))"

definition CheckPostPerm2 :: "(int \<Rightarrow> int \<Rightarrow> bool) \<Rightarrow> post_state \<Rightarrow> (bool \<times> deny option \<times> post_state) option" where
  "CheckPostPerm2 hbf w =
     (if has (currmode (user w)) MODE_DIGEST then Some (False, Some InDigest, w) else CheckModifyPerm hbf w)"

section \<open>What others do\<close>

text \<open>\<open>invalid_board_permission_cache\<close>; the board exists.\<close>

definition invalid_board_permission_cache :: "cstr \<Rightarrow> post_state \<Rightarrow> post_state option" where
  "invalid_board_permission_cache board w =
     Option.bind (getbnum (boards w) board) (\<lambda>bid.
       if \<not> (0 \<le> bid - 1 \<and> bid - 1 < MAX_BOARD) then None
       else Some (w\<lparr>boards := boards w\<lparr>bcache := (bcache (boards w))(bid := bcache (boards w) bid\<lparr>perm_reload := now w\<rparr>)\<rparr>\<rparr>))"

text \<open>
  The number of days in \<open>datebuf\<close>, such as \<open>3m\<close>; it has at most seven characters, so
  the product fits an \<open>int\<close>.
\<close>

definition mute_days :: "cstr \<Rightarrow> int" where
  "mute_days d =
     (let val = atoi d; c = to_lower (last d) in if c = 121 then val * 365 else if c = 109 then val * 30 else val)"

text \<open>
  A moderator mutes or unmutes a user: \<open>datebuf\<close>, \<open>reason\<close> and \<open>yes\<close> are what is typed.
  The files can be written; the records of the history and the mail are left out.
\<close>

definition ui_mute_user_for_board :: "cstr \<Rightarrow> cstr \<Rightarrow> cstr \<Rightarrow> cstr \<Rightarrow> bool \<Rightarrow> post_state \<Rightarrow> post_state option" where
  "ui_mute_user_for_board who board datebuf reason yes w =
     (let (e, fs) = is_user_muted_by_board (now w) who board (mutes w);
          w1 = w\<lparr>mutes := fs\<rparr>;
          d = trim datebuf in
      if e \<noteq> 0 then Some w1
      else if d = [] then Some w1
      else if mute_days d < 1 then Some w1
      else (case time4_add_sec (now w) (mute_days d * 86400) of
          None \<Rightarrow> Some w1
        | Some expire \<Rightarrow>
            (if reason = [] \<or> \<not> yes then Some w1
             else invalid_board_permission_cache board (w1\<lparr>mutes := mute_user_for_board who board expire reason fs\<rparr>))))"

definition ui_unmute_user_for_board :: "cstr \<Rightarrow> cstr \<Rightarrow> cstr \<Rightarrow> bool \<Rightarrow> post_state \<Rightarrow> post_state option" where
  "ui_unmute_user_for_board who board reason yes w =
     (let (e, fs) = is_user_muted_by_board (now w) who board (mutes w);
          w1 = w\<lparr>mutes := fs\<rparr> in
      if e = 0 then Some w1
      else if reason = [] \<or> \<not> yes then Some w1
      else invalid_board_permission_cache board (w1\<lparr>mutes := snd (unmute_user_for_board who board fs)\<rparr>))"

text \<open>The settings of a board are edited in a copy of its header and saved at the end.\<close>

definition bcfg_set_hide :: "u32 \<Rightarrow> boardheader_t \<Rightarrow> boardheader_t" where
  "bcfg_set_hide t bp =
     bp\<lparr>brdattr := (if has (brdattr bp) BRD_HIDE then brdattr bp AND NOT BRD_HIDE AND NOT BRD_POSTMASK
                    else brdattr bp OR BRD_HIDE OR BRD_POSTMASK), perm_reload := t\<rparr>"

definition bcfg_set_restrictedpost :: "boardheader_t \<Rightarrow> boardheader_t" where
  "bcfg_set_restrictedpost bp = bp\<lparr>brdattr := brdattr bp XOR BRD_RESTRICTEDPOST\<rparr>"

definition modify_boardheader :: "boardheader_t \<Rightarrow> int \<Rightarrow> post_state \<Rightarrow> post_state" where
  "modify_boardheader bh bid w =
     (if bid < 1 \<or> bid > MAX_BOARD then w else w\<lparr>boards := boards w\<lparr>bcache := (bcache (boards w))(bid := bh)\<rparr>\<rparr>)"

text \<open>
  The steps that are interleaved: time passes; another session mutes or unmutes a user, or
  hides or shows a board, at a later second than the last such change of that board;
  the level of the user is changed on disk with an alert; the session enters a board or
  checks its permission.
\<close>

definition name_ok :: "cstr \<Rightarrow> bool" where
  "name_ok n \<longleftrightarrow> n \<noteq> [] \<and> length n \<le> 12 \<and> 47 \<notin> set n"

inductive pstep :: "(int \<Rightarrow> int \<Rightarrow> bool) \<Rightarrow> post_state \<Rightarrow> post_state \<Rightarrow> bool" for hbf where
  tick: "now w \<le> t \<Longrightarrow> pstep hbf w (w\<lparr>now := t\<rparr>)"
| mute: "name_ok who \<Longrightarrow> name_ok b \<Longrightarrow> getbnum (boards w) b = Some i \<Longrightarrow> perm_reload (bcache (boards w) i) < now w \<Longrightarrow>
    ui_mute_user_for_board who b datebuf reason yes w = Some w' \<Longrightarrow> pstep hbf w w'"
| unmute: "name_ok who \<Longrightarrow> name_ok b \<Longrightarrow> getbnum (boards w) b = Some i \<Longrightarrow> perm_reload (bcache (boards w) i) < now w \<Longrightarrow>
    ui_unmute_user_for_board who b reason yes w = Some w' \<Longrightarrow> pstep hbf w w'"
| hide: "perm_reload (bcache (boards w) i) < now w \<Longrightarrow>
    pstep hbf w (modify_boardheader (bcfg_set_hide (now w) (bcache (boards w) i)) i w)"
| level: "pstep hbf w (w\<lparr>disk_level := l, new_perm := True\<rparr>)"
| enter: "getbnum (boards w) b = Some i \<Longrightarrow> 1 \<le> i \<Longrightarrow> i \<le> MAX_BOARD \<Longrightarrow> name_ok (brdname (bcache (boards w) i)) \<Longrightarrow>
    getbnum (boards w) (brdname (bcache (boards w) i)) = Some i \<Longrightarrow> HasBoardPerm hbf (boards w) (user w) i \<noteq> 0 \<Longrightarrow>
    pstep hbf w (w\<lparr>user := set_board (boards w) i (user w), currbid := i, currboard := brdname (bcache (boards w) i)\<rparr>)"
| check: "CheckPostPerm2 hbf w = Some (ok, r, w') \<Longrightarrow> pstep hbf w w'"

section \<open>The files of mutes\<close>

lemma strlcat_fits: "length d + length s < n \<Longrightarrow> strlcat n d s = d @ s"
  by (simp add: strlcat_def)

lemma tag_eq:
  assumes "name_ok who" "name_ok board"
  shows "bakuman_make_tag_filename who board t =
    [104, 111, 109, 101, 47, hd0 who, 47] @ who @ [47, 109, 117, 116, 101, 100, 47, t, 95] @ board"
proof -
  have l: "length who \<le> 12" "length board \<le> 12" using assms by (simp_all add: name_ok_def)
  then have h: "sethomefile who [109, 117, 116, 101, 100, 47] = [104, 111, 109, 101, 47, hd0 who, 47] @ who @ [47, 109, 117, 116, 101, 100, 47]"
    unfolding sethomefile_def by (subst take_all) (simp_all add: CFG_PATHLEN_def)
  show ?thesis unfolding bakuman_make_tag_filename_def h using l by (subst strlcat_fits; simp add: CFG_PATHLEN_def strlcat_fits)
qed

lemma takeWhile_sep: "c \<notin> set a \<Longrightarrow> takeWhile (\<lambda>x. x \<noteq> c) (a @ c # x) = a"
  by (induction a) auto

lemma tag_inj:
  assumes "name_ok a" "name_ok b" "name_ok a'" "name_ok b'"
  shows "bakuman_make_tag_filename a b t = bakuman_make_tag_filename a' b' t \<longleftrightarrow> a = a' \<and> b = b'"
proof -
  have "a = a'" if "a @ 47 # x = a' @ 47 # y" for x y
  proof -
    have "takeWhile (\<lambda>c. c \<noteq> 47) (a @ 47 # x) = a" "takeWhile (\<lambda>c. c \<noteq> 47) (a' @ 47 # y) = a'"
      using assms(1,3) by (simp_all add: name_ok_def takeWhile_sep)
    then show ?thesis using that by simp
  qed
  then show ?thesis by (auto simp: tag_eq assms)
qed

lemma fmt_u_not: "c \<in> set (fmt_u w) \<Longrightarrow> c \<noteq> 10 \<and> c \<noteq> 0"
proof -
  assume "c \<in> set (fmt_u w)"
  then obtain d where "d < 10" "c = digit_chr d" using digits_of_digits [of 10 c "unat w"] by (auto simp: fmt_u_def)
  then show ?thesis using digit_chr_val(2,8) [of d] by (auto simp: is_space_def)
qed

lemma fgets_line:
  assumes "10 \<notin> set l" "0 \<notin> set l" "Suc (length l) < n"
  shows "fgets_all n (l @ 10 # r) = (l @ [10]) # fgets_all n r"
proof -
  have "memchr 10 (l @ 10 # r) = Some (length l)" using assms(1) by (induction l) auto
  then have "fgets_len n (l @ 10 # r) = Suc (length l)" using assms(3) by (simp add: fgets_len_def)
  moreover have "takeWhile (\<lambda>c. c \<noteq> 0) (l @ [10]) = l @ [10]" using assms(2) by (auto simp: takeWhile_eq_all_conv)
  ultimately show ?thesis using assms(3) by (subst fgets_all.simps) auto
qed

lemma chomp_line: "10 \<notin> set l \<Longrightarrow> chomp (l @ [10]) = l"
  by (induction l) auto

lemma set_info_lines:
  "fgets_all STRLEN (bakuman_set_info expire reason) = (fmt_u expire @ [10]) # fgets_all STRLEN (reason @ [10])"
proof -
  have "Suc (length (fmt_u expire)) < STRLEN" using fmt_u_length [of expire] by (simp add: STRLEN_def)
  then show ?thesis using fgets_line [of "fmt_u expire" STRLEN "reason @ [10]"] fmt_u_not by (auto simp: bakuman_set_info_def)
qed

lemma get_info_time: "fst (bakuman_get_info (bakuman_set_info expire reason)) = expire"
  using fmt_u_value [of "[10]" expire]
  by (simp add: bakuman_get_info_def set_info_lines digit_val_def is_digit_def is_lower_def is_upper_def)

lemma get_info_reason:
  assumes "10 \<notin> set reason" "0 \<notin> set reason" "length reason < 79"
  shows "snd (bakuman_get_info (bakuman_set_info expire reason)) = reason"
proof -
  have "fgets_all STRLEN (reason @ [10]) = [reason @ [10]]"
    using fgets_line [of reason STRLEN "[]"] assms by (simp add: STRLEN_def fgets_all.simps [of _ "[]"])
  then show ?thesis using chomp_line [OF assms(1)] by (simp add: bakuman_get_info_def set_info_lines)
qed

section \<open>The answer of the rules\<close>

text \<open>The answer itself, apart from the removal of a file.\<close>

definition muted :: "post_state \<Rightarrow> cstr \<Rightarrow> deny option" where
  "muted w bname = fst (muted_msg bname w)"

definition answer :: "(int \<Rightarrow> int \<Rightarrow> bool) \<Rightarrow> post_state \<Rightarrow> deny option" where
  "answer hbf w =
     (if is_readonly_board (currboard w) then Some ReadOnlyBoard
      else if HasUserPerm (user w) PERM_SYSOP then None
      else case muted w (currboard w) of
        Some m \<Rightarrow> Some m
      | None \<Rightarrow> postperm_rules hbf (boards w) (user w) (currboard w) (currbid w))"

definition in_board :: "post_state \<Rightarrow> bool" where
  "in_board w \<longleftrightarrow> name_ok (currboard w) \<and> getbnum (boards w) (currboard w) = Some (currbid w) \<and>
     1 \<le> currbid w \<and> currbid w \<le> MAX_BOARD"

lemma postperm_answer:
  assumes "in_board w"
  shows "\<exists>fs. postperm_msg hbf (currboard w) w = Some (answer hbf w, fs) \<and> (fs = mutes w \<or> fs = snd (is_user_muted_by_board (now w) (userid w) (currboard w) (mutes w)))"
  using assms
  by (auto simp: postperm_msg_def answer_def in_board_def muted_def muted_msg_def split: prod.split option.split)

text \<open>What the answer depends on.\<close>

lemma muted_cong:
  assumes "now w = now w'" "userid w = userid w'"
    "mutes w (bakuman_make_tag_filename (userid w) b 98) = mutes w' (bakuman_make_tag_filename (userid w) b 98)"
  shows "muted w b = muted w' b"
  using assms by (simp add: muted_def muted_msg_def is_user_muted_by_board_def is_muted_by_def Let_def split: option.split)

lemma muted_None_later:
  assumes "muted w b = None" "now w \<le> t"
  shows "muted (w\<lparr>now := t\<rparr>) b = None"
  using assms
  by (auto simp: muted_def muted_msg_def is_user_muted_by_board_def is_muted_by_def Let_def time4_gt_def
      split: option.splits if_splits)

lemma muted_is: "muted w b = Some m \<Longrightarrow> \<exists>d. m = IsMuted d"
  by (auto simp: muted_def muted_msg_def Let_def split: prod.splits if_splits)

text \<open>A query removes only what has run out.\<close>

lemma muted_removed:
  assumes "fs = snd (is_user_muted_by_board (now w) who b (mutes w))"
  shows "muted (w\<lparr>mutes := fs\<rparr>) c = muted w c"
  using assms
  by (auto simp: muted_def muted_msg_def is_user_muted_by_board_def is_muted_by_def Let_def time4_gt_def
      split: option.splits if_splits prod.splits)

lemma getbnum_loop_cong:
  assumes "\<And>b. brdname (bcache s b) = brdname (bcache s' b)" "bsorted s = bsorted s'"
  shows "getbnum_loop s bname x y = getbnum_loop s' bname x y"
proof (induction "y - x" arbitrary: x y rule: less_induct)
  case less
  have IH: "getbnum_loop s bname x' y' = getbnum_loop s' bname x' y'" if "y' - x' < y - x" for x' y' using less that by blast
  show ?case
    by (subst (1 2) getbnum_loop.simps) (auto simp: Let_def assms IH intro!: IH)
qed

lemma getbnum_cong:
  assumes "\<And>b. brdname (bcache s b) = brdname (bcache s' b)" "bsorted s = bsorted s'" "Bnumber s = Bnumber s'"
  shows "getbnum s bname = getbnum s' bname"
  using assms(3) getbnum_loop_cong [OF assms(1,2)] by (simp add: getbnum_def)

lemma muted_same: "muted (set_mode m w) b = muted w b"
  by (rule muted_cong) (simp_all add: set_mode_def)

lemma set_mode_sel [simp]:
  "boards (set_mode m w) = boards w" "mutes (set_mode m w) = mutes w" "now (set_mode m w) = now w" "userid (set_mode m w) = userid w"
  "disk_level (set_mode m w) = disk_level w" "new_perm (set_mode m w) = new_perm w" "currbid (set_mode m w) = currbid w"
  "currboard (set_mode m w) = currboard w" "last_chk_time (set_mode m w) = last_chk_time w"
  "last_board_index (set_mode m w) = last_board_index w" "last_reason (set_mode m w) = last_reason w"
  "currmode (user (set_mode m w)) = m" "userlevel (user (set_mode m w)) = userlevel (user w)"
  "list_groupop (user (set_mode m w)) = list_groupop (user w)" "uid (user (set_mode m w)) = uid (user w)"
  by (simp_all add: set_mode_def)

lemma answer_cong:
  assumes "HasUserPerm (user w') = HasUserPerm (user w)" "uid (user w') = uid (user w)" "currboard w' = currboard w"
    "currbid w' = currbid w" "muted w' (currboard w) = muted w (currboard w)"
    "bcache (boards w') (currbid w) = bcache (boards w) (currbid w)"
  shows "answer hbf w' = answer hbf w"
  using assms by (simp add: answer_def postperm_rules_def Let_def cong: option.case_cong if_cong)

lemma HasUserPerm_mode: "HasUserPerm (u\<lparr>currmode := m\<rparr>) = HasUserPerm u"
  by (simp add: HasUserPerm_def fun_eq_iff)

lemma answer_mode [simp]: "answer hbf (set_mode m w) = answer hbf w"
  by (rule answer_cong) (simp_all add: muted_same, simp add: set_mode_def HasUserPerm_mode)

lemma answer_vars [simp]:
  "answer hbf (w\<lparr>last_chk_time := a\<rparr>) = answer hbf w" "answer hbf (w\<lparr>last_board_index := b\<rparr>) = answer hbf w"
  "answer hbf (w\<lparr>last_reason := r\<rparr>) = answer hbf w" "answer hbf (w\<lparr>disk_level := l\<rparr>) = answer hbf w"
  "answer hbf (w\<lparr>new_perm := p\<rparr>) = answer hbf w"
  by (rule answer_cong; (rule muted_cong)?; simp)+

lemma in_board_vars [simp]:
  "in_board (w\<lparr>last_chk_time := a\<rparr>) = in_board w" "in_board (w\<lparr>last_board_index := b\<rparr>) = in_board w"
  "in_board (w\<lparr>last_reason := r\<rparr>) = in_board w" "in_board (w\<lparr>mutes := fs\<rparr>) = in_board w" "in_board (set_mode m w) = in_board w"
  "in_board (w\<lparr>disk_level := l\<rparr>) = in_board w" "in_board (w\<lparr>new_perm := p\<rparr>) = in_board w" "in_board (w\<lparr>now := t\<rparr>) = in_board w"
  "in_board (w\<lparr>user := u\<rparr>) = in_board w"
  by (simp_all add: in_board_def)

section \<open>The invariant\<close>

text \<open>What is remembered is right while nothing was announced.\<close>

definition remembered :: "(int \<Rightarrow> int \<Rightarrow> bool) \<Rightarrow> post_state \<Rightarrow> bool" where
  "remembered hbf w \<longleftrightarrow>
     last_board_index w = currbid w \<and> last_chk_time w \<le> perm_reload (bcache (boards w) (currbid w)) \<and>
     (has (currmode (user w)) MODE_POST \<longleftrightarrow> last_reason w = None) \<and>
     (perm_reload (bcache (boards w) (currbid w)) = last_chk_time w \<longrightarrow>
        (\<exists>d. last_reason w = Some (IsMuted d)) \<or> answer hbf w = last_reason w)"

definition pinv :: "(int \<Rightarrow> int \<Rightarrow> bool) \<Rightarrow> post_state \<Rightarrow> bool" where
  "pinv hbf w \<longleftrightarrow> in_board w \<and> name_ok (userid w) \<and> sub (list_groupop (user w)) GROUP_MODES \<and>
     (\<not> new_perm w \<longrightarrow> userlevel (user w) = disk_level w) \<and>
     (has (currmode (user w)) MODE_POSTCHECKED \<longrightarrow> remembered hbf w)"

lemma post_bits:
  "has m MODE_POST \<longleftrightarrow> bit m 1" "has m MODE_POSTCHECKED \<longleftrightarrow> bit m 2" "has m MODE_DIGEST \<longleftrightarrow> bit m 5"
proof -
  have e: "MODE_POST = 2 ^ 1" "MODE_POSTCHECKED = 2 ^ 2" "MODE_DIGEST = 2 ^ 5"
    by (simp_all add: MODE_POST_def MODE_POSTCHECKED_def MODE_DIGEST_def)
  show "has m MODE_POST \<longleftrightarrow> bit m 1" "has m MODE_POSTCHECKED \<longleftrightarrow> bit m 2" "has m MODE_DIGEST \<longleftrightarrow> bit m 5"
    unfolding has_def e and_exp_eq_0_iff_not_bit by simp_all
qed

lemma post_modes [simp]:
  "has (m OR MODE_POSTCHECKED) MODE_POSTCHECKED" "\<not> has (m AND NOT MODE_POSTCHECKED) MODE_POSTCHECKED"
  "has (m OR MODE_POST) MODE_POST" "\<not> has (m AND NOT MODE_POST) MODE_POST"
  "has (m OR MODE_POST) MODE_POSTCHECKED = has m MODE_POSTCHECKED" "has (m AND NOT MODE_POST) MODE_POSTCHECKED = has m MODE_POSTCHECKED"
  "has (m OR MODE_POST) MODE_DIGEST = has m MODE_DIGEST" "has (m AND NOT MODE_POST) MODE_DIGEST = has m MODE_DIGEST"
  "has (m OR MODE_POSTCHECKED) MODE_DIGEST = has m MODE_DIGEST" "has (m AND NOT MODE_POSTCHECKED) MODE_DIGEST = has m MODE_DIGEST"
  by (simp_all add: post_bits bit_simps) (simp_all add: MODE_POST_def MODE_POSTCHECKED_def)

text \<open>
  Another session changes a header or a file: either the board of the session gets a later
  \<open>perm_reload\<close>, or nothing that counts for it changes.
\<close>

definition by_other :: "post_state \<Rightarrow> post_state \<Rightarrow> bool" where
  "by_other w w' \<longleftrightarrow>
     w' = w\<lparr>boards := boards w', mutes := mutes w'\<rparr> \<and>
     (\<forall>b. brdname (bcache (boards w) b) = brdname (bcache (boards w') b)) \<and>
     bsorted (boards w) = bsorted (boards w') \<and> Bnumber (boards w) = Bnumber (boards w') \<and>
     (perm_reload (bcache (boards w) (currbid w)) < perm_reload (bcache (boards w') (currbid w)) \<or>
      bcache (boards w') (currbid w) = bcache (boards w) (currbid w) \<and> muted w' (currboard w) = muted w (currboard w))"

lemma by_other_pinv:
  assumes "pinv hbf w" "by_other w w'"
  shows "pinv hbf w'"
proof -
  have e: "w' = w\<lparr>boards := boards w', mutes := mutes w'\<rparr>" using assms(2) by (simp add: by_other_def)
  have s: "user w' = user w" "currbid w' = currbid w" "currboard w' = currboard w" "last_board_index w' = last_board_index w"
    "last_chk_time w' = last_chk_time w" "last_reason w' = last_reason w" "userid w' = userid w" "new_perm w' = new_perm w"
    "disk_level w' = disk_level w"
    by (subst e, simp)+
  have "getbnum (boards w') (currboard w) = getbnum (boards w) (currboard w)"
    using assms(2) getbnum_cong [of "boards w" "boards w'" "currboard w"] by (simp add: by_other_def)
  moreover have "remembered hbf w'" if r: "remembered hbf w"
  proof (cases "perm_reload (bcache (boards w) (currbid w)) < perm_reload (bcache (boards w') (currbid w))")
    case True
    moreover have "last_chk_time w \<le> perm_reload (bcache (boards w) (currbid w))" using r by (simp add: remembered_def)
    ultimately show ?thesis using r by (auto simp: remembered_def s)
  next
    case False
    then have "bcache (boards w') (currbid w) = bcache (boards w) (currbid w)" "muted w' (currboard w) = muted w (currboard w)"
      using assms(2) by (auto simp: by_other_def)
    then show ?thesis using r answer_cong [of w' w hbf] by (auto simp: remembered_def s)
  qed
  ultimately show ?thesis using assms(1) by (auto simp: pinv_def in_board_def s)
qed

lemma invalid_is:
  assumes "invalid_board_permission_cache b w = Some w'"
  shows "\<exists>i. getbnum (boards w) b = Some i \<and>
    w' = w\<lparr>boards := boards w\<lparr>bcache := (bcache (boards w))(i := bcache (boards w) i\<lparr>perm_reload := now w\<rparr>)\<rparr>\<rparr>"
  using assms by (auto simp: invalid_board_permission_cache_def Let_def split: bind_splits if_splits)

text \<open>A change of one file, announced for its board.\<close>

lemma announced_by_other:
  assumes "name_ok who" "name_ok b" "getbnum (boards w) b = Some i" "perm_reload (bcache (boards w) i) < now w"
    "name_ok (userid w)" "in_board w" "fs = snd (is_user_muted_by_board (now w) who b (mutes w))"
    "invalid_board_permission_cache b (w\<lparr>mutes := fs(bakuman_make_tag_filename who b 98 := c)\<rparr>) = Some w'"
  shows "by_other w w'"
proof -
  let ?fs = "fs(bakuman_make_tag_filename who b 98 := c)"
  have w': "w' = w\<lparr>mutes := ?fs, boards := boards w\<lparr>bcache := (bcache (boards w))(i := bcache (boards w) i\<lparr>perm_reload := now w\<rparr>)\<rparr>\<rparr>"
    using invalid_is [OF assms(8)] assms(3) by auto
  have "muted w' (currboard w) = muted w (currboard w)" if "i \<noteq> currbid w"
  proof -
    have "b \<noteq> currboard w" using that assms(3,6) by (auto simp: in_board_def)
    then have "bakuman_make_tag_filename who b 98 \<noteq> bakuman_make_tag_filename (userid w) (currboard w) 98"
      using tag_inj [of who b "userid w" "currboard w" 98] assms by (auto simp: in_board_def)
    then have "muted w' (currboard w) = muted (w\<lparr>mutes := fs\<rparr>) (currboard w)" by (intro muted_cong) (simp_all add: w')
    then show ?thesis using muted_removed [OF assms(7)] by simp
  qed
  then show ?thesis using assms(4) by (auto simp: by_other_def w')
qed

lemma queried_by_other:
  "by_other w (w\<lparr>mutes := snd (is_user_muted_by_board (now w) who b (mutes w))\<rparr>)"
  using muted_removed [OF refl, of w who b "currboard w"] by (simp add: by_other_def)

lemma mute_by_other:
  assumes "name_ok who" "name_ok b" "getbnum (boards w) b = Some i" "perm_reload (bcache (boards w) i) < now w"
    "pinv hbf w" "ui_mute_user_for_board who b datebuf reason yes w = Some w'"
  shows "by_other w w'"
proof -
  obtain e fs where q: "is_user_muted_by_board (now w) who b (mutes w) = (e, fs)" by fastforce
  note pi = assms(5) [unfolded pinv_def]
  from assms(6) consider "Some (w\<lparr>mutes := fs\<rparr>) = Some w'" | expire where
      "invalid_board_permission_cache b (w\<lparr>mutes := mute_user_for_board who b expire reason fs\<rparr>) = Some w'"
    by (simp only: ui_mute_user_for_board_def q Let_def prod.case split: if_split_asm option.split_asm) simp
  then show ?thesis
  proof cases
    case 1
    then have "w' = w\<lparr>mutes := fs\<rparr>" by simp
    then show ?thesis using queried_by_other [of w who b] by (simp only: q snd_conv)
  next
    case 2
    then show ?thesis using announced_by_other [OF assms(1-4), of fs "Some (bakuman_set_info expire reason)"] pi
      by (simp add: q mute_user_for_board_def)
  qed
qed

lemma unmute_by_other:
  assumes "name_ok who" "name_ok b" "getbnum (boards w) b = Some i" "perm_reload (bcache (boards w) i) < now w"
    "pinv hbf w" "ui_unmute_user_for_board who b reason yes w = Some w'"
  shows "by_other w w'"
proof -
  obtain e fs where q: "is_user_muted_by_board (now w) who b (mutes w) = (e, fs)" by fastforce
  note pi = assms(5) [unfolded pinv_def]
  from assms(6) consider "Some (w\<lparr>mutes := fs\<rparr>) = Some w'" |
      "invalid_board_permission_cache b (w\<lparr>mutes := snd (unmute_user_for_board who b fs)\<rparr>) = Some w'"
    by (simp only: ui_unmute_user_for_board_def q Let_def prod.case split: if_split_asm) simp
  then show ?thesis
  proof cases
    case 1
    then have "w' = w\<lparr>mutes := fs\<rparr>" by simp
    then show ?thesis using queried_by_other [of w who b] by (simp only: q snd_conv)
  next
    case 2
    then show ?thesis using announced_by_other [OF assms(1-4), of fs None] pi
      by (simp add: q unmute_user_for_board_def Let_def)
  qed
qed

lemma hide_by_other:
  assumes "perm_reload (bcache (boards w) i) < now w"
  shows "by_other w (modify_boardheader (bcfg_set_hide (now w) (bcache (boards w) i)) i w)"
  using assms by (auto simp: by_other_def modify_boardheader_def bcfg_set_hide_def intro: muted_cong)

lemma tick_pinv:
  assumes "pinv hbf w" "now w \<le> t"
  shows "pinv hbf (w\<lparr>now := t\<rparr>)"
proof -
  let ?w = "w\<lparr>now := t\<rparr>"
  have "answer hbf ?w = last_reason w" if a: "answer hbf w = last_reason w" and n: "\<nexists>d. last_reason w = Some (IsMuted d)"
  proof (cases "is_readonly_board (currboard w) \<or> HasUserPerm (user w) PERM_SYSOP")
    case True
    then show ?thesis using a by (auto simp: answer_def)
  next
    case False
    have m: "muted w (currboard w) = None"
    proof (rule ccontr)
      assume "muted w (currboard w) \<noteq> None"
      then obtain d where "muted w (currboard w) = Some (IsMuted d)" using muted_is by blast
      then have "answer hbf w = Some (IsMuted d)" using False by (simp add: answer_def)
      then show False using a n by simp
    qed
    then show ?thesis using a answer_cong [of ?w w hbf] muted_None_later [OF m assms(2)] by simp
  qed
  then show ?thesis using assms(1) by (auto simp: pinv_def remembered_def)
qed

section \<open>A check\<close>

lemma answer_mutes:
  "fs = mutes w \<or> fs = snd (is_user_muted_by_board (now w) (userid w) (currboard w) (mutes w)) \<Longrightarrow>
   answer hbf (w\<lparr>mutes := fs\<rparr>) = answer hbf w"
  using muted_removed [OF refl, of w "userid w" "currboard w" "currboard w"] by (intro answer_cong) auto

lemma refill_answer:
  assumes "in_board w" "valid_index \<Longrightarrow> last_board_index w = currbid w"
  shows "\<exists>w'. refill hbf valid_index w = Some (answer hbf w, w') \<and> in_board w' \<and> answer hbf w' = answer hbf w \<and>
    remembered hbf w' \<and> userid w' = userid w \<and> list_groupop (user w') = list_groupop (user w) \<and>
    userlevel (user w') = userlevel (user w) \<and> disk_level w' = disk_level w \<and> new_perm w' = new_perm w \<and>
    boards w' = boards w \<and> now w' = now w \<and> currboard w' = currboard w \<and> currbid w' = currbid w \<and>
    last_chk_time w' = perm_reload (bcache (boards w) (currbid w)) \<and> has (currmode (user w')) MODE_POSTCHECKED \<and>
    last_reason w' = answer hbf w \<and> has (currmode (user w')) MODE_DIGEST = has (currmode (user w)) MODE_DIGEST"
proof -
  define w1 where "w1 = w\<lparr>last_board_index := currbid w\<rparr>"
  define w2 where "w2 = (set_mode (currmode (user w1) OR MODE_POSTCHECKED) w1)
      \<lparr>last_chk_time := perm_reload (bcache (boards w1) (last_board_index w1))\<rparr>"
  have bd: "1 \<le> currbid w" "currbid w \<le> MAX_BOARD" "getbnum (boards w) (currboard w) = Some (currbid w)"
    using assms(1) by (simp_all add: in_board_def)
  have ib: "in_board w2" and a2: "answer hbf w2 = answer hbf w" using assms(1) by (simp_all add: w2_def w1_def)
  obtain fs where fs: "postperm_msg hbf (currboard w2) w2 = Some (answer hbf w2, fs)"
      "fs = mutes w2 \<or> fs = snd (is_user_muted_by_board (now w2) (userid w2) (currboard w2) (mutes w2))"
    using postperm_answer [OF ib] by blast
  define w3 where "w3 = w2\<lparr>last_reason := answer hbf w2, mutes := fs\<rparr>"
  have a3: "answer hbf w3 = answer hbf w" using answer_mutes [OF fs(2), of hbf] a2
    by (subst answer_cong [of w3 "w2\<lparr>mutes := fs\<rparr>"]) (simp_all add: w3_def muted_cong)
  define w4 where "w4 = (if answer hbf w2 = None then set_mode (currmode (user w3) OR MODE_POST) w3
      else set_mode (currmode (user w3) AND NOT MODE_POST) w3)"
  have "(if valid_index then Some w else map_option (\<lambda>i. w\<lparr>last_board_index := i\<rparr>) (getbnum (boards w) (currboard w))) = Some w1"
    using assms(2) bd(3) by (auto simp: w1_def)
  then have "refill hbf valid_index w = Some (answer hbf w2, w4)"
    using bd(1,2) fs(1) by (simp add: refill_def w2_def [symmetric] Let_def)
      (simp add: w1_def w4_def w3_def)
  moreover have "in_board w4" "answer hbf w4 = answer hbf w" "remembered hbf w4" "userid w4 = userid w"
      "list_groupop (user w4) = list_groupop (user w)" "userlevel (user w4) = userlevel (user w)"
      "disk_level w4 = disk_level w" "new_perm w4 = new_perm w" "boards w4 = boards w" "now w4 = now w"
      "currboard w4 = currboard w" "currbid w4 = currbid w" "has (currmode (user w4)) MODE_POSTCHECKED"
      "last_chk_time w4 = perm_reload (bcache (boards w) (currbid w))" "last_reason w4 = answer hbf w"
      "has (currmode (user w4)) MODE_DIGEST = has (currmode (user w)) MODE_DIGEST"
    using ib a3 a2 by (simp_all add: w4_def remembered_def) (simp_all add: w3_def w2_def w1_def)
  ultimately show ?thesis using a2 by auto
qed

lemma recheck_same:
  assumes "in_board w" "last_board_index w = currbid w"
  shows "\<exists>v. recheck w = Some (if perm_reload (bcache (boards w) (currbid w)) = last_chk_time w then w
      else set_mode (currmode (user w) AND NOT MODE_POSTCHECKED) w, v)"
proof -
  note l = assms(2)
  have e: "w\<lparr>last_board_index := currbid w\<rparr> = w" using l by (cases w) simp
  show ?thesis using assms(1) l
    by (auto simp: recheck_def in_board_def Let_def e)
qed

lemma check_new_perm_pinv:
  assumes "pinv hbf w"
  shows "pinv hbf (check_new_perm w)" "\<not> new_perm (check_new_perm w)" "boards (check_new_perm w) = boards w"
    "now (check_new_perm w) = now w" "currboard (check_new_perm w) = currboard w" "currbid (check_new_perm w) = currbid w"
    "last_reason (check_new_perm w) = last_reason w"
    "has (currmode (user (check_new_perm w))) MODE_DIGEST = has (currmode (user w)) MODE_DIGEST"
  using assms by (auto simp: pinv_def check_new_perm_def)

text \<open>A remembered answer is returned as it is.\<close>

lemma check_remembered:
  assumes "in_board w" "last_board_index w = currbid w" "\<not> new_perm w" "has (currmode (user w)) MODE_POSTCHECKED"
    "perm_reload (bcache (boards w) (currbid w)) = last_chk_time w"
  shows "CheckModifyPerm hbf w = Some (has (currmode (user w)) MODE_POST, last_reason w, w)"
proof -
  obtain v where "recheck w = Some (w, v)" using recheck_same [OF assms(1,2)] assms(5) by auto
  then show ?thesis using assms(3,4) by (simp add: CheckModifyPerm_def check_new_perm_def)
qed

definition checked :: "(int \<Rightarrow> int \<Rightarrow> bool) \<Rightarrow> post_state \<Rightarrow> post_state \<Rightarrow> deny option \<Rightarrow> bool" where
  "checked hbf w w' r \<longleftrightarrow> pinv hbf w' \<and> \<not> new_perm w' \<and> boards w' = boards w \<and> now w' = now w \<and>
     currboard w' = currboard w \<and> currbid w' = currbid w \<and> (answer hbf w' = r \<or> (\<exists>d. r = Some (IsMuted d)) \<and> last_reason w = r) \<and>
     has (currmode (user w')) MODE_POSTCHECKED \<and> last_chk_time w' = perm_reload (bcache (boards w') (currbid w')) \<and>
     last_reason w' = r \<and> has (currmode (user w')) MODE_DIGEST = has (currmode (user w)) MODE_DIGEST"

lemma check_result:
  assumes "pinv hbf w"
  shows "\<exists>r w'. CheckModifyPerm hbf w = Some (r = None, r, w') \<and> checked hbf w w' r"
proof -
  define w1 where "w1 = check_new_perm w"
  note p1 = check_new_perm_pinv [OF assms, folded w1_def]
  have r: "in_board w1" "has (currmode (user w1)) MODE_POSTCHECKED \<longrightarrow> remembered hbf w1" using p1 by (simp_all add: pinv_def)
  have same: "CheckModifyPerm hbf w = CheckModifyPerm hbf w1" using p1(2) by (simp add: CheckModifyPerm_def w1_def check_new_perm_def)
  show ?thesis
  proof (cases "has (currmode (user w1)) MODE_POSTCHECKED \<and> perm_reload (bcache (boards w1) (currbid w1)) = last_chk_time w1")
    case True
    then have m: "remembered hbf w1" using r(2) by blast
    then have "CheckModifyPerm hbf w1 = Some (has (currmode (user w1)) MODE_POST, last_reason w1, w1)"
      using check_remembered [OF r(1) _ p1(2)] True by (simp add: remembered_def)
    then show ?thesis using m p1 True by (auto simp: same remembered_def checked_def)
  next
    case False
    obtain w2 v where w2: "(if has (currmode (user w1)) MODE_POSTCHECKED then recheck w1 else Some (w1, False)) = Some (w2, v)"
        "w2 = w1 \<or> w2 = set_mode (currmode (user w1) AND NOT MODE_POSTCHECKED) w1" "\<not> has (currmode (user w2)) MODE_POSTCHECKED"
        "v \<longrightarrow> last_board_index w2 = currbid w2"
    proof (cases "has (currmode (user w1)) MODE_POSTCHECKED")
      case True
      then show ?thesis using recheck_same [OF r(1)] r(2) False that by (auto simp: remembered_def)
    next
      case False
      then show ?thesis using that by simp
    qed
    have "in_board w2" using w2(2) r(1) by auto
    from refill_answer [OF this, of v hbf] w2(4) obtain w3 where w3: "refill hbf v w2 = Some (answer hbf w2, w3)"
      "in_board w3" "answer hbf w3 = answer hbf w2" "remembered hbf w3" "userid w3 = userid w2"
      "list_groupop (user w3) = list_groupop (user w2)" "userlevel (user w3) = userlevel (user w2)"
      "disk_level w3 = disk_level w2" "new_perm w3 = new_perm w2" "boards w3 = boards w2" "now w3 = now w2"
      "currboard w3 = currboard w2" "currbid w3 = currbid w2" "has (currmode (user w3)) MODE_POSTCHECKED"
      "last_chk_time w3 = perm_reload (bcache (boards w2) (currbid w2))" "last_reason w3 = answer hbf w2"
      "has (currmode (user w3)) MODE_DIGEST = has (currmode (user w2)) MODE_DIGEST" by blast
    have "CheckModifyPerm hbf w = Some (answer hbf w2 = None, answer hbf w2, w3)"
      using w2(3) by (simp add: CheckModifyPerm_def w1_def [symmetric] w2(1) w3(1) Let_def)
    moreover have "checked hbf w w3 (answer hbf w2)" using w2(2) w3 p1 by (auto simp: pinv_def checked_def)
    ultimately show ?thesis by auto
  qed
qed

lemma check_pinv:
  assumes "pinv hbf w" "CheckPostPerm2 hbf w = Some (ok, r, w')"
  shows "pinv hbf w'"
  using assms check_result [OF assms(1)] by (auto simp: CheckPostPerm2_def checked_def split: if_splits)

lemma set_board_post:
  assumes "sub (list_groupop u) GROUP_MODES"
  shows "\<not> has (currmode (set_board s b u)) MODE_POSTCHECKED" "userlevel (set_board s b u) = userlevel u"
    "list_groupop (set_board s b u) = list_groupop u"
proof -
  have "\<not> bit (list_groupop u) 2" using assms by (auto simp: sub_iff GROUP_MODES_def MODE_GROUP_OP_def MODE_GROUP_LEAD_def bit_simps)
  then show "\<not> has (currmode (set_board s b u)) MODE_POSTCHECKED" "userlevel (set_board s b u) = userlevel u"
    "list_groupop (set_board s b u) = list_groupop u"
    by (simp_all add: post_bits set_board_def groupop_set_board_def groupop_keep_def groupop_narrow_def GROUP_MODES_def MODE_GROUP_OP_def
      MODE_GROUP_LEAD_def MODE_DIRTY_def MODE_STARTED_def MODE_BM_def Let_def bit_simps)
qed

lemma pstep_pinv: "pstep hbf w w' \<Longrightarrow> pinv hbf w \<Longrightarrow> pinv hbf w'"
proof (induction rule: pstep.induct)
  case (enter w b i)
  then show ?case using set_board_post [of "user w" "boards w" i] by (simp add: pinv_def in_board_def)
next
  case (level w l)
  then show ?case by (auto simp: pinv_def remembered_def)
qed (auto intro: tick_pinv by_other_pinv mute_by_other unmute_by_other hide_by_other check_pinv)

lemma reachable_pinv: "(pstep hbf)\<^sup>*\<^sup>* w w' \<Longrightarrow> pinv hbf w \<Longrightarrow> pinv hbf w'"
  by (induction rule: rtranclp_induct) (auto intro: pstep_pinv)

section \<open>Muting a user\<close>

lemma muted_by_file:
  "fst (is_user_muted_by_board t who b fs) =
     (case fs (bakuman_make_tag_filename who b 98) of
        None \<Rightarrow> 0
      | Some f \<Rightarrow> if time4_gt t (fst (bakuman_get_info f)) then 0 else fst (bakuman_get_info f))"
  by (simp add: is_user_muted_by_board_def is_muted_by_def Let_def split: option.split)

lemma query_other_file:
  "f \<noteq> bakuman_make_tag_filename who b 98 \<Longrightarrow> snd (is_user_muted_by_board t who b fs) f = fs f"
  by (simp add: is_user_muted_by_board_def is_muted_by_def Let_def split: option.split)

definition mute_expire :: "cstr \<Rightarrow> post_state \<Rightarrow> u32" where
  "mute_expire datebuf w = word_of_int (uint (now w) + mute_days (trim datebuf) * 86400)"

text \<open>What is typed is accepted.\<close>

definition mute_ok :: "cstr \<Rightarrow> cstr \<Rightarrow> post_state \<Rightarrow> bool" where
  "mute_ok datebuf reason w \<longleftrightarrow>
     trim datebuf \<noteq> [] \<and> 1 \<le> mute_days (trim datebuf) \<and> uint (now w) + mute_days (trim datebuf) * 86400 < 2 ^ 32 \<and> reason \<noteq> []"

lemma mute_expire_uint: "mute_ok datebuf reason w \<Longrightarrow> uint (mute_expire datebuf w) = uint (now w) + mute_days (trim datebuf) * 86400"
  unfolding mute_expire_def mute_ok_def
  by (subst uint_word_of_int) (simp add: mod_pos_pos_trivial)

lemma ui_mute_is:
  assumes "mute_ok datebuf reason w" "fst (is_user_muted_by_board (now w) who b (mutes w)) = 0"
    "getbnum (boards w) b = Some i" "1 \<le> i" "i \<le> MAX_BOARD"
  shows "ui_mute_user_for_board who b datebuf reason True w = Some (w\<lparr>
    mutes := mute_user_for_board who b (mute_expire datebuf w) reason (snd (is_user_muted_by_board (now w) who b (mutes w))),
    boards := boards w\<lparr>bcache := (bcache (boards w))(i := bcache (boards w) i\<lparr>perm_reload := now w\<rparr>)\<rparr>\<rparr>)"
proof -
  have "time4_add_sec (now w) (mute_days (trim datebuf) * 86400) = Some (mute_expire datebuf w)"
    using assms(1) by (simp add: time4_add_sec_def mute_ok_def mute_expire_def)
  moreover obtain fs where "is_user_muted_by_board (now w) who b (mutes w) = (0, fs)"
    using assms(2) by (metis prod.collapse)
  ultimately show ?thesis
    using assms(1,3-5) by (simp add: ui_mute_user_for_board_def mute_ok_def invalid_board_permission_cache_def Let_def)
qed

lemma mute_expire_late:
  assumes "mute_ok datebuf reason w"
  shows "now w < mute_expire datebuf w" "mute_expire datebuf w \<noteq> 0"
    "time4_days_remaining (mute_expire datebuf w) (now w) = mute_days (trim datebuf) + 1"
proof -
  have u: "uint (mute_expire datebuf w) = uint (now w) + mute_days (trim datebuf) * 86400" "1 \<le> mute_days (trim datebuf)"
    using assms mute_expire_uint by (auto simp: mute_ok_def)
  then show l: "now w < mute_expire datebuf w" by (simp add: word_less_def)
  then show "mute_expire datebuf w \<noteq> 0" by auto
  show "time4_days_remaining (mute_expire datebuf w) (now w) = mute_days (trim datebuf) + 1"
    using l u by (simp add: time4_days_remaining_def time4_gt_def time4_diff_def)
qed

text \<open>A session that has just entered a board.\<close>

definition entered :: "post_state \<Rightarrow> bool" where
  "entered w \<longleftrightarrow> in_board w \<and> name_ok (userid w) \<and> sub (list_groupop (user w)) GROUP_MODES \<and>
     userlevel (user w) = disk_level w \<and> \<not> has (currmode (user w)) MODE_POSTCHECKED"

lemma entered_pinv: "entered w \<Longrightarrow> pinv hbf w"
  by (simp add: entered_def pinv_def)

text \<open>A permission is kept by a header with the same name and \<open>perm_reload\<close>.\<close>

lemma permission_kept:
  assumes "entered w" "CheckPostPerm2 hbf w = Some (True, r, w1)" "brdname bh = brdname (bcache (boards w1) (currbid w1))"
    "perm_reload bh = perm_reload (bcache (boards w1) (currbid w1))"
    "w3 = w1\<lparr>mutes := fs, boards := boards w1\<lparr>bcache := (bcache (boards w1))(currbid w1 := bh)\<rparr>\<rparr>"
  shows "in_board w1" "in_board w3" "\<not> is_readonly_board (currboard w1)" "CheckPostPerm2 hbf w3 = Some (True, None, w3)"
proof -
  have d: "\<not> has (currmode (user w)) MODE_DIGEST" and m: "CheckModifyPerm hbf w = Some (True, r, w1)"
    using assms(2) by (auto simp: CheckPostPerm2_def split: if_splits)
  with check_result [OF entered_pinv [OF assms(1)], of hbf] have c: "checked hbf w w1 None" by auto
  then have rm: "remembered hbf w1" and ib: "in_board w1" by (simp_all add: checked_def pinv_def)
  show "in_board w1" by (rule ib)
  show "\<not> is_readonly_board (currboard w1)" using c by (auto simp: checked_def answer_def)
  have "getbnum (boards w3) (currboard w1) = getbnum (boards w1) (currboard w1)"
    by (rule getbnum_cong) (simp_all add: assms(3,5))
  then show ib3: "in_board w3" using ib by (simp add: in_board_def assms(5))
  have "CheckModifyPerm hbf w3 = Some (has (currmode (user w3)) MODE_POST, last_reason w3, w3)"
    using c rm by (intro check_remembered [OF ib3]) (auto simp: assms(4,5) checked_def remembered_def)
  then show "CheckPostPerm2 hbf w3 = Some (True, None, w3)"
    using rm c d by (auto simp: assms(5) remembered_def checked_def CheckPostPerm2_def)
qed

text \<open>Restricting a board to its friends leaves the permission of a session that has checked it.\<close>

lemma restrictedpost_not_announced:
  assumes "entered w" "CheckPostPerm2 hbf w = Some (True, r, w1)"
    "w2 = modify_boardheader (bcfg_set_restrictedpost (bcache (boards w1) (currbid w1))) (currbid w1) w1"
  shows "CheckPostPerm2 hbf w2 = Some (True, None, w2)"
proof (rule permission_kept(4) [OF assms(1,2)])
  have "in_board w1" by (rule permission_kept(1) [OF assms(1,2) refl refl refl])
  then show "w2 = w1\<lparr>mutes := mutes w1, boards := boards w1\<lparr>bcache := (bcache (boards w1))(currbid w1 :=
      bcfg_set_restrictedpost (bcache (boards w1) (currbid w1)))\<rparr>\<rparr>"
    using assms(3) by (simp add: modify_boardheader_def in_board_def)
qed (simp_all add: bcfg_set_restrictedpost_def)

text \<open>The only board is \<open>T\<close>; the user \<open>u\<close> may post and has just entered it.\<close>

definition demo_post :: post_state where
  "demo_post = \<lparr>boards = \<lparr>bcache = (\<lambda>_. no_board)(1 := no_board\<lparr>brdname := [84]\<rparr>), Bnumber = 1, bsorted = (\<lambda>_. [0]), Bbusystate = False\<rparr>,
     mutes = Map.empty, now = 1000, userid = [117], user = guest\<lparr>userlevel := PERM_POST\<rparr>, disk_level = PERM_POST, new_perm = False,
     currbid = 1, currboard = [84], last_chk_time = 0x0BAD0BB5, last_board_index = 0, last_reason = None\<rparr>"

lemma demo_post_getbnum: "getbnum (boards demo_post) [84] = Some 1"
  by (simp add: demo_post_def getbnum_def getbnum_loop.simps no_board_def to_lower_def is_upper_def)

lemma demo_post_entered: "entered demo_post" "\<not> has (currmode (user demo_post)) MODE_DIGEST"
  using demo_post_getbnum
  by (simp_all add: entered_def in_board_def name_ok_def demo_post_def guest_def MODE_POSTCHECKED_def MODE_DIGEST_def has_def MAX_BOARD_def)

lemma demo_mute_ok: "mute_ok [51, 100] [120] demo_post" "mute_days (trim [51, 100]) = 3"
proof -
  show d: "mute_days (trim [51, 100]) = 3" by code_simp
  show "mute_ok [51, 100] [120] demo_post" by (simp add: mute_ok_def d demo_post_def) (simp add: trim_def)
qed

lemma demo_unmuted: "fst (is_user_muted_by_board (now demo_post) [117] [84] (mutes demo_post)) = 0"
  by (simp add: muted_by_file demo_post_def)

text \<open>After its first check.\<close>

definition demo_checked :: post_state where
  "demo_checked = demo_post\<lparr>user := guest\<lparr>userlevel := PERM_POST, currmode := MODE_POSTCHECKED OR MODE_POST\<rparr>, last_chk_time := 0, last_board_index := 1\<rparr>"

lemma demo_check: "CheckPostPerm2 (\<lambda>_ _. False) demo_post = Some (True, None, demo_checked)"
proof -
  have "postperm_msg (\<lambda>_ _. False) [84] (demo_post\<lparr>user := guest\<lparr>userlevel := PERM_POST, currmode := MODE_POSTCHECKED\<rparr>, last_chk_time := 0, last_board_index := 1\<rparr>)
      = Some (None, Map.empty)"
    using demo_post_getbnum
    by (simp add: postperm_msg_def is_readonly_board_def BN_SECURITY_def BN_ALLPOST_def to_lower_def is_upper_def HasUserPerm_def)
      (simp add: muted_msg_def is_user_muted_by_board_def is_muted_by_def postperm_rules_def Let_def demo_post_def no_board_def time4_gt_def
        has_def PERM_POST_def PERM_SYSOP_def PERM_VIOLATELAW_def HasUserPerm_def)
  then show ?thesis
    using demo_post_getbnum demo_post_entered
    by (simp add: CheckPostPerm2_def CheckModifyPerm_def check_new_perm_def refill_def entered_def MAX_BOARD_def)
      (simp add: demo_checked_def demo_post_def set_mode_def guest_def no_board_def Let_def)
qed

section \<open>Properties\<close>

text \<open>
  C14. Muting a user in a board for \<open>n\<close> days, which the board accepts while no mute is in
  force, is read back until the second \<open>86400 * n\<close> after now and not longer, with the
  reason; no other user and no other board is affected, and the same moderator can take it back.
\<close>

theorem mute_exact:
  assumes "name_ok who" "name_ok b" "mute_ok datebuf reason w" "10 \<notin> set reason" "0 \<notin> set reason" "length reason < 79"
    "fst (is_user_muted_by_board (now w) who b (mutes w)) = 0" "getbnum (boards w) b = Some i" "1 \<le> i" "i \<le> MAX_BOARD"
  shows "\<exists>w' w'' e f. ui_mute_user_for_board who b datebuf reason True w = Some w' \<and>
    uint e = uint (now w) + mute_days (trim datebuf) * 86400 \<and>
    mutes w' (bakuman_make_tag_filename who b 98) = Some f \<and> bakuman_get_info f = (e, reason) \<and>
    (\<forall>t who' b'. name_ok who' \<longrightarrow> name_ok b' \<longrightarrow> fst (is_user_muted_by_board t who' b' (mutes w')) =
      (if who' = who \<and> b' = b then (if t \<le> e then e else 0) else fst (is_user_muted_by_board t who' b' (mutes w)))) \<and>
    ui_unmute_user_for_board who b reason True w' = Some w'' \<and> (\<forall>t. fst (is_user_muted_by_board t who b (mutes w'')) = 0)"
proof -
  let ?e = "mute_expire datebuf w" and ?f = "bakuman_set_info (mute_expire datebuf w) reason"
  let ?tag = "bakuman_make_tag_filename who b 98"
  obtain w' where w': "ui_mute_user_for_board who b datebuf reason True w = Some w'" "mutes w' =
      mute_user_for_board who b ?e reason (snd (is_user_muted_by_board (now w) who b (mutes w)))"
      "now w' = now w" "boards w' = boards w\<lparr>bcache := (bcache (boards w))(i := bcache (boards w) i\<lparr>perm_reload := now w\<rparr>)\<rparr>"
    using ui_mute_is [OF assms(3,7-10)] by simp
  have f: "mutes w' ?tag = Some ?f" by (simp add: w'(2) mute_user_for_board_def)
  have i: "bakuman_get_info ?f = (?e, reason)" using get_info_time get_info_reason [OF assms(4-6)] by (metis prod.collapse)
  have q: "is_user_muted_by_board (now w') who b (mutes w') = (?e, mutes w')"
    using f mute_expire_late [OF assms(3)] by (simp add: is_user_muted_by_board_def is_muted_by_def i time4_gt_def w'(3) Let_def less_not_sym)
  have g: "getbnum (boards w') b = Some i" using getbnum_cong [of "boards w'" "boards w" b] assms(8) by (simp add: w'(4))
  obtain w'' where w'': "ui_unmute_user_for_board who b reason True w' = Some w''" "mutes w'' = (mutes w')(?tag := None)"
    using assms(3,9,10) mute_expire_late [OF assms(3)] g
    by (simp add: ui_unmute_user_for_board_def q mute_ok_def invalid_board_permission_cache_def unmute_user_for_board_def Let_def)
  have "fst (is_user_muted_by_board t who' b' (mutes w')) =
      (if who' = who \<and> b' = b then (if t \<le> ?e then ?e else 0) else fst (is_user_muted_by_board t who' b' (mutes w)))"
    if n: "name_ok who'" "name_ok b'" for t who' b'
  proof (cases "who' = who \<and> b' = b")
    case True
    then show ?thesis by (auto simp: muted_by_file f i time4_gt_def)
  next
    case False
    then have "bakuman_make_tag_filename who' b' 98 \<noteq> ?tag" using tag_inj [OF n assms(1,2)] by simp
    then have "mutes w' (bakuman_make_tag_filename who' b' 98) = mutes w (bakuman_make_tag_filename who' b' 98)"
      by (simp add: w'(2) mute_user_for_board_def query_other_file)
    then show ?thesis using False by (auto simp: muted_by_file)
  qed
  moreover have "fst (is_user_muted_by_board t who b (mutes w'')) = 0" for t by (simp add: muted_by_file w''(2))
  ultimately show ?thesis using w'(1) mute_expire_uint [OF assms(3)] f i w''(1) by blast
qed

theorem mute_exact_witness:
  "\<exists>w' w'' e f. ui_mute_user_for_board [117] [84] [51, 100] [120] True demo_post = Some w' \<and>
    uint e = uint (now demo_post) + mute_days (trim [51, 100]) * 86400 \<and>
    mutes w' (bakuman_make_tag_filename [117] [84] 98) = Some f \<and> bakuman_get_info f = (e, [120]) \<and>
    (\<forall>t who' b'. name_ok who' \<longrightarrow> name_ok b' \<longrightarrow> fst (is_user_muted_by_board t who' b' (mutes w')) =
      (if who' = [117] \<and> b' = [84] then (if t \<le> e then e else 0) else fst (is_user_muted_by_board t who' b' (mutes demo_post)))) \<and>
    ui_unmute_user_for_board [117] [84] [120] True w' = Some w'' \<and> (\<forall>t. fst (is_user_muted_by_board t [117] [84] (mutes w'')) = 0)"
  by (rule mute_exact [OF _ _ demo_mute_ok(1) _ _ _ demo_unmuted demo_post_getbnum]) (simp_all add: name_ok_def MAX_BOARD_def)

text \<open>
  C11. From a session that has just entered a board, after any sequence of checks, mutes,
  unmutes, hiding of boards and changes of level, where changes of one board happen in different
  seconds, the check of the permission to post returns, and its answer
  is the one the rules give for the current state with the level on disk; the only
  other answer is a remembered mute, which may have run out.
\<close>

theorem post_check_sound:
  assumes "entered w0" "(pstep hbf)\<^sup>*\<^sup>* w0 w" "\<not> has (currmode (user w)) MODE_DIGEST"
  shows "\<exists>r w'. CheckPostPerm2 hbf w = Some (r = None, r, w') \<and> boards w' = boards w \<and> now w' = now w \<and> currboard w' = currboard w \<and>
    userlevel (user w') = disk_level w' \<and>
    ((\<exists>fs. postperm_msg hbf (currboard w') w' = Some (r, fs)) \<or> (\<exists>d. r = Some (IsMuted d)) \<and> last_reason w = r)"
proof -
  have "pinv hbf w" using reachable_pinv [OF assms(2)] entered_pinv [OF assms(1)] by blast
  from check_result [OF this] obtain r w' where c: "CheckModifyPerm hbf w = Some (r = None, r, w')" "checked hbf w w' r" by blast
  have "in_board w'" "userlevel (user w') = disk_level w'" using c(2) by (auto simp: checked_def pinv_def)
  then show ?thesis using c postperm_answer [of w' hbf] assms(3)
    by (auto simp: CheckPostPerm2_def checked_def)
qed

theorem post_check_sound_witness:
  "\<exists>w r w'. ui_mute_user_for_board [117] [84] [51, 100] [120] True demo_post = Some w \<and>
    CheckPostPerm2 (\<lambda>_ _. False) w = Some (r = None, r, w') \<and> boards w' = boards w \<and> now w' = now w \<and> currboard w' = currboard w \<and>
    userlevel (user w') = disk_level w' \<and>
    ((\<exists>fs. postperm_msg (\<lambda>_ _. False) (currboard w') w' = Some (r, fs)) \<or> (\<exists>d. r = Some (IsMuted d)) \<and> last_reason w = r)"
proof -
  obtain w where w: "ui_mute_user_for_board [117] [84] [51, 100] [120] True demo_post = Some w" "user w = user demo_post"
    using ui_mute_is [OF demo_mute_ok(1) demo_unmuted demo_post_getbnum] by (simp add: MAX_BOARD_def)
  then have "pstep (\<lambda>_ _. False) demo_post w"
    using demo_post_getbnum by (intro pstep.mute [of "[117]" "[84]" demo_post 1]) (simp_all add: name_ok_def, simp add: demo_post_def no_board_def)
  from post_check_sound [OF demo_post_entered(1) r_into_rtranclp [where r = "pstep (\<lambda>_ _. False)", OF this]] w demo_post_entered(2)
  show ?thesis by (metis (no_types, lifting))
qed

text \<open>
  C40. The settings of a board overwrite the announcement of a mute: when the settings were
  opened after a user's permission was checked, and the user is then muted, saving the
  copied header with any changed attributes brings back the old \<open>perm_reload\<close>.  The session of
  the user is still told that it may post, while the rules deny it for the days
  of the mute; the message counts one day too many.
\<close>

theorem config_hides_mute:
  assumes "entered w" "CheckPostPerm2 hbf w = Some (True, r, w1)" "\<not> HasUserPerm (user w1) PERM_SYSOP"
    "mute_ok datebuf reason w1" "fst (is_user_muted_by_board (now w1) (userid w1) (currboard w1) (mutes w1)) = 0"
  shows "\<exists>w2 w3. ui_mute_user_for_board (userid w1) (currboard w1) datebuf reason True w1 = Some w2 \<and>
    w3 = modify_boardheader (bcache (boards w1) (currbid w1)\<lparr>brdattr := a\<rparr>) (currbid w1) w2 \<and>
    CheckPostPerm2 hbf w3 = Some (True, None, w3) \<and>
    postperm_msg hbf (currboard w3) w3 = Some (Some (IsMuted (mute_days (trim datebuf) + 1)), mutes w3)"
proof -
  let ?i = "currbid w1" and ?e = "mute_expire datebuf w1"
  have ib: "in_board w1" by (rule permission_kept(1) [OF assms(1,2) refl refl refl])
  obtain w2 where w2: "ui_mute_user_for_board (userid w1) (currboard w1) datebuf reason True w1 = Some w2"
      "w2 = w1\<lparr>mutes := mute_user_for_board (userid w1) (currboard w1) ?e reason (snd (is_user_muted_by_board (now w1) (userid w1) (currboard w1) (mutes w1))),
        boards := boards w1\<lparr>bcache := (bcache (boards w1))(?i := bcache (boards w1) ?i\<lparr>perm_reload := now w1\<rparr>)\<rparr>\<rparr>"
    using ui_mute_is [OF assms(4,5)] ib by (simp add: in_board_def)
  define w3 where "w3 = modify_boardheader (bcache (boards w1) ?i\<lparr>brdattr := a\<rparr>) ?i w2"
  have w3: "w3 = w1\<lparr>mutes := mutes w2, boards := boards w1\<lparr>bcache := (bcache (boards w1))(?i := bcache (boards w1) ?i\<lparr>brdattr := a\<rparr>)\<rparr>\<rparr>"
    using ib by (simp add: w3_def modify_boardheader_def in_board_def w2(2))
  note k = permission_kept [OF assms(1,2) _ _ w3, simplified]
  have "is_user_muted_by_board (now w3) (userid w3) (currboard w3) (mutes w3) = (?e, mutes w3)"
    using mute_expire_late [OF assms(4)] by (simp add: is_user_muted_by_board_def is_muted_by_def mute_user_for_board_def get_info_time
      w3 w2(2) time4_gt_def Let_def less_not_sym)
  then have "postperm_msg hbf (currboard w3) w3 = Some (Some (IsMuted (mute_days (trim datebuf) + 1)), mutes w3)"
    using k(2,3) assms(3) mute_expire_late [OF assms(4)]
    by (simp add: postperm_msg_def in_board_def muted_msg_def time4_gt_def) (simp add: w3)
  then show ?thesis using w2(1) w3_def k(4) by blast
qed

theorem config_hides_mute_witness:
  "\<exists>w2 w3. ui_mute_user_for_board (userid demo_checked) (currboard demo_checked) [51, 100] [120] True demo_checked = Some w2 \<and>
    w3 = modify_boardheader (bcache (boards demo_checked) (currbid demo_checked)\<lparr>brdattr := BRD_RESTRICTEDPOST\<rparr>) (currbid demo_checked) w2 \<and>
    CheckPostPerm2 (\<lambda>_ _. False) w3 = Some (True, None, w3) \<and>
    postperm_msg (\<lambda>_ _. False) (currboard w3) w3 = Some (Some (IsMuted (mute_days (trim [51, 100]) + 1)), mutes w3)"
  using demo_mute_ok(1) demo_unmuted
  by (intro config_hides_mute [OF demo_post_entered(1) demo_check])
    (simp_all add: mute_ok_def demo_checked_def demo_post_def HasUserPerm_def has_def PERM_POST_def PERM_SYSOP_def)

end
