(* ===== verification/Spec2Isabelle.thy ===== *)
theory Spec2Isabelle
  imports Vbuf Telnet Vtkbd Multibyte Ansi Strings Banip Brc Mime Url Aids FavFile Uhash Input Output Chc Boards BoardGroups Posting
begin

text \<open>
  A verification development of pttbbs, the bulletin board system of PTT.

  \<^bold>\<open>The program.\<close>  A session is one process of \<open>mbbsd\<close>.  Bytes from the client pass the telnet filter (\<open>src/common/sys/telnet.c\<close>), a
  filter for repeated keys and a character set conversion (\<open>src/mbbsd/convert.c\<close>) into a ring buffer (\<open>src/common/sys/vbuf.c\<close>);
  the keyboard parser (\<open>src/common/sys/vtkbd.c\<close>) turns them into keys.  Output takes the way back through the conversion and a
  second ring buffer (\<open>src/mbbsd/io.c\<close>).  Text is Big5 or UTF-8 (\<open>src/common/sys/utf8.c\<close>) with ECMA-48 control sequences and links
  (\<open>src/common/sys/string.c\<close>).  Sessions share a user table in memory (\<open>src/common/bbs/cache.c\<close>) and files of fixed-size records
  (\<open>src/common/sys/record.c\<close>) that hold boards, articles and mail; per user there are read records (\<open>src/mbbsd/brc.c\<close>) and favourites
  (\<open>src/mbbsd/fav.c\<close>).  The board table in shared memory (\<open>src/common/bbs/cache.c\<close>) says who may read a board and, through the groups
  a board is in, who manages it (\<open>src/mbbsd/board.c\<close>); who may post is decided by rules (\<open>src/mbbsd/cache.c\<close>) whose answer each session remembers (\<open>src/mbbsd/bbs.c\<close>).  The login daemon checks addresses against a table of bans (\<open>src/common/bbs/banip.c\<close>).  Among the games users play with each other is Chinese chess (\<open>src/mbbsd/chc.c\<close>).

  \<^bold>\<open>The theories.\<close>

  \<^item> \<open>Prelude\<close>: types of C objects, C strings, the collections and shared lemmas.  \<open>Clib\<close>, \<open>Numerals\<close>, \<open>Time4\<close>: the functions of the C library the
    code calls, numbers as text, 32-bit times (\<open>time4_t\<close> in \<open>src/include/cmsys.h\<close>).
  \<^item> \<open>Machine\<close>: byte-driven automata; locale \<open>machine\<close> (a step that is defined and keeps an invariant, hence runs that never get stuck and can be cut
    anywhere), extended by \<open>bounded_machine\<close> (output paid for by input).
  \<^item> \<open>Vbuf\<close>: every operation of \<open>vbuf.c\<close>.  The buffer is its array with head and tail; \<open>vbuf_list\<close> is the queue it holds.  Locale \<open>byte_fifo\<close>, interpreted as
    \<open>vb\<close>, carries the refinement to a bounded queue; transfers through a callback conserve bytes; the pipeline of filters.
  \<^item> \<open>Telnet\<close>: the IAC automaton and \<open>telnet_process\<close> (interpretation \<open>tn\<close>): independence of how the input is cut, the updates of the client-code hash apart, and no negotiation
    loops.  \<open>Vtkbd\<close>: the keyboard parser (\<open>vk\<close>): array bounds, and a key within 67 codes.
  \<^item> \<open>Multibyte\<close>: the UTF-8 and Big5 contexts (\<open>u8\<close>, \<open>b5\<close>), encoders and string converters: exactly the encodings of scalar values are accepted, and round trips.
  \<^item> \<open>Convert\<close>: the converters of \<open>convert.c\<close> as bounded automata (\<open>tb\<close>, \<open>tu\<close>, and \<open>rd\<close>, \<open>wr\<close> for any mode) and a round trip through the terminal.
    \<open>Input\<close>: \<open>vbuf_from_tty\<close> with its filters, key hooks and \<open>vkey_decode\<close>; the relation \<open>tty_session\<close> interleaves reads and takes, and the main result composes the telnet
    automaton, the filter for doubled keys, the conversion and the ring buffer.  \<open>Output\<close>: \<open>ochar\<close>, \<open>oflush\<close> and the frames of synchronized updates.
  \<^item> \<open>Ansi\<close>, \<open>Url\<close>, \<open>Strings\<close>, \<open>Mime\<close>: the parts of \<open>string.c\<close>: control sequences, width and truncation; links and the tracker over line breaks;
    sanitizing, searching, comparing and path checks; MIME header words.
  \<^item> \<open>RecFile\<close>: \<open>record.c\<close> on a file as its bytes; locale \<open>record_store\<close>, interpreted as \<open>rf\<close>, gives the refinement to a list of records.  \<open>Aids\<close>: article ids and the staged
    search of a directory (\<open>src/common/bbs/aids.c\<close>).
  \<^item> \<open>Banip\<close>: parsing, sorting, merging, search and the cache file of the bans.  \<open>Brc\<close>: the buffer of read records against a reference list of boards, most recently used first.
  \<^item> \<open>Fav\<close>, \<open>FavFile\<close>: the tree of favourites with its counters and stack of open folders, its file, and the relation \<open>fav_step\<close> of operations, saves and logins.
  \<^item> \<open>Uhash\<close>: the hash table of users with its loader, against the list of users; \<open>money_step\<close> interleaves atomic updates of an amount, \<open>race_step\<close> a search and an
    update of the table.
  \<^item> \<open>Boards\<close>: the board headers, the permission to read, sorting and \<open>getbnum\<close>, the linked lists of groups and their listing by \<open>load_boards\<close>.
    \<open>BoardGroups\<close>: the walks up the groups (\<open>group_roles\<close>, \<open>gid_is_within\<close>), the group modes of a session with the relation \<open>nav\<close> of moves between lists and boards, and
    \<open>paste_taged_brds\<close>: no rights are gained, no cycle is closed, modes are covered by the groups above.
  \<^item> \<open>Posting\<close>: the files that mute a user in a board (\<open>src/mbbsd/acl.c\<close>), the rules for posting and the answer a session remembers; the relation \<open>pstep\<close> interleaves checks
    with what other sessions do, and the remembered answer is shown to agree with the rules.
  \<^item> \<open>Chc\<close>: the rules of Chinese chess (\<open>src/mbbsd/chc.c\<close>): \<open>moves_as\<close> gives them as rays, legs and screens, and the relation \<open>chc_play\<close> is a game of picks and moves.

  \<^bold>\<open>Conventions.\<close>  A C integer is a word of its width where the code wraps or masks, and a number under an invariant elsewhere.  A failed \<open>assert\<close>, a read outside an
  array or a call that does not return is \<^const>\<open>None\<close>; theorems show that it does not occur.  Files and the shared memory are arguments and
  results.  Code outside the repository is a parameter: \<open>iconv\<close> with its POSIX contract, the conversion tables, the callbacks behind \<open>vbuf_read\<close> and \<open>vbuf_write\<close>, what
  \<open>read\<close> returns, and the services.

  \<^bold>\<open>Fuel.\<close>  Loops that C bounds by a constant take that constant (\<open>MAX_USERS\<close> for the chains of the user table, \<open>GROUP_DEPTH_MAX\<close> and \<open>MAX_BOARD\<close> for the walks up the groups).  The listing of a
  group follows links that may not end and is a partial function; that it returns is part of its theorem.  \<open>vbuf_general_write\<close> and \<open>oflush\<close> take the
  capacity plus one, since a callback that makes progress takes a byte in each round; a callback that returns 0 for ever makes them run out, as the C code would loop.
  \<open>read_favrec\<close> takes one more than the length of the file, since every folder consumes a byte.  The theorems that a result
  is produced are stated for this fuel.

  \<^bold>\<open>Defects.\<close>  Some theorems state what the code does where it is not what it means to do: the count of favourites
  that removed folders leave behind, a search of the user table during an update, the empty list of a group that is its own group, a mute that saving the settings of its board hides, a byte of input lost when a read fills the buffer inside a character.  Others are lemmas beside the
  operations they concern, among them \<open>delete_records_out_of_range\<close>, \<open>hidden_board_admits\<close>, \<open>restrictedpost_not_announced\<close>, \<open>vbuf_flat_corrupts\<close>, \<open>telnet_suboption_overflow\<close>, \<open>fav_add_admtag_miscounts\<close>, \<open>bm_mode_comes_back\<close> and \<open>brc_insert_expiry_boundary\<close>.

  \<^bold>\<open>Not modelled.\<close>  The screen (\<open>pfterm.c\<close>), pager, editor, lists and the other interactive parts of \<open>mbbsd\<close>, which are written against the terminal and files at once;
  polling loops and messages between processes; reloading of the board cache and the table of sessions; passwords and cryptography; daemons over libevent and
  gRPC; the Lua bindings; the other games; the Go services.  In the modelled components: moving the tagged favourites between folders
  (\<open>fav_add_all_tagged_item\<close>) and their old file format, locks, and failures of system calls other than the ones named.
\<close>

end
